(* ===== verification/Prelude.thy ===== *)
theory Prelude
  imports Main
begin

text \<open>
  What every component shares: the exceptions the program raises, as values; Python's
  insertion-ordered dictionaries, as association lists without duplicate keys; and the
  generic lemmas about both.

  A Python call that may raise is a value of type \<open>'a res\<close>: \<open>Inl e\<close> is the
  exception, \<open>Inr v\<close> the returned value. A method that changes its object takes the
  object and returns the changed one beside the result, so that the state an exception
  leaves behind is part of the model.
\<close>

section \<open>Exceptions\<close>

datatype py_error =
    AssertionError
  | AttributeError
  | Exception
  | FreeError
  | IndexError
  | KeyError
  | OSError
  | RecursionError
  | RuntimeError
  | StopIteration
  | TypeError
  | UnboundLocalError
  | ValueError
  | ZeroDivisionError

type_synonym 'a res = "py_error + 'a"

definition is_ok :: "'a res \<Rightarrow> bool" where
  "is_ok r = (case r of Inl _ \<Rightarrow> False | Inr _ \<Rightarrow> True)"

lemma is_ok_simps [simp]: "is_ok (Inr v)" "\<not> is_ok (Inl e)"
  by (simp_all add: is_ok_def)

lemma is_okE [elim]:
  assumes "is_ok r" obtains v where "r = Inr v"
  using assms by (cases r) auto

section \<open>Ordered dictionaries\<close>

type_synonym ('k, 'v) odict = "('k \<times> 'v) list"

abbreviation od_get :: "('k, 'v) odict \<Rightarrow> 'k \<Rightarrow> 'v option" where
  "od_get \<equiv> map_of"

abbreviation od_keys :: "('k, 'v) odict \<Rightarrow> 'k list" where
  "od_keys \<equiv> map fst"

text \<open>Storing keeps the position of a key that is there and appends a new one.\<close>

fun od_set :: "'k \<Rightarrow> 'v \<Rightarrow> ('k, 'v) odict \<Rightarrow> ('k, 'v) odict" where
  "od_set k v [] = [(k, v)]"
| "od_set k v ((k', v') # d) = (if k = k' then (k, v) # d else (k', v') # od_set k v d)"

definition od_del :: "'k \<Rightarrow> ('k, 'v) odict \<Rightarrow> ('k, 'v) odict" where
  "od_del k d = filter (\<lambda>(k', _). k' \<noteq> k) d"

definition od_move_to_end :: "'k \<Rightarrow> ('k, 'v) odict \<Rightarrow> ('k, 'v) odict res" where
  "od_move_to_end k d =
     (case od_get d k of None \<Rightarrow> Inl KeyError | Some v \<Rightarrow> Inr (od_del k d @ [(k, v)]))"

lemma od_get_set [simp]: "od_get (od_set k v d) = (od_get d)(k \<mapsto> v)"
  by (induction k v d rule: od_set.induct) auto

lemma od_get_del [simp]: "od_get (od_del k d) = (od_get d)(k := None)"
  by (induction d) (auto simp: od_del_def)

lemma od_set_not_Nil [simp]: "od_set k v d \<noteq> []"
  by (induction k v d rule: od_set.induct) auto

lemma od_keys_set:
  "od_keys (od_set k v d) = (if k \<in> set (od_keys d) then od_keys d else od_keys d @ [k])"
  by (induction k v d rule: od_set.induct) auto

lemma od_keys_del: "od_keys (od_del k d) = filter (\<lambda>k'. k' \<noteq> k) (od_keys d)"
  by (induction d) (auto simp: od_del_def)

lemma od_distinct_set [simp]: "distinct (od_keys d) \<Longrightarrow> distinct (od_keys (od_set k v d))"
  by (simp add: od_keys_set)

lemma od_distinct_del [simp]: "distinct (od_keys d) \<Longrightarrow> distinct (od_keys (od_del k d))"
  by (simp add: od_keys_del)

lemma od_keys_set_set [simp]: "fst ` set (od_set k v d) = insert k (fst ` set d)"
  by (induction k v d rule: od_set.induct) auto

lemma od_keys_del_set [simp]: "fst ` set (od_del k d) = fst ` set d - {k}"
  by (auto simp: od_del_def image_iff)

lemma od_get_None_iff: "od_get d k = None \<longleftrightarrow> k \<notin> fst ` set d"
  by (simp add: map_of_eq_None_iff)

lemma od_get_Some_key: "od_get d k = Some v \<Longrightarrow> k \<in> fst ` set d"
  by (metis od_get_None_iff option.distinct(1))

lemma od_move_to_end_get:
  "od_move_to_end k d = Inr d' \<Longrightarrow> od_get d' = od_get d"
  by (auto simp: od_move_to_end_def map_add_def fun_eq_iff split: option.splits)

section \<open>Loops whose body may raise\<close>

fun fold_res :: "('a \<Rightarrow> 's \<Rightarrow> 's res) \<Rightarrow> 'a list \<Rightarrow> 's \<Rightarrow> 's res" where
  "fold_res f [] s = Inr s"
| "fold_res f (x # xs) s = (case f x s of Inl e \<Rightarrow> Inl e | Inr s' \<Rightarrow> fold_res f xs s')"

text \<open>A loop that never raises on states with \<open>P\<close> ends in a state with \<open>P\<close>.\<close>

lemma fold_res_invar:
  assumes "\<And>x s. x \<in> set xs \<Longrightarrow> P s \<Longrightarrow> \<exists>s'. f x s = Inr s' \<and> P s'" "P s"
  shows "\<exists>s'. fold_res f xs s = Inr s' \<and> P s'"
  using assms
proof (induction xs arbitrary: s)
  case (Cons x xs)
  then obtain s' where "f x s = Inr s'" "P s'" by (metis list.set_intros(1))
  with Cons show ?case by simp
qed simp

lemma fold_res_append:
  "fold_res f (xs @ ys) s = (case fold_res f xs s of Inl e \<Rightarrow> Inl e | Inr s' \<Rightarrow> fold_res f ys s')"
  by (induction xs arbitrary: s) (auto split: sum.splits)

section \<open>Methods that change their object and may raise\<close>

type_synonym ('s, 'a) py_call = "'s \<Rightarrow> 'a res \<times> 's"

definition return :: "'a \<Rightarrow> ('s, 'a) py_call" where
  "return v s = (Inr v, s)"

definition raise :: "py_error \<Rightarrow> ('s, 'a) py_call" where
  "raise e s = (Inl e, s)"

text \<open>One method after the other; an exception of the first is the outcome of both.\<close>

definition and_then :: "('s, 'a) py_call \<Rightarrow> ('a \<Rightarrow> ('s, 'b) py_call) \<Rightarrow> ('s, 'b) py_call" where
  "and_then m f s = (case m s of (Inl e, s') \<Rightarrow> (Inl e, s') | (Inr v, s') \<Rightarrow> f v s')"

text \<open>A loop over a list that was made before it starts.\<close>

fun for_each :: "'a list \<Rightarrow> ('a \<Rightarrow> ('s, unit) py_call) \<Rightarrow> ('s, unit) py_call" where
  "for_each [] f s = (Inr (), s)"
| "for_each (x # xs) f s = and_then (f x) (\<lambda>_. for_each xs f) s"

lemma for_each_invar:
  assumes "\<And>x s r s'. x \<in> set xs \<Longrightarrow> P s \<Longrightarrow> f x s = (r, s') \<Longrightarrow> P s'" "P s" "for_each xs f s = (r, s')"
  shows "P s'"
  using assms
proof (induction xs arbitrary: s)
  case (Cons x xs)
  obtain r1 s1 where f: "f x s = (r1, s1)" by (cases "f x s")
  have "P s1" using Cons.prems(1)[OF _ Cons.prems(2) f] by simp
  show ?case
  proof (cases r1)
    case (Inl e)
    with f Cons.prems(3) \<open>P s1\<close> show ?thesis by (simp add: and_then_def)
  next
    case (Inr u)
    with f Cons.prems(3) have "for_each xs f s1 = (r, s')" by (simp add: and_then_def)
    moreover have "\<And>y s r s'. y \<in> set xs \<Longrightarrow> P s \<Longrightarrow> f y s = (r, s') \<Longrightarrow> P s'"
      using Cons.prems(1) by (meson list.set_intros(2))
    ultimately show ?thesis using Cons.IH[OF _ \<open>P s1\<close>] by blast
  qed
qed simp

end
