(* ===== verification/PyFloat.thy ===== *)
theory PyFloat
  imports Prelude Complex_Main
begin

text \<open>
  Python's \<open>float\<close>, as far as the program uses it. The allocator converts triad counts
  to floats, divides them, takes square roots and rounds up again. A finite double is a
  rational, and each operation is the exact result rounded to 53 significant bits, ties to
  even. Overflow, underflow, infinities and NaN are not modelled: every value that occurs is
  between the reciprocal and the value of a board count or an aspect ratio.
\<close>

section \<open>Rounding to 53 bits\<close>

definition round_half_even :: "rat \<Rightarrow> int" where
  "round_half_even r =
     (let f = \<lfloor>r\<rfloor>; d = r - of_int f
      in if d < 1 / 2 then f else if 1 / 2 < d then f + 1 else if even f then f else f + 1)"

text \<open>The number of binary digits of a positive integer.\<close>

function bits :: "int \<Rightarrow> int" where
  "bits n = (if n \<le> 0 then 0 else 1 + bits (n div 2))"
  by pat_completeness auto
termination
  by (relation "measure nat") auto

declare bits.simps [simp del]

text \<open>\<open>binade q\<close> is the \<open>e\<close> with \<open>2\<^bsup>e\<^esup> \<le> q < 2\<^bsup>e+1\<^esup>\<close>, for positive \<open>q\<close>.\<close>

definition binade :: "rat \<Rightarrow> int" where
  "binade q =
     (let (p, d) = quotient_of q; k = bits p - bits d
      in if 2 powi k \<le> q then k else k - 1)"

definition ulp :: "rat \<Rightarrow> rat" where
  "ulp q = 2 powi (binade q - 52)"

definition fl :: "rat \<Rightarrow> rat" where
  "fl q =
     (if q = 0 then 0
      else sgn q * of_int (round_half_even (\<bar>q\<bar> / ulp \<bar>q\<bar>)) * ulp \<bar>q\<bar>)"

definition float_of_int :: "int \<Rightarrow> rat" where
  "float_of_int n = fl (of_int n)"

definition fdiv :: "rat \<Rightarrow> rat \<Rightarrow> rat" where
  "fdiv a b = fl (a / b)"

text \<open>\<open>isqrt n\<close> is the integer part of the square root, two bits at a time.\<close>

function isqrt :: "int \<Rightarrow> int" where
  "isqrt n =
     (if n \<le> 0 then 0
      else let r = 2 * isqrt (n div 4) in if (r + 1) * (r + 1) \<le> n then r + 1 else r)"
  by pat_completeness auto
termination
  by (relation "measure nat") auto

declare isqrt.simps [simp del]

text \<open>
  The correctly rounded square root. In units \<open>u\<close> of the last place of the result, whose
  binade is half of \<open>q\<close>'s, the root is that of \<open>s = q / u\<^sup>2\<close>, rounded to an integer.
\<close>

definition round_sqrt :: "rat \<Rightarrow> int" where
  "round_sqrt s =
     (let m = isqrt \<lfloor>s\<rfloor>; h = (of_int m + 1 / 2) * (of_int m + 1 / 2)
      in if h < s then m + 1 else if s < h then m else if even m then m else m + 1)"

definition fsqrt :: "rat \<Rightarrow> rat" where
  "fsqrt q =
     (if q \<le> 0 then 0
      else let u = 2 powi (binade q div 2 - 52) in of_int (round_sqrt (q / (u * u))) * u)"

section \<open>Rounding to the nearest integer\<close>

lemma rhe_ge: "of_int n \<le> r \<Longrightarrow> n \<le> round_half_even r"
  unfolding round_half_even_def Let_def by (auto simp: le_floor_iff) linarith+

lemma rhe_le:
  assumes "r \<le> of_int n" shows "round_half_even r \<le> n"
proof (cases "r = of_int n")
  case False
  then have "r < of_int n" using assms by simp
  then have "\<lfloor>r\<rfloor> < n" by (simp add: floor_less_iff)
  then show ?thesis unfolding round_half_even_def Let_def by auto
qed (simp add: round_half_even_def Let_def)

lemma rhe_err: "\<bar>of_int (round_half_even r) - r\<bar> \<le> 1 / 2"
  using floor_correct[of r] unfolding round_half_even_def Let_def
  by (auto simp: abs_le_iff)

section \<open>The binade of a positive rational\<close>

lemma bits_bounds_int:
  "0 < n \<Longrightarrow> 0 < bits n \<and> 2 ^ nat (bits n - 1) \<le> n \<and> n < 2 ^ nat (bits n)"
proof (induction n rule: bits.induct)
  case (1 n)
  show ?case
  proof (cases "n = 1")
    case False
    define m where "m = n div 2"
    with False "1.prems" have m: "0 < m" "n = 2 * m \<or> n = 2 * m + 1" "\<not> n \<le> 0" by auto
    with "1.IH" have IH: "0 < bits m" "2 ^ nat (bits m - 1) \<le> m" "m < 2 ^ nat (bits m)"
      by (auto simp: m_def)
    have b: "bits n = bits m + 1" using m by (subst bits.simps) (simp add: m_def)
    obtain k where k: "bits m = int (Suc k)" using IH(1) by (metis gr0_implies_Suc pos_int_cases)
    have "nat (bits m) = Suc k" "nat (bits m - 1) = k" "nat (bits n) = Suc (Suc k)"
      "nat (bits n - 1) = Suc k" using k b by auto
    with IH m b show ?thesis by auto
  qed (simp add: bits.simps)
qed

lemma bits_bounds:
  assumes "0 < n"
  shows "(2::rat) powi (bits n - 1) \<le> of_int n" "of_int n < (2::rat) powi bits n"
proof -
  from bits_bounds_int[OF assms] have b: "0 < bits n" and
    lo: "2 ^ nat (bits n - 1) \<le> n" and hi: "n < 2 ^ nat (bits n)" by auto
  from lo have "of_int (2 ^ nat (bits n - 1)) \<le> (of_int n :: rat)" by (simp only: of_int_le_iff)
  then show "(2::rat) powi (bits n - 1) \<le> of_int n" using b by (simp add: power_int_def)
  from hi have "of_int n < (of_int (2 ^ nat (bits n)) :: rat)" by (simp only: of_int_less_iff)
  then show "of_int n < (2::rat) powi bits n" using b by (simp add: power_int_def)
qed

lemma binade_bounds:
  assumes "0 < q" shows "2 powi binade q \<le> q" "q < 2 powi (binade q + 1)"
proof -
  obtain p d where pd: "quotient_of q = (p, d)" by fastforce
  then have d: "0 < d" and q: "q = of_int p / of_int d"
    by (simp_all add: quotient_of_denom_pos quotient_of_div)
  with assms have p: "0 < p" by (simp add: zero_less_divide_iff)
  let ?k = "bits p - bits d"
  have "of_int p / of_int d < (2::rat) powi bits p / 2 powi (bits d - 1)"
    using bits_bounds[OF p] bits_bounds[OF d] p d by (intro frac_less) auto
  also have "\<dots> = 2 powi (?k + 1)" by (simp add: power_int_diff[symmetric] algebra_simps)
  finally have hi: "q < 2 powi (?k + 1)" using q by simp
  have "(2::rat) powi (bits p - 1) / 2 powi bits d < of_int p / of_int d"
    using bits_bounds[OF p] bits_bounds[OF d] d by (intro frac_less2) auto
  then have lo: "2 powi (?k - 1) < q" using q by (simp add: power_int_diff power_int_add algebra_simps)
  show "2 powi binade q \<le> q" "q < 2 powi (binade q + 1)"
    using lo hi by (auto simp: binade_def pd Let_def)
qed

lemma ulp_pos [simp]: "0 < ulp q"
  by (simp add: ulp_def)

lemma ulp_nz [simp]: "ulp q \<noteq> 0"
  by (rule less_imp_neq[OF ulp_pos, symmetric])

lemma abs_ulp [simp]: "\<bar>ulp q\<bar> = ulp q"
  by (rule abs_of_pos) simp

lemma ulp_binade: "ulp q * 2 ^ 52 = 2 powi binade q"
  by (simp add: ulp_def power_int_diff)

lemma fl_pos: "0 < q \<Longrightarrow> fl q = of_int (round_half_even (q / ulp q)) * ulp q"
  by (simp add: fl_def)

lemma fl_0 [simp]: "fl 0 = 0"
  by (simp add: fl_def)

lemma fl_err:
  assumes "0 < q" shows "\<bar>fl q - q\<bar> * 2 ^ 53 \<le> q"
proof -
  let ?r = "q / ulp q"
  have "fl q - q = (of_int (round_half_even ?r) - ?r) * ulp q"
    using assms by (simp add: fl_pos left_diff_distrib)
  then have "\<bar>fl q - q\<bar> = \<bar>of_int (round_half_even ?r) - ?r\<bar> * ulp q"
    by (simp add: abs_mult)
  also have "\<dots> \<le> 1 / 2 * ulp q"
    using rhe_err[of ?r] by (intro mult_right_mono) (auto simp: less_imp_le)
  finally have "\<bar>fl q - q\<bar> * 2 ^ 53 \<le> ulp q * 2 ^ 52" by simp
  then show ?thesis using binade_bounds(1)[OF assms] by (simp only: ulp_binade)
qed

lemma ulp_divides:
  assumes "binade q \<le> 52"
  obtains m where "of_int n / ulp q = of_int m"
proof -
  have "of_int n / ulp q = of_int (n * 2 ^ nat (52 - binade q))"
    using assms by (simp add: ulp_def power_int_def field_simps)
  then show ?thesis by (rule that)
qed

lemma big_binade:
  assumes "0 < q" "\<not> binade q \<le> 52"
  shows "2 ^ 53 \<le> (2::rat) powi binade q"
  using power_int_increasing[of 53 "binade q" "2::rat"] assms(2) by simp

text \<open>Rounding never crosses an integer of at most 53 bits.\<close>

lemma fl_ge_int:
  assumes "0 < q" "of_int n \<le> q" "n \<le> 2 ^ 53"
  shows "of_int n \<le> fl q"
proof (cases "binade q \<le> 52")
  case True
  then obtain m where m: "of_int n / ulp q = of_int m" by (rule ulp_divides)
  have "of_int n / ulp q \<le> q / ulp q" using assms by (simp add: divide_right_mono less_imp_le)
  then have "m \<le> round_half_even (q / ulp q)" using m by (simp add: rhe_ge)
  then have "of_int m * ulp q \<le> of_int (round_half_even (q / ulp q)) * ulp q"
    by (intro mult_right_mono) (auto simp: less_imp_le)
  moreover have "of_int m * ulp q = of_int n" using m by (simp add: nonzero_divide_eq_eq)
  ultimately show ?thesis using assms(1) by (simp add: fl_pos)
next
  case False
  have "of_int (2 ^ 52) \<le> q / ulp q"
    using binade_bounds(1)[OF assms(1)] by (simp add: ulp_binade[symmetric] field_simps)
  then have "of_int (2 ^ 52) * ulp q \<le> fl q"
    using rhe_ge[of "2 ^ 52" "q / ulp q"] assms(1)
    by (simp add: fl_pos)
  moreover have "of_int n \<le> (2::rat) ^ 53"
    using assms(3) by (metis of_int_le_iff of_int_numeral of_int_power)
  ultimately show ?thesis
    using big_binade[OF assms(1) False] ulp_binade[of q] by (simp add: mult.commute)
qed

lemma fl_le_int:
  assumes "0 < q" "q \<le> of_int n" "n \<le> 2 ^ 53"
  shows "fl q \<le> of_int n"
proof (cases "binade q \<le> 52")
  case True
  then obtain m where m: "of_int n / ulp q = of_int m" by (rule ulp_divides)
  have "q / ulp q \<le> of_int n / ulp q" using assms by (simp add: divide_right_mono less_imp_le)
  then have "round_half_even (q / ulp q) \<le> m" using m by (simp add: rhe_le)
  then have "of_int (round_half_even (q / ulp q)) * ulp q \<le> of_int m * ulp q"
    by (intro mult_right_mono) (auto simp: less_imp_le)
  moreover have "of_int m * ulp q = of_int n" using m by (simp add: nonzero_divide_eq_eq)
  ultimately show ?thesis using assms(1) by (simp add: fl_pos)
next
  case False
  have "of_int n \<le> (2::rat) ^ 53"
    using assms(3) by (metis of_int_le_iff of_int_numeral of_int_power)
  with big_binade[OF assms(1) False] binade_bounds(1)[OF assms(1)] assms(2)
  have q': "q = 2 powi binade q" "q = of_int n" by auto
  then have q: "q = ulp q * 2 ^ 52" by (simp only: ulp_binade)
  then have "q / ulp q = of_int (2 ^ 52)" by (metis ulp_pos less_irrefl nonzero_mult_div_cancel_left of_int_numeral of_int_power)
  then have "round_half_even (q / ulp q) \<le> 2 ^ 52" by (simp only: rhe_le order_refl)
  then have "fl q \<le> 2 ^ 52 * ulp q"
    using assms(1) by (simp add: fl_pos)
  then show ?thesis using q q' by (simp add: mult.commute)
qed

lemma fl_of_int [simp]:
  assumes "0 \<le> n" "n \<le> 2 ^ 53" shows "fl (of_int n) = of_int n"
  using assms fl_ge_int[of "of_int n" n] fl_le_int[of "of_int n" n] by (cases "n = 0") auto

lemma float_of_int_exact [simp]: "0 \<le> n \<Longrightarrow> n \<le> 2 ^ 53 \<Longrightarrow> float_of_int n = of_int n"
  by (simp add: float_of_int_def)

lemma fl_gt_0: "0 < q \<Longrightarrow> 0 < fl q"
  using fl_err[of q] by (cases "0 < fl q") (auto simp: not_less)

lemma fl_nonneg: "0 \<le> q \<Longrightarrow> 0 \<le> fl q"
  using fl_gt_0[of q] by (cases "q = 0") (auto simp: less_imp_le)

text \<open>Rounding up a rounded quotient gives the exact ceiling.\<close>

lemma ceil_fl_div:
  assumes "0 < a" "a < 2 ^ 53" "0 < b"
  shows "\<lceil>fl (of_int a / of_int b)\<rceil> = \<lceil>of_int a / (of_int b :: rat)\<rceil>"
proof -
  let ?q = "of_int a / (of_int b :: rat)" and ?c = "\<lceil>of_int a / (of_int b :: rat)\<rceil>"
  have q: "0 < ?q" "?q \<le> of_int a" using assms by (auto simp: field_simps)
  then have "?c \<le> 2 ^ 53" using assms(2) by (simp add: ceiling_le_iff)
  then have le: "fl ?q \<le> of_int ?c" using q by (intro fl_le_int) auto
  have "of_int (?c - 1) < fl ?q"
  proof (rule ccontr)
    assume "\<not> ?thesis"
    then have "fl ?q \<le> of_int (?c - 1)" by simp
    have "of_int (?c - 1) < ?q" by linarith
    then have "of_int ((?c - 1) * b) < (of_int a :: rat)" using assms(3) by (simp add: field_simps)
    then have "(?c - 1) * b + 1 \<le> a" by linarith
    then have "of_int ((?c - 1) * b + 1) \<le> (of_int a :: rat)" by (simp only: of_int_le_iff)
    then have "of_int ((?c - 1) * b + 1) / of_int b \<le> ?q"
      using assms(3) by (simp only: divide_right_mono of_int_0_le_iff less_imp_le)
    then have "of_int (?c - 1) + 1 / of_int b \<le> ?q" using assms(3) by (simp add: add_divide_distrib)
    with \<open>fl ?q \<le> of_int (?c - 1)\<close> have "1 / of_int b \<le> \<bar>fl ?q - ?q\<bar>" by linarith
    with fl_err[OF q(1)] have "1 / of_int b * 2 ^ 53 \<le> ?q"
      by (meson mult_right_mono order_trans zero_le_numeral zero_le_power)
    then have "(2::rat) ^ 53 \<le> of_int a" using assms(3) by (simp add: field_simps)
    with assms(2) show False by (metis not_le of_int_le_iff of_int_numeral of_int_power)
  qed
  with le show ?thesis by (intro ceiling_unique) auto
qed

definition ceil_div :: "int \<Rightarrow> int \<Rightarrow> int" where
  "ceil_div a b = \<lceil>fdiv (float_of_int a) (float_of_int b)\<rceil>"

lemma ceil_div_exact:
  assumes "0 < a" "a < 2 ^ 53" "0 < b" "b \<le> 2 ^ 53"
  shows "ceil_div a b = - (- a div b)"
  using assms by (simp add: ceil_div_def fdiv_def ceil_fl_div ceiling_divide_eq_div)

text \<open>So the quotient rounded up, times the divisor, covers the dividend.\<close>

lemma ceil_div_covers:
  assumes "0 < a" "a < 2 ^ 53" "0 < b" "b \<le> 2 ^ 53"
  shows "a \<le> ceil_div a b * b" "(ceil_div a b - 1) * b < a" "0 < ceil_div a b"
proof -
  define c r where "c = - a div b" and "r = - a mod b"
  have "- a = b * c + r" unfolding c_def r_def by (rule mult_div_mod_eq[symmetric])
  moreover have "0 \<le> r" "r < b" using assms(3) by (simp_all add: r_def)
  moreover have "ceil_div a b = - c" unfolding c_def by (rule ceil_div_exact[OF assms])
  ultimately show cov: "a \<le> ceil_div a b * b" and "(ceil_div a b - 1) * b < a"
    by (simp_all add: algebra_simps)
  from cov assms(1) have "0 < ceil_div a b * b" by linarith
  then show "0 < ceil_div a b" using assms(3) by (rule zero_less_mult_pos2)
qed

section \<open>Square roots\<close>

lemma isqrt_bounds: "0 \<le> n \<Longrightarrow> 0 \<le> isqrt n \<and> isqrt n * isqrt n \<le> n \<and> n < (isqrt n + 1) * (isqrt n + 1)"
proof (induction n rule: isqrt.induct)
  case (1 n)
  show ?case
  proof (cases "n = 0")
    case False
    define r where "r = isqrt (n div 4)"
    from False 1 have IH: "0 \<le> r" "r * r \<le> n div 4" "n div 4 < (r + 1) * (r + 1)"
      by (auto simp: r_def)
    then have "4 * (r * r) \<le> n" "n < 4 * ((r + 1) * (r + 1))" by linarith+
    moreover have "isqrt n = (if (2 * r + 1) * (2 * r + 1) \<le> n then 2 * r + 1 else 2 * r)"
      using False 1(2) by (subst isqrt.simps) (simp add: r_def Let_def)
    ultimately show ?thesis using IH(1) by (auto simp: algebra_simps)
  qed (simp add: isqrt.simps)
qed

lemma fsqrt_parts:
  assumes "0 < q"
  obtains e u s m where "u = (2::rat) powi (e - 52)" "0 < u" "s = q / (u * u)"
    "0 \<le> m" "of_int (m * m) \<le> s" "s < of_int ((m + 1) * (m + 1))" "2 ^ 52 \<le> m"
    "fsqrt q = of_int m * u \<or>
     fsqrt q = of_int (m + 1) * u \<and> (of_int m + 1 / 2) * (of_int m + 1 / 2) \<le> s"
proof -
  define e where "e = binade q div 2"
  define u where "u = (2::rat) powi (e - 52)"
  define s where "s = q / (u * u)"
  define m where "m = isqrt \<lfloor>s\<rfloor>"
  have u: "0 < u" by (simp add: u_def)
  have s: "0 < s" using assms u by (simp add: s_def)
  then have "0 \<le> \<lfloor>s\<rfloor>" by simp
  then have m: "0 \<le> m" "m * m \<le> \<lfloor>s\<rfloor>" "\<lfloor>s\<rfloor> < (m + 1) * (m + 1)"
    using isqrt_bounds[of "\<lfloor>s\<rfloor>"] by (simp_all add: m_def)
  have "(2::rat) powi (e + e) \<le> 2 powi binade q"
    by (intro power_int_increasing) (auto simp: e_def)
  also have "\<dots> \<le> q" using assms by (rule binade_bounds)
  finally have "(2 powi e) * (2 powi e) \<le> q" by (subst (asm) power_int_add) auto
  moreover have ue: "2 powi e = u * 2 ^ 52" by (simp add: u_def power_int_diff)
  ultimately have "of_int (2 ^ 52 * 2 ^ 52) \<le> s" using u by (simp add: s_def field_simps)
  then have "2 ^ 52 * 2 ^ 52 \<le> \<lfloor>s\<rfloor>" by (simp only: le_floor_iff)
  with m(3) have "(2 ^ 52) * 2 ^ 52 < (m + 1) * (m + 1)" by linarith
  then have "2 ^ 52 < m + 1" using m(1) mult_mono[of "m + 1" "2 ^ 52" "m + 1" "2 ^ 52"] by linarith
  then have big: "2 ^ 52 \<le> m" by simp
  show thesis
  proof (rule that[OF u_def u s_def m(1) _ _ big])
    show "of_int (m * m) \<le> s" using m(2) by (simp only: le_floor_iff)
    show "s < of_int ((m + 1) * (m + 1))" using m(3) by (simp only: floor_less_iff)
    show "fsqrt q = of_int m * u \<or>
      fsqrt q = of_int (m + 1) * u \<and> (of_int m + 1 / 2) * (of_int m + 1 / 2) \<le> s"
    proof -
      have "fsqrt q = of_int (round_sqrt s) * u"
        using assms by (simp add: fsqrt_def Let_def e_def u_def s_def)
      then show ?thesis by (simp add: round_sqrt_def Let_def flip: m_def)
    qed
  qed
qed

lemma unit_divides:
  assumes "u = (2::rat) powi (e - 52)" "e \<le> 52"
  obtains j where "of_int k = of_int j * u" "0 \<le> k \<Longrightarrow> 0 \<le> j"
proof
  have "(2::rat) powi (52 - e) * u = 1" unfolding assms(1) by (simp flip: power_int_add)
  moreover have "(2::rat) powi (52 - e) = of_int (2 ^ nat (52 - e))"
    using assms(2) by (simp add: power_int_def)
  ultimately show "of_int k = of_int (k * 2 ^ nat (52 - e)) * u" by simp
  show "0 \<le> k \<Longrightarrow> 0 \<le> k * 2 ^ nat (52 - e)" by simp
qed

lemma sq_scaled_le:
  assumes "0 < (u::rat)" "of_int k = of_int j * u" "s = q / (u * u)"
  shows "of_int (k * k) \<le> q \<longleftrightarrow> of_int (j * j) \<le> s"
proof -
  have "of_int (k * k) = of_int (j * j) * (u * u)" using assms(2) by (simp add: algebra_simps)
  then show ?thesis using assms(1,3) by (simp add: pos_le_divide_eq)
qed

lemma fsqrt_ge:
  assumes "0 < q" "0 \<le> k" "k \<le> 2 ^ 53" "of_int (k * k) \<le> q"
  shows "of_int k \<le> fsqrt q"
proof -
  obtain e u s m where p: "u = (2::rat) powi (e - 52)" "0 < u" "s = q / (u * u)"
    "0 \<le> m" "s < of_int ((m + 1) * (m + 1))" "2 ^ 52 \<le> m"
    "fsqrt q = of_int m * u \<or> fsqrt q = of_int (m + 1) * u \<and>
       (of_int m + 1 / 2) * (of_int m + 1 / 2) \<le> s"
    using fsqrt_parts[OF assms(1)] by metis
  then have mle: "of_int m * u \<le> fsqrt q" by (auto simp: algebra_simps)
  have "of_int k \<le> of_int m * u"
  proof (cases "e \<le> 52")
    case True
    then obtain j where j: "of_int k = of_int j * u" "0 \<le> j"
      using unit_divides[OF p(1)] assms(2) by metis
    with assms(4) p(2,3) have "of_int (j * j) \<le> s" by (simp only: sq_scaled_le)
    with p(5) have "j * j < (m + 1) * (m + 1)" by linarith
    with j(2) p(4) have "j \<le> m" using mult_mono[of "m + 1" j "m + 1" j] by linarith
    then show ?thesis using j p(2) by (simp add: mult_right_mono)
  next
    case False
    have "of_int k \<le> (of_int (2 ^ 53) :: rat)" using assms(3) by (simp only: of_int_le_iff)
    also have "\<dots> \<le> 2 powi e" using power_int_increasing[of 53 e "2::rat"] False by simp
    also have "\<dots> = of_int (2 ^ 52) * u" by (simp add: p(1) power_int_diff)
    also have "\<dots> \<le> of_int m * u" using p(2,6)
      by (intro mult_right_mono) (simp_all only: of_int_le_iff less_imp_le)
    finally show ?thesis .
  qed
  with mle show ?thesis by simp
qed

lemma fsqrt_less:
  assumes "0 < n" "n < k * k" "0 < k" "k * k \<le> 2 ^ 52"
  shows "fsqrt (of_int n) < of_int k"
proof -
  obtain e u s m where p: "u = (2::rat) powi (e - 52)" "0 < u" "s = of_int n / (u * u)"
    "0 \<le> m" "of_int (m * m) \<le> s" "2 ^ 52 \<le> m"
    "fsqrt (of_int n) = of_int m * u \<or> fsqrt (of_int n) = of_int (m + 1) * u \<and>
       (of_int m + 1 / 2) * (of_int m + 1 / 2) \<le> s"
    using fsqrt_parts[of "of_int n"] assms(1) by (metis of_int_0_less_iff)
  have mu: "of_int m * u < of_int k"
  proof (rule ccontr)
    assume "\<not> ?thesis"
    then have "of_int k * of_int k \<le> of_int m * u * (of_int m * u)"
      using assms(3) p(2,4) by (intro mult_mono) auto
    also have "\<dots> = of_int (m * m) * (u * u)" by simp
    also have "\<dots> \<le> of_int n" using p(2,3,5) by (simp add: pos_le_divide_eq)
    finally show False using assms(2) by (simp flip: of_int_mult)
  qed
  have "u * 2 ^ 52 \<le> of_int m * u"
  proof -
    have "of_int (2 ^ 52) * u \<le> of_int m * u" using p(2,6)
      by (intro mult_right_mono) (simp_all only: of_int_le_iff less_imp_le)
    then show ?thesis by simp
  qed
  with mu have small: "u * 2 ^ 52 < of_int k" by linarith
  have "of_int (k * k) \<le> (of_int (2 ^ 52) :: rat)" using assms(4) by (simp only: of_int_le_iff)
  then have "of_int k * of_int k \<le> (2::rat) ^ 52" by simp
  moreover have "of_int k * (u * 2 ^ 52) < of_int k * of_int k"
    by (rule mult_strict_left_mono[OF small]) (use assms(3) in simp)
  ultimately have "of_int k * (u * 2 ^ 52) < (2::rat) ^ 52" by linarith
  then have ku: "of_int k * u < 1" by simp
  then have "of_int k * u < of_int k * 1" using assms(3) by linarith
  show ?thesis
  proof (rule ccontr)
    assume "\<not> ?thesis"
    with mu p(7) have up: "of_int k \<le> of_int (m + 1) * u"
      "(of_int m + 1 / 2) * (of_int m + 1 / 2) \<le> s" by auto
    then have "of_int k - u / 2 \<le> (of_int m + 1 / 2) * u" by (simp add: algebra_simps)
    moreover have "0 \<le> of_int k - u / 2" using assms(3) small p(2) by simp
    ultimately have "(of_int k - u / 2) * (of_int k - u / 2)
        \<le> (of_int m + 1 / 2) * u * ((of_int m + 1 / 2) * u)" by (intro mult_mono) auto
    also have "\<dots> = (of_int m + 1 / 2) * (of_int m + 1 / 2) * (u * u)" by simp
    also have "\<dots> \<le> of_int n" using up(2) p(2,3) by (simp add: pos_le_divide_eq)
    finally have "of_int (k * k) - of_int k * u + u * u / 4 \<le> of_int n"
      by (simp add: algebra_simps)
    moreover have "of_int (n + 1) \<le> (of_int (k * k) :: rat)"
      using assms(2) by (simp only: of_int_le_iff)
    moreover have "0 < u * u" using p(2) by simp
    ultimately show False using ku by (simp only: of_int_add of_int_1)
  qed
qed

theorem floor_fsqrt:
  assumes "0 < n" "n < 2 ^ 52 - 2 ^ 27"
  shows "\<lfloor>fsqrt (of_int n)\<rfloor> = isqrt n"
proof -
  let ?k = "isqrt n"
  from assms isqrt_bounds[of n] have k: "0 \<le> ?k" "?k * ?k \<le> n" "n < (?k + 1) * (?k + 1)" by auto
  have "?k + 1 \<le> 2 ^ 26"
    using mult_mono[of "2 ^ 26" ?k "2 ^ 26" ?k] k assms(2) by (cases "2 ^ 26 \<le> ?k") auto
  then have "(?k + 1) * (?k + 1) \<le> 2 ^ 26 * 2 ^ 26" using k(1) by (intro mult_mono) auto
  then have "fsqrt (of_int n) < of_int (?k + 1)" using assms(1) k by (intro fsqrt_less) auto
  moreover have "of_int ?k \<le> fsqrt (of_int n)"
    using assms(1) k \<open>?k + 1 \<le> 2 ^ 26\<close> by (intro fsqrt_ge) (auto simp flip: of_int_mult)
  ultimately show ?thesis by (intro floor_unique) auto
qed

end
