(* ===== verification/AreaToRect.thy ===== *)
theory AreaToRect
  imports PyFloat
begin

text \<open>
  The choice of a rectangle for a number of triads (\<open>area_to_rect.py\<close>): the squarest
  rectangle of exactly that area, an over-allocated one when it is too thin, turned and
  squished to fit the bounds. Divisions, the square root and the comparisons of aspect ratios
  are those of doubles (\<open>PyFloat\<close>).
\<close>

section \<open>The code\<close>

text \<open>The loop of \<open>squarest_rectangle\<close>: count down to the first divisor; 1 is the last.\<close>

function largest_factor :: "int \<Rightarrow> int \<Rightarrow> int" where
  "largest_factor area h =
     (if area mod h = 0 \<or> h \<le> 1 then h else largest_factor area (h - 1))"
  by pat_completeness auto
termination
  by (relation "measure (\<lambda>(_, h). nat h)") auto

declare largest_factor.simps [simp del]

definition squarest_rectangle :: "int \<Rightarrow> (int \<times> int) res" where
  "squarest_rectangle area =
     (if \<not> 0 \<le> area then Inl AssertionError
      else if area = 0 then Inr (0, 0)
      else
        let top = \<lfloor>fsqrt (float_of_int area)\<rfloor>
        in if top < 1 then Inl UnboundLocalError
           else let h = largest_factor area top in Inr (area div h, h))"

definition rectangle_with_aspect_ratio :: "int \<Rightarrow> rat \<Rightarrow> (int \<times> int) res" where
  "rectangle_with_aspect_ratio area ratio =
     (if \<not> 0 \<le> area then Inl AssertionError
      else if \<not> (0 < ratio \<and> ratio \<le> 1) then Inl AssertionError
      else if area \<le> 0 then Inr (0, 0)
      else
        let w = fsqrt (fdiv (float_of_int area) ratio);
            h = \<lceil>fdiv (float_of_int area) w\<rceil>;
            w' = ceil_div area h
        in Inr (max w' h, h))"

text \<open>The aspect ratio of a rectangle, as the code computes it.\<close>

abbreviation float_ratio :: "int \<Rightarrow> int \<Rightarrow> rat" where
  "float_ratio h w \<equiv> fdiv (float_of_int h) (float_of_int w)"

text \<open>The rotation, the test and the squishing that follow the choice of \<open>w\<close> and \<open>h\<close>.\<close>

definition fit_rect :: "int \<Rightarrow> int \<Rightarrow> int \<Rightarrow> rat \<Rightarrow> int \<times> int \<Rightarrow> (int \<times> int) option" where
  "fit_rect area bound_width bound_height ratio wh =
     (let (w, h) = wh;
          (w, h) = (if bound_width > bound_height \<and> w > h then (h, w) else (w, h))
      in if w \<le> bound_width \<and> h \<le> bound_height then Some (w, h)
         else
           let (w, h) =
             (if w > bound_width then (bound_width, ceil_div area bound_width)
              else if h > bound_height then (ceil_div area bound_height, bound_height)
              else (w, h))
           in if ratio \<le> float_ratio (min w h) (max w h) then Some (w, h) else None)"

definition landscape_ratio :: "rat \<Rightarrow> rat" where
  "landscape_ratio r = (if r > 1 then fdiv 1 r else r)"

definition area_to_rect :: "int \<Rightarrow> int \<Rightarrow> int \<Rightarrow> rat \<Rightarrow> (int \<times> int) option res" where
  "area_to_rect area bound_width bound_height min_ratio =
     (if area \<le> 0 \<or> bound_width \<le> 0 \<or> bound_height \<le> 0 then Inl ValueError
      else if min_ratio < 0 then Inl ValueError
      else if area > bound_width * bound_height then Inr None
      else
        let ratio = landscape_ratio min_ratio
        in case squarest_rectangle area of
             Inl e \<Rightarrow> Inl e
           | Inr (w, h) \<Rightarrow>
               if float_ratio h w < ratio then
                 (case rectangle_with_aspect_ratio area ratio of
                    Inl e \<Rightarrow> Inl e
                  | Inr wh \<Rightarrow> Inr (fit_rect area bound_width bound_height ratio wh))
               else Inr (fit_rect area bound_width bound_height ratio (w, h)))"

section \<open>Correctness\<close>

text \<open>
  Areas below this bound (about \<open>4.5 \<cdot> 10\<^sup>15\<close> triads) have a square root and quotients
  whose integer parts the doubles give exactly.
\<close>

abbreviation max_area :: int where "max_area \<equiv> 2 ^ 52 - 2 ^ 27"

lemma largest_factor_spec:
  assumes "1 \<le> h" "0 < area"
  shows "1 \<le> largest_factor area h" "largest_factor area h \<le> h"
    "largest_factor area h dvd area"
    "\<And>b. 1 \<le> b \<Longrightarrow> b \<le> h \<Longrightarrow> b dvd area \<Longrightarrow> b \<le> largest_factor area h"
proof -
  have "1 \<le> h \<longrightarrow> 1 \<le> largest_factor area h \<and> largest_factor area h \<le> h \<and> largest_factor area h dvd area
     \<and> (\<forall>b. 1 \<le> b \<longrightarrow> b \<le> h \<longrightarrow> b dvd area \<longrightarrow> b \<le> largest_factor area h)"
  proof (induction area h rule: largest_factor.induct)
    case (1 area h)
    show ?case
    proof (cases "area mod h = 0 \<or> h \<le> 1")
      case True
      then have "largest_factor area h = h" by (simp add: largest_factor.simps[of area h])
      moreover have "1 \<le> h \<Longrightarrow> h dvd area" using True by (cases "h = 1") auto
      ultimately show ?thesis by simp
    next
      case False
      with 1 have IH: "1 \<le> largest_factor area (h - 1) \<and> largest_factor area (h - 1) \<le> h - 1 \<and>
        largest_factor area (h - 1) dvd area \<and>
        (\<forall>b. 1 \<le> b \<longrightarrow> b \<le> h - 1 \<longrightarrow> b dvd area \<longrightarrow> b \<le> largest_factor area (h - 1))" by auto
      have "b \<le> h - 1" if "b \<le> h" "b dvd area" for b
        using that False by (cases "b = h") (auto simp: dvd_eq_mod_eq_0)
      with False IH show ?thesis by (auto simp: largest_factor.simps[of area h])
    qed
  qed
  with assms show "1 \<le> largest_factor area h" "largest_factor area h \<le> h"
    "largest_factor area h dvd area"
    "\<And>b. 1 \<le> b \<Longrightarrow> b \<le> h \<Longrightarrow> b dvd area \<Longrightarrow> b \<le> largest_factor area h" by auto
qed

lemma squarest_rectangle_spec:
  assumes "0 < area" "area < max_area"
  obtains w h where "squarest_rectangle area = Inr (w, h)" "w * h = area" "1 \<le> h" "h \<le> w"
    "\<And>a b. a * b = area \<Longrightarrow> 1 \<le> b \<Longrightarrow> b \<le> a \<Longrightarrow> b \<le> h"
proof -
  let ?t = "isqrt area" and ?h = "largest_factor area (isqrt area)"
  have t: "0 \<le> ?t" "?t * ?t \<le> area" "area < (?t + 1) * (?t + 1)"
    using isqrt_bounds[of area] assms(1) by auto
  have t1: "1 \<le> ?t" using t assms(1) by (cases "?t = 0") auto
  have fs: "\<lfloor>fsqrt (float_of_int area)\<rfloor> = ?t" using assms floor_fsqrt[of area] by simp
  note lf = largest_factor_spec[OF t1 assms(1)]
  have e: "squarest_rectangle area = Inr (area div ?h, ?h)"
    using assms(1) t1 by (simp add: squarest_rectangle_def fs Let_def)
  have wh: "area div ?h * ?h = area" using lf(3) by simp
  have "?h * ?h \<le> area" using mult_mono[OF lf(2) lf(2)] lf(1) t by auto
  then have "?h \<le> area div ?h" using lf(1)
    by (metis div_mult_self1_is_m div_le_mono zdiv_mono1 less_le_trans zero_less_one nonzero_mult_div_cancel_right not_one_le_zero)
  moreover have "b \<le> ?h" if "a * b = area" "1 \<le> b" "b \<le> a" for a b
  proof (rule lf(4))
    show "b \<le> ?t"
    proof (rule ccontr)
      assume "\<not> b \<le> ?t"
      then have "(?t + 1) * (?t + 1) \<le> a * b" using that t(1) by (intro mult_mono) auto
      with t(3) that show False by simp
    qed
  qed (use that in auto)
  ultimately show thesis using that[OF e wh lf(1)] by blast
qed

lemma rectangle_with_aspect_ratio_spec:
  assumes "0 < area" "area < max_area" "0 < ratio" "ratio \<le> 1"
  obtains w h where "rectangle_with_aspect_ratio area ratio = Inr (w, h)" "area \<le> w * h"
    "1 \<le> h" "h \<le> w" "w \<le> area" "w = h \<or> (w - 1) * h < area"
proof -
  let ?q = "of_int area / ratio"
  let ?w = "fsqrt (fl ?q)"
  let ?h = "\<lceil>fl (of_int area / ?w)\<rceil>"
  have a: "float_of_int area = of_int area" "(1::rat) \<le> of_int area" using assms by auto
  have q: "of_int area \<le> ?q" using assms a by (simp add: field_simps)
  then have "of_int area \<le> fl ?q" using assms a by (intro fl_ge_int) auto
  then have w: "1 \<le> ?w" using fsqrt_ge[of "fl ?q" 1] a by simp
  then have aw: "0 < of_int area / ?w" "of_int area / ?w \<le> of_int area"
    using a by (auto simp: field_simps)
  then have "fl (of_int area / ?w) \<le> of_int area" using assms by (intro fl_le_int) auto
  then have h2: "?h \<le> area" by (simp add: ceiling_le_iff)
  have h1: "1 \<le> ?h" using fl_gt_0[OF aw(1)] by linarith
  have e: "rectangle_with_aspect_ratio area ratio = Inr (max (ceil_div area ?h) ?h, ?h)"
    using assms a by (simp add: rectangle_with_aspect_ratio_def Let_def fdiv_def)
  have "area \<le> ceil_div area k * k" "(ceil_div area k - 1) * k < area" "0 < ceil_div area k"
    if "1 \<le> k" "k \<le> area" for k
    using ceil_div_covers[of area k] assms(1,2) that by auto
  note c = this[OF h1 h2]
  have cov: "area \<le> max (ceil_div area ?h) ?h * ?h"
    using c(1) h1 mult_right_mono[of "ceil_div area ?h" "max (ceil_div area ?h) ?h" ?h] by linarith
  have "ceil_div area ?h \<le> area"
  proof (rule ccontr)
    assume "\<not> ?thesis"
    then have "area * 1 \<le> (ceil_div area ?h - 1) * ?h" using assms(1) h1 by (intro mult_mono) auto
    with c(2) show False by simp
  qed
  with h2 have "max (ceil_div area ?h) ?h \<le> area" by simp
  with that[OF e cov h1] c(2) show thesis by (auto simp: max_def split: if_splits)
qed

lemma fit_rect_cases:
  assumes "fit_rect area bw bh ratio (w, h) = Some (w', h')"
  obtains (fits) "(w', h') = (w, h) \<or> (w', h') = (h, w)" "w' \<le> bw" "h' \<le> bh"
  | (wide) "w' = bw" "h' = ceil_div area bw" "bw < w \<or> bw < h"
      "ratio \<le> float_ratio (min w' h') (max w' h')"
  | (tall) "w' = ceil_div area bh" "h' = bh" "bh < h \<or> bh < w"
      "ratio \<le> float_ratio (min w' h') (max w' h')"
proof -
  obtain a b where ab: "(if bw > bh \<and> w > h then (h, w) else (w, h)) = (a, b)" by fastforce
  then have turned: "a = w \<and> b = h \<or> a = h \<and> b = w" by (simp split: if_splits)
  have f: "Some (w', h') =
     (if a \<le> bw \<and> b \<le> bh then Some (a, b)
      else
        let (w, h) = (if a > bw then (bw, ceil_div area bw)
                      else if b > bh then (ceil_div area bh, bh) else (a, b))
        in if ratio \<le> float_ratio (min w h) (max w h) then Some (w, h) else None)"
    using assms ab by (simp add: fit_rect_def)
  consider "a \<le> bw \<and> b \<le> bh" | "bw < a" | "a \<le> bw" "bh < b" by linarith
  then show thesis
  proof cases
    case 1
    with f turned show thesis by (intro fits) simp_all
  next
    case 2
    with f turned show thesis by (intro wide) (auto split: if_splits)
  next
    case 3
    with f turned show thesis by (intro tall) (auto split: if_splits)
  qed
qed

text \<open>Squishing to a bound that is at most the area leaves a side that still fits.\<close>

lemma ceil_div_fits:
  assumes "0 < area" "area < max_area" "1 \<le> b" "b \<le> area" "area \<le> c * b"
  shows "1 \<le> ceil_div area b" "area \<le> ceil_div area b * b" "ceil_div area b \<le> c"
proof -
  have p: "area < 2 ^ 53" "0 < b" "b \<le> 2 ^ 53" using assms by simp_all
  note cc = ceil_div_covers[OF assms(1) p]
  show "1 \<le> ceil_div area b" "area \<le> ceil_div area b * b" using cc by simp_all
  show "ceil_div area b \<le> c"
  proof (rule ccontr)
    assume "\<not> ?thesis"
    then have "c * b \<le> (ceil_div area b - 1) * b" using assms(3) by (intro mult_right_mono) auto
    with cc(2) assms(5) show False by linarith
  qed
qed

lemma fit_rect_sound:
  assumes "fit_rect area bw bh ratio (w, h) = Some (w', h')"
    and "0 < area" "area < max_area" "area \<le> bw * bh" "0 < bw" "0 < bh"
    and "1 \<le> w" "1 \<le> h" "w \<le> area" "h \<le> area" "area \<le> w * h"
  shows "1 \<le> w' \<and> w' \<le> bw \<and> 1 \<le> h' \<and> h' \<le> bh \<and> area \<le> w' * h'"
  using assms(1)
proof (cases rule: fit_rect_cases)
  case fits
  with assms(7,8,11) show ?thesis by (auto simp: mult.commute)
next
  case wide
  then have "bw \<le> area" "area \<le> bh * bw" using assms(4,9,10) by (auto simp: mult.commute)
  with wide ceil_div_fits[of area bw bh] assms(2,3,5) show ?thesis by (simp add: mult.commute)
next
  case tall
  then have "bh \<le> area" "area \<le> bw * bh" using assms(4,9,10) by auto
  with tall ceil_div_fits[of area bh bw] assms(2,3,6) show ?thesis by (simp add: mult.commute)
qed

lemma fit_rect_ratio:
  assumes "fit_rect area bw bh ratio (w, h) = Some (w', h')"
  shows "(w', h') = (w, h) \<or> (w', h') = (h, w) \<or> ratio \<le> float_ratio (min w' h') (max w' h')"
  using assms by (cases rule: fit_rect_cases) auto

lemma float_ratio_nonneg: "0 \<le> a \<Longrightarrow> 0 \<le> b \<Longrightarrow> 0 \<le> float_ratio a b"
  by (simp add: fdiv_def float_of_int_def fl_nonneg)

lemma ceil_div_nonneg: "0 \<le> a \<Longrightarrow> 0 \<le> b \<Longrightarrow> 0 \<le> ceil_div a b"
  using float_ratio_nonneg[of a b] by (simp add: ceil_div_def zero_le_ceiling)

lemma fit_rect_zero_ratio:
  assumes "0 \<le> area" "0 \<le> bw" "0 \<le> bh" "0 \<le> w" "0 \<le> h"
  shows "fit_rect area bw bh 0 (w, h) \<noteq> None"
proof -
  have "0 \<le> float_ratio (min a b) (max a b)" if "0 \<le> a" "0 \<le> b" for a b
    using that by (intro float_ratio_nonneg) auto
  with assms ceil_div_nonneg[of area bw] ceil_div_nonneg[of area bh] show ?thesis
    by (auto simp: fit_rect_def Let_def split: if_splits prod.splits)
qed

lemma landscape_ratio_bounds:
  assumes "0 \<le> r" shows "0 \<le> landscape_ratio r" "landscape_ratio r \<le> 1"
proof -
  have "0 < fl (1 / r) \<and> fl (1 / r) \<le> 1" if "1 < r"
    using that fl_gt_0[of "1 / r"] fl_le_int[of "1 / r" 1] by auto
  then show "0 \<le> landscape_ratio r" "landscape_ratio r \<le> 1"
    using assms by (auto simp: landscape_ratio_def fdiv_def not_less less_imp_le)
qed

text \<open>What is chosen before fitting: no exception, and enough area.\<close>

lemma area_to_rect_cases:
  assumes "0 < area" "area < max_area" "0 < bw" "0 < bh" "0 \<le> r" "area \<le> bw * bh"
  obtains w h where
    "area_to_rect area bw bh r = Inr (fit_rect area bw bh (landscape_ratio r) (w, h))"
    "1 \<le> h" "h \<le> w" "w \<le> area" "area \<le> w * h"
    "landscape_ratio r \<le> float_ratio h w \<or>
     rectangle_with_aspect_ratio area (landscape_ratio r) = Inr (w, h)"
proof -
  obtain w h where sr: "squarest_rectangle area = Inr (w, h)" "w * h = area" "1 \<le> h" "h \<le> w"
    using squarest_rectangle_spec[OF assms(1,2)] by metis
  note lr = landscape_ratio_bounds[OF assms(5)]
  show thesis
  proof (cases "float_ratio h w < landscape_ratio r")
    case False
    have "w * 1 \<le> w * h" using sr by (intro mult_left_mono) auto
    with False assms sr show thesis
      by (intro that[of w h]) (auto simp: area_to_rect_def Let_def not_le)
  next
    case True
    have "0 < float_ratio h w" using sr \<open>w * h = area\<close> assms(1,2)
      mult_left_mono[of 1 h w] mult_right_mono[of 1 w h]
      by (auto simp: fdiv_def intro!: fl_gt_0)
    with True lr have r: "0 < landscape_ratio r" "landscape_ratio r \<le> 1" by auto
    obtain w' h' where "rectangle_with_aspect_ratio area (landscape_ratio r) = Inr (w', h')"
      "area \<le> w' * h'" "1 \<le> h'" "h' \<le> w'" "w' \<le> area"
      using rectangle_with_aspect_ratio_spec[OF assms(1,2) r] by metis
    with True assms sr show thesis
      by (intro that[of w' h']) (auto simp: area_to_rect_def Let_def not_le)
  qed
qed

lemma area_to_rect_bounds:
  assumes "0 < area" "area < max_area" "0 < bw" "0 < bh" "0 \<le> r"
  shows "\<exists>res. area_to_rect area bw bh r = Inr res \<and>
     (\<forall>w h. res = Some (w, h) \<longrightarrow>
        1 \<le> w \<and> w \<le> bw \<and> 1 \<le> h \<and> h \<le> bh \<and> area \<le> w * h)"
proof (cases "area \<le> bw * bh")
  case True
  then obtain w h where "area_to_rect area bw bh r = Inr (fit_rect area bw bh (landscape_ratio r) (w, h))"
    "1 \<le> h" "h \<le> w" "w \<le> area" "area \<le> w * h"
    using area_to_rect_cases[OF assms] by metis
  with True assms fit_rect_sound[of area bw bh "landscape_ratio r" w h] show ?thesis by auto
next
  case False
  with assms show ?thesis by (simp add: area_to_rect_def)
qed

text \<open>
  C33. A valid request never raises, and a rectangle that is returned has at least one triad in
  each direction, fits the bounds, and has at least the requested area.
\<close>

theorem area_to_rect_sound:
  assumes "0 < area" "area < max_area" "0 < bw" "0 < bh" "0 \<le> r"
  shows "\<exists>res. area_to_rect area bw bh r = Inr res \<and>
     (\<forall>w h. res = Some (w, h) \<longrightarrow>
        1 \<le> w \<and> w \<le> bw \<and> 1 \<le> h \<and> h \<le> bh \<and> area \<le> w * h)"
  using assms by (rule area_to_rect_bounds)

theorem area_to_rect_sound_witness:
  "\<exists>res. area_to_rect 7 4 3 (1 / 2) = Inr res \<and>
     (\<forall>w h. res = Some (w, h) \<longrightarrow> 1 \<le> w \<and> w \<le> 4 \<and> 1 \<le> h \<and> h \<le> 3 \<and> 7 \<le> w * h)"
  using area_to_rect_sound[of 7 4 3 "1 / 2"] by simp

text \<open>
  Without an aspect ratio the only reason to refuse is that the area does not fit:
  a region of enough triads always yields a rectangle.
\<close>

theorem area_to_rect_complete:
  assumes "0 < area" "area < max_area" "0 < bw" "0 < bh"
  shows "area_to_rect area bw bh 0 = Inr None \<longleftrightarrow> bw * bh < area"
proof (cases "area \<le> bw * bh")
  case True
  moreover have "landscape_ratio 0 = 0" by (simp add: landscape_ratio_def)
  ultimately obtain w h where "area_to_rect area bw bh 0 = Inr (fit_rect area bw bh 0 (w, h))"
    "1 \<le> h" "h \<le> w" using area_to_rect_cases[OF assms order_refl] by metis
  with True assms fit_rect_zero_ratio[of area bw bh w h] show ?thesis by auto
qed (use assms in \<open>simp add: area_to_rect_def\<close>)

theorem area_to_rect_complete_witness:
  "area_to_rect 7 4 3 0 = Inr None \<longleftrightarrow> (4::int) * 3 < 7"
  by (rule area_to_rect_complete) simp_all

text \<open>
  The squarest rectangle: exactly the area, landscape, and no rectangle of that area
  has a longer short side.
\<close>

theorem squarest_rectangle_squarest:
  assumes "0 < area" "area < max_area"
  shows "\<exists>w h. squarest_rectangle area = Inr (w, h) \<and> w * h = area \<and> 1 \<le> h \<and> h \<le> w \<and>
     (\<forall>a b. a * b = area \<and> 1 \<le> b \<and> b \<le> a \<longrightarrow> b \<le> h)"
  using squarest_rectangle_spec[OF assms] by metis

theorem squarest_rectangle_squarest_witness:
  "\<exists>w h. squarest_rectangle 12 = Inr (w, h) \<and> w * h = 12 \<and> 1 \<le> h \<and> h \<le> w \<and>
     (\<forall>a b. a * b = 12 \<and> 1 \<le> b \<and> b \<le> a \<longrightarrow> b \<le> h)"
  by (rule squarest_rectangle_squarest) simp_all

text \<open>
  The aspect ratio. The result meets the requested ratio, or it is the untouched (or
  turned) output of \<open>rectangle_with_aspect_ratio\<close>, which is returned unchecked.
\<close>

theorem area_to_rect_ratio:
  assumes "0 < area" "area < max_area" "0 < bw" "0 < bh" "0 \<le> r"
    and "area_to_rect area bw bh r = Inr (Some (w, h))"
  shows "landscape_ratio r \<le> float_ratio (min w h) (max w h) \<or>
     rectangle_with_aspect_ratio area (landscape_ratio r) \<in> {Inr (w, h), Inr (h, w)}"
proof -
  from assms have "area \<le> bw * bh" by (auto simp: area_to_rect_def split: if_splits)
  then obtain w' h' where *: "fit_rect area bw bh (landscape_ratio r) (w', h') = Some (w, h)"
    "h' \<le> w'" "landscape_ratio r \<le> float_ratio h' w' \<or>
       rectangle_with_aspect_ratio area (landscape_ratio r) = Inr (w', h')"
    using area_to_rect_cases[OF assms(1-5)] assms(6) by (metis sum.inject(2))
  from fit_rect_ratio[OF *(1)] *(2,3) show ?thesis by (auto simp: min_def max_def)
qed

theorem area_to_rect_ratio_witness:
  "landscape_ratio (1 / 2) \<le> float_ratio (min 2 2) (max 2 2) \<or>
     rectangle_with_aspect_ratio 4 (landscape_ratio (1 / 2)) \<in> {Inr (2, 2), Inr (2, 2)}"
  by (rule area_to_rect_ratio[of 4 10 10]) (simp, simp, simp, simp, simp, code_simp)

text \<open>
  The unchecked branch breaks the promise of the docstring, that the aspect ratio is at
  least the one requested: 17 triads with ratio 15/64 (0.234) give a 9 by 2 rectangle, of ratio 0.222.
\<close>

theorem area_to_rect_violates_ratio:
  "\<exists>area r w h. area_to_rect area 100 100 r = Inr (Some (w, h)) \<and> 0 \<le> r \<and> r \<le> 1 \<and>
     float_ratio (min w h) (max w h) < r"
proof (intro exI conjI)
  show "area_to_rect 17 100 100 (15 / 64) = Inr (Some (9, 2))" by code_simp
  show "float_ratio (min 9 2) (max 9 2) < 15 / 64" by code_simp
qed simp_all

end
