(* ===== verification/Links.thy ===== *)
theory Links
  imports Prelude
begin

text \<open>
  The six links of a chip or board (\<open>links.py\<close>): the enumeration in the order of its
  integer values, the opposite of a link, and the two lookups between links and vectors.
\<close>

section \<open>The enumeration\<close>

datatype link = East | North_east | North | West | South_west | South

definition all_links :: "link list" where
  "all_links = [East, North_east, North, West, South_west, South]"

fun link_value :: "link \<Rightarrow> int" where
  "link_value East = 0"
| "link_value North_east = 1"
| "link_value North = 2"
| "link_value West = 3"
| "link_value South_west = 4"
| "link_value South = 5"

text \<open>The constructor call \<open>Links(n)\<close>.\<close>

definition link_of_value :: "int \<Rightarrow> link res" where
  "link_of_value n =
     (case find (\<lambda>l. link_value l = n) all_links of None \<Rightarrow> Inl ValueError | Some l \<Rightarrow> Inr l)"

definition opposite :: "link \<Rightarrow> link res" where
  "opposite l = link_of_value ((link_value l + 3) mod 6)"

text \<open>The members are integers, and compare as such.\<close>

instantiation link :: linorder
begin

definition less_eq_link :: "link \<Rightarrow> link \<Rightarrow> bool" where
  "less_eq_link a b \<longleftrightarrow> link_value a \<le> link_value b"

definition less_link :: "link \<Rightarrow> link \<Rightarrow> bool" where
  "less_link a b \<longleftrightarrow> link_value a < link_value b"

instance
proof
  fix a b :: link
  show "a \<le> b \<Longrightarrow> b \<le> a \<Longrightarrow> a = b"
    by (cases a; cases b) (auto simp: less_eq_link_def)
qed (auto simp: less_eq_link_def less_link_def)

end

section \<open>Links and vectors\<close>

definition link_vectors :: "((int \<times> int) \<times> link) list" where
  "link_vectors =
     [((1, 0), East), ((-1, 0), West), ((0, 1), North), ((0, -1), South),
      ((1, 1), North_east), ((-1, -1), South_west)]"

definition direction_link_lookup :: "link \<Rightarrow> (int \<times> int) option" where
  "direction_link_lookup = map_of (map (\<lambda>(v, l). (l, v)) link_vectors)"

text \<open>The lookup of links by vector also has the two spiral links of 2xN and Nx2 systems.\<close>

definition link_direction_lookup :: "int \<times> int \<Rightarrow> link option" where
  "link_direction_lookup =
     (map_of link_vectors)((1, -1) \<mapsto> South_west, (-1, 1) \<mapsto> North_east)"

definition unwrap :: "int \<Rightarrow> int" where
  "unwrap x = (if \<bar>x\<bar> > 1 then (if x > 0 then -1 else 1) else x)"

definition from_vector :: "int \<times> int \<Rightarrow> link res" where
  "from_vector v =
     (case v of (x, y) \<Rightarrow>
        (case link_direction_lookup (unwrap x, unwrap y) of
           None \<Rightarrow> Inl KeyError | Some l \<Rightarrow> Inr l))"

definition to_vector :: "link \<Rightarrow> (int \<times> int) res" where
  "to_vector l = (case direction_link_lookup l of None \<Rightarrow> Inl KeyError | Some v \<Rightarrow> Inr v)"

section \<open>Lemmas\<close>

lemma set_all_links [simp]: "set all_links = UNIV"
  by (auto simp: all_links_def intro: link.exhaust)

lemma finite_link_set [simp, intro]: "finite (A :: link set)"
  by (metis List.finite_set finite_subset set_all_links subset_UNIV)

fun opp :: "link \<Rightarrow> link" where
  "opp East = West"
| "opp North_east = South_west"
| "opp North = South"
| "opp West = East"
| "opp South_west = North_east"
| "opp South = North"

lemma opposite_opp [simp]: "opposite l = Inr (opp l)"
  by (cases l) (simp_all add: opposite_def link_of_value_def all_links_def)

lemma opp_opp [simp]: "opp (opp l) = l"
  by (cases l) simp_all

lemma to_vector_simps [simp]:
  "to_vector East = Inr (1, 0)" "to_vector West = Inr (-1, 0)"
  "to_vector North = Inr (0, 1)" "to_vector South = Inr (0, -1)"
  "to_vector North_east = Inr (1, 1)" "to_vector South_west = Inr (-1, -1)"
  by (simp_all add: to_vector_def direction_link_lookup_def link_vectors_def)

lemma from_vector_unit [simp]:
  "from_vector (1, 0) = Inr East" "from_vector (-1, 0) = Inr West"
  "from_vector (0, 1) = Inr North" "from_vector (0, -1) = Inr South"
  "from_vector (1, 1) = Inr North_east" "from_vector (-1, -1) = Inr South_west"
  "from_vector (1, -1) = Inr South_west" "from_vector (-1, 1) = Inr North_east"
  "from_vector (0, 0) = Inl KeyError"
  by (simp_all add: from_vector_def link_direction_lookup_def link_vectors_def unwrap_def)

lemma from_vector_unwrap: "from_vector (x, y) = from_vector (unwrap x, unwrap y)"
  by (simp add: from_vector_def unwrap_def)

lemma unwrap_range: "unwrap x \<in> {-1, 0, 1}"
  by (auto simp: unwrap_def)

lemma unwrap_0_iff: "unwrap x = 0 \<longleftrightarrow> x = 0"
  by (auto simp: unwrap_def)

text \<open>One step around a ring of more than two nodes, seen as a difference of coordinates.\<close>

lemma unwrap_step:
  assumes "2 < n" "0 \<le> x" "x < n" "d \<in> {-1, 0, 1}"
  shows "unwrap ((x + d) mod n - x) = d"
proof -
  consider "0 \<le> x + d" "x + d < n" | "x + d = n" | "x + d = -1" using assms by force
  then show ?thesis
  proof cases
    case 1
    then show ?thesis using assms by (auto simp: unwrap_def)
  next
    case 2
    then show ?thesis using assms by (auto simp: unwrap_def)
  next
    case 3
    then have "(x + d) mod n = n - 1" using assms by (simp add: zmod_minus1)
    then show ?thesis using assms 3 by (auto simp: unwrap_def)
  qed
qed

text \<open>
  Links from coordinates. In a torus of more than two nodes in each direction, the
  difference of the coordinates of a node and of its neighbour down a link, wrapped or not,
  is mapped back to that link.
\<close>

theorem from_vector_neighbour:
  assumes "2 < w" "2 < h" "0 \<le> x" "x < w" "0 \<le> y" "y < h"
    and "to_vector l = Inr (dx, dy)"
  shows "from_vector ((x + dx) mod w - x, (y + dy) mod h - y) = Inr l"
proof -
  have "dx \<in> {-1, 0, 1} \<and> dy \<in> {-1, 0, 1} \<and> from_vector (dx, dy) = Inr l"
    using assms(7) by (cases l) auto
  with assms show ?thesis by (simp add: from_vector_unwrap[of "_ - x"] unwrap_step)
qed

theorem from_vector_neighbour_witness:
  "from_vector ((3 + 1) mod 4 - 3, (1 + 0) mod 4 - 1) = Inr East"
  by (rule from_vector_neighbour) simp_all

text \<open>
  The lookup fails exactly for the null vector: every other difference of coordinates
  names a link.
\<close>

theorem from_vector_error: "from_vector (x, y) = Inl KeyError \<longleftrightarrow> x = 0 \<and> y = 0"
  using unwrap_range[of x] unwrap_range[of y] unwrap_0_iff[of x] unwrap_0_iff[of y]
  by (subst from_vector_unwrap) auto

text \<open>
  Opposite links: \<open>(link + 3) % 6\<close> is always a link, reverses the vector, and is its own
  inverse.
\<close>

theorem opposite_reverses:
  "\<exists>l' dx dy. opposite l = Inr l' \<and> opposite l' = Inr l \<and>
     to_vector l = Inr (dx, dy) \<and> to_vector l' = Inr (- dx, - dy)"
  by (cases l) simp_all

end
