(* ===== verification/Coordinates.thy ===== *)
theory Coordinates
  imports Links
begin

unbundle bit_operations_syntax

text \<open>
  Board, triad and chip coordinates (\<open>coordinates.py\<close>): the wrap-around flags, the board
  down a link, and the conversions between boards, triads and chips. The geometry of a board,
  \<open>SpiNNakerTriadGeometry\<close> of the package \<open>spinn_machine\<close>, is a parameter.
\<close>

type_synonym board = "int \<times> int \<times> int"
type_synonym board_link = "int \<times> int \<times> int \<times> link"

section \<open>Wrap-around flags\<close>

datatype wrap_around = Wrap_none | Wrap_x | Wrap_y | Wrap_both

fun wrap_value :: "wrap_around \<Rightarrow> int" where
  "wrap_value Wrap_none = 0"
| "wrap_value Wrap_x = 1"
| "wrap_value Wrap_y = 2"
| "wrap_value Wrap_both = 3"

text \<open>The constructor call \<open>WrapAround(n)\<close>, for the two-bit values the code forms.\<close>

definition wrap_of :: "int \<Rightarrow> wrap_around" where
  "wrap_of n =
     (if n = 0 then Wrap_none else if n = 1 then Wrap_x else if n = 2 then Wrap_y else Wrap_both)"

definition wrap_or :: "wrap_around \<Rightarrow> wrap_around \<Rightarrow> wrap_around" where
  "wrap_or a b = wrap_of (wrap_value a OR wrap_value b)"

text \<open>\<open>torus & WrapAround.x\<close> and \<open>torus & WrapAround.y\<close>, as truth values.\<close>

definition has_x :: "wrap_around \<Rightarrow> bool" where
  "has_x t \<longleftrightarrow> wrap_value t AND 1 \<noteq> 0"

definition has_y :: "wrap_around \<Rightarrow> bool" where
  "has_y t \<longleftrightarrow> wrap_value t AND 2 \<noteq> 0"

section \<open>The board down a link\<close>

definition link_to_vector_base :: "((int \<times> link) \<times> board) list" where
  "link_to_vector_base =
     [((0, North), (0, 0, 2)), ((0, North_east), (0, 0, 1)), ((0, East), (0, -1, 2)),
      ((1, North), (1, 1, -1)), ((1, North_east), (1, 0, 1)), ((1, East), (1, 0, -1)),
      ((2, North), (0, 1, -1)), ((2, North_east), (1, 1, -2)), ((2, East), (0, 0, -1))]"

text \<open>The table is completed with the opposite of each entry.\<close>

definition link_to_vector :: "(int \<times> link) \<Rightarrow> board option" where
  "link_to_vector =
     map_of ([((z + dz, l'), (- dx, - dy, - dz)).
               ((z, l), (dx, dy, dz)) \<leftarrow> link_to_vector_base, Inr l' \<leftarrow> [opposite l]]
             @ link_to_vector_base)"

definition board_down_link ::
    "int \<Rightarrow> int \<Rightarrow> int \<Rightarrow> link \<Rightarrow> int \<Rightarrow> int \<Rightarrow> (int \<times> int \<times> int \<times> wrap_around) res" where
  "board_down_link x1 y1 z1 link width height =
     (case link_to_vector (z1, link) of
        None \<Rightarrow> Inl KeyError
      | Some (dx, dy, dz) \<Rightarrow>
          if width = 0 \<or> height = 0 then Inl ZeroDivisionError
          else
            let x2' = x1 + dx; y2' = y1 + dy;
                x2 = x2' mod width; y2 = y2' mod height;
                z2 = z1 + dz;
                wrapped = wrap_of ((if x2' \<noteq> x2 then wrap_value Wrap_x else 0) OR
                                   (if y2' \<noteq> y2 then wrap_value Wrap_y else 0))
            in Inr (x2, y2, z2, wrapped))"

section \<open>Boards and chips\<close>

definition board_to_chip :: "int \<Rightarrow> int \<Rightarrow> int \<Rightarrow> int \<times> int" where
  "board_to_chip x y z =
     (let x = x * 12; y = y * 12
      in if z = 1 then (x + 8, y + 4) else if z = 2 then (x + 4, y + 8) else (x, y))"

text \<open>
  \<open>get_ethernet_chip_coordinates(x, y, w, h)\<close> of the triad geometry is the parameter
  \<open>eth\<close>: the Ethernet chip of the board a chip is on.
\<close>

type_synonym eth_geometry = "int \<Rightarrow> int \<Rightarrow> int \<Rightarrow> int \<Rightarrow> int \<times> int"

definition chip_to_board :: "eth_geometry \<Rightarrow> int \<Rightarrow> int \<Rightarrow> int \<Rightarrow> int \<Rightarrow> board res" where
  "chip_to_board eth x y w h =
     (let (x, y) = eth x y w h;
          tx = x mod 12; ty = y mod 12;
          x = x div 12; y = y div 12
      in if tx = 0 \<and> ty = 0 then Inr (x, y, 0)
         else if tx = 8 \<and> ty = 4 then Inr (x, y, 1)
         else if tx = 4 \<and> ty = 8 then Inr (x, y, 2)
         else Inl AssertionError)"

definition triad_dimensions_to_chips :: "int \<Rightarrow> int \<Rightarrow> wrap_around \<Rightarrow> int \<times> int" where
  "triad_dimensions_to_chips w h torus =
     (let w = w * 12; h = h * 12;
          w = (if \<not> has_x torus then w + 4 else w);
          h = (if \<not> has_y torus then h + 4 else h)
      in (w, h))"

section \<open>Lemmas\<close>

text \<open>The chip offset of a board link: the same from all three boards of a triad.\<close>

fun chip_offset :: "link \<Rightarrow> int \<times> int" where
  "chip_offset North = (4, 8)"
| "chip_offset North_east = (8, 4)"
| "chip_offset East = (4, -4)"
| "chip_offset South = (-4, -8)"
| "chip_offset South_west = (-8, -4)"
| "chip_offset West = (-4, 4)"

lemma has_simps [simp]:
  "has_x Wrap_x" "has_x Wrap_both" "\<not> has_x Wrap_none" "\<not> has_x Wrap_y"
  "has_y Wrap_y" "has_y Wrap_both" "\<not> has_y Wrap_none" "\<not> has_y Wrap_x"
  by (simp_all add: has_x_def has_y_def)

lemma has_or [simp]:
  "has_x (wrap_or a b) \<longleftrightarrow> has_x a \<or> has_x b" "has_y (wrap_or a b) \<longleftrightarrow> has_y a \<or> has_y b"
  by (cases a; cases b; simp add: wrap_or_def wrap_of_def)+

lemma wrap_eqI: "has_x a = has_x b \<Longrightarrow> has_y a = has_y b \<Longrightarrow> a = b"
  by (cases a; cases b) simp_all

lemma wrap_none_iff: "a = Wrap_none \<longleftrightarrow> \<not> has_x a \<and> \<not> has_y a"
  by (cases a) simp_all

text \<open>The finished table: one vector per board of a triad and link.\<close>

fun board_vector :: "int \<Rightarrow> link \<Rightarrow> board" where
  "board_vector z North =
     (if z = 0 then (0, 0, 2) else if z = 1 then (1, 1, -1) else (0, 1, -1))"
| "board_vector z North_east =
     (if z = 0 then (0, 0, 1) else if z = 1 then (1, 0, 1) else (1, 1, -2))"
| "board_vector z East =
     (if z = 0 then (0, -1, 2) else if z = 1 then (1, 0, -1) else (0, 0, -1))"
| "board_vector z South =
     (if z = 0 then (-1, -1, 1) else if z = 1 then (0, -1, 1) else (0, 0, -2))"
| "board_vector z South_west =
     (if z = 0 then (-1, -1, 2) else if z = 1 then (0, 0, -1) else (-1, 0, -1))"
| "board_vector z West =
     (if z = 0 then (-1, 0, 1) else if z = 1 then (0, 0, 1) else (0, 1, -2))"

lemma link_to_vector_table:
  "link_to_vector (z, l) = (if z \<in> {0, 1, 2} then Some (board_vector z l) else None)"
  by (cases l) (auto simp: link_to_vector_def link_to_vector_base_def)

lemma board_vector_range:
  "z \<in> {0, 1, 2} \<Longrightarrow> z + snd (snd (board_vector z l)) \<in> {0, 1, 2}"
  by (cases l) auto

lemma board_vector_opp:
  "z \<in> {0, 1, 2} \<Longrightarrow> board_vector z l = (dx, dy, dz) \<Longrightarrow>
   board_vector (z + dz) (opp l) = (- dx, - dy, - dz)"
  by (cases l) auto

lemma board_down_link_eq:
  assumes "z \<in> {0, 1, 2}" "w \<noteq> 0" "h \<noteq> 0" "board_vector z l = (dx, dy, dz)"
  shows "board_down_link x y z l w h =
     Inr ((x + dx) mod w, (y + dy) mod h, z + dz,
       wrap_of ((if x + dx \<noteq> (x + dx) mod w then 1 else 0) OR
                (if y + dy \<noteq> (y + dy) mod h then 2 else 0)))"
  using assms by (simp add: board_down_link_def link_to_vector_table Let_def)

lemma wrap_of_flags [simp]:
  "has_x (wrap_of ((if P then 1 else 0) OR (if Q then 2 else 0))) = P"
  "has_y (wrap_of ((if P then 1 else 0) OR (if Q then 2 else 0))) = Q"
  by (cases P; cases Q; simp add: wrap_of_def)+

text \<open>The links of a board never leave the machine, and fail only off the triad.\<close>

lemma board_down_link_ok:
  assumes "z \<in> {0, 1, 2}" "0 < w" "0 < h"
  obtains x2 y2 z2 wr where "board_down_link x y z l w h = Inr (x2, y2, z2, wr)"
    "0 \<le> x2" "x2 < w" "0 \<le> y2" "y2 < h" "z2 \<in> {0, 1, 2}"
proof -
  obtain dx dy dz where v: "board_vector z l = (dx, dy, dz)" using prod_cases3 by blast
  have z: "z + dz \<in> {0, 1, 2}" using board_vector_range[OF assms(1), of l] v by simp
  have "w \<noteq> 0" "h \<noteq> 0" using assms(2,3) by auto
  from that[OF board_down_link_eq[OF assms(1) this v] _ _ _ _ z] assms(2,3) show thesis by simp
qed

lemma board_down_link_total:
  assumes "z \<in> {0, 1, 2}" "0 < w" "0 < h"
  shows "\<exists>x2 y2 z2 wr. board_down_link x y z l w h = Inr (x2, y2, z2, wr)"
  by (rule board_down_link_ok[OF assms, of x y l]) blast

section \<open>Correctness\<close>

lemma mod_add_back: "0 \<le> (x::int) \<Longrightarrow> x < n \<Longrightarrow> ((x + d) mod n + - d) mod n = x"
  by (metis add.assoc add.right_inverse add_0_right mod_add_left_eq mod_pos_pos_trivial)

text \<open>
  Links are bidirectional. Following a link inside the machine gives a board of the
  machine, and the opposite link leads from there back to the start, wrapping around in
  the same directions.
\<close>

theorem board_down_link_opposite:
  assumes "0 \<le> x" "x < w" "0 \<le> y" "y < h" "z \<in> {0, 1, 2}"
  shows "\<exists>x2 y2 z2 wr l'. board_down_link x y z l w h = Inr (x2, y2, z2, wr) \<and>
     0 \<le> x2 \<and> x2 < w \<and> 0 \<le> y2 \<and> y2 < h \<and> z2 \<in> {0, 1, 2} \<and>
     opposite l = Inr l' \<and> board_down_link x2 y2 z2 l' w h = Inr (x, y, z, wr)"
proof -
  obtain dx dy dz where v: "board_vector z l = (dx, dy, dz)" using prod_cases3 by blast
  let ?x = "(x + dx) mod w" and ?y = "(y + dy) mod h"
  have w: "0 < w" "0 < h" using assms by auto
  have z: "z + dz \<in> {0, 1, 2}" using board_vector_range[OF assms(5), of l] v by simp
  have bx: "(?x + - dx) mod w = x" and by': "(?y + - dy) mod h = y"
    using assms by (simp_all only: mod_add_back)
  have fx: "(?x + - dx \<noteq> x) = (x + dx \<noteq> ?x)" and fy: "(?y + - dy \<noteq> y) = (y + dy \<noteq> ?y)" by auto
  note d = board_down_link_eq[OF assms(5) _ _ v, of w h x y]
  note b = board_down_link_eq[OF z _ _ board_vector_opp[OF assms(5) v], of w h ?x ?y]
  have r: "0 \<le> ?x" "?x < w" "0 \<le> ?y" "?y < h" using w by simp_all
  from w have "w \<noteq> 0" "h \<noteq> 0" by auto
  with d b z r show ?thesis by (simp only: bx by' fx fy opposite_opp) simp
qed

theorem board_down_link_opposite_witness:
  "\<exists>x2 y2 z2 wr l'. board_down_link 3 1 1 East 4 2 = Inr (x2, y2, z2, wr) \<and>
     0 \<le> x2 \<and> x2 < 4 \<and> 0 \<le> y2 \<and> y2 < 2 \<and> z2 \<in> {0, 1, 2} \<and>
     opposite East = Inr l' \<and> board_down_link x2 y2 z2 l' 4 2 = Inr (3, 1, 1, wr)"
  by (rule board_down_link_opposite) simp_all

text \<open>
  The geometry. The three boards of a triad tile the plane regularly: in chips, a link
  leads by the same offset from whichever board it starts, up to the size of the torus.
\<close>

theorem board_down_link_geometry:
  assumes "z \<in> {0, 1, 2}" "0 < w" "0 < h" "board_down_link x y z l w h = Inr (x2, y2, z2, wr)"
  shows "fst (board_to_chip x2 y2 z2) mod (12 * w) =
           (fst (board_to_chip x y z) + fst (chip_offset l)) mod (12 * w) \<and>
         snd (board_to_chip x2 y2 z2) mod (12 * h) =
           (snd (board_to_chip x y z) + snd (chip_offset l)) mod (12 * h)"
proof -
  obtain dx dy dz where v: "board_vector z l = (dx, dy, dz)" using prod_cases3 by blast
  have e: "x2 = (x + dx) mod w" "y2 = (y + dy) mod h" "z2 = z + dz"
    using assms board_down_link_eq[OF assms(1) _ _ v, of w h x y] by auto
  have lin: "board_to_chip (x + dx) (y + dy) (z + dz) =
     (fst (board_to_chip x y z) + fst (chip_offset l), snd (board_to_chip x y z) + snd (chip_offset l))"
    using v assms(1) by (cases l) (auto simp: board_to_chip_def)
  have m: "(12 * (a mod n) + c) mod (12 * n) = (12 * a + c) mod (12 * n)" for a n c :: int
    by (metis mod_add_left_eq mult_mod_right)
  have red: "fst (board_to_chip (a mod w) b c) mod (12 * w) = fst (board_to_chip a b c) mod (12 * w)"
    "snd (board_to_chip a (b mod h) c) mod (12 * h) = snd (board_to_chip a b c) mod (12 * h)" for a b c
    using m[of a w 0] m[of a w 4] m[of a w 8] m[of b h 0] m[of b h 4] m[of b h 8]
    by (auto simp: board_to_chip_def Let_def mult.commute)
  have ind: "fst (board_to_chip a b c) = fst (board_to_chip a b' c)"
    "snd (board_to_chip a b c) = snd (board_to_chip a' b c)" for a a' b b' c
    by (auto simp: board_to_chip_def Let_def)
  show ?thesis unfolding e using red ind lin by (metis fst_conv snd_conv)
qed

theorem board_down_link_geometry_witness:
  "fst (board_to_chip 0 1 0) mod (12 * 4) = (fst (board_to_chip 3 1 1) + 4) mod (12 * 4) \<and>
   snd (board_to_chip 0 1 0) mod (12 * 2) = (snd (board_to_chip 3 1 1) + -4) mod (12 * 2)"
  using board_down_link_geometry[of 1 4 2 3 1 East 0 1 0 Wrap_x]
  by (simp add: board_down_link_def link_to_vector_table wrap_of_def)

lemma chip_to_board_of_chip:
  assumes "0 \<le> x" "x < w" "0 \<le> y" "y < h" "z \<in> {0, 1, 2}"
    and "\<And>cx cy. 0 \<le> cx \<Longrightarrow> cx < 12 * w \<Longrightarrow> 0 \<le> cy \<Longrightarrow> cy < 12 * h \<Longrightarrow>
      (cx mod 12, cy mod 12) \<in> {(0, 0), (8, 4), (4, 8)} \<Longrightarrow>
      eth cx cy (12 * w) (12 * h) = (cx, cy)"
    and "board_to_chip x y z = (cx, cy)"
  shows "chip_to_board eth cx cy (12 * w) (12 * h) = Inr (x, y, z)"
proof -
  from assms(5,7) consider "z = 0" "cx = 12 * x" "cy = 12 * y"
    | "z = 1" "cx = 12 * x + 8" "cy = 12 * y + 4" | "z = 2" "cx = 12 * x + 4" "cy = 12 * y + 8"
    by (auto simp: board_to_chip_def Let_def)
  then show ?thesis
  proof cases
    case 1
    with assms(6)[of cx cy] assms(1-4) show ?thesis by (simp add: chip_to_board_def)
  next
    case 2
    with assms(6)[of cx cy] assms(1-4) show ?thesis by (simp add: chip_to_board_def)
  next
    case 3
    with assms(6)[of cx cy] assms(1-4) show ?thesis by (simp add: chip_to_board_def)
  qed
qed

text \<open>
  Boards and chips round trip. If the geometry maps the Ethernet chips of the system to
  themselves, the board of the Ethernet chip of a board is that board.
\<close>

theorem chip_board_roundtrip:
  assumes "0 \<le> x" "x < w" "0 \<le> y" "y < h" "z \<in> {0, 1, 2}"
    and "\<And>cx cy. 0 \<le> cx \<Longrightarrow> cx < 12 * w \<Longrightarrow> 0 \<le> cy \<Longrightarrow> cy < 12 * h \<Longrightarrow>
      (cx mod 12, cy mod 12) \<in> {(0, 0), (8, 4), (4, 8)} \<Longrightarrow>
      eth cx cy (12 * w) (12 * h) = (cx, cy)"
    and "board_to_chip x y z = (cx, cy)"
  shows "chip_to_board eth cx cy (12 * w) (12 * h) = Inr (x, y, z)"
  using assms by (rule chip_to_board_of_chip)

theorem chip_board_roundtrip_witness:
  "chip_to_board (\<lambda>x y _ _. (x, y)) 44 16 (12 * 4) (12 * 2) = Inr (3, 1, 1)"
  by (rule chip_board_roundtrip) (simp_all add: board_to_chip_def)

end
