(* ===== verification/PackTree.thy ===== *)
theory PackTree
  imports AreaToRect
begin

text \<open>
  The packing tree (\<open>pack_tree.py\<close>), which hands out rectangles of triads. A node is a
  rectangular region: a leaf that is free or allocated as a whole, or a region split in two.
  Methods that change a node return the changed tree. The candidate filter is a function
  argument, which may itself raise.
\<close>

section \<open>The tree\<close>

datatype pack_tree =
    Leaf (tx: int) (ty: int) (tw: int) (th: int) (tallocated: bool)
  | Split (tx: int) (ty: int) (tw: int) (th: int) (tallocated: bool)
      (lo: pack_tree) (hi: pack_tree)

type_synonym candidate_filter = "int \<Rightarrow> int \<Rightarrow> int \<Rightarrow> int \<Rightarrow> bool res"

text \<open>\<open>PackTree(x, y, width, height)\<close>.\<close>

definition new_tree :: "int \<Rightarrow> int \<Rightarrow> int \<Rightarrow> int \<Rightarrow> pack_tree" where
  "new_tree x y w h = Leaf x y w h False"

definition contains :: "pack_tree \<Rightarrow> int \<Rightarrow> int \<Rightarrow> bool" where
  "contains t x y \<longleftrightarrow> tx t \<le> x \<and> x < tx t + tw t \<and> ty t \<le> y \<and> y < ty t + th t"

fun hsplit :: "pack_tree \<Rightarrow> int \<Rightarrow> pack_tree res" where
  "hsplit (Leaf x0 y0 w h a) y =
     (if a then Inl AssertionError
      else Inr (Split x0 y0 w h a (new_tree x0 y0 w (y - y0)) (new_tree x0 y w (h - (y - y0)))))"
| "hsplit (Split x0 y0 w h a l r) y = Inl AssertionError"

fun vsplit :: "pack_tree \<Rightarrow> int \<Rightarrow> pack_tree res" where
  "vsplit (Leaf x0 y0 w h a) x =
     (if a then Inl AssertionError
      else Inr (Split x0 y0 w h a (new_tree x0 y0 (x - x0) h) (new_tree x y0 (w - (x - x0)) h)))"
| "vsplit (Split x0 y0 w h a l r) x = Inl AssertionError"

section \<open>Allocation\<close>

text \<open>The four corners, each tried once, in the order of the two nested generators.\<close>

fun try_corners ::
    "candidate_filter \<Rightarrow> int \<Rightarrow> int \<Rightarrow> (int \<times> int) list \<Rightarrow> (int \<times> int) list \<Rightarrow> (int \<times> int) option res"
where
  "try_corners cf w h tried [] = Inr None"
| "try_corners cf w h tried (key # keys) =
     (if key \<in> set tried then try_corners cf w h (key # tried) keys
      else case cf (fst key) (snd key) w h of
             Inl e \<Rightarrow> Inl e
           | Inr True \<Rightarrow> Inr (Some key)
           | Inr False \<Rightarrow> try_corners cf w h (key # tried) keys)"

definition corners :: "pack_tree \<Rightarrow> int \<Rightarrow> int \<Rightarrow> (int \<times> int) list" where
  "corners t w h = [(tx t + x, ty t + y). x \<leftarrow> [0, tw t - w], y \<leftarrow> [0, th t - h]]"

definition find_acceptable ::
    "candidate_filter \<Rightarrow> int \<Rightarrow> int \<Rightarrow> pack_tree \<Rightarrow> (int \<times> int) option res" where
  "find_acceptable cf w h t = try_corners cf w h [] (corners t w h)"

fun set_allocated :: "bool \<Rightarrow> pack_tree \<Rightarrow> pack_tree" where
  "set_allocated b (Leaf x y w h a) = Leaf x y w h b"
| "set_allocated b (Split x y w h a l r) = Split x y w h b l r"

fun update_child :: "bool \<Rightarrow> pack_tree \<Rightarrow> pack_tree \<Rightarrow> pack_tree" where
  "update_child first c (Split x y w h a l r) = (if first then Split x y w h a c r else Split x y w h a l c)"
| "update_child first c (Leaf x y w h a) = Leaf x y w h a"

definition child :: "bool \<Rightarrow> pack_tree \<Rightarrow> pack_tree" where
  "child first t = (if first then lo t else hi t)"

text \<open>
  Cutting \<open>w\<close> by \<open>h\<close> triads at the corner \<open>(x, y)\<close> out of a free leaf: split off the
  larger remainder, then the smaller one from the chosen child, and mark what is left.
\<close>

definition split_child_v :: "int \<Rightarrow> int \<Rightarrow> pack_tree \<Rightarrow> ((int \<times> int) \<times> pack_tree) res" where
  "split_child_v x w c =
     (case vsplit c (if x \<noteq> tx c then x else tx c + w) of
        Inl e \<Rightarrow> Inl e
      | Inr c' \<Rightarrow>
          let first = (x = tx c); g = child first c'
          in Inr ((tx g, ty g), update_child first (set_allocated True g) c'))"

definition split_child_h :: "int \<Rightarrow> int \<Rightarrow> pack_tree \<Rightarrow> ((int \<times> int) \<times> pack_tree) res" where
  "split_child_h y h c =
     (case hsplit c (if y \<noteq> ty c then y else ty c + h) of
        Inl e \<Rightarrow> Inl e
      | Inr c' \<Rightarrow>
          let first = (y = ty c); g = child first c'
          in Inr ((tx g, ty g), update_child first (set_allocated True g) c'))"

definition split_child :: "int \<Rightarrow> int \<Rightarrow> int \<Rightarrow> int \<Rightarrow> pack_tree \<Rightarrow> ((int \<times> int) \<times> pack_tree) res" where
  "split_child x y w h c =
     (if tw c \<noteq> w then split_child_v x w c
      else if th c \<noteq> h then split_child_h y h c
      else Inr ((tx c, ty c), set_allocated True c))"

definition carve :: "int \<Rightarrow> int \<Rightarrow> int \<Rightarrow> int \<Rightarrow> pack_tree \<Rightarrow> ((int \<times> int) \<times> pack_tree) res" where
  "carve x y w h t =
     (if w = tw t \<and> h = th t then
        (if x = tx t \<and> y = ty t then Inr ((tx t, ty t), set_allocated True t)
         else Inl AssertionError)
      else
        let dw = tw t - w; dh = th t - h;
            horizontal = dh > dw;
            first = (if horizontal then y = ty t else x = tx t)
        in case (if horizontal then hsplit t (if y \<noteq> ty t then y else y + h)
                 else vsplit t (if x \<noteq> tx t then x else x + w)) of
             Inl e \<Rightarrow> Inl e
           | Inr t' \<Rightarrow>
               (case split_child x y w h (child first t') of
                  Inl e \<Rightarrow> Inl e
                | Inr (xy, c) \<Rightarrow> Inr (xy, update_child first c t')))"

text \<open>
  \<open>sorted(self.children, key=area)\<close>: the first child unless the second is strictly smaller.
\<close>

definition first_is_smaller :: "pack_tree \<Rightarrow> pack_tree \<Rightarrow> bool" where
  "first_is_smaller l r \<longleftrightarrow> tw l * th l \<le> tw r * th r"

fun alloc :: "candidate_filter \<Rightarrow> int \<Rightarrow> int \<Rightarrow> pack_tree \<Rightarrow> ((int \<times> int) option \<times> pack_tree) res" where
  "alloc cf w h (Split x0 y0 w0 h0 a l r) =
     (if a then Inr (None, Split x0 y0 w0 h0 a l r)
      else if w > w0 \<or> h > h0 then Inr (None, Split x0 y0 w0 h0 a l r)
      else if first_is_smaller l r then
        (case alloc cf w h l of
           Inl e \<Rightarrow> Inl e
         | Inr (Some xy, l') \<Rightarrow> Inr (Some xy, Split x0 y0 w0 h0 a l' r)
         | Inr (None, l') \<Rightarrow>
             (case alloc cf w h r of
                Inl e \<Rightarrow> Inl e
              | Inr (xy, r') \<Rightarrow> Inr (xy, Split x0 y0 w0 h0 a l' r')))
      else
        (case alloc cf w h r of
           Inl e \<Rightarrow> Inl e
         | Inr (Some xy, r') \<Rightarrow> Inr (Some xy, Split x0 y0 w0 h0 a l r')
         | Inr (None, r') \<Rightarrow>
             (case alloc cf w h l of
                Inl e \<Rightarrow> Inl e
              | Inr (xy, l') \<Rightarrow> Inr (xy, Split x0 y0 w0 h0 a l' r'))))"
| "alloc cf w h (Leaf x0 y0 w0 h0 a) =
     (if a then Inr (None, Leaf x0 y0 w0 h0 a)
      else if w > w0 \<or> h > h0 then Inr (None, Leaf x0 y0 w0 h0 a)
      else case find_acceptable cf w h (Leaf x0 y0 w0 h0 a) of
             Inl e \<Rightarrow> Inl e
           | Inr None \<Rightarrow> Inr (None, Leaf x0 y0 w0 h0 a)
           | Inr (Some (x, y)) \<Rightarrow>
               (case carve x y w h (Leaf x0 y0 w0 h0 a) of
                  Inl e \<Rightarrow> Inl e
                | Inr (xy, t') \<Rightarrow> Inr (Some xy, t')))"

fun alloc_area ::
    "candidate_filter \<Rightarrow> int \<Rightarrow> rat \<Rightarrow> pack_tree
     \<Rightarrow> ((int \<times> int \<times> int \<times> int) option \<times> pack_tree) res"
where
  "alloc_area cf area ratio (Split x0 y0 w0 h0 a l r) =
     (if a then Inr (None, Split x0 y0 w0 h0 a l r)
      else if area > w0 * h0 then Inr (None, Split x0 y0 w0 h0 a l r)
      else if first_is_smaller l r then
        (case alloc_area cf area ratio l of
           Inl e \<Rightarrow> Inl e
         | Inr (Some xy, l') \<Rightarrow> Inr (Some xy, Split x0 y0 w0 h0 a l' r)
         | Inr (None, l') \<Rightarrow>
             (case alloc_area cf area ratio r of
                Inl e \<Rightarrow> Inl e
              | Inr (xy, r') \<Rightarrow> Inr (xy, Split x0 y0 w0 h0 a l' r')))
      else
        (case alloc_area cf area ratio r of
           Inl e \<Rightarrow> Inl e
         | Inr (Some xy, r') \<Rightarrow> Inr (Some xy, Split x0 y0 w0 h0 a l r')
         | Inr (None, r') \<Rightarrow>
             (case alloc_area cf area ratio l of
                Inl e \<Rightarrow> Inl e
              | Inr (xy, l') \<Rightarrow> Inr (xy, Split x0 y0 w0 h0 a l' r'))))"
| "alloc_area cf area ratio (Leaf x0 y0 w0 h0 a) =
     (if a then Inr (None, Leaf x0 y0 w0 h0 a)
      else if area > w0 * h0 then Inr (None, Leaf x0 y0 w0 h0 a)
      else case area_to_rect area w0 h0 ratio of
             Inl e \<Rightarrow> Inl e
           | Inr None \<Rightarrow> Inr (None, Leaf x0 y0 w0 h0 a)
           | Inr (Some (w, h)) \<Rightarrow>
               (case alloc cf w h (Leaf x0 y0 w0 h0 a) of
                  Inl e \<Rightarrow> Inl e
                | Inr (None, t') \<Rightarrow> Inr (None, t')
                | Inr (Some (x, y), t') \<Rightarrow> Inr (Some (x, y, w, h), t')))"

section \<open>Requesting one triad\<close>

text \<open>The split towards a wanted triad: on the side where the most room is left.\<close>

definition request_split :: "int \<Rightarrow> int \<Rightarrow> pack_tree \<Rightarrow> pack_tree res" where
  "request_split x y t =
     (let l = x - tx t; r = (tx t + tw t) - x - 1;
          a = (ty t + th t) - y - 1; b = y - ty t;
          largest = max (max l r) (max a b)
      in if l = largest then vsplit t x
         else if r = largest then vsplit t (x + 1)
         else if a = largest then hsplit t (y + 1)
         else hsplit t y)"

text \<open>What a request may still cost: the measure that ends the recursion.\<close>

fun request_cost :: "pack_tree \<Rightarrow> nat" where
  "request_cost (Leaf x y w h a) = nat (3 * (w * h) - 2)"
| "request_cost (Split x y w h a l r) = Suc (request_cost l + request_cost r)"

lemma vsplit_cost:
  assumes "0 < x - x0" "0 < x0 + w - x" "0 < (h::int)"
  shows "Suc (nat (3 * ((x - x0) * h) - 2) + nat (3 * ((w - (x - x0)) * h) - 2)) < nat (3 * (w * h) - 2)"
proof -
  have "1 * 1 \<le> (x - x0) * h" "1 * 1 \<le> (w - (x - x0)) * h"
    using assms by (intro mult_mono; simp)+
  moreover have "w * h = (x - x0) * h + (w - (x - x0)) * h" by (simp add: algebra_simps)
  ultimately show ?thesis by linarith
qed

text \<open>A wanted triad inside a larger leaf is always split off properly.\<close>

lemma request_split_cases:
  assumes "contains (Leaf x0 y0 w h False) x y" "\<not> (w = 1 \<and> h = 1)"
  obtains (v) k where "request_split x y (Leaf x0 y0 w h False) = vsplit (Leaf x0 y0 w h False) k"
      "x0 < k" "k < x0 + w"
  | (h) k where "request_split x y (Leaf x0 y0 w h False) = hsplit (Leaf x0 y0 w h False) k"
      "y0 < k" "k < y0 + h"
proof -
  have c: "x0 \<le> x" "x < x0 + w" "y0 \<le> y" "y < y0 + h" using assms(1) by (auto simp: contains_def)
  let ?L = "Leaf x0 y0 w h False"
  let ?l = "x - x0" and ?r = "(x0 + w) - x - 1" and ?a = "(y0 + h) - y - 1" and ?b = "y - y0"
  define m where "m = max (max ?l ?r) (max ?a ?b)"
  have m: "m = ?l \<or> m = ?r \<or> m = ?a \<or> m = ?b" by (auto simp: m_def max_def)
  have "0 < m" using c assms(2) by (auto simp: m_def less_max_iff_disj)
  have "request_split x y ?L =
     (if ?l = m then vsplit ?L x else if ?r = m then vsplit ?L (x + 1)
      else if ?a = m then hsplit ?L (y + 1) else hsplit ?L y)"
    by (simp only: request_split_def Let_def m_def pack_tree.sel)
  then show thesis using m c \<open>0 < m\<close> v[of x] v[of "x + 1"] h[of "y + 1"] h[of y]
    by (auto simp del: vsplit.simps hsplit.simps split: if_splits)
qed

lemma request_split_cost:
  assumes "contains (Leaf x0 y0 w h False) x y" "\<not> (w = 1 \<and> h = 1)"
    "request_split x y (Leaf x0 y0 w h False) = Inr t"
  shows "request_cost t < request_cost (Leaf x0 y0 w h False)"
  using assms(1,2)
proof (cases rule: request_split_cases)
  case (v k)
  with assms show ?thesis using vsplit_cost[of k x0 w h] by (auto simp: new_tree_def contains_def)
next
  case (h k)
  with assms show ?thesis using vsplit_cost[of k y0 h w]
    by (auto simp: new_tree_def contains_def mult.commute)
qed

function request :: "int \<Rightarrow> int \<Rightarrow> pack_tree \<Rightarrow> ((int \<times> int) option \<times> pack_tree) res" where
  "request x y (Split x0 y0 w h a l r) =
     (if \<not> contains (Split x0 y0 w h a l r) x y then Inr (None, Split x0 y0 w h a l r)
      else case request x y l of
             Inl e \<Rightarrow> Inl e
           | Inr (Some xy, l') \<Rightarrow> Inr (Some xy, Split x0 y0 w h a l' r)
           | Inr (None, l') \<Rightarrow>
               (case request x y r of
                  Inl e \<Rightarrow> Inl e
                | Inr (xy, r') \<Rightarrow> Inr (xy, Split x0 y0 w h a l' r')))"
| "request x y (Leaf x0 y0 w h a) =
     (if \<not> contains (Leaf x0 y0 w h a) x y then Inr (None, Leaf x0 y0 w h a)
      else if a then Inr (None, Leaf x0 y0 w h a)
      else if w = 1 \<and> h = 1 then Inr (Some (x0, y0), Leaf x0 y0 w h True)
      else case request_split x y (Leaf x0 y0 w h a) of
             Inl e \<Rightarrow> Inl e
           | Inr t \<Rightarrow> request x y t)"
  by pat_completeness auto
termination
proof (relation "measure (\<lambda>(x, y, t). request_cost t)"; (simp; fail)?)
  fix x y x0 y0 w h :: int and a t
  assume "\<not> \<not> contains (Leaf x0 y0 w h a) x y" "\<not> a" "\<not> (w = 1 \<and> h = 1)"
    "request_split x y (Leaf x0 y0 w h a) = Inr t"
  then show "((x, y, t), x, y, Leaf x0 y0 w h a) \<in> measure (\<lambda>(x, y, t). request_cost t)"
    using request_split_cost[of x0 y0 w h x y t] by simp
qed

section \<open>Freeing\<close>

text \<open>A node is an empty leaf: not allocated and without children.\<close>

definition is_free_leaf :: "pack_tree \<Rightarrow> bool" where
  "is_free_leaf t = (case t of Leaf _ _ _ _ a \<Rightarrow> \<not> a | Split _ _ _ _ _ _ _ \<Rightarrow> False)"

text \<open>After a child has freed the region, two empty leaves are merged.\<close>

definition merge_children :: "pack_tree \<Rightarrow> pack_tree" where
  "merge_children t =
     (case t of
        Split x y w h a l r \<Rightarrow> if is_free_leaf l \<and> is_free_leaf r then Leaf x y w h a else t
      | Leaf _ _ _ _ _ \<Rightarrow> t)"

fun free :: "int \<Rightarrow> int \<Rightarrow> pack_tree \<Rightarrow> pack_tree res" where
  "free x y (Leaf x0 y0 w h a) =
     (if x = x0 \<and> y = y0 then (if \<not> a then Inl FreeError else Inr (Leaf x0 y0 w h False))
      else Inl FreeError)"
| "free x y (Split x0 y0 w h a l r) =
     (if contains l x y then
        (case free x y l of
           Inl e \<Rightarrow> Inl e | Inr l' \<Rightarrow> Inr (merge_children (Split x0 y0 w h a l' r)))
      else if contains r x y then
        (case free x y r of
           Inl e \<Rightarrow> Inl e | Inr r' \<Rightarrow> Inr (merge_children (Split x0 y0 w h a l r')))
      else Inl FreeError)"

section \<open>The abstract store of rectangles\<close>

type_synonym rect = "int \<times> int \<times> int \<times> int"

fun cells :: "rect \<Rightarrow> (int \<times> int) set" where
  "cells (x, y, w, h) = {x..<x + w} \<times> {y..<y + h}"

definition bounds :: "pack_tree \<Rightarrow> rect" where
  "bounds t = (tx t, ty t, tw t, th t)"

abbreviation region :: "pack_tree \<Rightarrow> (int \<times> int) set" where
  "region t \<equiv> cells (bounds t)"

text \<open>The allocated rectangles, and the free ones between which the tree is split.\<close>

fun rects :: "pack_tree \<Rightarrow> rect set" where
  "rects (Leaf x y w h a) = (if a then {(x, y, w, h)} else {})"
| "rects (Split x y w h a l r) = rects l \<union> rects r"

fun free_rects :: "pack_tree \<Rightarrow> rect set" where
  "free_rects (Leaf x y w h a) = (if a then {} else {(x, y, w, h)})"
| "free_rects (Split x y w h a l r) = free_rects l \<union> free_rects r"

text \<open>The two ways the children of a node share its region.\<close>

definition adjoin :: "rect \<Rightarrow> rect \<Rightarrow> rect \<Rightarrow> bool" where
  "adjoin b l r =
     (case b of (x, y, w, h) \<Rightarrow> case l of (lx, ly, lw, lh) \<Rightarrow>
        lx = x \<and> ly = y \<and>
        (lw = w \<and> r = (x, y + lh, w, h - lh) \<or> lh = h \<and> r = (x + lw, y, w - lw, h)))"

text \<open>
  The invariant: sizes are positive, children tile their parent, a split node is not itself
  allocated and has something allocated below it.
\<close>

fun tree_ok :: "pack_tree \<Rightarrow> bool" where
  "tree_ok (Leaf x y w h a) \<longleftrightarrow> 0 < w \<and> 0 < h"
| "tree_ok (Split x y w h a l r) \<longleftrightarrow>
     \<not> a \<and> tree_ok l \<and> tree_ok r \<and> \<not> (is_free_leaf l \<and> is_free_leaf r) \<and>
     adjoin (x, y, w, h) (bounds l) (bounds r)"

lemma bounds_simps [simp]:
  "bounds (Leaf x y w h a) = (x, y, w, h)" "bounds (Split x y w h a l r) = (x, y, w, h)"
  by (simp_all add: bounds_def)

lemma is_free_leaf_simps [simp]:
  "is_free_leaf (Leaf x y w h a) \<longleftrightarrow> \<not> a" "\<not> is_free_leaf (Split x y w h a l r)"
  by (simp_all add: is_free_leaf_def)

lemma contains_region: "contains t x y \<longleftrightarrow> (x, y) \<in> region t"
  by (auto simp: contains_def bounds_def)

lemma tree_ok_size: "tree_ok t \<Longrightarrow> 0 < tw t \<and> 0 < th t"
  by (induction t) (auto simp: adjoin_def bounds_def)

lemma adjoin_cells:
  assumes "adjoin b (lx, ly, lw, lh) (rx, ry, rw, rh)" "0 < lw" "0 < lh" "0 < rw" "0 < rh"
  shows "cells b = cells (lx, ly, lw, lh) \<union> cells (rx, ry, rw, rh)"
    "cells (lx, ly, lw, lh) \<inter> cells (rx, ry, rw, rh) = {}"
  using assms by (auto simp: adjoin_def)

lemma split_region:
  assumes "tree_ok (Split x y w h a l r)"
  shows "cells (x, y, w, h) = region l \<union> region r" "region l \<inter> region r = {}"
  using adjoin_cells[of "(x, y, w, h)" "tx l" "ty l" "tw l" "th l" "tx r" "ty r" "tw r" "th r"]
    assms tree_ok_size[of l] tree_ok_size[of r] by (auto simp: bounds_def)

lemma rects_within:
  assumes "tree_ok t" "(x, y, w, h) \<in> rects t"
  shows "0 < w \<and> 0 < h \<and> cells (x, y, w, h) \<subseteq> region t"
  using assms
proof (induction t)
  case (Split x0 y0 w0 h0 a l r)
  with split_region(1)[OF Split.prems(1)] show ?case by auto
qed (auto split: if_splits)

lemma rects_disjoint:
  assumes "tree_ok t" "r1 \<in> rects t" "r2 \<in> rects t" "r1 \<noteq> r2"
  shows "cells r1 \<inter> cells r2 = {}"
  using assms
proof (induction t)
  case (Split x0 y0 w0 h0 a l r)
  have "cells q \<subseteq> region s" if "tree_ok s" "q \<in> rects s" for q s
    using that rects_within[of s] by (cases q) auto
  with split_region(2)[OF Split.prems(1)] Split show ?case by (simp, blast)
qed (auto split: if_splits)

lemma free_leaf_iff: "tree_ok t \<Longrightarrow> is_free_leaf t \<longleftrightarrow> rects t = {}"
  by (induction t) auto

section \<open>Taking a rectangle out of a free leaf\<close>

text \<open>
  Every successful allocation replaces one free leaf by a tree of the same region with a
  single allocated rectangle, and freeing that rectangle gives the leaf back.
\<close>

inductive grow :: "pack_tree \<Rightarrow> rect \<Rightarrow> pack_tree \<Rightarrow> bool" where
  grow_leaf: "tree_ok t \<Longrightarrow> bounds t = (x0, y0, w0, h0) \<Longrightarrow> rects t = {(x, y, w, h)} \<Longrightarrow>
    free x y t = Inr (Leaf x0 y0 w0 h0 False) \<Longrightarrow> grow (Leaf x0 y0 w0 h0 False) (x, y, w, h) t"
| grow_lo: "grow l q l' \<Longrightarrow> grow (Split x y w h a l r) q (Split x y w h a l' r)"
| grow_hi: "grow r q r' \<Longrightarrow> grow (Split x y w h a l r) q (Split x y w h a l r')"

lemma grow_spec:
  assumes "grow t q t'" "tree_ok t"
  shows "tree_ok t' \<and> bounds t' = bounds t \<and> rects t' = insert q (rects t) \<and> cells q \<subseteq> region t \<and>
    (\<forall>q' \<in> rects t. cells q \<inter> cells q' = {}) \<and> \<not> is_free_leaf t' \<and>
    (fst q, fst (snd q)) \<in> cells q \<and> free (fst q) (fst (snd q)) t' = Inr t"
  using assms
proof (induction rule: grow.induct)
  case (grow_leaf t x0 y0 w0 h0 x y w h)
  then have "0 < w \<and> 0 < h \<and> cells (x, y, w, h) \<subseteq> region t" using rects_within[of t x y w h] by simp
  with grow_leaf free_leaf_iff[of t] show ?case by auto
next
  case (grow_lo l q l' x y w h a r)
  then have IH: "tree_ok l'" "bounds l' = bounds l" "rects l' = insert q (rects l)" "cells q \<subseteq> region l"
    "\<forall>q'\<in>rects l. cells q \<inter> cells q' = {}" "\<not> is_free_leaf l'" "(fst q, fst (snd q)) \<in> cells q"
    "free (fst q) (fst (snd q)) l' = Inr l" by auto
  note sp = split_region[OF grow_lo.prems]
  have "cells q' \<subseteq> region r" if "q' \<in> rects r" for q'
    using rects_within[of r] grow_lo.prems that by (cases q') auto
  then have dr: "\<forall>q'\<in>rects r. cells q \<inter> cells q' = {}" using IH(4) sp(2) by blast
  have "free (fst q) (fst (snd q)) (Split x y w h a l' r) = Inr (Split x y w h a l r)"
    using IH grow_lo.prems by (auto simp: contains_region merge_children_def)
  with IH dr sp grow_lo.prems show ?case by auto
next
  case (grow_hi r q r' x y w h a l)
  then have IH: "tree_ok r'" "bounds r' = bounds r" "rects r' = insert q (rects r)" "cells q \<subseteq> region r"
    "\<forall>q'\<in>rects r. cells q \<inter> cells q' = {}" "\<not> is_free_leaf r'" "(fst q, fst (snd q)) \<in> cells q"
    "free (fst q) (fst (snd q)) r' = Inr r" by auto
  note sp = split_region[OF grow_hi.prems]
  have "cells q' \<subseteq> region l" if "q' \<in> rects l" for q'
    using rects_within[of l] grow_hi.prems that by (cases q') auto
  then have dr: "\<forall>q'\<in>rects l. cells q \<inter> cells q' = {}" using IH(4) sp(2) by blast
  have "(fst q, fst (snd q)) \<notin> region l" using IH(4,7) sp(2) by blast
  then have "free (fst q) (fst (snd q)) (Split x y w h a l r') = Inr (Split x y w h a l r)"
    using IH grow_hi.prems by (auto simp: contains_region merge_children_def)
  with IH dr sp grow_hi.prems show ?case by auto
qed


text \<open>The corners of a free leaf, and what \<open>carve\<close> makes of one.\<close>

lemma carve_spec:
  assumes "0 < w" "0 < h" "w \<le> w0" "h \<le> h0"
    and "x = x0 \<or> x = x0 + (w0 - w)" "y = y0 \<or> y = y0 + (h0 - h)"
  shows "\<exists>t. carve x y w h (Leaf x0 y0 w0 h0 False) = Inr ((x, y), t) \<and>
     grow (Leaf x0 y0 w0 h0 False) (x, y, w, h) t"
proof -
  have "\<exists>t. carve x y w h (Leaf x0 y0 w0 h0 False) = Inr ((x, y), t) \<and> tree_ok t \<and>
     bounds t = (x0, y0, w0, h0) \<and> rects t = {(x, y, w, h)} \<and>
     free x y t = Inr (Leaf x0 y0 w0 h0 False)"
    using assms
    by (cases "w = w0"; cases "h = h0"; cases "h0 - h > w0 - w"; cases "x = x0"; cases "y = y0")
      (simp_all add: carve_def split_child_def split_child_v_def split_child_h_def child_def
        new_tree_def adjoin_def contains_def merge_children_def Let_def)
  then show ?thesis by (blast intro: grow_leaf)
qed

lemma try_corners_error: "try_corners cf w h tried keys = Inl e \<Longrightarrow> \<exists>x y. cf x y w h = Inl e"
  by (induction keys arbitrary: tried) (auto split: if_splits sum.splits bool.splits)

lemma try_corners_Some:
  "try_corners cf w h tried keys = Inr (Some (x, y)) \<Longrightarrow> (x, y) \<in> set keys \<and> cf x y w h = Inr True"
  by (induction keys arbitrary: tried) (fastforce split: if_splits sum.splits bool.splits)+

lemma try_corners_None:
  "try_corners cf w h tried keys = Inr None \<Longrightarrow> (x, y) \<in> set keys \<Longrightarrow> (x, y) \<notin> set tried \<Longrightarrow>
   cf x y w h = Inr False"
  by (induction keys arbitrary: tried) (fastforce split: if_splits sum.splits bool.splits)+

lemma set_corners:
  "(x, y) \<in> set (corners t w h) \<longleftrightarrow>
     (x = tx t \<or> x = tx t + (tw t - w)) \<and> (y = ty t \<or> y = ty t + (th t - h))"
  by (auto simp: corners_def)

text \<open>No free region of the tree can take the rectangle: too small, or every corner refused.\<close>

definition refused :: "candidate_filter \<Rightarrow> int \<Rightarrow> int \<Rightarrow> rect \<Rightarrow> bool" where
  "refused cf w h f =
     (case f of (x0, y0, w0, h0) \<Rightarrow> w \<le> w0 \<and> h \<le> h0 \<longrightarrow>
        (\<forall>x \<in> {x0, x0 + (w0 - w)}. \<forall>y \<in> {y0, y0 + (h0 - h)}. cf x y w h = Inr False))"

lemma free_rects_fit:
  "tree_ok t \<Longrightarrow> (x, y, w, h) \<in> free_rects t \<Longrightarrow> 0 < w \<and> 0 < h \<and> w \<le> tw t \<and> h \<le> th t"
proof (induction t)
  case (Split x0 y0 w0 h0 a l r)
  then show ?case using tree_ok_size[of l] tree_ok_size[of r]
    by (fastforce simp: adjoin_def bounds_def)
qed (auto split: if_splits)

definition alloc_result ::
    "candidate_filter \<Rightarrow> int \<Rightarrow> int \<Rightarrow> pack_tree \<Rightarrow> ((int \<times> int) option \<times> pack_tree) res \<Rightarrow> bool" where
  "alloc_result cf w h t r =
     (case r of
        Inl e \<Rightarrow> \<exists>x y. cf x y w h = Inl e
      | Inr (None, t') \<Rightarrow> t' = t \<and> (\<forall>f \<in> free_rects t. refused cf w h f)
      | Inr (Some (x, y), t') \<Rightarrow> cf x y w h = Inr True \<and> grow t (x, y, w, h) t' \<and>
          (\<exists>f \<in> free_rects t. \<not> refused cf w h f))"

lemma alloc_leaf:
  assumes "tree_ok (Leaf x0 y0 w0 h0 a)" "0 < w" "0 < h"
  shows "alloc_result cf w h (Leaf x0 y0 w0 h0 a) (alloc cf w h (Leaf x0 y0 w0 h0 a))"
proof (cases "a \<or> w > w0 \<or> h > h0")
  case True
  then show ?thesis by (auto simp: alloc_result_def refused_def)
next
  case False
  then have le: "w \<le> w0" "h \<le> h0" "\<not> a" by auto
  let ?t = "Leaf x0 y0 w0 h0 a"
  show ?thesis
  proof (cases "find_acceptable cf w h ?t")
    case (Inl e)
    with try_corners_error le show ?thesis by (auto simp: alloc_result_def find_acceptable_def)
  next
    case (Inr xy)
    show ?thesis
    proof (cases xy)
      case None
      with Inr have no: "cf x y w h = Inr False" if "(x, y) \<in> set (corners ?t w h)" for x y
        using try_corners_None that by (fastforce simp: find_acceptable_def)
      have "refused cf w h (x0, y0, w0, h0)"
        using no[unfolded set_corners] by (auto simp: refused_def)
      with Inr None le show ?thesis by (simp add: alloc_result_def)
    next
      case (Some p)
      obtain x y where p: "p = (x, y)" by (cases p)
      with Some Inr have c: "(x, y) \<in> set (corners ?t w h)" "cf x y w h = Inr True"
        by (auto simp: find_acceptable_def dest: try_corners_Some)
      then obtain t' where "carve x y w h ?t = Inr ((x, y), t')" "grow ?t (x, y, w, h) t'"
        using carve_spec[OF assms(2,3) le(1,2), of x x0 y y0] le(3) by (auto simp: set_corners)
      moreover have "\<not> refused cf w h (x0, y0, w0, h0)"
        using c le by (auto simp: refused_def set_corners)
      ultimately show ?thesis using Inr Some p le c by (simp add: alloc_result_def)
    qed
  qed
qed

lemma alloc_spec:
  assumes "tree_ok t" "0 < w" "0 < h"
  shows "alloc_result cf w h t (alloc cf w h t)"
  using assms(1)
proof (induction t)
  case (Split x0 y0 w0 h0 a l r)
  show ?case
  proof (cases "w > w0 \<or> h > h0")
    case True
    then have "refused cf w h f" if "f \<in> free_rects (Split x0 y0 w0 h0 a l r)" for f
      using free_rects_fit[OF Split.prems] that by (cases f) (fastforce simp: refused_def)
    with True Split.prems show ?thesis by (auto simp: alloc_result_def)
  next
    case False
    from Split have "alloc_result cf w h l (alloc cf w h l)" "alloc_result cf w h r (alloc cf w h r)" "\<not> a"
      by auto
    with False show ?thesis
      by (auto simp: alloc_result_def intro: grow_lo grow_hi split: sum.splits option.splits prod.splits)
  qed
qed (use alloc_leaf assms in blast)


text \<open>Allocating by area: a free region is refused if no fitting rectangle is.\<close>

definition refused_area :: "candidate_filter \<Rightarrow> int \<Rightarrow> rat \<Rightarrow> rect \<Rightarrow> bool" where
  "refused_area cf area ratio f =
     (case f of (x0, y0, w0, h0) \<Rightarrow> area \<le> w0 * h0 \<longrightarrow>
        (case area_to_rect area w0 h0 ratio of
           Inl e \<Rightarrow> False | Inr None \<Rightarrow> True | Inr (Some (w, h)) \<Rightarrow> refused cf w h f))"

definition area_result ::
    "candidate_filter \<Rightarrow> int \<Rightarrow> rat \<Rightarrow> pack_tree
     \<Rightarrow> ((int \<times> int \<times> int \<times> int) option \<times> pack_tree) res \<Rightarrow> bool" where
  "area_result cf area ratio t r =
     (case r of
        Inl e \<Rightarrow> \<exists>x y w h. cf x y w h = Inl e
      | Inr (None, t') \<Rightarrow> t' = t \<and> (\<forall>f \<in> free_rects t. refused_area cf area ratio f)
      | Inr (Some (x, y, w, h), t') \<Rightarrow>
          0 < w \<and> 0 < h \<and> area \<le> w * h \<and> cf x y w h = Inr True \<and> grow t (x, y, w, h) t' \<and>
          (\<exists>f \<in> free_rects t. \<not> refused_area cf area ratio f))"

lemma alloc_area_leaf:
  assumes "tree_ok (Leaf x0 y0 w0 h0 a)" "0 < area" "area < max_area" "0 \<le> ratio"
  shows "area_result cf area ratio (Leaf x0 y0 w0 h0 a) (alloc_area cf area ratio (Leaf x0 y0 w0 h0 a))"
proof (cases "a \<or> area > w0 * h0")
  case True
  then show ?thesis by (auto simp: area_result_def refused_area_def)
next
  case False
  let ?t = "Leaf x0 y0 w0 h0 a"
  obtain r where r: "area_to_rect area w0 h0 ratio = Inr r"
    "\<And>w h. r = Some (w, h) \<Longrightarrow> 1 \<le> w \<and> 1 \<le> h \<and> area \<le> w * h"
    using area_to_rect_bounds[of area w0 h0 ratio] assms by auto
  show ?thesis
  proof (cases r)
    case None
    with False r show ?thesis by (simp add: area_result_def refused_area_def)
  next
    case (Some wh)
    then obtain w h where wh: "r = Some (w, h)" by (cases wh) auto
    with r(2) have pos: "0 < w" "0 < h" "area \<le> w * h" by fastforce+
    with alloc_leaf[OF assms(1), of w h cf] False r wh show ?thesis
      by (auto simp: area_result_def alloc_result_def refused_area_def simp del: alloc.simps
          split: sum.splits option.splits prod.splits)
  qed
qed

lemma area_le_mono:
  assumes "w \<le> w0" "h \<le> (h0::int)" "0 < w" "0 < h" shows "w * h \<le> w0 * h0"
  using assms by (intro mult_mono) auto

lemma alloc_area_spec:
  assumes "tree_ok t" "0 < area" "area < max_area" "0 \<le> ratio"
  shows "area_result cf area ratio t (alloc_area cf area ratio t)"
  using assms(1)
proof (induction t)
  case (Split x0 y0 w0 h0 a l r)
  show ?case
  proof (cases "area > w0 * h0")
    case True
    then have "refused_area cf area ratio f" if "f \<in> free_rects (Split x0 y0 w0 h0 a l r)" for f
      using free_rects_fit[OF Split.prems] area_le_mono[of _ w0 _ h0] that
      by (cases f) (fastforce simp: refused_area_def)
    with True Split.prems show ?thesis by (auto simp: area_result_def)
  next
    case False
    from Split have "area_result cf area ratio l (alloc_area cf area ratio l)"
      "area_result cf area ratio r (alloc_area cf area ratio r)" "\<not> a" by auto
    with False show ?thesis
      by (auto simp: area_result_def intro: grow_lo grow_hi split: sum.splits option.splits prod.splits)
  qed
qed (use alloc_area_leaf assms in blast)

section \<open>Requesting and freeing\<close>

declare request.simps(2) [simp del]

lemma request_leaf:
  assumes "0 < w" "0 < h" "contains (Leaf x0 y0 w h False) x y"
  shows "\<exists>t. request x y (Leaf x0 y0 w h False) = Inr (Some (x, y), t) \<and>
    tree_ok t \<and> bounds t = (x0, y0, w, h) \<and> rects t = {(x, y, 1, 1)} \<and>
    free x y t = Inr (Leaf x0 y0 w h False)"
  using assms
proof (induction "nat (w + h)" arbitrary: x0 y0 w h rule: less_induct)
  case less
  have c: "x0 \<le> x" "x < x0 + w" "y0 \<le> y" "y < y0 + h" using less.prems(3) by (auto simp: contains_def)
  have sub: "\<exists>t. request x y (Leaf a b w' h' False) = Inr (Some (x, y), t) \<and>
    tree_ok t \<and> bounds t = (a, b, w', h') \<and> rects t = {(x, y, 1, 1)} \<and>
    free x y t = Inr (Leaf a b w' h' False) \<and> \<not> is_free_leaf t"
    if "w' + h' < w + h" "a \<le> x" "x < a + w'" "b \<le> y" "y < b + h'" for a b w' h'
  proof -
    have "nat (w' + h') < nat (w + h)" "0 < w'" "0 < h'" using that c by auto
    moreover have "contains (Leaf a b w' h' False) x y" using that by (simp add: contains_def)
    ultimately obtain t where
      "request x y (Leaf a b w' h' False) = Inr (Some (x, y), t)" "tree_ok t"
      "bounds t = (a, b, w', h')" "rects t = {(x, y, 1, 1)}" "free x y t = Inr (Leaf a b w' h' False)"
      using less.hyps by metis
    then show ?thesis using free_leaf_iff[of t] by auto
  qed
  have miss: "request x y (Leaf a b w' h' False) = Inr (None, Leaf a b w' h' False)"
    if "\<not> contains (Leaf a b w' h' False) x y" for a b w' h' using that by (simp add: request.simps(2))
  show ?case
  proof (cases "w = 1 \<and> h = 1")
    case True
    with c show ?thesis by (auto simp: contains_def request.simps(2))
  next
    case False
    have body: "\<exists>t. request x y s = Inr (Some (x, y), t) \<and> tree_ok t \<and> bounds t = (x0, y0, w, h) \<and>
        rects t = {(x, y, 1, 1)} \<and> free x y t = Inr (Leaf x0 y0 w h False)"
      if s: "s = Split x0 y0 w h False (Leaf a b w1 h1 False) (Leaf a' b' w2 h2 False)"
        and ad: "adjoin (x0, y0, w, h) (a, b, w1, h1) (a', b', w2, h2)"
        and pos: "0 < w1" "0 < h1" "0 < w2" "0 < h2" for s a b w1 h1 a' b' w2 h2
    proof (cases "contains (Leaf a b w1 h1 False) x y")
      case True
      obtain t where "request x y (Leaf a b w1 h1 False) = Inr (Some (x, y), t)" "tree_ok t"
        "bounds t = (a, b, w1, h1)" "rects t = {(x, y, 1, 1)}" "free x y t = Inr (Leaf a b w1 h1 False)"
        "\<not> is_free_leaf t"
        using sub[of w1 h1 a b] True ad pos by (auto simp: contains_def adjoin_def)
      with s ad pos True less.prems show ?thesis
        by (simp add: contains_region merge_children_def)
    next
      case no: False
      then have in2: "contains (Leaf a' b' w2 h2 False) x y"
        using c ad by (auto simp: contains_def adjoin_def)
      obtain t where "request x y (Leaf a' b' w2 h2 False) = Inr (Some (x, y), t)" "tree_ok t"
        "bounds t = (a', b', w2, h2)" "rects t = {(x, y, 1, 1)}" "free x y t = Inr (Leaf a' b' w2 h2 False)"
        "\<not> is_free_leaf t"
        using sub[of w2 h2 a' b'] in2 ad pos by (auto simp: contains_def adjoin_def)
      with s ad pos no in2 less.prems miss[OF no] show ?thesis
        by (auto simp: contains_region merge_children_def)
    qed
    from less.prems(3) False have "\<exists>s a b w1 h1 a' b' w2 h2.
       request_split x y (Leaf x0 y0 w h False) = Inr s \<and>
       s = Split x0 y0 w h False (Leaf a b w1 h1 False) (Leaf a' b' w2 h2 False) \<and>
       adjoin (x0, y0, w, h) (a, b, w1, h1) (a', b', w2, h2) \<and> 0 < w1 \<and> 0 < h1 \<and> 0 < w2 \<and> 0 < h2"
      by (cases rule: request_split_cases)
        (use less.prems(1,2) in \<open>auto simp: new_tree_def adjoin_def\<close>)
    with body False less.prems(3) show ?thesis by (auto simp: request.simps(2)[of x y x0])
  qed
qed


lemma request_spec:
  assumes "tree_ok t"
  shows "if (x, y) \<in> region t \<and> (\<forall>q \<in> rects t. (x, y) \<notin> cells q)
    then \<exists>t'. request x y t = Inr (Some (x, y), t') \<and> grow t (x, y, 1, 1) t'
    else request x y t = Inr (None, t)"
  using assms
proof (induction t)
  case (Leaf x0 y0 w h a)
  show ?case
  proof (cases "contains (Leaf x0 y0 w h False) x y \<and> \<not> a")
    case True
    with Leaf request_leaf[of w h x0 y0 x y] show ?thesis
      by (auto simp: contains_def intro: grow_leaf)
  next
    case False
    then show ?thesis by (auto simp: contains_def request.simps(2))
  qed
next
  case (Split x0 y0 w h a l r)
  note sp = split_region[OF Split.prems]
  have sub: "cells q \<subseteq> region s" if "tree_ok s" "q \<in> rects s" for q s
    using that rects_within[of s] by (cases q) auto
  have ok: "tree_ok l" "tree_ok r" using Split.prems by auto
  consider "(x, y) \<in> region l" "(x, y) \<notin> region r" | "(x, y) \<in> region r" "(x, y) \<notin> region l"
    | "(x, y) \<notin> cells (x0, y0, w, h)" using sp by blast
  then show ?case
  proof cases
    case 1
    with sub[OF ok(2)] have "\<forall>q \<in> rects r. (x, y) \<notin> cells q" by blast
    with 1 Split.IH ok sp(1) show ?thesis
      by (auto simp: contains_region intro: grow_lo split: if_splits)
  next
    case 2
    with sub[OF ok(1)] have "\<forall>q \<in> rects l. (x, y) \<notin> cells q" by blast
    with 2 Split.IH ok sp(1) show ?thesis
      by (auto simp: contains_region intro: grow_hi split: if_splits)
  next
    case 3
    then show ?thesis by (auto simp: contains_region)
  qed
qed

lemma merge_children_ok:
  assumes "\<not> a" "tree_ok l" "tree_ok r" "adjoin (x, y, w, h) (bounds l) (bounds r)"
  shows "tree_ok (merge_children (Split x y w h a l r))"
    "bounds (merge_children (Split x y w h a l r)) = (x, y, w, h)"
    "rects (merge_children (Split x y w h a l r)) = rects l \<union> rects r"
proof -
  have "0 < w \<and> 0 < h" using assms tree_ok_size[of l] tree_ok_size[of r]
    by (auto simp: adjoin_def bounds_def)
  with assms show "tree_ok (merge_children (Split x y w h a l r))" by (simp add: merge_children_def)
  show "bounds (merge_children (Split x y w h a l r)) = (x, y, w, h)" by (simp add: merge_children_def)
  show "rects (merge_children (Split x y w h a l r)) = rects l \<union> rects r"
    using assms free_leaf_iff by (auto simp: merge_children_def)
qed

lemma free_spec:
  assumes "tree_ok t"
  shows "case free x y t of
      Inl e \<Rightarrow> e = FreeError \<and> (\<forall>w h. (x, y, w, h) \<notin> rects t)
    | Inr t' \<Rightarrow> tree_ok t' \<and> bounds t' = bounds t \<and>
        (\<exists>w h. (x, y, w, h) \<in> rects t \<and> rects t' = rects t - {(x, y, w, h)})"
  using assms
proof (induction t)
  case (Split x0 y0 w h a l r)
  note sp = split_region[OF Split.prems]
  have corner: "(x, y) \<in> region s" if "tree_ok s" "(x, y, u, v) \<in> rects s" for s u v
    using that rects_within[of s x y u v] by auto
  have ok: "tree_ok l" "tree_ok r" "\<not> a" "adjoin (x0, y0, w, h) (bounds l) (bounds r)"
    using Split.prems by auto
  consider (l) "(x, y) \<in> region l" "(x, y) \<notin> region r" | (r) "(x, y) \<in> region r" "(x, y) \<notin> region l"
    | (none) "(x, y) \<notin> region l" "(x, y) \<notin> region r" using sp by blast
  then show ?case
  proof cases
    case l
    with corner[OF ok(2)] have no: "\<forall>w h. (x, y, w, h) \<notin> rects r" by blast
    show ?thesis
    proof (cases "free x y l")
      case (Inl e)
      with l no Split.IH(1)[OF ok(1)] show ?thesis by (auto simp: contains_region)
    next
      case (Inr l')
      with Split.IH(1)[OF ok(1)] obtain u v where l': "tree_ok l'" "bounds l' = bounds l"
        "(x, y, u, v) \<in> rects l" "rects l' = rects l - {(x, y, u, v)}" by auto
      with merge_children_ok[of a l' r x0 y0 w h] ok no
      have "rects (merge_children (Split x0 y0 w h a l' r)) = rects (Split x0 y0 w h a l r) - {(x, y, u, v)}"
        by auto
      with l l' Inr ok merge_children_ok[of a l' r x0 y0 w h] show ?thesis
        by (auto simp: contains_region simp del: rects.simps(1)) 
    qed
  next
    case r
    with corner[OF ok(1)] have no: "\<forall>w h. (x, y, w, h) \<notin> rects l" by blast
    show ?thesis
    proof (cases "free x y r")
      case (Inl e)
      with r no Split.IH(2)[OF ok(2)] show ?thesis by (auto simp: contains_region)
    next
      case (Inr r')
      with Split.IH(2)[OF ok(2)] obtain u v where r': "tree_ok r'" "bounds r' = bounds r"
        "(x, y, u, v) \<in> rects r" "rects r' = rects r - {(x, y, u, v)}" by auto
      with merge_children_ok[of a l r' x0 y0 w h] ok no
      have "rects (merge_children (Split x0 y0 w h a l r')) = rects (Split x0 y0 w h a l r) - {(x, y, u, v)}"
        by auto
      with r r' Inr ok merge_children_ok[of a l r' x0 y0 w h] show ?thesis
        by (auto simp: contains_region)
    qed
  next
    case none
    with corner[OF ok(1)] corner[OF ok(2)] show ?thesis by (auto simp: contains_region)
  qed
qed auto

lemma tree_empty: "tree_ok t \<Longrightarrow> bounds t = (x, y, w, h) \<Longrightarrow> rects t = {} \<Longrightarrow> t = new_tree x y w h"
  using free_leaf_iff[of t] by (cases t) (auto simp: new_tree_def)

lemma new_tree_ok [simp]:
  "tree_ok (new_tree x y w h) \<longleftrightarrow> 0 < w \<and> 0 < h" "bounds (new_tree x y w h) = (x, y, w, h)"
  "rects (new_tree x y w h) = {}"
  by (simp_all add: new_tree_def)


section \<open>The contract of a store of rectangles\<close>

text \<open>
  What the allocator relies on: rectangles can be taken out of an area and given back by
  their corner, and those held at any time do not overlap.
\<close>

definition corner :: "rect \<Rightarrow> int \<times> int" where
  "corner q = (fst q, fst (snd q))"

lemma corner_simp [simp]: "corner (x, y, w, h) = (x, y)"
  by (simp add: corner_def)

locale rect_store =
  fixes invar :: "'t \<Rightarrow> bool"
    and area :: "'t \<Rightarrow> (int \<times> int) set"
    and held :: "'t \<Rightarrow> rect set"
    and take :: "'t \<Rightarrow> rect \<Rightarrow> 't \<Rightarrow> bool"
    and give :: "int \<Rightarrow> int \<Rightarrow> 't \<Rightarrow> 't res"
  assumes held_within: "invar t \<Longrightarrow> q \<in> held t \<Longrightarrow> corner q \<in> cells q \<and> cells q \<subseteq> area t"
    and held_disjoint: "invar t \<Longrightarrow> q \<in> held t \<Longrightarrow> q' \<in> held t \<Longrightarrow> q \<noteq> q' \<Longrightarrow> cells q \<inter> cells q' = {}"
    and take_law: "take t q t' \<Longrightarrow> invar t \<Longrightarrow> invar t' \<and> area t' = area t \<and>
      held t' = insert q (held t) \<and> cells q \<subseteq> area t \<and> corner q \<in> cells q \<and>
      (\<forall>q' \<in> held t. cells q \<inter> cells q' = {})"
    and give_ok: "invar t \<Longrightarrow> give x y t = Inr t' \<Longrightarrow> invar t' \<and> area t' = area t \<and>
      (\<exists>q \<in> held t. corner q = (x, y) \<and> held t' = held t - {q})"
    and give_error: "invar t \<Longrightarrow> give x y t = Inl e \<Longrightarrow> e = FreeError \<and> (x, y) \<notin> corner ` held t"
begin

definition covered :: "'t \<Rightarrow> (int \<times> int) set" where
  "covered t = (\<Union>q \<in> held t. cells q)"

lemma corner_unique:
  assumes "invar t" "q \<in> held t" "q' \<in> held t" "corner q = corner q'"
  shows "q = q'"
proof (rule ccontr)
  assume "q \<noteq> q'"
  with held_disjoint assms have "cells q \<inter> cells q' = {}" by blast
  moreover have "corner q \<in> cells q" "corner q \<in> cells q'"
    using held_within[OF assms(1,2)] held_within[OF assms(1,3)] assms(4) by simp_all
  ultimately show False by blast
qed

lemma take_fresh:
  assumes "take t q t'" "invar t"
  shows "corner q \<notin> corner ` held t" "cells q \<inter> covered t = {}"
proof -
  have l: "corner q \<in> cells q" "\<forall>q' \<in> held t. cells q \<inter> cells q' = {}"
    using take_law[OF assms] by blast+
  then show "cells q \<inter> covered t = {}" unfolding covered_def by blast
  show "corner q \<notin> corner ` held t"
  proof
    assume "corner q \<in> corner ` held t"
    then obtain q' where q': "q' \<in> held t" "corner q = corner q'" by blast
    with held_within[OF assms(2) q'(1)] l show False by auto
  qed
qed

lemma take_covered:
  assumes "take t q t'" "invar t" shows "covered t' = cells q \<union> covered t"
proof -
  have "held t' = insert q (held t)" using take_law[OF assms] by blast
  then show ?thesis unfolding covered_def by simp
qed

lemma give_defined:
  assumes "invar t" shows "is_ok (give x y t) \<longleftrightarrow> (x, y) \<in> corner ` held t"
proof (cases "give x y t")
  case (Inl e)
  with give_error[OF assms Inl] show ?thesis by simp
next
  case (Inr t')
  with give_ok[OF assms Inr] show ?thesis by (metis imageI is_ok_simps(1))
qed

lemma give_held:
  assumes "invar t" "q \<in> held t" "corner q = (x, y)"
  shows "\<exists>t'. give x y t = Inr t' \<and> invar t' \<and> area t' = area t \<and> held t' = held t - {q}"
proof -
  have "is_ok (give x y t)" using give_defined[OF assms(1), of x y] assms(2,3) by (metis imageI)
  then obtain t' where t': "give x y t = Inr t'" by blast
  then obtain q' where q': "q' \<in> held t" "corner q' = (x, y)" "held t' = held t - {q'}"
    using give_ok[OF assms(1)] by blast
  then have "q' = q" using corner_unique[OF assms(1) q'(1) assms(2)] assms(3) by simp
  with q' t' give_ok[OF assms(1) t'] show ?thesis by blast
qed

lemma give_corners:
  assumes "invar t" "give x y t = Inr t'"
  shows "corner ` held t' = corner ` held t - {(x, y)}"
proof -
  obtain q where q: "q \<in> held t" "corner q = (x, y)" "held t' = held t - {q}"
    using give_ok[OF assms] by blast
  have "inj_on corner (held t)" using corner_unique[OF assms(1)] by (intro inj_onI) blast
  then have "corner ` (held t - {q}) = corner ` held t - corner ` {q}"
    by (rule inj_on_image_set_diff) (use q in auto)
  with q show ?thesis by simp
qed

lemma give_covered:
  assumes "invar t" "q \<in> held t" "held t' = held t - {q}"
  shows "covered t' = covered t - cells q"
proof -
  let ?R = "\<Union>q' \<in> held t - {q}. cells q'"
  have "cells q' \<inter> cells q = {}" if "q' \<in> held t - {q}" for q'
    using held_disjoint[OF assms(1) _ assms(2), of q'] that by simp
  then have "?R \<inter> cells q = {}" by blast
  moreover have "covered t = cells q \<union> ?R"
    unfolding covered_def using assms(2) by (metis UN_insert insert_Diff)
  moreover have "covered t' = ?R" by (simp only: covered_def assms(3))
  ultimately show ?thesis by (simp add: Un_Diff Diff_triv)
qed

end

interpretation pt: rect_store tree_ok region rects grow free
proof unfold_locales
  fix t :: pack_tree and q q' assume "tree_ok t" "q \<in> rects t"
  then show "corner q \<in> cells q \<and> cells q \<subseteq> region t"
    using rects_within[of t] by (cases q) auto
  assume "q' \<in> rects t" "q \<noteq> q'"
  with \<open>tree_ok t\<close> \<open>q \<in> rects t\<close> show "cells q \<inter> cells q' = {}" using rects_disjoint by blast
next
  fix t q t' assume "grow t q t'" "tree_ok t"
  then show "tree_ok t' \<and> region t' = region t \<and> rects t' = insert q (rects t) \<and>
     cells q \<subseteq> region t \<and> corner q \<in> cells q \<and> (\<forall>q'\<in>rects t. cells q \<inter> cells q' = {})"
    using grow_spec[of t q t'] by (simp add: corner_def)
next
  fix t t' x y e assume ok: "tree_ok t"
  show "tree_ok t' \<and> region t' = region t \<and> (\<exists>q\<in>rects t. corner q = (x, y) \<and> rects t' = rects t - {q})"
    if "free x y t = Inr t'" using free_spec[OF ok, of x y] that by force
  show "e = FreeError \<and> (x, y) \<notin> corner ` rects t"
    if "free x y t = Inl e" using free_spec[OF ok, of x y] that by force
qed

section \<open>Correctness\<close>

text \<open>
  C29. What an allocation hands out: a rectangle inside the tree's region that the filter
  accepted and that overlaps none of the rectangles in use; the tree afterwards is
  well-formed, covers the same region and holds exactly one rectangle more.
\<close>

theorem alloc_sound:
  assumes "tree_ok t" "0 < w" "0 < h" "alloc cf w h t = Inr (Some (x, y), t')"
  shows "cf x y w h = Inr True \<and> cells (x, y, w, h) \<subseteq> region t \<and>
    (\<forall>q \<in> rects t. cells (x, y, w, h) \<inter> cells q = {}) \<and>
    tree_ok t' \<and> bounds t' = bounds t \<and> rects t' = insert (x, y, w, h) (rects t)"
proof -
  have "cf x y w h = Inr True" "grow t (x, y, w, h) t'"
    using alloc_spec[OF assms(1-3), of cf] assms(4) by (simp_all add: alloc_result_def)
  with grow_spec[OF this(2) assms(1)] show ?thesis by simp
qed

text \<open>A 3x3 machine with its first row in use, for the witnesses.\<close>

definition nine_tree :: pack_tree where
  "nine_tree = Split 0 0 3 3 False (Leaf 0 0 3 1 True) (Leaf 0 1 3 2 False)"

definition any_rect :: candidate_filter where
  "any_rect x y w h = Inr True"

lemma nine_tree_ok: "tree_ok nine_tree"
  by (simp add: nine_tree_def adjoin_def)

lemma nine_tree_alloc:
  "alloc any_rect 2 1 nine_tree = Inr (Some (0, 1),
     Split 0 0 3 3 False (Leaf 0 0 3 1 True)
       (Split 0 1 3 2 False (Split 0 1 2 2 False (Leaf 0 1 2 1 True) (Leaf 0 2 2 1 False)) (Leaf 2 1 1 2 False)))"
  by code_simp

theorem alloc_sound_witness:
  "\<exists>t'. alloc any_rect 2 1 nine_tree = Inr (Some (0, 1), t') \<and>
    rects t' = insert (0, 1, 2, 1) (rects nine_tree)"
  using alloc_sound[OF nine_tree_ok _ _ nine_tree_alloc] nine_tree_alloc by simp

text \<open>
  C30. Allocation is complete and never fails by accident: if the filter raises nothing, then
  neither does the allocation, and it returns nothing exactly when every free rectangle of
  the tree is too small or has all four corner positions refused by the filter; the tree is
  then unchanged.
\<close>

theorem alloc_complete:
  assumes "tree_ok t" "0 < w" "0 < h" "\<And>x y. is_ok (cf x y w h)"
  shows "\<exists>xy t'. alloc cf w h t = Inr (xy, t') \<and>
    (xy = None \<longleftrightarrow> (\<forall>f \<in> free_rects t. refused cf w h f)) \<and> (xy = None \<longrightarrow> t' = t)"
proof (cases "alloc cf w h t")
  case (Inl e)
  with alloc_spec[OF assms(1-3), of cf] assms(4) show ?thesis
    by (simp add: alloc_result_def) (metis is_ok_simps(2))
next
  case (Inr r)
  with alloc_spec[OF assms(1-3), of cf] show ?thesis
    by (cases r) (auto simp: alloc_result_def split: option.splits)
qed

theorem alloc_complete_witness:
  "\<exists>xy t'. alloc any_rect 2 3 nine_tree = Inr (xy, t') \<and>
    (xy = None \<longleftrightarrow> (\<forall>f \<in> free_rects nine_tree. refused any_rect 2 3 f)) \<and> (xy = None \<longrightarrow> t' = nine_tree)"
  by (rule alloc_complete) (simp_all add: nine_tree_ok any_rect_def)

text \<open>
  Freeing what was just allocated restores the tree exactly, every split undone.
\<close>

theorem alloc_free_roundtrip:
  assumes "tree_ok t" "0 < w" "0 < h" "alloc cf w h t = Inr (Some (x, y), t')"
  shows "free x y t' = Inr t"
proof -
  have "grow t (x, y, w, h) t'"
    using alloc_spec[OF assms(1-3), of cf] assms(4) by (simp add: alloc_result_def)
  with grow_spec[OF this assms(1)] show ?thesis by simp
qed

theorem alloc_free_roundtrip_witness:
  "\<exists>t'. alloc any_rect 2 1 nine_tree = Inr (Some (0, 1), t') \<and> free 0 1 t' = Inr nine_tree"
  using alloc_free_roundtrip[OF nine_tree_ok _ _ nine_tree_alloc] nine_tree_alloc by simp

text \<open>
  C31. Freeing is exact: it succeeds for the bottom left corner of a rectangle in use and
  then gives back that rectangle and no other; for any other position it raises the error
  of the module. The tree stays well-formed, and once nothing is in use it is the undivided
  tree it started from.
\<close>

theorem free_exact:
  assumes "tree_ok t"
  shows "(case free x y t of
      Inl e \<Rightarrow> e = FreeError \<and> (\<nexists>w h. (x, y, w, h) \<in> rects t)
    | Inr t' \<Rightarrow> tree_ok t' \<and> bounds t' = bounds t \<and>
        (\<exists>w h. (x, y, w, h) \<in> rects t \<and> rects t' = rects t - {(x, y, w, h)}) \<and>
        (rects t' = {} \<longrightarrow> t' = new_tree (tx t) (ty t) (tw t) (th t)))"
  using free_spec[OF assms, of x y] tree_empty[of _ "tx t" "ty t" "tw t" "th t"]
  by (auto simp: bounds_def[of t] split: sum.splits)

theorem free_exact_witness:
  "free 0 0 nine_tree = Inr (new_tree 0 0 3 3) \<and> free 1 0 nine_tree = Inl FreeError"
proof -
  have "is_ok (free 0 0 nine_tree) \<and> \<not> is_ok (free 1 0 nine_tree)" by code_simp
  with free_exact[OF nine_tree_ok, of 0 0] free_exact[OF nine_tree_ok, of 1 0] show ?thesis
    by (auto simp: nine_tree_def is_ok_def simp del: free.simps split: sum.splits)
qed

text \<open>
  Requesting one triad: it is handed out, alone, exactly when it lies in the tree's
  region and in no rectangle in use, whatever the free regions around it; otherwise nothing
  is returned and nothing changes. No error is raised in either case.
\<close>

theorem request_exact:
  assumes "tree_ok t"
  shows "if (x, y) \<in> region t \<and> (\<forall>q \<in> rects t. (x, y) \<notin> cells q)
    then \<exists>t'. request x y t = Inr (Some (x, y), t') \<and> tree_ok t' \<and> bounds t' = bounds t \<and>
      rects t' = insert (x, y, 1, 1) (rects t) \<and> free x y t' = Inr t
    else request x y t = Inr (None, t)"
  using request_spec[OF assms, of x y] grow_spec[OF _ assms, of "(x, y, 1, 1)"]
  by (auto split: if_splits)

theorem request_exact_witness:
  "(\<exists>t'. request 1 1 nine_tree = Inr (Some (1, 1), t') \<and>
      rects t' = insert (1, 1, 1, 1) (rects nine_tree)) \<and>
   request 1 0 nine_tree = Inr (None, nine_tree)"
  using request_exact[OF nine_tree_ok, of 1 1] request_exact[OF nine_tree_ok, of 1 0]
  by (auto simp: nine_tree_def split: if_splits)

text \<open>
  Allocating by area: a returned rectangle has at least the area asked for, was accepted
  by the filter and is taken from free room only, as with a fixed size. If the filter raises
  nothing, nothing is returned exactly when every free rectangle is refused: too small, no
  fitting rectangle of the wanted shape, or all four corners refused.
\<close>

theorem alloc_area_correct:
  assumes "tree_ok t" "0 < area" "area < max_area" "0 \<le> ratio"
    and "\<And>x y w h. is_ok (cf x y w h)"
  shows "\<exists>r t'. alloc_area cf area ratio t = Inr (r, t') \<and>
    (case r of
       None \<Rightarrow> t' = t \<and> (\<forall>f \<in> free_rects t. refused_area cf area ratio f)
     | Some (x, y, w, h) \<Rightarrow> area \<le> w * h \<and> cf x y w h = Inr True \<and>
         (\<exists>f \<in> free_rects t. \<not> refused_area cf area ratio f) \<and>
         cells (x, y, w, h) \<subseteq> region t \<and> (\<forall>q \<in> rects t. cells (x, y, w, h) \<inter> cells q = {}) \<and>
         tree_ok t' \<and> bounds t' = bounds t \<and> rects t' = insert (x, y, w, h) (rects t))"
proof (cases "alloc_area cf area ratio t")
  case (Inl e)
  with alloc_area_spec[OF assms(1-4), of cf] assms(5) show ?thesis
    by (simp add: area_result_def) (metis is_ok_simps(2))
next
  case (Inr p)
  obtain r t' where p: "p = (r, t')" by (cases p)
  show ?thesis
  proof (cases r)
    case None
    with alloc_area_spec[OF assms(1-4), of cf] Inr p show ?thesis by (simp add: area_result_def)
  next
    case (Some q)
    obtain x y w h where q: "q = (x, y, w, h)" by (cases q)
    from alloc_area_spec[OF assms(1-4), of cf] Inr p Some q
    have "area \<le> w * h \<and> cf x y w h = Inr True \<and> grow t (x, y, w, h) t' \<and>
        (\<exists>f \<in> free_rects t. \<not> refused_area cf area ratio f)"
      by (simp add: area_result_def)
    with grow_spec[OF _ assms(1), of "(x, y, w, h)" t'] Inr p Some q show ?thesis by auto
  qed
qed

theorem alloc_area_correct_witness:
  "\<exists>r t'. alloc_area any_rect 4 0 nine_tree = Inr (r, t') \<and>
    (case r of
       None \<Rightarrow> t' = nine_tree \<and> (\<forall>f \<in> free_rects nine_tree. refused_area any_rect 4 0 f)
     | Some (x, y, w, h) \<Rightarrow> 4 \<le> w * h \<and> any_rect x y w h = Inr True \<and>
         (\<exists>f \<in> free_rects nine_tree. \<not> refused_area any_rect 4 0 f) \<and>
         cells (x, y, w, h) \<subseteq> region nine_tree \<and> (\<forall>q \<in> rects nine_tree. cells (x, y, w, h) \<inter> cells q = {}) \<and>
         tree_ok t' \<and> bounds t' = bounds nine_tree \<and> rects t' = insert (x, y, w, h) (rects nine_tree))"
  by (rule alloc_area_correct) (simp_all add: nine_tree_ok any_rect_def)

end
