(* ===== verification/CandidateFilter.thy ===== *)
theory CandidateFilter
  imports Coordinates
begin

text \<open>
  The candidate filter of the allocator (class \<open>_CandidateFilter\<close> of \<open>allocator.py\<close>): whether
  a rectangle of triads has enough working boards, links and wrap-around for a request. A set
  the code iterates over is a list in the order of insertion, the others are sets.
\<close>

section \<open>The filter\<close>

record cand_filter =
  cf_width :: int
  cf_height :: int
  cf_dead_boards :: "board set"
  cf_dead_links :: "board_link set"
  cf_max_dead_boards :: "int option"
  cf_max_dead_links :: "int option"
  cf_require_torus :: bool
  cf_expected_boards :: "int option"

definition in_region :: "int \<Rightarrow> int \<Rightarrow> int \<Rightarrow> int \<Rightarrow> int \<Rightarrow> int \<Rightarrow> bool" where
  "in_region x y w h x2 y2 \<longleftrightarrow> x \<le> x2 \<and> x2 < x + w \<and> y \<le> y2 \<and> y2 < y + h"

section \<open>Enumerating the boards of a region\<close>

text \<open>The body of the inner loop: the neighbour down one link is appended to the queue.\<close>

fun visit_link ::
    "cand_filter \<Rightarrow> int \<Rightarrow> int \<Rightarrow> int \<Rightarrow> int \<Rightarrow> board \<Rightarrow> link \<Rightarrow> board list \<Rightarrow> board list res"
where
  "visit_link cf x y w h (x1, y1, z1) l to_visit =
     (if (x1, y1, z1, l) \<in> cf_dead_links cf then Inr to_visit
      else case board_down_link x1 y1 z1 l (cf_width cf) (cf_height cf) of
             Inl e \<Rightarrow> Inl e
           | Inr (x2, y2, z2, wr) \<Rightarrow>
               Inr (if in_region x y w h x2 y2 then to_visit @ [(x2, y2, z2)] else to_visit))"

definition visit_links ::
    "cand_filter \<Rightarrow> int \<Rightarrow> int \<Rightarrow> int \<Rightarrow> int \<Rightarrow> board \<Rightarrow> board list \<Rightarrow> board list res" where
  "visit_links cf x y w h b to_visit = fold_res (visit_link cf x y w h b) all_links to_visit"

text \<open>The boards that can be queued beside the first, a finite set.\<close>

definition region_boards :: "int \<Rightarrow> int \<Rightarrow> int \<Rightarrow> int \<Rightarrow> board set" where
  "region_boards x y w h = {x..<x + w} \<times> {y..<y + h} \<times> {0, 1, 2}"

lemma finite_region_boards [simp, intro]: "finite (region_boards x y w h)"
  by (simp add: region_boards_def)

lemma board_down_link_z:
  "board_down_link x y z l w h = Inr (x2, y2, z2, wr) \<Longrightarrow> z2 \<in> {0, 1, 2}"
  using board_vector_range[of z l]
  by (auto simp: board_down_link_def link_to_vector_table Let_def split: if_splits prod.splits)

lemma visit_links_region:
  "visit_links cf x y w h b q = Inr q' \<Longrightarrow> set q' \<subseteq> set q \<union> region_boards x y w h"
proof -
  have step: "set q' \<subseteq> set q \<union> region_boards x y w h" if "visit_link cf x y w h b l q = Inr q'" for l q q'
    using that board_down_link_z by (cases b)
      (fastforce simp: in_region_def region_boards_def split: if_splits sum.splits)
  have "fold_res (visit_link cf x y w h b) ls q = Inr q' \<Longrightarrow> set q' \<subseteq> set q \<union> region_boards x y w h" for ls
    by (induction ls arbitrary: q) (auto split: sum.splits dest: step)
  then show "visit_links cf x y w h b q = Inr q' \<Longrightarrow> set q' \<subseteq> set q \<union> region_boards x y w h"
    by (simp add: visit_links_def)
qed

text \<open>The breadth-first search; it ends as every board is entered once.\<close>

function enumerate_from ::
    "cand_filter \<Rightarrow> int \<Rightarrow> int \<Rightarrow> int \<Rightarrow> int \<Rightarrow> board list \<Rightarrow> board list \<Rightarrow> board list res"
where
  "enumerate_from cf x y w h [] boards = Inr boards"
| "enumerate_from cf x y w h (b # to_visit) boards =
     (if b \<in> cf_dead_boards cf \<or> b \<in> set boards then enumerate_from cf x y w h to_visit boards
      else case visit_links cf x y w h b to_visit of
             Inl e \<Rightarrow> Inl e
           | Inr to_visit' \<Rightarrow> enumerate_from cf x y w h to_visit' (boards @ [b]))"
  by pat_completeness auto
termination
proof (relation "measures [\<lambda>(cf, x, y, w, h, q, bs). card ((set q \<union> region_boards x y w h) - set bs),
    \<lambda>(cf, x, y, w, h, q, bs). length q]"; (simp; fail)?)
  fix cf :: cand_filter and x y w h b q bs
  have "card ((set q \<union> region_boards x y w h) - set bs)
      \<le> card ((set (b # q) \<union> region_boards x y w h) - set bs)"
    by (intro card_mono) auto
  then show "((cf, x, y, w, h, q, bs), cf, x, y, w, h, b # q, bs) \<in> measures
      [\<lambda>(cf, x, y, w, h, q, bs). card ((set q \<union> region_boards x y w h) - set bs),
       \<lambda>(cf, x, y, w, h, q, bs). length q]" by auto
next
  fix cf :: cand_filter and x y w h b q bs q'
  assume a: "\<not> (b \<in> cf_dead_boards cf \<or> b \<in> set bs)" "visit_links cf x y w h b q = Inr q'"
  have "card ((set q' \<union> region_boards x y w h) - set (bs @ [b]))
      < card ((set (b # q) \<union> region_boards x y w h) - set bs)"
    using a visit_links_region[OF a(2)] by (intro psubset_card_mono) auto
  then show "((cf, x, y, w, h, q', bs @ [b]), cf, x, y, w, h, b # q, bs) \<in> measures
      [\<lambda>(cf, x, y, w, h, q, bs). card ((set q \<union> region_boards x y w h) - set bs),
       \<lambda>(cf, x, y, w, h, q, bs). length q]" by auto
qed

definition enumerate_boards :: "cand_filter \<Rightarrow> int \<Rightarrow> int \<Rightarrow> int \<Rightarrow> int \<Rightarrow> board list res" where
  "enumerate_boards cf x y w h = enumerate_from cf x y w h [(x, y, 0)] []"

section \<open>Classifying the links of a set of boards\<close>

record link_classes =
  lc_alive :: "board_link set"
  lc_wrap :: "board_link set"
  lc_dead :: "board_link set"
  lc_dead_wrap :: "board_link set"
  lc_periphery :: "board_link set"
  lc_wrap_type :: wrap_around

definition no_links :: link_classes where
  "no_links = \<lparr> lc_alive = {}, lc_wrap = {}, lc_dead = {}, lc_dead_wrap = {}, lc_periphery = {},
     lc_wrap_type = Wrap_none \<rparr>"

fun classify_link ::
    "cand_filter \<Rightarrow> board list \<Rightarrow> board_link \<Rightarrow> link_classes \<Rightarrow> link_classes res" where
  "classify_link cf boards (x1, y1, z1, l) c =
     (case board_down_link x1 y1 z1 l (cf_width cf) (cf_height cf) of
        Inl e \<Rightarrow> Inl e
      | Inr (x2, y2, z2, wrapped) \<Rightarrow> Inr
          (if (x2, y2, z2) \<in> set boards then
             let c = c\<lparr>lc_wrap_type := wrap_or (lc_wrap_type c) wrapped\<rparr>
             in if wrapped \<noteq> Wrap_none then
                  (if (x1, y1, z1, l) \<in> cf_dead_links cf
                   then c\<lparr>lc_dead_wrap := insert (x1, y1, z1, l) (lc_dead_wrap c)\<rparr>
                   else c\<lparr>lc_wrap := insert (x1, y1, z1, l) (lc_wrap c)\<rparr>)
                else
                  (if (x1, y1, z1, l) \<in> cf_dead_links cf
                   then c\<lparr>lc_dead := insert (x1, y1, z1, l) (lc_dead c)\<rparr>
                   else c\<lparr>lc_alive := insert (x1, y1, z1, l) (lc_alive c)\<rparr>)
           else c\<lparr>lc_periphery := insert (x1, y1, z1, l) (lc_periphery c)\<rparr>))"

definition board_links :: "board list \<Rightarrow> board_link list" where
  "board_links boards = [(x, y, z, l). (x, y, z) \<leftarrow> boards, l \<leftarrow> all_links]"

definition classify_links :: "cand_filter \<Rightarrow> board list \<Rightarrow> link_classes res" where
  "classify_links cf boards = fold_res (classify_link cf boards) (board_links boards) no_links"

section \<open>Calling the filter\<close>

text \<open>What the filter remembers of the candidate it accepted last.\<close>

record candidate =
  cand_boards :: "board list"
  cand_periphery :: "board_link set"
  cand_torus :: wrap_around

definition too_many_dead_boards :: "cand_filter \<Rightarrow> int \<Rightarrow> int \<Rightarrow> board list \<Rightarrow> bool" where
  "too_many_dead_boards cf w h boards =
     (case cf_max_dead_boards cf of
        Some m \<Rightarrow>
          (let expected_boards = (case cf_expected_boards cf of Some e \<Rightarrow> e | None \<Rightarrow> w * h * 3);
               alive = int (length boards);
               dead = expected_boards - alive
           in alive = 0 \<or> dead > m)
      | None \<Rightarrow> boards = [])"

definition too_many_dead_links :: "cand_filter \<Rightarrow> link_classes \<Rightarrow> bool" where
  "too_many_dead_links cf c =
     (case cf_max_dead_links cf of
        Some m \<Rightarrow> int (card (lc_dead c)) +
          (if cf_require_torus cf then int (card (lc_dead_wrap c)) else 0) > m
      | None \<Rightarrow> False)"

definition filter_call :: "cand_filter \<Rightarrow> int \<Rightarrow> int \<Rightarrow> int \<Rightarrow> int \<Rightarrow> candidate option res" where
  "filter_call cf x y w h =
     (case enumerate_boards cf x y w h of
        Inl e \<Rightarrow> Inl e
      | Inr boards \<Rightarrow>
          if too_many_dead_boards cf w h boards then Inr None
          else case classify_links cf boards of
                 Inl e \<Rightarrow> Inl e
               | Inr c \<Rightarrow>
                   if cf_require_torus cf \<and> lc_wrap_type c = Wrap_none then Inr None
                   else if too_many_dead_links cf c then Inr None
                   else Inr (Some \<lparr> cand_boards = boards, cand_periphery = lc_periphery c,
                                    cand_torus = lc_wrap_type c \<rparr>))"

definition accepts :: "cand_filter \<Rightarrow> int \<Rightarrow> int \<Rightarrow> int \<Rightarrow> int \<Rightarrow> bool res" where
  "accepts cf x y w h =
     (case filter_call cf x y w h of
        Inl e \<Rightarrow> Inl e | Inr None \<Rightarrow> Inr False | Inr (Some c) \<Rightarrow> Inr True)"

section \<open>The boards found\<close>

text \<open>A filter for a machine: positive size, as every configured machine has.\<close>

definition cf_ok :: "cand_filter \<Rightarrow> bool" where
  "cf_ok cf \<longleftrightarrow> 0 < cf_width cf \<and> 0 < cf_height cf"

definition z_ok :: "board \<Rightarrow> bool" where
  "z_ok b \<longleftrightarrow> snd (snd b) \<in> {0, 1, 2}"

text \<open>One hop along a working link to a board of the region.\<close>

definition hop :: "cand_filter \<Rightarrow> int \<Rightarrow> int \<Rightarrow> int \<Rightarrow> int \<Rightarrow> board \<Rightarrow> board \<Rightarrow> bool" where
  "hop cf x y w h b b' \<longleftrightarrow>
     (\<exists>x1 y1 z1 l x2 y2 z2 wr. b = (x1, y1, z1) \<and> b' = (x2, y2, z2) \<and>
        (x1, y1, z1, l) \<notin> cf_dead_links cf \<and>
        board_down_link x1 y1 z1 l (cf_width cf) (cf_height cf) = Inr (x2, y2, z2, wr) \<and>
        in_region x y w h x2 y2)"

text \<open>The boards that can be reached from the bottom left board over working boards.\<close>

inductive reach :: "cand_filter \<Rightarrow> int \<Rightarrow> int \<Rightarrow> int \<Rightarrow> int \<Rightarrow> board \<Rightarrow> bool"
  for cf x y w h where
  reach_start: "(x, y, 0) \<notin> cf_dead_boards cf \<Longrightarrow> reach cf x y w h (x, y, 0)"
| reach_hop: "reach cf x y w h b \<Longrightarrow> hop cf x y w h b b' \<Longrightarrow> b' \<notin> cf_dead_boards cf \<Longrightarrow>
    reach cf x y w h b'"

lemma hop_z: "hop cf x y w h b b' \<Longrightarrow> z_ok b'"
  using board_down_link_z by (fastforce simp: hop_def z_ok_def)

lemma visit_links_spec:
  assumes "cf_ok cf" "z_ok b"
  shows "\<exists>ns. visit_links cf x y w h b q = Inr (q @ ns) \<and> set ns = {b'. hop cf x y w h b b'}"
proof -
  obtain x1 y1 z1 where b: "b = (x1, y1, z1)" by (cases b)
  let ?to = "\<lambda>l b'. (x1, y1, z1, l) \<notin> cf_dead_links cf \<and> (\<exists>x2 y2 z2 wr. b' = (x2, y2, z2) \<and>
    board_down_link x1 y1 z1 l (cf_width cf) (cf_height cf) = Inr (x2, y2, z2, wr) \<and> in_region x y w h x2 y2)"
  have one: "\<exists>ns. visit_link cf x y w h b l q = Inr (q @ ns) \<and> set ns = {b'. ?to l b'}" for l q
  proof -
    obtain x2 y2 z2 wr where d: "board_down_link x1 y1 z1 l (cf_width cf) (cf_height cf) = Inr (x2, y2, z2, wr)"
      using assms by (auto simp: cf_ok_def z_ok_def b
          intro: board_down_link_ok[of z1 "cf_width cf" "cf_height cf" x1 y1 l])
    show ?thesis
      by (cases "(x1, y1, z1, l) \<in> cf_dead_links cf"; cases "in_region x y w h x2 y2")
        (auto simp: b d)
  qed
  have "\<exists>ns. fold_res (visit_link cf x y w h b) ls q = Inr (q @ ns) \<and>
      set ns = {b'. \<exists>l \<in> set ls. ?to l b'}" for ls
  proof (induction ls arbitrary: q)
    case (Cons l ls)
    obtain n1 where n1: "visit_link cf x y w h b l q = Inr (q @ n1)" "set n1 = {b'. ?to l b'}"
      using one by blast
    obtain n2 where n2: "fold_res (visit_link cf x y w h b) ls (q @ n1) = Inr ((q @ n1) @ n2)"
      "set n2 = {b'. \<exists>l \<in> set ls. ?to l b'}" using Cons by blast
    show ?case by (rule exI[of _ "n1 @ n2"]) (use n1 n2 in auto)
  qed simp
  from this[of all_links] obtain ns where
    "fold_res (visit_link cf x y w h b) all_links q = Inr (q @ ns)" "set ns = {b'. \<exists>l. ?to l b'}"
    by auto
  moreover have "(\<exists>l. ?to l b') \<longleftrightarrow> hop cf x y w h b b'" for b' unfolding hop_def b by blast
  ultimately show ?thesis unfolding visit_links_def by simp
qed

text \<open>The invariant of the search: what it has entered and queued.\<close>

definition search_inv ::
    "cand_filter \<Rightarrow> int \<Rightarrow> int \<Rightarrow> int \<Rightarrow> int \<Rightarrow> board list \<Rightarrow> board list \<Rightarrow> bool" where
  "search_inv cf x y w h q bs \<longleftrightarrow>
     (\<forall>b \<in> set q. z_ok b \<and> (b \<notin> cf_dead_boards cf \<longrightarrow> reach cf x y w h b)) \<and>
     (\<forall>b \<in> set bs. reach cf x y w h b) \<and> distinct bs \<and>
     ((x, y, 0) \<notin> cf_dead_boards cf \<longrightarrow> (x, y, 0) \<in> set bs \<union> set q) \<and>
     (\<forall>b \<in> set bs. \<forall>b'. hop cf x y w h b b' \<longrightarrow> b' \<notin> cf_dead_boards cf \<longrightarrow> b' \<in> set bs \<union> set q)"

lemma enumerate_from_inv:
  "cf_ok cf \<Longrightarrow> search_inv cf x y w h q bs \<Longrightarrow>
   \<exists>bs'. enumerate_from cf x y w h q bs = Inr bs' \<and> search_inv cf x y w h [] bs'"
proof (induction cf x y w h q bs rule: enumerate_from.induct)
  case (2 cf x y w h b q bs)
  show ?case
  proof (cases "b \<in> cf_dead_boards cf \<or> b \<in> set bs")
    case True
    note inv = 2(4)[unfolded search_inv_def]
    have sub: "b' \<in> set bs \<union> set q" if "b' \<in> set bs \<union> set (b # q)" "b' \<notin> cf_dead_boards cf" for b'
      using that True by auto
    have "\<forall>b \<in> set bs. \<forall>b'. hop cf x y w h b b' \<longrightarrow> b' \<notin> cf_dead_boards cf \<longrightarrow> b' \<in> set bs \<union> set q"
      using inv sub by blast
    moreover have "(x, y, 0) \<notin> cf_dead_boards cf \<longrightarrow> (x, y, 0) \<in> set bs \<union> set q"
      using inv sub by blast
    moreover have "\<forall>b \<in> set q. z_ok b \<and> (b \<notin> cf_dead_boards cf \<longrightarrow> reach cf x y w h b)"
      "\<forall>b \<in> set bs. reach cf x y w h b" "distinct bs"
      using inv by (simp_all del: split_paired_All)
    ultimately have "search_inv cf x y w h q bs" unfolding search_inv_def by blast
    with 2(1)[OF True 2(3)] True show ?thesis by simp
  next
    case False
    have z: "z_ok b" and r: "reach cf x y w h b" using 2(4) False by (auto simp: search_inv_def)
    obtain ns where ns: "visit_links cf x y w h b q = Inr (q @ ns)" "set ns = {b'. hop cf x y w h b b'}"
      using visit_links_spec[OF 2(3) z] by blast
    have "search_inv cf x y w h (q @ ns) (bs @ [b])"
    proof -
      have new: "z_ok b' \<and> (b' \<notin> cf_dead_boards cf \<longrightarrow> reach cf x y w h b')" if "b' \<in> set ns" for b'
        using that hop_z reach_hop[OF r] unfolding ns(2) by blast
      have "(x, y, 0) \<notin> cf_dead_boards cf \<longrightarrow> (x, y, 0) \<in> set (bs @ [b]) \<union> set (q @ ns)"
        using 2(4) unfolding search_inv_def by (metis UnCI UnE list.set_intros(1) set_ConsD set_append)
      moreover have "b'' \<in> set (bs @ [b]) \<union> set (q @ ns)"
        if "b' \<in> set (bs @ [b])" "hop cf x y w h b' b''" "b'' \<notin> cf_dead_boards cf" for b' b''
      proof (cases "b' = b")
        case True
        with that ns(2) show ?thesis by simp
      next
        case no: False
        with that(1) have "b' \<in> set bs" by simp
        with 2(4) that(2,3) have "b'' \<in> set bs \<union> set (b # q)" unfolding search_inv_def by blast
        then show ?thesis by auto
      qed
      moreover have "\<forall>b' \<in> set (bs @ [b]). reach cf x y w h b'" "distinct (bs @ [b])"
        using 2(4) False r unfolding search_inv_def by simp_all
      moreover have "\<forall>b' \<in> set (q @ ns). z_ok b' \<and> (b' \<notin> cf_dead_boards cf \<longrightarrow> reach cf x y w h b')"
      proof -
        have "\<forall>b' \<in> set q. z_ok b' \<and> (b' \<notin> cf_dead_boards cf \<longrightarrow> reach cf x y w h b')"
          using 2(4) unfolding search_inv_def by simp
        with new show ?thesis unfolding set_append by blast
      qed
      ultimately show ?thesis unfolding search_inv_def by blast
    qed
    with 2(2)[OF False ns(1) 2(3)] False ns(1) show ?thesis by simp
  qed
qed simp

lemma enumerate_boards_reach:
  assumes "cf_ok cf"
  shows "\<exists>bs. enumerate_boards cf x y w h = Inr bs \<and> distinct bs \<and> set bs = {b. reach cf x y w h b}"
proof -
  have "search_inv cf x y w h [(x, y, 0)] []"
    by (auto simp: search_inv_def z_ok_def intro: reach_start)
  from enumerate_from_inv[OF assms this] obtain bs where
    bs: "enumerate_boards cf x y w h = Inr bs" "search_inv cf x y w h [] bs"
    by (auto simp: enumerate_boards_def)
  have "b \<in> set bs" if "reach cf x y w h b" for b
    using that bs(2) by induction (auto simp: search_inv_def)
  with bs show ?thesis by (auto simp: search_inv_def)
qed

lemma reach_boards:
  assumes "reach cf x y w h (x', y', z')" "0 < w" "0 < h"
  shows "(x', y', z') \<notin> cf_dead_boards cf \<and> in_region x y w h x' y' \<and> z' \<in> {0, 1, 2}"
proof -
  have "b \<notin> cf_dead_boards cf \<and> in_region x y w h (fst b) (fst (snd b)) \<and> z_ok b"
    if "reach cf x y w h b" for b
    using that
  proof cases
    case (reach_hop b)
    then show ?thesis using hop_z[OF reach_hop(2)] by (auto simp: hop_def)
  qed (use assms(2,3) in \<open>auto simp: in_region_def z_ok_def\<close>)
  from this[OF assms(1)] show ?thesis by (simp add: z_ok_def)
qed

section \<open>The links of the boards found\<close>

text \<open>A link between two boards of a set, and how it wraps around.\<close>

fun inner_link :: "cand_filter \<Rightarrow> board set \<Rightarrow> board_link \<Rightarrow> wrap_around \<Rightarrow> bool" where
  "inner_link cf B (x, y, z, l) wr \<longleftrightarrow> (x, y, z) \<in> B \<and>
     (\<exists>x2 y2 z2. board_down_link x y z l (cf_width cf) (cf_height cf) = Inr (x2, y2, z2, wr) \<and>
        (x2, y2, z2) \<in> B)"

fun link_of_board :: "board set \<Rightarrow> board_link \<Rightarrow> bool" where
  "link_of_board B (x, y, z, l) \<longleftrightarrow> (x, y, z) \<in> B"

definition classes_of :: "cand_filter \<Rightarrow> board set \<Rightarrow> board_link set \<Rightarrow> link_classes \<Rightarrow> bool" where
  "classes_of cf B L c \<longleftrightarrow>
     lc_alive c = {k \<in> L. inner_link cf B k Wrap_none \<and> k \<notin> cf_dead_links cf} \<and>
     lc_dead c = {k \<in> L. inner_link cf B k Wrap_none \<and> k \<in> cf_dead_links cf} \<and>
     lc_wrap c = {k \<in> L. \<exists>wr. wr \<noteq> Wrap_none \<and> inner_link cf B k wr \<and> k \<notin> cf_dead_links cf} \<and>
     lc_dead_wrap c = {k \<in> L. \<exists>wr. wr \<noteq> Wrap_none \<and> inner_link cf B k wr \<and> k \<in> cf_dead_links cf} \<and>
     lc_periphery c = {k \<in> L. \<nexists>wr. inner_link cf B k wr} \<and>
     (has_x (lc_wrap_type c) \<longleftrightarrow> (\<exists>k \<in> L. \<exists>wr. inner_link cf B k wr \<and> has_x wr)) \<and>
     (has_y (lc_wrap_type c) \<longleftrightarrow> (\<exists>k \<in> L. \<exists>wr. inner_link cf B k wr \<and> has_y wr))"

lemma classify_link_spec:
  assumes "cf_ok cf" "link_of_board (set bs) k" "\<forall>b \<in> set bs. z_ok b" "classes_of cf (set bs) L c"
  shows "\<exists>c'. classify_link cf bs k c = Inr c' \<and> classes_of cf (set bs) (insert k L) c'"
proof -
  obtain x1 y1 z1 l where k: "k = (x1, y1, z1, l)" by (cases k)
  obtain x2 y2 z2 wr where d: "board_down_link x1 y1 z1 l (cf_width cf) (cf_height cf) = Inr (x2, y2, z2, wr)"
    by (rule board_down_link_ok[of z1 "cf_width cf" "cf_height cf" x1 y1 l])
      (use assms(1-3) in \<open>fastforce simp: cf_ok_def z_ok_def k\<close>)+
  have i: "inner_link cf (set bs) k wr' \<longleftrightarrow> wr' = wr \<and> (x2, y2, z2) \<in> set bs" for wr'
    using assms(2) by (auto simp: k d)
  let ?in = "(x2, y2, z2) \<in> set bs" and ?D = "k \<in> cf_dead_links cf" and ?w = "wr \<noteq> Wrap_none"
  obtain c' where c': "classify_link cf bs k c = Inr c'" by (simp add: k d)
  have fields:
    "lc_alive c' = (if ?in \<and> \<not> ?w \<and> \<not> ?D then insert k (lc_alive c) else lc_alive c)"
    "lc_dead c' = (if ?in \<and> \<not> ?w \<and> ?D then insert k (lc_dead c) else lc_dead c)"
    "lc_wrap c' = (if ?in \<and> ?w \<and> \<not> ?D then insert k (lc_wrap c) else lc_wrap c)"
    "lc_dead_wrap c' = (if ?in \<and> ?w \<and> ?D then insert k (lc_dead_wrap c) else lc_dead_wrap c)"
    "lc_periphery c' = (if ?in then lc_periphery c else insert k (lc_periphery c))"
    "lc_wrap_type c' = (if ?in then wrap_or (lc_wrap_type c) wr else lc_wrap_type c)"
    by (cases ?in; cases ?D; cases ?w; use c' in \<open>auto simp: k d Let_def\<close>)+
  have ins: "{k' \<in> insert k L. P k'} = (if P k then insert k {k' \<in> L. P k'} else {k' \<in> L. P k'})" for P
    by auto
  note eqs = assms(4)[unfolded classes_of_def]
  have "classes_of cf (set bs) (insert k L) c'"
    unfolding classes_of_def ins bex_simps(5) by (intro conjI) (simp_all add: eqs i fields, auto)
  with c' show ?thesis by blast
qed

lemma set_board_links: "set (board_links bs) = {k. link_of_board (set bs) k}"
  by (auto simp: board_links_def)

lemma classes_no_links: "classes_of cf B {} no_links"
  by (simp add: classes_of_def no_links_def)

lemma classes_of_wrap:
  assumes "classes_of cf B L c"
  shows "has_x (lc_wrap_type c) \<Longrightarrow> \<exists>k wr. inner_link cf B k wr \<and> has_x wr"
    "has_y (lc_wrap_type c) \<Longrightarrow> \<exists>k wr. inner_link cf B k wr \<and> has_y wr"
proof -
  have "has_x (lc_wrap_type c) \<longleftrightarrow> (\<exists>k \<in> L. \<exists>wr. inner_link cf B k wr \<and> has_x wr)"
    "has_y (lc_wrap_type c) \<longleftrightarrow> (\<exists>k \<in> L. \<exists>wr. inner_link cf B k wr \<and> has_y wr)"
    using assms by (simp_all only: classes_of_def)
  then show "has_x (lc_wrap_type c) \<Longrightarrow> \<exists>k wr. inner_link cf B k wr \<and> has_x wr"
    "has_y (lc_wrap_type c) \<Longrightarrow> \<exists>k wr. inner_link cf B k wr \<and> has_y wr"
    by blast+
qed

lemma classify_links_spec:
  assumes "cf_ok cf" "\<forall>b \<in> set bs. z_ok b"
  shows "\<exists>c. classify_links cf bs = Inr c \<and> classes_of cf (set bs) {k. link_of_board (set bs) k} c"
proof -
  have "\<exists>c'. fold_res (classify_link cf bs) ks c = Inr c' \<and> classes_of cf (set bs) (set ks \<union> L) c'"
    if "\<forall>k \<in> set ks. link_of_board (set bs) k" "classes_of cf (set bs) L c" for ks L c
    using that
  proof (induction ks arbitrary: L c)
    case (Cons k ks)
    then have "link_of_board (set bs) k" "\<forall>k \<in> set ks. link_of_board (set bs) k" by simp_all
    from classify_link_spec[OF assms(1) this(1) assms(2) Cons.prems(2)] obtain c1 where
      c1: "classify_link cf bs k c = Inr c1" "classes_of cf (set bs) (insert k L) c1" by blast
    with Cons.IH[OF \<open>\<forall>k \<in> set ks. _\<close> c1(2)] show ?case by simp
  qed simp
  from this[of "board_links bs" "{}", OF _ classes_no_links] show ?thesis
    unfolding classify_links_def set_board_links by simp
qed

text \<open>What a call of the filter decides: the limits, over the boards that can be reached.\<close>

definition within_limits ::
    "cand_filter \<Rightarrow> int \<Rightarrow> int \<Rightarrow> board set \<Rightarrow> link_classes \<Rightarrow> bool" where
  "within_limits cf w h B c \<longleftrightarrow> B \<noteq> {} \<and>
     (\<forall>m. cf_max_dead_boards cf = Some m \<longrightarrow>
        (case cf_expected_boards cf of Some e \<Rightarrow> e | None \<Rightarrow> 3 * (w * h)) \<le> int (card B) + m) \<and>
     (cf_require_torus cf \<longrightarrow> lc_wrap_type c \<noteq> Wrap_none) \<and>
     (\<forall>m. cf_max_dead_links cf = Some m \<longrightarrow>
        int (card (lc_dead c)) + (if cf_require_torus cf then int (card (lc_dead_wrap c)) else 0) \<le> m)"

lemma filter_call_spec:
  assumes "cf_ok cf" "0 < w" "0 < h"
  shows "\<exists>bs c. set bs = {b. reach cf x y w h b} \<and> distinct bs \<and>
    classes_of cf (set bs) {k. link_of_board (set bs) k} c \<and>
    filter_call cf x y w h = Inr (if within_limits cf w h (set bs) c then
      Some \<lparr> cand_boards = bs, cand_periphery = lc_periphery c, cand_torus = lc_wrap_type c \<rparr> else None)"
proof -
  obtain bs where bs: "enumerate_boards cf x y w h = Inr bs" "distinct bs" "set bs = {b. reach cf x y w h b}"
    using enumerate_boards_reach[OF assms(1)] by blast
  have "z_ok b" if "b \<in> set bs" for b
    using reach_boards[OF _ assms(2,3), of cf x y] that unfolding bs(3)
    by (cases b) (auto simp: z_ok_def)
  then obtain c where c: "classify_links cf bs = Inr c"
    "classes_of cf (set bs) {k. link_of_board (set bs) k} c"
    using classify_links_spec[OF assms(1)] by blast
  have "card (set bs) = length bs" using bs(2) by (rule distinct_card)
  then have "within_limits cf w h (set bs) c \<longleftrightarrow> \<not> too_many_dead_boards cf w h bs \<and>
      \<not> (cf_require_torus cf \<and> lc_wrap_type c = Wrap_none) \<and> \<not> too_many_dead_links cf c"
    by (auto simp: within_limits_def too_many_dead_boards_def too_many_dead_links_def Let_def
        mult.commute[of 3] split: option.splits)
  with bs c show ?thesis by (intro exI[of _ bs] exI[of _ c]) (simp add: filter_call_def)
qed

section \<open>Correctness\<close>

text \<open>
  The search enters exactly the working boards that can be reached from the bottom left
  board over working links inside the region, each once, and always ends.
\<close>

theorem enumerate_boards_exact:
  assumes "0 < cf_width cf" "0 < cf_height cf"
  shows "\<exists>bs. enumerate_boards cf x y w h = Inr bs \<and> distinct bs \<and>
    (\<forall>b. b \<in> set bs \<longleftrightarrow> reach cf x y w h b)"
  using enumerate_boards_reach[of cf] assms by (fastforce simp: cf_ok_def)

text \<open>A machine of 3x2 triads with a dead board and a link that is dead in both directions.\<close>

definition sample_filter :: cand_filter where
  "sample_filter = \<lparr> cf_width = 3, cf_height = 2, cf_dead_boards = {(1, 0, 1)},
     cf_dead_links = {(0, 0, 0, North), (0, 0, 2, South)}, cf_max_dead_boards = Some 1,
     cf_max_dead_links = None, cf_require_torus = False, cf_expected_boards = None \<rparr>"

theorem enumerate_boards_exact_witness:
  "\<exists>bs. enumerate_boards sample_filter 0 0 2 1 = Inr bs \<and> distinct bs \<and>
    (\<forall>b. b \<in> set bs \<longleftrightarrow> reach sample_filter 0 0 2 1 b)"
  by (rule enumerate_boards_exact) (simp_all add: sample_filter_def)

text \<open>
  C32. A candidate that is accepted gives at least one board, only working boards of the
  region, all of them connected inside it, no more boards missing than allowed; and it
  isolates them: every link of these boards leads to one of them or is in the periphery,
  which holds only links of these boards that leave the set.
\<close>

theorem filter_accepts_sound:
  assumes "0 < cf_width cf" "0 < cf_height cf" "0 < w" "0 < h"
    and "filter_call cf x y w h = Inr (Some c)"
  shows "cand_boards c \<noteq> [] \<and> distinct (cand_boards c) \<and>
    (\<forall>(x', y', z') \<in> set (cand_boards c). (x', y', z') \<notin> cf_dead_boards cf \<and>
       in_region x y w h x' y' \<and> z' \<in> {0, 1, 2} \<and> reach cf x y w h (x', y', z')) \<and>
    (\<forall>m. cf_max_dead_boards cf = Some m \<longrightarrow> cf_expected_boards cf = None \<longrightarrow>
       3 * (w * h) - int (length (cand_boards c)) \<le> m) \<and>
    (\<forall>x1 y1 z1 l. (x1, y1, z1) \<in> set (cand_boards c) \<longrightarrow>
       (\<exists>x2 y2 z2 wr. board_down_link x1 y1 z1 l (cf_width cf) (cf_height cf) = Inr (x2, y2, z2, wr) \<and>
          ((x1, y1, z1, l) \<in> cand_periphery c \<longleftrightarrow> (x2, y2, z2) \<notin> set (cand_boards c)))) \<and>
    (\<forall>(x1, y1, z1, l) \<in> cand_periphery c. (x1, y1, z1) \<in> set (cand_boards c))"
proof -
  have ok: "cf_ok cf" using assms(1,2) by (simp add: cf_ok_def)
  obtain bs k where s: "set bs = {b. reach cf x y w h b}" "distinct bs"
    "classes_of cf (set bs) {k. link_of_board (set bs) k} k" "within_limits cf w h (set bs) k"
    "c = \<lparr> cand_boards = bs, cand_periphery = lc_periphery k, cand_torus = lc_wrap_type k \<rparr>"
    using filter_call_spec[OF ok assms(3,4), of x y] assms(5) by (force split: if_splits)
  have b: "(x', y', z') \<notin> cf_dead_boards cf \<and> in_region x y w h x' y' \<and> z' \<in> {0, 1, 2} \<and>
      reach cf x y w h (x', y', z')" if "(x', y', z') \<in> set bs" for x' y' z'
    using that reach_boards[OF _ assms(3,4)] unfolding s(1) by blast
  have per: "lc_periphery k = {k. link_of_board (set bs) k \<and> (\<nexists>wr. inner_link cf (set bs) k wr)}"
    using s(3) by (simp add: classes_of_def)
  have l: "\<exists>x2 y2 z2 wr. board_down_link x1 y1 z1 l (cf_width cf) (cf_height cf) = Inr (x2, y2, z2, wr) \<and>
      ((x1, y1, z1, l) \<in> lc_periphery k \<longleftrightarrow> (x2, y2, z2) \<notin> set bs)" if "(x1, y1, z1) \<in> set bs" for x1 y1 z1 l
  proof -
    have "z1 \<in> {0, 1, 2}" using b[OF that] by blast
    then obtain x2 y2 z2 wr where
      d: "board_down_link x1 y1 z1 l (cf_width cf) (cf_height cf) = Inr (x2, y2, z2, wr)"
      using board_down_link_total[OF _ assms(1,2)] by blast
    with that have "inner_link cf (set bs) (x1, y1, z1, l) wr' \<longleftrightarrow> wr' = wr \<and> (x2, y2, z2) \<in> set bs" for wr'
      by auto
    with that have "(x1, y1, z1, l) \<in> lc_periphery k \<longleftrightarrow> (x2, y2, z2) \<notin> set bs"
      unfolding per by (simp del: inner_link.simps)
    with d show ?thesis by blast
  qed
  have "card (set bs) = length bs" using s(2) by (rule distinct_card)
  then have dead: "3 * (w * h) - int (length bs) \<le> m"
    if "cf_max_dead_boards cf = Some m" "cf_expected_boards cf = None" for m
    using s(4) that by (simp add: within_limits_def)
  have "bs \<noteq> []" using s(4) by (auto simp: within_limits_def)
  moreover have "\<forall>(x1, y1, z1, l) \<in> lc_periphery k. (x1, y1, z1) \<in> set bs" unfolding per by auto
  ultimately show ?thesis using s(2,5) b l dead by auto
qed

lemma sample_filter_call: "\<exists>c. filter_call sample_filter 0 0 2 1 = Inr (Some c)"
proof -
  have "(case filter_call sample_filter 0 0 2 1 of Inr (Some c) \<Rightarrow> True | _ \<Rightarrow> False)" by code_simp
  then show ?thesis by (auto split: sum.splits option.splits)
qed

theorem filter_accepts_sound_witness:
  "\<exists>c. filter_call sample_filter 0 0 2 1 = Inr (Some c) \<and> 5 \<le> length (cand_boards c) \<and>
    (1, 0, 1) \<notin> set (cand_boards c)"
proof -
  obtain c where c: "filter_call sample_filter 0 0 2 1 = Inr (Some c)" using sample_filter_call by blast
  with filter_accepts_sound[OF _ _ _ _ c] show ?thesis
    by (auto simp: sample_filter_def)
qed

text \<open>
  The decision is exact: no call of the filter raises, and a region is accepted exactly
  if a board can be reached and the limits on boards, links and torus hold for the boards
  that can be.
\<close>

theorem filter_decides:
  assumes "0 < cf_width cf" "0 < cf_height cf" "0 < w" "0 < h"
  shows "\<exists>k. classes_of cf {b. reach cf x y w h b} {(x1, y1, z1, l). reach cf x y w h (x1, y1, z1)} k \<and>
    accepts cf x y w h = Inr (within_limits cf w h {b. reach cf x y w h b} k)"
proof -
  have ok: "cf_ok cf" using assms(1,2) by (simp add: cf_ok_def)
  obtain bs k where s: "set bs = {b. reach cf x y w h b}"
    "classes_of cf (set bs) {k. link_of_board (set bs) k} k"
    "filter_call cf x y w h = Inr (if within_limits cf w h (set bs) k then
      Some \<lparr> cand_boards = bs, cand_periphery = lc_periphery k, cand_torus = lc_wrap_type k \<rparr> else None)"
    using filter_call_spec[OF ok assms(3,4), of x y] by blast
  have "{k. link_of_board (set bs) k} = {(x1, y1, z1, l). reach cf x y w h (x1, y1, z1)}"
    by (auto simp: s(1))
  with s show ?thesis by (intro exI[of _ k]) (simp add: accepts_def)
qed

theorem filter_decides_witness:
  "\<exists>k. classes_of sample_filter {b. reach sample_filter 0 0 2 1 b}
      {(x1, y1, z1, l). reach sample_filter 0 0 2 1 (x1, y1, z1)} k \<and>
    accepts sample_filter 0 0 2 1 = Inr (within_limits sample_filter 2 1 {b. reach sample_filter 0 0 2 1 b} k)"
  by (rule filter_decides) (simp_all add: sample_filter_def)

text \<open>
  Torus connectivity needs the whole machine: a region inside the machine is said to wrap
  around horizontally only if it is as wide as the machine, vertically only if it is as high.
\<close>

theorem torus_needs_full_size:
  assumes "0 < w" "0 < h" "0 \<le> x" "x + w \<le> cf_width cf" "0 \<le> y" "y + h \<le> cf_height cf"
    and "filter_call cf x y w h = Inr (Some c)"
  shows "(has_x (cand_torus c) \<longrightarrow> w = cf_width cf) \<and> (has_y (cand_torus c) \<longrightarrow> h = cf_height cf)"
proof -
  let ?W = "cf_width cf" and ?H = "cf_height cf"
  have pos: "0 < ?W" "0 < ?H" "?W \<noteq> 0" "?H \<noteq> 0" using assms by auto
  then have ok: "cf_ok cf" by (simp add: cf_ok_def)
  obtain bs k where s: "set bs = {b. reach cf x y w h b}"
    "classes_of cf (set bs) {k. link_of_board (set bs) k} k" "cand_torus c = lc_wrap_type k"
    using filter_call_spec[OF ok assms(1,2), of x y] assms(7) by (force split: if_splits)
  have wide: "(has_x wr \<longrightarrow> w = ?W) \<and> (has_y wr \<longrightarrow> h = ?H)"
    if "inner_link cf (set bs) (x1, y1, z1, l) wr" for x1 y1 z1 l wr
  proof -
    from that obtain x2 y2 z2 where d: "board_down_link x1 y1 z1 l ?W ?H = Inr (x2, y2, z2, wr)"
      "reach cf x y w h (x1, y1, z1)" "reach cf x y w h (x2, y2, z2)" unfolding s(1) by auto
    have r: "in_region x y w h x1 y1" "z1 \<in> {0, 1, 2}" "in_region x y w h x2 y2"
      using reach_boards[OF d(2) assms(1,2)] reach_boards[OF d(3) assms(1,2)] by auto
    obtain dx dy dz where v: "board_vector z1 l = (dx, dy, dz)" using prod_cases3 by blast
    have small: "-1 \<le> dx" "dx \<le> 1" "-1 \<le> dy" "dy \<le> 1" using v r(2) by (cases l; auto)+
    have e: "x2 = (x1 + dx) mod ?W" "y2 = (y1 + dy) mod ?H" "has_x wr \<longleftrightarrow> x1 + dx \<noteq> x2"
      "has_y wr \<longleftrightarrow> y1 + dy \<noteq> y2"
      using board_down_link_eq[OF r(2) pos(3,4) v, of x1 y1] d(1) by auto
    have edge: "a = 0 \<and> b = n - 1 \<or> a = n - 1 \<and> b = 0"
      if "0 \<le> a" "a < n" "b = (a + d) mod n" "a + d \<noteq> b" "-1 \<le> d" "d \<le> 1" for a b d n :: int
    proof -
      have "\<not> (0 \<le> a + d \<and> a + d < n)" using that(3,4) by auto
      then have "a = 0 \<and> d = -1 \<or> a = n - 1 \<and> d = 1" using that(1,2,5,6) by linarith
      then have "a = 0 \<and> b = -1 mod n \<or> a = n - 1 \<and> b = n mod n" using that(3) by fastforce
      then show ?thesis using that(1,2) by (simp add: zmod_minus1)
    qed
    have "w = ?W" if "has_x wr"
      using edge[of x1 ?W x2 dx] e that r assms small unfolding in_region_def by auto
    moreover have "h = ?H" if "has_y wr"
      using edge[of y1 ?H y2 dy] e that r assms small unfolding in_region_def by auto
    ultimately show ?thesis by blast
  qed
  have "has_x (cand_torus c) \<Longrightarrow> \<exists>k wr. inner_link cf (set bs) k wr \<and> has_x wr"
    "has_y (cand_torus c) \<Longrightarrow> \<exists>k wr. inner_link cf (set bs) k wr \<and> has_y wr"
    using classes_of_wrap[OF s(2)] s(3) by simp_all
  moreover have "(has_x wr \<longrightarrow> w = ?W) \<and> (has_y wr \<longrightarrow> h = ?H)" if "inner_link cf (set bs) k wr" for k wr
  proof -
    obtain x1 y1 z1 l where "k = (x1, y1, z1, l)" by (cases k)
    with that show ?thesis using wide by (simp del: inner_link.simps)
  qed
  ultimately show ?thesis by blast
qed

theorem torus_needs_full_size_witness:
  "\<exists>c. filter_call sample_filter 0 0 2 1 = Inr (Some c) \<and> cand_torus c = Wrap_none"
proof -
  obtain c where c: "filter_call sample_filter 0 0 2 1 = Inr (Some c)" using sample_filter_call by blast
  with torus_needs_full_size[OF _ _ _ _ _ _ c] show ?thesis
    by (auto simp: sample_filter_def wrap_none_iff)
qed

end
