(* ===== verification/Allocator.thy ===== *)
theory Allocator
  imports PackTree CandidateFilter
begin

text \<open>
  The allocator of boards (class \<open>Allocator\<close> of \<open>allocator.py\<close>): rectangles of triads out of a
  packing tree, single boards out of triads reserved for them, and the delayed freeing of
  both. An operation takes the allocator and returns its outcome with the allocator it leaves
  behind, also when it raises.
\<close>

section \<open>The state\<close>

datatype allocation_type = Triads | Board | Boards

record allocator =
  al_width :: int
  al_height :: int
  al_dead_boards :: "board set"
  al_dead_links :: "board_link set"
  al_seconds_before_free :: rat
  al_next_id :: int
  al_pack_tree :: pack_tree
  al_allocation_types :: "int \<rightharpoonup> allocation_type"
  al_allocation_board :: "int \<rightharpoonup> board"
  al_to_free :: "(int \<times> allocation_type \<times> board) list"
  al_single_board_triads :: "(int \<times> int, int set) odict"
  al_full_single_board_triads :: "(int \<times> int) set"

definition new_allocator ::
    "int \<Rightarrow> int \<Rightarrow> board set \<Rightarrow> board_link set \<Rightarrow> int \<Rightarrow> rat \<Rightarrow> allocator" where
  "new_allocator w h dead_boards dead_links next_id seconds =
     \<lparr> al_width = w, al_height = h, al_dead_boards = dead_boards, al_dead_links = dead_links,
       al_seconds_before_free = seconds, al_next_id = next_id, al_pack_tree = new_tree 0 0 w h,
       al_allocation_types = Map.empty, al_allocation_board = Map.empty, al_to_free = [],
       al_single_board_triads = [], al_full_single_board_triads = {} \<rparr>"

text \<open>
  The positional arguments of a request, as the documentation lists them: nothing, a number
  of boards, a width and a height, or one board; and the keyword arguments.
\<close>

datatype alloc_args = Any_board | Num int | Block int int | One_board int int int

record alloc_kwargs =
  kw_max_dead_boards :: "int option"
  kw_max_dead_links :: "int option"
  kw_require_torus :: bool
  kw_min_ratio :: rat

text \<open>What a successful request returns.\<close>

record allocation =
  an_id :: int
  an_boards :: "board set"
  an_periphery :: "board_link set"
  an_torus :: wrap_around

type_synonym 'a al_result = "'a res \<times> allocator"

text \<open>
  The element that \<open>set.pop\<close> takes is not determined: a parameter chooses it, given the id of
  the allocation it is for. The clock readings of a loop are a function of their number, in
  microseconds.
\<close>

type_synonym pop_choice = "int \<Rightarrow> int set \<Rightarrow> int"
type_synonym clock = "nat \<Rightarrow> int"

definition make_filter :: "allocator \<Rightarrow> alloc_kwargs \<Rightarrow> int option \<Rightarrow> cand_filter" where
  "make_filter a kw expected =
     \<lparr> cf_width = al_width a, cf_height = al_height a, cf_dead_boards = al_dead_boards a,
       cf_dead_links = al_dead_links a, cf_max_dead_boards = kw_max_dead_boards kw,
       cf_max_dead_links = kw_max_dead_links kw, cf_require_torus = kw_require_torus kw,
       cf_expected_boards = expected \<rparr>"

text \<open>
  The attributes \<open>boards\<close>, \<open>periphery\<close> and \<open>torus\<close> after the filter was called last on this
  rectangle; they are empty as long as nothing was accepted.
\<close>

definition accepted :: "cand_filter \<Rightarrow> int \<Rightarrow> int \<Rightarrow> int \<Rightarrow> int \<Rightarrow> candidate" where
  "accepted cf x y w h =
     (case filter_call cf x y w h of
        Inr (Some c) \<Rightarrow> c
      | _ \<Rightarrow> \<lparr> cand_boards = [], cand_periphery = {}, cand_torus = Wrap_none \<rparr>)"

definition store_allocation :: "allocation_type \<Rightarrow> board \<Rightarrow> allocator \<Rightarrow> allocator" where
  "store_allocation kind b a =
     a\<lparr> al_next_id := al_next_id a + 1,
        al_allocation_types := (al_allocation_types a)(al_next_id a \<mapsto> kind),
        al_allocation_board := (al_allocation_board a)(al_next_id a \<mapsto> b) \<rparr>"

section \<open>Blocks of triads\<close>

definition store_block :: "cand_filter \<Rightarrow> int \<Rightarrow> int \<Rightarrow> int \<Rightarrow> int \<Rightarrow> allocator \<Rightarrow> allocation option al_result" where
  "store_block cf x y w h a =
     (let c = accepted cf x y w h
      in (Inr (Some \<lparr> an_id = al_next_id a, an_boards = set (cand_boards c),
                      an_periphery = cand_periphery c, an_torus = cand_torus c \<rparr>),
          store_allocation Triads (x, y, 0) a))"

definition alloc_triads :: "int \<Rightarrow> int \<Rightarrow> alloc_kwargs \<Rightarrow> allocator \<Rightarrow> allocation option al_result" where
  "alloc_triads width height kw a =
     (if kw_require_torus kw \<and> (width \<noteq> al_width a \<or> height \<noteq> al_height a) then (Inr None, a)
      else if width \<le> 0 \<or> height \<le> 0 then (Inr None, a)
      else
        let cf = make_filter a kw None
        in case alloc (accepts cf) width height (al_pack_tree a) of
             Inl e \<Rightarrow> (Inl e, a)
           | Inr (None, t) \<Rightarrow> (Inr None, a\<lparr>al_pack_tree := t\<rparr>)
           | Inr (Some (x, y), t) \<Rightarrow> store_block cf x y width height (a\<lparr>al_pack_tree := t\<rparr>))"

definition alloc_boards :: "int \<Rightarrow> alloc_kwargs \<Rightarrow> allocator \<Rightarrow> allocation option al_result" where
  "alloc_boards boards kw a =
     (let triads = ceil_div boards 3
      in if triads \<le> 0 then (Inr None, a)
         else if kw_require_torus kw \<and> triads \<noteq> al_width a * al_height a then (Inr None, a)
         else
           let cf = make_filter a kw (Some boards)
           in case alloc_area (accepts cf) triads (kw_min_ratio kw) (al_pack_tree a) of
                Inl e \<Rightarrow> (Inl e, a)
              | Inr (None, t) \<Rightarrow> (Inr None, a\<lparr>al_pack_tree := t\<rparr>)
              | Inr (Some (x, y, w, h), t) \<Rightarrow> store_block cf x y w h (a\<lparr>al_pack_tree := t\<rparr>))"

section \<open>Single boards\<close>

text \<open>The two assertions on the arguments; the board asked for, if one is.\<close>

fun board_args :: "alloc_args \<Rightarrow> bool \<Rightarrow> board option res" where
  "board_args args True = Inl AssertionError"
| "board_args Any_board False = Inr None"
| "board_args (Num n) False = (if n = 1 then Inr None else Inl AssertionError)"
| "board_args (Block w h) False = Inl AssertionError"
| "board_args (One_board x y z) False = Inr (Some (x, y, z))"

definition working_boards :: "allocator \<Rightarrow> int \<times> int \<Rightarrow> int set" where
  "working_boards a xy = Set.filter (\<lambda>z. (fst xy, snd xy, z) \<notin> al_dead_boards a) {0, 1, 2}"

definition has_working_board :: "allocator \<Rightarrow> candidate_filter" where
  "has_working_board a x y w h =
     Inr (length (filter (\<lambda>z. (x, y, z) \<in> al_dead_boards a) [0, 1, 2]) < 3)"

text \<open>Taking the board \<open>z\<close> of a triad that has the boards \<open>available\<close> to give.\<close>

definition take_board ::
    "int \<Rightarrow> int \<Rightarrow> int \<Rightarrow> int set \<Rightarrow> allocator \<Rightarrow> allocation option al_result" where
  "take_board x y z available a =
     (let available = available - {z};
          a' = (if available = {}
                then a\<lparr> al_single_board_triads := od_del (x, y) (al_single_board_triads a),
                        al_full_single_board_triads := insert (x, y) (al_full_single_board_triads a) \<rparr>
                else a\<lparr> al_single_board_triads := od_set (x, y) available (al_single_board_triads a) \<rparr>)
      in (Inr (Some \<lparr> an_id = al_next_id a', an_boards = {(x, y, z)},
                      an_periphery = (\<lambda>l. (x, y, z, l)) ` set all_links, an_torus = Wrap_none \<rparr>),
          store_allocation Board (x, y, z) a'))"

definition board_available :: "board option \<Rightarrow> allocator \<Rightarrow> bool" where
  "board_available wanted a \<longleftrightarrow> al_single_board_triads a \<noteq> [] \<and>
     (case wanted of
        None \<Rightarrow> True
      | Some (x, y, z) \<Rightarrow>
          (case od_get (al_single_board_triads a) (x, y) of None \<Rightarrow> False | Some s \<Rightarrow> z \<in> s))"

definition take_available :: "pop_choice \<Rightarrow> board option \<Rightarrow> allocator \<Rightarrow> allocation option al_result" where
  "take_available pick wanted a =
     (case wanted of
        None \<Rightarrow>
          (case hd (al_single_board_triads a) of
             ((x, y), available) \<Rightarrow>
               if available = {} then (Inl KeyError, a)
               else take_board x y (pick (al_next_id a) available) available a)
      | Some (x, y, z) \<Rightarrow>
          (case od_get (al_single_board_triads a) (x, y) of
             None \<Rightarrow> (Inl KeyError, a)
           | Some available \<Rightarrow> take_board x y z available a))"

definition reserve_triad :: "board option \<Rightarrow> allocator \<Rightarrow> ((int \<times> int) option \<times> pack_tree) res" where
  "reserve_triad wanted a =
     (case wanted of
        Some (x, y, z) \<Rightarrow> request x y (al_pack_tree a)
      | None \<Rightarrow> alloc (has_working_board a) 1 1 (al_pack_tree a))"

text \<open>The function calls itself; its first argument bounds the depth of the calls.\<close>

fun alloc_board ::
    "nat \<Rightarrow> pop_choice \<Rightarrow> alloc_args \<Rightarrow> bool \<Rightarrow> allocator \<Rightarrow> allocation option al_result" where
  "alloc_board 0 pick args torus a = (Inl RecursionError, a)"
| "alloc_board (Suc n) pick args torus a =
     (case board_args args torus of
        Inl e \<Rightarrow> (Inl e, a)
      | Inr wanted \<Rightarrow>
          if (case wanted of None \<Rightarrow> False | Some b \<Rightarrow> b \<in> al_dead_boards a) then (Inr None, a)
          else if board_available wanted a then take_available pick wanted a
          else case reserve_triad wanted a of
                 Inl e \<Rightarrow> (Inl e, a)
               | Inr (None, t) \<Rightarrow> (Inr None, a\<lparr>al_pack_tree := t\<rparr>)
               | Inr (Some xy, t) \<Rightarrow>
                   alloc_board n pick args False
                     (a\<lparr> al_pack_tree := t, al_single_board_triads :=
                           od_set xy (working_boards a xy) (al_single_board_triads a) \<rparr>))"

section \<open>Freeing\<close>

definition allocator_free :: "int \<Rightarrow> int \<Rightarrow> allocator \<Rightarrow> unit al_result" where
  "allocator_free now i a =
     (case al_allocation_types a i of
        None \<Rightarrow> (Inl KeyError, a)
      | Some kind \<Rightarrow>
          let a = a\<lparr>al_allocation_types := (al_allocation_types a)(i := None)\<rparr>
          in case al_allocation_board a i of
               None \<Rightarrow> (Inl KeyError, a)
             | Some b \<Rightarrow>
                 (Inr (), a\<lparr> al_allocation_board := (al_allocation_board a)(i := None),
                             al_to_free := al_to_free a @ [(now, kind, b)] \<rparr>))"

definition free_block :: "int \<Rightarrow> int \<Rightarrow> allocator \<Rightarrow> unit al_result" where
  "free_block x y a =
     (case free x y (al_pack_tree a) of
        Inl e \<Rightarrow> (Inl e, a)
      | Inr t \<Rightarrow> (Inr (), a\<lparr>al_pack_tree := t\<rparr>))"

definition free_board :: "int \<Rightarrow> int \<Rightarrow> int \<Rightarrow> allocator \<Rightarrow> unit al_result" where
  "free_board x y z a =
     (let a1 = (if (x, y) \<in> al_full_single_board_triads a
                then a\<lparr> al_full_single_board_triads := al_full_single_board_triads a - {(x, y)},
                        al_single_board_triads := od_set (x, y) {} (al_single_board_triads a) \<rparr>
                else a)
      in case od_get (al_single_board_triads a1) (x, y) of
           None \<Rightarrow> (Inl KeyError, a1)
         | Some s \<Rightarrow>
             let a2 = a1\<lparr>al_single_board_triads := od_set (x, y) (insert z s) (al_single_board_triads a1)\<rparr>
             in if insert z s = working_boards a2 (x, y)
                then free_block x y
                       (a2\<lparr>al_single_board_triads := od_del (x, y) (al_single_board_triads a2)\<rparr>)
                else (Inr (), a2))"

definition free_next :: "allocator \<Rightarrow> unit al_result" where
  "free_next a =
     (case al_to_free a of
        [] \<Rightarrow> (Inl IndexError, a)
      | (t, kind, (x, y, z)) # rest \<Rightarrow>
          let a = a\<lparr>al_to_free := rest\<rparr>
          in case kind of
               Triads \<Rightarrow> free_block x y a
             | Board \<Rightarrow> free_board x y z a
             | Boards \<Rightarrow> (Inl AssertionError, a))"

lemma free_block_to_free: "al_to_free (snd (free_block x y a)) = al_to_free a"
  by (simp add: free_block_def split: sum.splits)

lemma free_next_to_free: "al_to_free (snd (free_next a)) = tl (al_to_free a)"
  by (auto simp: free_next_def free_board_def free_block_to_free Let_def
      split: list.splits prod.splits allocation_type.splits option.splits)

text \<open>The items of the queue are freed from its front, until one is too young.\<close>

function check_free_from :: "clock \<Rightarrow> nat \<Rightarrow> allocator \<Rightarrow> bool al_result" where
  "check_free_from clock i a =
     (case al_to_free a of
        [] \<Rightarrow> (Inr (0 < i), a)
      | (t, item) # rest \<Rightarrow>
          if fdiv (of_int (clock i - t)) 1000000 < al_seconds_before_free a then (Inr (0 < i), a)
          else case free_next a of
                 (Inl e, a') \<Rightarrow> (Inl e, a')
               | (Inr u, a') \<Rightarrow> check_free_from clock (Suc i) a')"
  by pat_completeness auto
termination
proof (relation "measure (\<lambda>(clock, i, a). length (al_to_free a))"; simp?)
  fix a a' :: allocator and x rest and u :: unit
  assume "al_to_free a = x # rest" "(Inr u, a') = free_next a"
  then show "length (al_to_free a') < Suc (length rest)"
    using free_next_to_free[of a] by (metis lessI list.sel(3) snd_conv)
qed

definition check_free :: "clock \<Rightarrow> allocator \<Rightarrow> bool al_result" where
  "check_free clock a = check_free_from clock 0 a"

section \<open>Requests\<close>

definition alloc_type :: "alloc_args \<Rightarrow> bool \<Rightarrow> allocation_type res" where
  "alloc_type args require_torus =
     (let kind = (case args of
                  Any_board \<Rightarrow> Board
                | Num n \<Rightarrow> if n = 1 then Board else Boards
                | Block w h \<Rightarrow> Triads
                | One_board x y z \<Rightarrow> Board)
      in if kind = Board \<and> require_torus then Inl ValueError else Inr kind)"

text \<open>The call that the type selects; the recursion of \<open>alloc_board\<close> is at most two calls deep.\<close>

definition alloc_now :: "pop_choice \<Rightarrow> alloc_args \<Rightarrow> alloc_kwargs \<Rightarrow> allocator \<Rightarrow> allocation option al_result" where
  "alloc_now pick args kw a =
     (case alloc_type args (kw_require_torus kw) of
        Inl e \<Rightarrow> (Inl e, a)
      | Inr _ \<Rightarrow>
          (case args of
             Num n \<Rightarrow> if n = 1 then alloc_board 2 pick args (kw_require_torus kw) a
                     else alloc_boards n kw a
           | Block w h \<Rightarrow> alloc_triads w h kw a
           | _ \<Rightarrow> alloc_board 2 pick args (kw_require_torus kw) a))"

definition allocator_alloc ::
    "clock \<Rightarrow> pop_choice \<Rightarrow> alloc_args \<Rightarrow> alloc_kwargs \<Rightarrow> allocator \<Rightarrow> allocation option al_result" where
  "allocator_alloc clock pick args kw a =
     (case check_free clock a of
        (Inl e, a') \<Rightarrow> (Inl e, a')
      | (Inr _, a') \<Rightarrow> alloc_now pick args kw a')"

section \<open>What could be allocated\<close>

text \<open>The corners of the idle machine; the order in which the code visits them is arbitrary.\<close>

fun any_accepts :: "cand_filter \<Rightarrow> int \<Rightarrow> int \<Rightarrow> (int \<times> int) list \<Rightarrow> bool res" where
  "any_accepts cf w h [] = Inr False"
| "any_accepts cf w h ((x, y) # xys) =
     (case accepts cf x y w h of
        Inl e \<Rightarrow> Inl e
      | Inr True \<Rightarrow> Inr True
      | Inr False \<Rightarrow> any_accepts cf w h xys)"

definition machine_corners :: "allocator \<Rightarrow> int \<Rightarrow> int \<Rightarrow> (int \<times> int) list" where
  "machine_corners a w h =
     remdups [(0, 0), (al_width a - w, 0), (0, al_height a - h), (al_width a - w, al_height a - h)]"

definition alloc_triads_possible :: "int \<Rightarrow> int \<Rightarrow> alloc_kwargs \<Rightarrow> allocator \<Rightarrow> bool res" where
  "alloc_triads_possible width height kw a =
     (if width > al_width a \<or> height > al_height a then Inr False
      else if width \<le> 0 \<or> height \<le> 0 then Inr False
      else if kw_require_torus kw \<and> (width \<noteq> al_width a \<or> height \<noteq> al_height a) then Inr False
      else any_accepts (make_filter a kw None) width height (machine_corners a width height))"

definition alloc_boards_possible :: "int \<Rightarrow> alloc_kwargs \<Rightarrow> allocator \<Rightarrow> bool res" where
  "alloc_boards_possible boards kw a =
     (let triads = ceil_div boards 3
      in if triads \<le> 0 then Inr False
         else if kw_require_torus kw \<and> triads \<noteq> al_width a * al_height a then Inr False
         else case area_to_rect triads (al_width a) (al_height a) (kw_min_ratio kw) of
                Inl e \<Rightarrow> Inl e
              | Inr None \<Rightarrow> Inr False
              | Inr (Some (w, h)) \<Rightarrow>
                  any_accepts (make_filter a kw (Some boards)) w h (machine_corners a w h))"

definition alloc_board_possible :: "alloc_args \<Rightarrow> bool \<Rightarrow> allocator \<Rightarrow> bool res" where
  "alloc_board_possible args require_torus a =
     (case board_args args require_torus of
        Inl e \<Rightarrow> Inl e
      | Inr wanted \<Rightarrow> Inr
          (if (case wanted of
                 None \<Rightarrow> False
               | Some (x, y, z) \<Rightarrow> \<not> (0 \<le> x \<and> x < al_width a \<and> 0 \<le> y \<and> y < al_height a \<and> 0 \<le> z \<and> z < 3))
           then False
           else if (case wanted of None \<Rightarrow> False | Some b \<Rightarrow> b \<in> al_dead_boards a) then False
           else if int (card (al_dead_boards a)) \<ge> al_width a * al_height a * 3 then False
           else True))"

definition alloc_possible :: "alloc_args \<Rightarrow> alloc_kwargs \<Rightarrow> allocator \<Rightarrow> bool res" where
  "alloc_possible args kw a =
     (case alloc_type args (kw_require_torus kw) of
        Inl e \<Rightarrow> Inl e
      | Inr _ \<Rightarrow>
          (case args of
             Num n \<Rightarrow> if n = 1 then alloc_board_possible args (kw_require_torus kw) a
                     else alloc_boards_possible n kw a
           | Block w h \<Rightarrow> alloc_triads_possible w h kw a
           | _ \<Rightarrow> alloc_board_possible args (kw_require_torus kw) a))"

end
