(* ===== verification/AllocatorBooks.thy ===== *)
theory AllocatorBooks
  imports Allocator
begin

text \<open>
  The books of the allocator: which allocation holds which boards, the invariant that ties
  the tree, the lists of single boards and the queue to it, and its preservation.
\<close>

section \<open>What is held, and by whom\<close>

type_synonym token = "allocation_type \<times> board"

text \<open>
  A token stands for one allocation that holds boards: of a live id, or waiting in the queue
  for its time to pass.
\<close>

definition live :: "allocator \<Rightarrow> int \<rightharpoonup> token" where
  "live a i =
     (case (al_allocation_types a i, al_allocation_board a i) of
        (Some k, Some b) \<Rightarrow> Some (k, b) | _ \<Rightarrow> None)"

definition pending :: "allocator \<Rightarrow> token list" where
  "pending a = map snd (al_to_free a)"

definition tokens :: "allocator \<Rightarrow> token set" where
  "tokens a = ran (live a) \<union> set (pending a)"

text \<open>Ids are bound at most once and below the next one, and no token is held twice.\<close>

definition tokens_ok :: "allocator \<Rightarrow> bool" where
  "tokens_ok a \<longleftrightarrow>
     dom (al_allocation_types a) = dom (al_allocation_board a) \<and>
     (\<forall>i \<in> dom (live a). i < al_next_id a) \<and> inj_on (live a) (dom (live a)) \<and>
     distinct (pending a) \<and> ran (live a) \<inter> set (pending a) = {}"

definition single_triads :: "allocator \<Rightarrow> (int \<times> int) set" where
  "single_triads a = fst ` set (al_single_board_triads a) \<union> al_full_single_board_triads a"

text \<open>The boards of a triad that single-board allocations hold, and those left to give.\<close>

definition used_boards :: "token set \<Rightarrow> int \<times> int \<Rightarrow> int set" where
  "used_boards K xy = {z. (Board, fst xy, snd xy, z) \<in> K}"

definition left_boards :: "allocator \<Rightarrow> token set \<Rightarrow> int \<times> int \<Rightarrow> int set" where
  "left_boards a K xy = working_boards a xy - used_boards K xy"

text \<open>
  The books of the allocator against a set of tokens: the tree is well-formed, every rectangle
  in use belongs to one token or is a triad given out by boards, and such a triad is listed
  with exactly the working boards that no token holds, or as full when there are none.
\<close>

definition token_ok :: "allocator \<Rightarrow> token \<Rightarrow> bool" where
  "token_ok a t \<longleftrightarrow>
     (case t of (k, x, y, z) \<Rightarrow>
        k = Triads \<and> z = 0 \<and> (x, y) \<in> corner ` rects (al_pack_tree a) \<and> (x, y) \<notin> single_triads a \<or>
        k = Board \<and> (x, y) \<in> single_triads a \<and> z \<in> working_boards a (x, y))"

definition books :: "allocator \<Rightarrow> token set \<Rightarrow> bool" where
  "books a K \<longleftrightarrow>
     0 < al_width a \<and> 0 < al_height a \<and> tree_ok (al_pack_tree a) \<and>
     bounds (al_pack_tree a) = (0, 0, al_width a, al_height a) \<and>
     distinct (od_keys (al_single_board_triads a)) \<and>
     fst ` set (al_single_board_triads a) \<inter> al_full_single_board_triads a = {} \<and>
     (\<forall>t \<in> K. token_ok a t) \<and>
     (\<forall>xy \<in> single_triads a. (fst xy, snd xy, 1, 1) \<in> rects (al_pack_tree a)) \<and>
     (\<forall>q \<in> rects (al_pack_tree a). corner q \<notin> single_triads a \<longrightarrow>
        (Triads, fst (corner q), snd (corner q), 0) \<in> K) \<and>
     (\<forall>xy s. od_get (al_single_board_triads a) xy = Some s \<longrightarrow> s = left_boards a K xy \<and> s \<noteq> {}) \<and>
     (\<forall>xy \<in> al_full_single_board_triads a. left_boards a K xy = {})"

text \<open>No triad is kept for single boards without one of its boards being held.\<close>

definition busy :: "allocator \<Rightarrow> token set \<Rightarrow> bool" where
  "busy a K \<longleftrightarrow> (\<forall>xy \<in> single_triads a. used_boards K xy \<noteq> {})"

definition allocator_ok :: "allocator \<Rightarrow> bool" where
  "allocator_ok a \<longleftrightarrow> tokens_ok a \<and> books a (tokens a) \<and> busy a (tokens a)"

text \<open>The boards a token keeps from all others.\<close>

definition space :: "allocator \<Rightarrow> token \<Rightarrow> board set" where
  "space a t =
     (case t of (k, x, y, z) \<Rightarrow>
        if k = Board then {(x, y, z)}
        else {(x', y', z'). z' \<in> {0, 1, 2} \<and>
                (\<exists>q \<in> rects (al_pack_tree a). corner q = (x, y) \<and> (x', y') \<in> cells q)})"

section \<open>Lemmas about the books\<close>

lemma working_boards_alt: "z \<in> working_boards a (x, y) \<longleftrightarrow> z \<in> {0, 1, 2} \<and> (x, y, z) \<notin> al_dead_boards a"
  by (auto simp: working_boards_def)

lemma token_corner:
  assumes "books a K" "(k, x, y, z) \<in> K"
  obtains q where "q \<in> rects (al_pack_tree a)" "corner q = (x, y)"
    "k = Board \<Longrightarrow> q = (x, y, 1, 1)" "k \<noteq> Board \<Longrightarrow> k = Triads \<and> z = 0"
    "k = Board \<longleftrightarrow> (x, y) \<in> single_triads a"
proof -
  have "token_ok a (k, x, y, z)" using assms unfolding books_def by blast
  then consider (t) "k = Triads" "z = 0" "(x, y) \<in> corner ` rects (al_pack_tree a)" "(x, y) \<notin> single_triads a"
    | (b) "k = Board" "(x, y) \<in> single_triads a" by (auto simp: token_ok_def)
  then show thesis
  proof cases
    case t
    then obtain q where "q \<in> rects (al_pack_tree a)" "corner q = (x, y)" by (metis imageE)
    with t that show thesis by simp
  next
    case b
    then have "(x, y, 1, 1) \<in> rects (al_pack_tree a)" using assms(1) unfolding books_def by force
    with b that[of "(x, y, 1, 1)"] show thesis by simp
  qed
qed

lemma space_Board [simp]: "space a (Board, x, y, z) = {(x, y, z)}"
  by (simp add: space_def)

lemma space_Triads:
  assumes "tree_ok (al_pack_tree a)" "q \<in> rects (al_pack_tree a)" "corner q = (x, y)"
  shows "space a (Triads, x, y, z) = {(x', y', z'). z' \<in> {0, 1, 2} \<and> (x', y') \<in> cells q}"
proof -
  have "(\<exists>q' \<in> rects (al_pack_tree a). corner q' = (x, y) \<and> p \<in> cells q') \<longleftrightarrow> p \<in> cells q" for p
    using pt.corner_unique[OF assms(1) _ assms(2)] assms(2,3) by metis
  then show ?thesis by (simp add: space_def)
qed

text \<open>A token and the rectangle its boards are in.\<close>

lemma token_space:
  assumes "books a K" "(k, x, y, z) \<in> K"
  obtains q where "q \<in> rects (al_pack_tree a)" "corner q = (x, y)"
    "\<And>u v w. (u, v, w) \<in> space a (k, x, y, z) \<Longrightarrow> (u, v) \<in> cells q \<and> (k = Board \<longrightarrow> w = z)"
    "k \<noteq> Board \<Longrightarrow> k = Triads \<and> z = 0" "k = Board \<longleftrightarrow> (x, y) \<in> single_triads a"
proof -
  have ok: "tree_ok (al_pack_tree a)" using assms(1) by (simp add: books_def)
  obtain q where q: "q \<in> rects (al_pack_tree a)" "corner q = (x, y)" "k = Board \<Longrightarrow> q = (x, y, 1, 1)"
    "k \<noteq> Board \<Longrightarrow> k = Triads \<and> z = 0" "k = Board \<longleftrightarrow> (x, y) \<in> single_triads a"
    using token_corner[OF assms] by blast
  have "(u, v) \<in> cells q \<and> (k = Board \<longrightarrow> w = z)" if "(u, v, w) \<in> space a (k, x, y, z)" for u v w
  proof (cases "k = Board")
    case True
    with that q(3) show ?thesis by simp
  next
    case False
    with q(4) have "k = Triads" by simp
    with that space_Triads[OF ok q(1,2), of z] show ?thesis by simp
  qed
  with q that show thesis by blast
qed

lemma space_disjoint:
  assumes "books a K" "t \<in> K" "t' \<in> K" "t \<noteq> t'"
  shows "space a t \<inter> space a t' = {}"
proof -
  have ok: "tree_ok (al_pack_tree a)" using assms(1) by (simp add: books_def)
  obtain k x y z k' x' y' z' where t: "t = (k, x, y, z)" "t' = (k', x', y', z')"
    by (cases t; cases t')
  obtain q where q: "q \<in> rects (al_pack_tree a)" "corner q = (x, y)"
    and sub: "\<And>u v w. (u, v, w) \<in> space a t \<Longrightarrow> (u, v) \<in> cells q \<and> (k = Board \<longrightarrow> w = z)"
    and k: "k \<noteq> Board \<Longrightarrow> k = Triads \<and> z = 0" "k = Board \<longleftrightarrow> (x, y) \<in> single_triads a"
    using token_space[OF assms(1)] assms(2) unfolding t(1) by blast
  obtain q' where q': "q' \<in> rects (al_pack_tree a)" "corner q' = (x', y')"
    and sub': "\<And>u v w. (u, v, w) \<in> space a t' \<Longrightarrow> (u, v) \<in> cells q' \<and> (k' = Board \<longrightarrow> w = z')"
    and k': "k' \<noteq> Board \<Longrightarrow> k' = Triads \<and> z' = 0" "k' = Board \<longleftrightarrow> (x', y') \<in> single_triads a"
    using token_space[OF assms(1)] assms(3) unfolding t(2) by blast
  have False if "(u, v, w) \<in> space a t" "(u, v, w) \<in> space a t'" for u v w
  proof (cases "(x, y) = (x', y')")
    case True
    with k k' t assms(4) have "k = Board" "k' = Board" "z \<noteq> z'" by auto
    with sub[OF that(1)] sub'[OF that(2)] show ?thesis by simp
  next
    case False
    with q(2) q'(2) have "q \<noteq> q'" by auto
    with pt.held_disjoint[OF ok q(1) q'(1)] have "cells q \<inter> cells q' = {}" by blast
    with sub[OF that(1)] sub'[OF that(2)] show ?thesis by blast
  qed
  then show ?thesis by (metis IntE equals0I prod_cases3)
qed


text \<open>The books do not depend on ids, on the queue or on the time to wait.\<close>

lemma books_update [simp]:
  "books (store_allocation k b a) K = books a K"
  "books (a\<lparr>al_allocation_types := m\<rparr>) K = books a K"
  "books (a\<lparr>al_allocation_board := m'\<rparr>) K = books a K"
  "books (a\<lparr>al_to_free := q\<rparr>) K = books a K"
  by (simp_all add: books_def token_ok_def single_triads_def left_boards_def working_boards_def
      store_allocation_def)

lemma busy_update [simp]:
  "busy (store_allocation k b a) K = busy a K"
  "busy (a\<lparr>al_allocation_types := m\<rparr>) K = busy a K"
  "busy (a\<lparr>al_allocation_board := m'\<rparr>) K = busy a K"
  "busy (a\<lparr>al_to_free := q\<rparr>) K = busy a K"
  "busy (a\<lparr>al_pack_tree := t\<rparr>) K = busy a K"
  by (simp_all add: busy_def single_triads_def store_allocation_def)

lemma space_update [simp]:
  "space (store_allocation k b a) = space a"
  "space (a\<lparr>al_allocation_types := m\<rparr>) = space a"
  "space (a\<lparr>al_allocation_board := m'\<rparr>) = space a"
  "space (a\<lparr>al_to_free := q\<rparr>) = space a"
  "space (a\<lparr>al_single_board_triads := d\<rparr>) = space a"
  "space (a\<lparr>al_full_single_board_triads := f\<rparr>) = space a"
  by (simp_all add: space_def store_allocation_def fun_eq_iff)

lemma books_tree: "books a K \<Longrightarrow> tree_ok (al_pack_tree a)"
  by (simp add: books_def)

lemma single_rect: "books a K \<Longrightarrow> (x, y) \<in> single_triads a \<Longrightarrow> (x, y, 1, 1) \<in> rects (al_pack_tree a)"
  unfolding books_def by (metis fst_conv snd_conv)

text \<open>A rectangle that is new in the tree has a corner no token and no listed triad has.\<close>

lemma grow_fresh:
  assumes "books a K" "grow (al_pack_tree a) q t'" "corner q = (x, y)"
  shows "(x, y) \<notin> single_triads a" "(k, x, y, z) \<notin> K"
proof -
  have new: "(x, y) \<notin> corner ` rects (al_pack_tree a)"
    using pt.take_fresh(1)[OF assms(2) books_tree[OF assms(1)]] assms(3) by simp
  show "(x, y) \<notin> single_triads a"
    using single_rect[OF assms(1), of x y] new by (metis corner_simp imageI)
  show "(k, x, y, z) \<notin> K"
    using token_corner[OF assms(1), of k x y z] new by (metis imageI)
qed

lemma used_insert_Triads [simp]: "used_boards (insert (Triads, b) K) xy = used_boards K xy"
  by (auto simp: used_boards_def)

lemma left_insert_Triads [simp]: "left_boards a (insert (Triads, b) K) xy = left_boards a K xy"
  by (simp add: left_boards_def)

lemma left_tree [simp]:
  "left_boards (a\<lparr>al_pack_tree := t\<rparr>) K xy = left_boards a K xy"
  "left_boards (a\<lparr>al_single_board_triads := d\<rparr>) K xy = left_boards a K xy"
  "left_boards (a\<lparr>al_full_single_board_triads := f\<rparr>) K xy = left_boards a K xy"
  by (simp_all add: left_boards_def working_boards_def)

lemma working_update [simp]:
  "working_boards (a\<lparr>al_pack_tree := t\<rparr>) xy = working_boards a xy"
  "working_boards (a\<lparr>al_single_board_triads := d\<rparr>) xy = working_boards a xy"
  "working_boards (a\<lparr>al_full_single_board_triads := f\<rparr>) xy = working_boards a xy"
  by (simp_all add: working_boards_def)

lemma books_grow:
  assumes "books a K" "grow (al_pack_tree a) q t'" "corner q = (x, y)"
  shows "books (a\<lparr>al_pack_tree := t'\<rparr>) (insert (Triads, x, y, 0) K)"
proof -
  let ?a = "a\<lparr>al_pack_tree := t'\<rparr>"
  have t': "tree_ok t'" "bounds t' = bounds (al_pack_tree a)" "rects t' = insert q (rects (al_pack_tree a))"
    using grow_spec[OF assms(2) books_tree[OF assms(1)]] by auto
  have single: "single_triads ?a = single_triads a" by (simp add: single_triads_def)
  have "token_ok ?a t" if "token_ok a t" for t
    using that by (auto simp: token_ok_def single t'(3))
  moreover have "token_ok ?a (Triads, x, y, 0)"
    using grow_fresh(1)[OF assms] assms(3) by (simp add: token_ok_def single t'(3))
  ultimately show ?thesis
    using assms(1,3) t' unfolding books_def by (simp add: single)
qed

lemma space_grow:
  assumes "books a K" "grow (al_pack_tree a) q t'" "t \<in> K"
  shows "space (a\<lparr>al_pack_tree := t'\<rparr>) t = space a t"
proof -
  obtain k x y z where t: "t = (k, x, y, z)" by (cases t)
  obtain x' y' where c: "corner q = (x', y')" by (cases "corner q")
  have "(x', y') \<noteq> (x, y)" using grow_fresh(2)[OF assms(1,2) c] assms(3) t by blast
  moreover have "rects t' = insert q (rects (al_pack_tree a))"
    using grow_spec[OF assms(2) books_tree[OF assms(1)]] by simp
  ultimately show ?thesis using c by (auto simp: space_def t)
qed


lemma od_get_fresh: "k \<notin> fst ` set d \<Longrightarrow> od_get d k = None"
  by (simp add: od_get_None_iff)

lemma books_left:
  assumes "books a K" "od_get (al_single_board_triads a) xy = Some s"
  shows "s = left_boards a K xy \<and> s \<noteq> {}"
  using assms unfolding books_def by blast

lemma books_reserve:
  assumes "books a K" "grow (al_pack_tree a) (x, y, 1, 1) t'" "working_boards a (x, y) \<noteq> {}"
    "a' = a\<lparr> al_pack_tree := t', al_single_board_triads :=
      od_set (x, y) (working_boards a (x, y)) (al_single_board_triads a) \<rparr>"
  shows "books a' K" "single_triads a' = insert (x, y) (single_triads a)"
    "od_get (al_single_board_triads a') (x, y) = Some (working_boards a (x, y))"
    "\<forall>t \<in> K. space a' t = space a t"
proof -
  note fresh = grow_fresh[OF assms(1,2) corner_simp]
  have t': "tree_ok t'" "bounds t' = bounds (al_pack_tree a)"
    "rects t' = insert (x, y, 1, 1) (rects (al_pack_tree a))"
    using grow_spec[OF assms(2) books_tree[OF assms(1)]] by auto
  show single: "single_triads a' = insert (x, y) (single_triads a)"
    by (simp add: assms(4) single_triads_def)
  show "od_get (al_single_board_triads a') (x, y) = Some (working_boards a (x, y))"
    by (simp add: assms(4))
  have left: "left_boards a' K xy = left_boards a K xy" for xy
    by (simp add: left_boards_def working_boards_def assms(4))
  have "used_boards K (x, y) = {}" using fresh(2)[of Board] by (simp add: used_boards_def)
  then have left_xy: "left_boards a K (x, y) = working_boards a (x, y)" by (simp add: left_boards_def)
  have tok: "token_ok a' t" if "t \<in> K" for t
  proof -
    obtain k u v w where t: "t = (k, u, v, w)" by (cases t)
    have "(u, v) \<noteq> (x, y)" using fresh(2)[of k w] that t by auto
    moreover have "token_ok a t" using assms(1) that unfolding books_def by blast
    ultimately show ?thesis unfolding t token_ok_def single by (auto simp: assms(4) t'(3))
  qed
  show "books a' K"
    unfolding books_def left single
    using assms(1,3) tok t' fresh(1) left_xy
    by (auto simp: books_def assms(4) single_triads_def)
  show "\<forall>t \<in> K. space a' t = space a t"
    using space_grow[OF assms(1,2)] by (simp add: assms(4))
qed

lemma used_insert_Board:
  "used_boards (insert (Board, x, y, z) K) xy = (if xy = (x, y) then insert z (used_boards K xy) else used_boards K xy)"
  by (auto simp: used_boards_def)

lemma left_insert_Board:
  "left_boards a (insert (Board, x, y, z) K) xy =
     (if xy = (x, y) then left_boards a K xy - {z} else left_boards a K xy)"
  by (auto simp: left_boards_def used_insert_Board)

text \<open>Storing an allocation under the next id.\<close>

definition stored :: "allocation_type \<Rightarrow> board \<Rightarrow> allocator \<Rightarrow> allocator \<Rightarrow> bool" where
  "stored k b a a' \<longleftrightarrow>
     al_allocation_types a' = (al_allocation_types a)(al_next_id a \<mapsto> k) \<and>
     al_allocation_board a' = (al_allocation_board a)(al_next_id a \<mapsto> b) \<and>
     al_next_id a' = al_next_id a + 1 \<and> al_to_free a' = al_to_free a"

lemma stored_tokens:
  assumes "tokens_ok a" "stored k b a a'" "(k, b) \<notin> tokens a"
  shows "tokens_ok a'" "tokens a' = insert (k, b) (tokens a)"
    "live a' = (live a)(al_next_id a \<mapsto> (k, b))" "pending a' = pending a"
proof -
  show l: "live a' = (live a)(al_next_id a \<mapsto> (k, b))" and p: "pending a' = pending a"
    using assms(2) by (auto simp: stored_def live_def pending_def fun_eq_iff)
  have new: "live a (al_next_id a) = None" using assms(1) by (auto simp: tokens_ok_def)
  then have r: "ran (live a') = insert (k, b) (ran (live a))" by (simp add: l)
  then show "tokens a' = insert (k, b) (tokens a)" by (simp add: tokens_def p)
  have "dom (live a') = insert (al_next_id a) (dom (live a))" by (simp add: l)
  moreover have "inj_on (live a') (insert (al_next_id a) (dom (live a)))"
  proof -
    have no: "Some (k, b) \<notin> live a ` A" for A
      using assms(3) unfolding tokens_def by (metis UnI1 imageE ranI)
    have "inj_on (live a) (dom (live a))" using assms(1) by (simp add: tokens_ok_def)
    then have "inj_on (live a') (dom (live a))" unfolding l using no by (rule inj_on_fun_updI)
    moreover have "live a' ` (dom (live a) - {al_next_id a}) = live a ` (dom (live a) - {al_next_id a})"
      unfolding l by (rule image_cong) auto
    ultimately show ?thesis using no by (simp add: l)
  qed
  moreover have "\<forall>i \<in> dom (live a). i < al_next_id a + 1"
  proof
    fix i assume "i \<in> dom (live a)"
    then have "i < al_next_id a" using assms(1) unfolding tokens_ok_def by blast
    then show "i < al_next_id a + 1" by simp
  qed
  moreover have "dom (al_allocation_types a') = dom (al_allocation_board a')"
    "al_next_id a' = al_next_id a + 1"
    using assms(1,2) by (simp_all add: tokens_ok_def stored_def)
  moreover have "distinct (pending a')" "ran (live a') \<inter> set (pending a') = {}"
    using assms(1,3) unfolding r p tokens_ok_def tokens_def by simp_all
  ultimately show "tokens_ok a'" unfolding tokens_ok_def by simp
qed

text \<open>Taking a board that is left: its token is new, and the lists stay exact.\<close>

lemma books_take_board:
  assumes "books a K" "od_get (al_single_board_triads a) (x, y) = Some s" "z \<in> s"
    "take_board x y z s a = (r, a')"
  shows "books a' (insert (Board, x, y, z) K)" "single_triads a' = single_triads a"
    "(Board, x, y, z) \<notin> K" "z \<in> working_boards a (x, y)" "(x, y) \<in> single_triads a"
    "space a' = space a"
    "r = Inr (Some \<lparr> an_id = al_next_id a, an_boards = {(x, y, z)},
                      an_periphery = (\<lambda>l. (x, y, z, l)) ` UNIV, an_torus = Wrap_none \<rparr>)"
    "stored Board (x, y, z) a a'"
proof -
  let ?d = "al_single_board_triads a" and ?f = "al_full_single_board_triads a"
  have s: "s = left_boards a K (x, y)" using assms(1,2) by (simp add: books_def)
  then show z: "z \<in> working_boards a (x, y)" and "(Board, x, y, z) \<notin> K"
    using assms(3) by (auto simp: left_boards_def used_boards_def)
  have key: "(x, y) \<in> fst ` set ?d" using assms(2) by (rule od_get_Some_key)
  then show xy: "(x, y) \<in> single_triads a" by (simp add: single_triads_def)
  define b where "b = (if s - {z} = {}
      then a\<lparr> al_single_board_triads := od_del (x, y) ?d, al_full_single_board_triads := insert (x, y) ?f \<rparr>
      else a\<lparr> al_single_board_triads := od_set (x, y) (s - {z}) ?d \<rparr>)"
  have ra: "r = Inr (Some \<lparr> an_id = al_next_id b, an_boards = {(x, y, z)},
      an_periphery = (\<lambda>l. (x, y, z, l)) ` UNIV, an_torus = Wrap_none \<rparr>)" "a' = store_allocation Board (x, y, z) b"
    using assms(4) by (simp_all add: take_board_def b_def Let_def)
  have same: "al_next_id b = al_next_id a" "al_allocation_types b = al_allocation_types a"
    "al_allocation_board b = al_allocation_board a" "al_to_free b = al_to_free a"
    "al_width b = al_width a" "al_height b = al_height a" "al_pack_tree b = al_pack_tree a"
    "\<And>xy. working_boards b xy = working_boards a xy" "space b = space a"
    by (simp_all add: b_def)
  show sb: "single_triads a' = single_triads a"
    using key by (auto simp: ra(2) b_def single_triads_def store_allocation_def)
  then have single: "single_triads b = single_triads a"
    by (simp add: ra(2) single_triads_def store_allocation_def)
  have left: "left_boards b (insert (Board, x, y, z) K) xy =
      (if xy = (x, y) then s - {z} else left_boards a K xy)" for xy
    unfolding left_insert_Board s by (simp add: left_boards_def same)
  have "token_ok b (Board, x, y, z)" using xy z by (simp add: token_ok_def single same)
  moreover have "token_ok b t \<longleftrightarrow> token_ok a t" for t by (simp add: token_ok_def single same)
  moreover have "distinct (od_keys (al_single_board_triads b))"
    "fst ` set (al_single_board_triads b) \<inter> al_full_single_board_triads b = {}"
    using assms(1) key by (auto simp: b_def books_def)
  moreover have "\<forall>xy s'. od_get (al_single_board_triads b) xy = Some s' \<longrightarrow>
      s' = left_boards b (insert (Board, x, y, z) K) xy \<and> s' \<noteq> {}"
  proof (intro allI impI)
    fix xy s' assume g: "od_get (al_single_board_triads b) xy = Some s'"
    show "s' = left_boards b (insert (Board, x, y, z) K) xy \<and> s' \<noteq> {}"
    proof (cases "xy = (x, y)")
      case True
      with g show ?thesis unfolding left by (auto simp: b_def split: if_splits)
    next
      case False
      with g have "od_get ?d xy = Some s'" by (auto simp: b_def split: if_splits)
      from books_left[OF assms(1) this] False show ?thesis unfolding left by metis
    qed
  qed
  moreover have "\<forall>xy \<in> al_full_single_board_triads b. left_boards b (insert (Board, x, y, z) K) xy = {}"
    using assms(1) key unfolding left by (auto simp: b_def books_def)
  ultimately have "books b (insert (Board, x, y, z) K)"
    using assms(1) by (simp add: books_def single same)
  then show "books a' (insert (Board, x, y, z) K)" by (simp add: ra(2))
  show "space a' = space a" by (simp add: ra(2) same)
  show "r = Inr (Some \<lparr> an_id = al_next_id a, an_boards = {(x, y, z)},
      an_periphery = (\<lambda>l. (x, y, z, l)) ` UNIV, an_torus = Wrap_none \<rparr>)" by (simp add: ra(1) same)
  show "stored Board (x, y, z) a a'" by (simp add: ra(2) same stored_def store_allocation_def)
qed


text \<open>Giving a rectangle back to the tree.\<close>

lemma tree_free:
  assumes "books a K" "q \<in> rects (al_pack_tree a)" "corner q = (x, y)"
  shows "\<exists>t'. free x y (al_pack_tree a) = Inr t' \<and> tree_ok t' \<and>
    bounds t' = bounds (al_pack_tree a) \<and> rects t' = rects (al_pack_tree a) - {q}"
proof -
  note ok = books_tree[OF assms(1)]
  obtain t' where t': "free x y (al_pack_tree a) = Inr t'" "rects t' = rects (al_pack_tree a) - {q}"
    using pt.give_held[OF ok assms(2,3)] by blast
  with free_spec[OF ok, of x y] show ?thesis by simp
qed

lemma books_token: "books a K \<Longrightarrow> t \<in> K \<Longrightarrow> token_ok a t"
  unfolding books_def by blast

lemma books_full: "books a K \<Longrightarrow> xy \<in> al_full_single_board_triads a \<Longrightarrow> left_boards a K xy = {}"
  unfolding books_def by blast

lemma books_rect: "books a K \<Longrightarrow> q \<in> rects (al_pack_tree a) \<Longrightarrow> corner q \<notin> single_triads a \<Longrightarrow>
  (Triads, fst (corner q), snd (corner q), 0) \<in> K"
  unfolding books_def by blast

text \<open>What happens to the space of the other tokens when a rectangle goes.\<close>

lemma space_free:
  assumes "rects t' = rects (al_pack_tree a) - {q}" "corner q = (x, y)" "(u, v) \<noteq> (x, y)"
  shows "space (a\<lparr>al_pack_tree := t'\<rparr>) (k, u, v, w) = space a (k, u, v, w)"
  using assms by (auto simp: space_def)

lemma used_remove_Triads [simp]: "used_boards (K - {(Triads, b)}) xy = used_boards K xy"
  by (auto simp: used_boards_def)

lemma left_remove_Triads [simp]: "left_boards a (K - {(Triads, b)}) xy = left_boards a K xy"
  by (simp add: left_boards_def)

lemma books_free_block:
  assumes "books a K" "(Triads, x, y, z) \<in> K"
  shows "\<exists>t'. free_block x y a = (Inr (), a\<lparr>al_pack_tree := t'\<rparr>) \<and>
    books (a\<lparr>al_pack_tree := t'\<rparr>) (K - {(Triads, x, y, z)}) \<and>
    (\<forall>t \<in> K - {(Triads, x, y, z)}. space (a\<lparr>al_pack_tree := t'\<rparr>) t = space a t)"
proof -
  obtain q where q: "q \<in> rects (al_pack_tree a)" "corner q = (x, y)" "z = 0" "(x, y) \<notin> single_triads a"
    using token_corner[OF assms] by (metis allocation_type.distinct(1))
  obtain t' where t': "free x y (al_pack_tree a) = Inr t'" "tree_ok t'"
    "bounds t' = bounds (al_pack_tree a)" "rects t' = rects (al_pack_tree a) - {q}"
    using tree_free[OF assms(1) q(1,2)] by blast
  let ?a = "a\<lparr>al_pack_tree := t'\<rparr>" and ?K = "K - {(Triads, x, y, z)}"
  have single: "single_triads ?a = single_triads a" by (simp add: single_triads_def)
  have away: "(u, v) \<noteq> (x, y)" if "(k, u, v, w) \<in> ?K" for k u v w
    using books_token[OF assms(1), of "(k, u, v, w)"] that q(3,4) by (auto simp: token_ok_def)
  have keep: "r \<in> rects t'" if "r \<in> rects (al_pack_tree a)" "corner r \<noteq> (x, y)" for r
    using that q(2) unfolding t'(4) by blast
  have "token_ok ?a t" if "t \<in> ?K" for t
  proof -
    obtain k u v w where t: "t = (k, u, v, w)" by (cases t)
    have "(k, u, v, w) \<in> K" using that t by simp
    from token_corner[OF assms(1) this] obtain r where
      r: "r \<in> rects (al_pack_tree a)" "corner r = (u, v)" by blast
    with keep[OF r(1)] away[of k u v w] that have "(u, v) \<in> corner ` rects t'" unfolding t by force
    with books_token[OF assms(1), of t] that show ?thesis by (auto simp: t token_ok_def single)
  qed
  moreover have "(fst xy, snd xy, 1, 1) \<in> rects t'" if "xy \<in> single_triads a" for xy
    using keep[of "(fst xy, snd xy, 1, 1)"] single_rect[OF assms(1), of "fst xy" "snd xy"] that q(4)
    by auto
  moreover have "(Triads, fst (corner r), snd (corner r), 0) \<in> ?K"
    if "r \<in> rects t'" "corner r \<notin> single_triads a" for r
  proof -
    have "r \<noteq> q" "r \<in> rects (al_pack_tree a)" using that(1) unfolding t'(4) by auto
    then have "corner r \<noteq> (x, y)" using pt.corner_unique[OF books_tree[OF assms(1)] _ q(1)] q(2) by metis
    with books_rect[OF assms(1) \<open>r \<in> rects (al_pack_tree a)\<close> that(2)] show ?thesis
      by (metis Diff_iff Pair_inject prod.collapse singletonD)
  qed
  ultimately have "books ?a ?K"
    using assms(1) t'(2,3) unfolding books_def single by simp
  moreover have "space ?a t = space a t" if "t \<in> ?K" for t
    by (metis that prod_cases4 space_free[OF t'(4) q(2)] away)
  moreover have "free_block x y a = (Inr (), ?a)" by (simp add: free_block_def t'(1))
  ultimately show ?thesis by blast
qed

lemma used_remove_Board:
  "used_boards (K - {(Board, x, y, z)}) xy = (if xy = (x, y) then used_boards K xy - {z} else used_boards K xy)"
  by (auto simp: used_boards_def)

lemma used_working:
  assumes "books a K" shows "used_boards K xy \<subseteq> working_boards a xy"
  using books_token[OF assms] by (fastforce simp: used_boards_def token_ok_def)

text \<open>The books after one board was put back on the list of its triad.\<close>

lemma books_put_board:
  assumes "books a K" "(Board, x, y, z) \<in> K" "s = left_boards a K (x, y)"
    "od_get d = (od_get (al_single_board_triads a))((x, y) \<mapsto> insert z s)" "distinct (od_keys d)"
    "fst ` set d = insert (x, y) (fst ` set (al_single_board_triads a))"
    "f = al_full_single_board_triads a - {(x, y)}"
    "a' = a\<lparr> al_single_board_triads := d, al_full_single_board_triads := f \<rparr>"
  shows "books a' (K - {(Board, x, y, z)})" "single_triads a' = single_triads a"
    "left_boards a' (K - {(Board, x, y, z)}) (x, y) = insert z s"
proof -
  let ?K = "K - {(Board, x, y, z)}"
  have xy: "(x, y) \<in> single_triads a" and z: "z \<in> working_boards a (x, y)"
    using books_token[OF assms(1,2)] by (auto simp: token_ok_def)
  show single: "single_triads a' = single_triads a"
    using xy by (auto simp: assms(6-8) single_triads_def)
  have left: "left_boards a' ?K uv = (if uv = (x, y) then insert z s else left_boards a K uv)" for uv
    using z by (auto simp: left_boards_def used_remove_Board assms(3,8))
  then show "left_boards a' ?K (x, y) = insert z s" by simp
  have "token_ok a' t \<longleftrightarrow> token_ok a t" for t unfolding token_ok_def single by (simp add: assms(8))
  moreover have "s' = left_boards a' ?K uv \<and> s' \<noteq> {}" if "od_get d uv = Some s'" for uv s'
  proof (cases "uv = (x, y)")
    case True
    with that show ?thesis unfolding left by (auto simp: assms(4))
  next
    case False
    with that have "od_get (al_single_board_triads a) uv = Some s'" by (simp add: assms(4))
    from books_left[OF assms(1) this] False show ?thesis unfolding left by metis
  qed
  moreover have "left_boards a' ?K uv = {}" if "uv \<in> f" for uv
    using books_full[OF assms(1), of uv] that unfolding left by (auto simp: assms(7))
  moreover have "fst ` set d \<inter> f = {}" using assms(1) unfolding assms(6,7) books_def by auto
  ultimately show "books a' ?K"
    using assms(1,5) unfolding books_def single by (auto simp: assms(8))
qed


text \<open>Everything but the tree and the two lists of single-board triads is kept.\<close>

definition lists_only :: "allocator \<Rightarrow> allocator \<Rightarrow> bool" where
  "lists_only a a' \<longleftrightarrow>
     (\<exists>t d f. a' = a\<lparr> al_pack_tree := t, al_single_board_triads := d, al_full_single_board_triads := f \<rparr>)"

lemma lists_only_simps:
  assumes "lists_only a a'"
  shows "al_width a' = al_width a" "al_height a' = al_height a" "al_dead_boards a' = al_dead_boards a"
    "al_dead_links a' = al_dead_links a" "al_seconds_before_free a' = al_seconds_before_free a"
    "al_next_id a' = al_next_id a" "al_allocation_types a' = al_allocation_types a"
    "al_allocation_board a' = al_allocation_board a" "al_to_free a' = al_to_free a"
    "live a' = live a" "pending a' = pending a" "tokens a' = tokens a" "tokens_ok a' = tokens_ok a"
proof -
  obtain t d f where
    a': "a' = a\<lparr> al_pack_tree := t, al_single_board_triads := d, al_full_single_board_triads := f \<rparr>"
    using assms by (auto simp: lists_only_def)
  then show "al_width a' = al_width a" "al_height a' = al_height a" "al_dead_boards a' = al_dead_boards a"
    "al_dead_links a' = al_dead_links a" "al_seconds_before_free a' = al_seconds_before_free a"
    "al_next_id a' = al_next_id a" "al_allocation_types a' = al_allocation_types a"
    "al_allocation_board a' = al_allocation_board a" "al_to_free a' = al_to_free a" by simp_all
  show l: "live a' = live a"
    by (rule ext) (simp add: a' live_def split: option.split)
  show p: "pending a' = pending a" by (simp add: a' pending_def)
  from l p show "tokens a' = tokens a" "tokens_ok a' = tokens_ok a"
    by (simp_all add: tokens_def tokens_ok_def a')
qed

lemma lists_onlyI:
  assumes "a' = a\<lparr> al_single_board_triads := d, al_full_single_board_triads := f \<rparr>"
  shows "lists_only a a'"
  unfolding lists_only_def
  by (rule exI[of _ "al_pack_tree a"], rule exI[of _ d], rule exI[of _ f]) (simp add: assms)

lemma single_listed:
  assumes "books a K" "(x, y) \<in> single_triads a" "(x, y) \<notin> al_full_single_board_triads a"
  shows "od_get (al_single_board_triads a) (x, y) = Some (left_boards a K (x, y))"
proof -
  have "(x, y) \<in> fst ` set (al_single_board_triads a)" using assms(2,3) by (auto simp: single_triads_def)
  then obtain s where "od_get (al_single_board_triads a) (x, y) = Some s"
    by (metis not_None_eq od_get_None_iff)
  with books_left[OF assms(1) this] show ?thesis by simp
qed

text \<open>The last board of a triad given back: its triad goes back to the tree.\<close>

lemma books_drop_triad:
  assumes "books a K" "busy a (K \<union> {(Board, x, y, z)})" "(x, y) \<in> single_triads a" "used_boards K (x, y) = {}"
    "a1 = a\<lparr>al_single_board_triads := od_del (x, y) (al_single_board_triads a)\<rparr>"
    "(x, y) \<notin> al_full_single_board_triads a"
  shows "\<exists>a'. free_block x y a1 = (Inr (), a') \<and> lists_only a a' \<and> books a' K \<and> busy a' K \<and>
    (\<forall>t \<in> K. space a' t = space a t)"
proof -
  let ?q = "(x, y, 1, 1)"
  have q: "?q \<in> rects (al_pack_tree a)" using single_rect[OF assms(1,3)] .
  obtain t' where t': "free x y (al_pack_tree a) = Inr t'" "tree_ok t'"
    "bounds t' = bounds (al_pack_tree a)" "rects t' = rects (al_pack_tree a) - {?q}"
    using tree_free[OF assms(1) q corner_simp] by blast
  let ?a = "a1\<lparr>al_pack_tree := t'\<rparr>"
  have single: "single_triads ?a = single_triads a - {(x, y)}"
    using assms(6) by (auto simp: assms(5) single_triads_def)
  have left: "left_boards ?a K uv = left_boards a K uv" for uv
    by (simp add: left_boards_def assms(5))
  have away: "(u, v) \<noteq> (x, y)" if "(k, u, v, w) \<in> K" for k u v w
    using books_token[OF assms(1) that] assms(3,4) that by (auto simp: token_ok_def used_boards_def)
  have keep: "r \<in> rects t'" if "r \<in> rects (al_pack_tree a)" "corner r \<noteq> (x, y)" for r
    using that unfolding t'(4) by auto
  have tok: "token_ok ?a t" if "t \<in> K" for t
  proof -
    obtain k u v w where t: "t = (k, u, v, w)" by (cases t)
    have "(k, u, v, w) \<in> K" using that t by simp
    from token_corner[OF assms(1) this] obtain r where
      r: "r \<in> rects (al_pack_tree a)" "corner r = (u, v)" by blast
    with keep[OF r(1)] away[of k u v w] that have "(u, v) \<in> corner ` rects t'" unfolding t by force
    with books_token[OF assms(1), of t] that away[of k u v w] show ?thesis
      unfolding t token_ok_def single by (auto simp: assms(5))
  qed
  have one: "(fst uv, snd uv, 1, 1) \<in> rects t'" if "uv \<in> single_triads a - {(x, y)}" for uv
    using keep[of "(fst uv, snd uv, 1, 1)"] single_rect[OF assms(1), of "fst uv" "snd uv"] that by auto
  have block: "(Triads, fst (corner r), snd (corner r), 0) \<in> K"
    if "r \<in> rects t'" "corner r \<notin> single_triads a - {(x, y)}" for r
  proof -
    have r: "r \<noteq> ?q" "r \<in> rects (al_pack_tree a)" using that(1) unfolding t'(4) by auto
    then have "corner r \<noteq> (x, y)"
      using pt.corner_unique[OF books_tree[OF assms(1)] _ q] by (metis corner_simp)
    with that(2) books_rect[OF assms(1) r(2)] show ?thesis by blast
  qed
  have "s = left_boards a K uv \<and> s \<noteq> {}"
    if "od_get (od_del (x, y) (al_single_board_triads a)) uv = Some s" for uv s
  proof -
    have "od_get (al_single_board_triads a) uv = Some s" using that by (simp split: if_splits)
    from books_left[OF assms(1) this] show ?thesis .
  qed
  then have "books ?a K"
    using assms(1) t'(2,3) tok one block books_full[OF assms(1)] unfolding books_def single left
    by (auto simp: assms(5))
  moreover have "busy ?a K"
    unfolding busy_def single
  proof
    fix uv assume "uv \<in> single_triads a - {(x, y)}"
    moreover from this assms(2) have "used_boards (K \<union> {(Board, x, y, z)}) uv \<noteq> {}" by (simp add: busy_def)
    ultimately show "used_boards K uv \<noteq> {}" by (auto simp: used_boards_def)
  qed
  moreover have "space ?a t = space a t" if "t \<in> K" for t
  proof -
    have "space ?a t = space (a\<lparr>al_pack_tree := t'\<rparr>) t" by (cases t) (simp add: space_def assms(5))
    also have "\<dots> = space a t"
      by (metis that prod_cases4 space_free[OF t'(4) corner_simp] away)
    finally show ?thesis .
  qed
  moreover have "lists_only a ?a" unfolding lists_only_def assms(5)
    by (rule exI[of _ t'], rule exI[of _ "od_del (x, y) (al_single_board_triads a)"],
        rule exI[of _ "al_full_single_board_triads a"]) simp
  moreover have "free_block x y a1 = (Inr (), ?a)" by (simp add: free_block_def t'(1) assms(5))
  ultimately show ?thesis by blast
qed

lemma books_free_board:
  assumes "books a K" "busy a K" "(Board, x, y, z) \<in> K"
  shows "\<exists>a'. free_board x y z a = (Inr (), a') \<and> lists_only a a' \<and>
    books a' (K - {(Board, x, y, z)}) \<and> busy a' (K - {(Board, x, y, z)}) \<and>
    (\<forall>t \<in> K - {(Board, x, y, z)}. space a' t = space a t)"
proof -
  let ?K = "K - {(Board, x, y, z)}" and ?f = "al_full_single_board_triads a"
  define s where "s = left_boards a K (x, y)"
  define d1 where "d1 = (if (x, y) \<in> ?f then od_set (x, y) {} (al_single_board_triads a)
    else al_single_board_triads a)"
  define d where "d = od_set (x, y) (insert z s) d1"
  define a2 where "a2 = a\<lparr> al_single_board_triads := d, al_full_single_board_triads := ?f - {(x, y)} \<rparr>"
  have tok: "(x, y) \<in> single_triads a" "z \<in> working_boards a (x, y)"
    using books_token[OF assms(1,3)] by (auto simp: token_ok_def)
  have get: "od_get d1 (x, y) = Some s"
    using books_full[OF assms(1), of "(x, y)"] single_listed[OF assms(1) tok(1)]
    by (auto simp: d1_def s_def)
  have d: "od_get d = (od_get (al_single_board_triads a))((x, y) \<mapsto> insert z s)" "distinct (od_keys d)"
    "fst ` set d = insert (x, y) (fst ` set (al_single_board_triads a))"
    using assms(1) by (auto simp: d_def d1_def books_def)
  note put = books_put_board[OF assms(1,3) s_def d refl a2_def]
  have a1: "(if (x, y) \<in> ?f
      then a\<lparr> al_full_single_board_triads := ?f - {(x, y)},
              al_single_board_triads := od_set (x, y) {} (al_single_board_triads a) \<rparr>
      else a) = a\<lparr> al_single_board_triads := d1, al_full_single_board_triads := ?f - {(x, y)} \<rparr>"
    by (cases "(x, y) \<in> ?f") (simp_all add: d1_def)
  have run: "free_board x y z a = (if insert z s = working_boards a (x, y)
     then free_block x y (a2\<lparr>al_single_board_triads := od_del (x, y) (al_single_board_triads a2)\<rparr>)
     else (Inr (), a2))"
    unfolding free_board_def a1 Let_def using get by (simp add: a2_def d_def)
  have used: "used_boards ?K (x, y) = working_boards a (x, y) - insert z s"
    using used_working[OF assms(1), of "(x, y)"] tok(2) by (auto simp: used_remove_Board s_def left_boards_def)
  have K: "?K \<union> {(Board, x, y, z)} = K" using assms(3) by auto
  have space: "space a2 t = space a t" for t by (simp add: a2_def)
  have lists: "lists_only a a2"
    using a2_def by (rule lists_onlyI)
  show ?thesis
  proof (cases "insert z s = working_boards a (x, y)")
    case True
    have "busy a2 K" using assms(2) by (simp add: busy_def put(2))
    then have b: "busy a2 (?K \<union> {(Board, x, y, z)})" by (simp only: K)
    have "(x, y) \<in> single_triads a2" "used_boards ?K (x, y) = {}" "(x, y) \<notin> al_full_single_board_triads a2"
      using tok(1) put(2) used True by (simp_all add: a2_def)
    from books_drop_triad[OF put(1) b this(1,2) refl this(3)] obtain a' where
      a': "free_block x y (a2\<lparr>al_single_board_triads := od_del (x, y) (al_single_board_triads a2)\<rparr>) = (Inr (), a')"
      "lists_only a2 a'" "books a' ?K" "busy a' ?K" "\<forall>t \<in> ?K. space a' t = space a2 t" by blast
    moreover have "lists_only a a'" using a'(2) unfolding lists_only_def a2_def by auto
    ultimately show ?thesis using run True space by auto
  next
    case False
    have "insert z s \<subseteq> working_boards a (x, y)" using tok(2) by (auto simp: s_def left_boards_def)
    with False used have "used_boards ?K (x, y) \<noteq> {}" by auto
    then have "busy a2 ?K"
      using assms(2) by (auto simp: busy_def put(2) used_remove_Board)
    with run False put(1) lists space show ?thesis by auto
  qed
qed


section \<open>The operations on the books\<close>

text \<open>What no freeing changes: the machine, the live allocations and the next id.\<close>

definition kept :: "allocator \<Rightarrow> allocator \<Rightarrow> bool" where
  "kept a a' \<longleftrightarrow>
     al_width a' = al_width a \<and> al_height a' = al_height a \<and> al_dead_boards a' = al_dead_boards a \<and>
     al_dead_links a' = al_dead_links a \<and> al_seconds_before_free a' = al_seconds_before_free a \<and>
     al_next_id a' = al_next_id a \<and> al_allocation_types a' = al_allocation_types a \<and>
     al_allocation_board a' = al_allocation_board a"

lemma kept_refl [simp]: "kept a a"
  by (simp add: kept_def)

lemma kept_trans [trans]: "kept a b \<Longrightarrow> kept b c \<Longrightarrow> kept a c"
  by (simp add: kept_def)

lemma kept_live: "kept a a' \<Longrightarrow> live a' = live a"
  by (rule ext) (simp add: kept_def live_def)

lemma pop_tokens:
  assumes "tokens_ok a" "al_to_free a = (now, t) # rest" "a1 = a\<lparr>al_to_free := rest\<rparr>"
  shows "tokens_ok a1" "tokens a1 = tokens a - {t}" "t \<in> tokens a" "kept a a1"
proof -
  have l: "live a1 = live a" by (rule ext) (simp add: live_def assms(3))
  have p: "pending a = t # pending a1" by (simp add: pending_def assms(2,3))
  show "tokens_ok a1" using assms(1) unfolding tokens_ok_def l p by (simp add: assms(3))
  show "tokens a1 = tokens a - {t}"
    using assms(1) unfolding tokens_ok_def tokens_def l p by auto
  show "t \<in> tokens a" by (simp add: tokens_def p)
  show "kept a a1" by (simp add: kept_def assms(3))
qed

lemma free_next_spec:
  assumes "allocator_ok a" "al_to_free a = (now, t) # rest"
  shows "\<exists>a'. free_next a = (Inr (), a') \<and> allocator_ok a' \<and> kept a a' \<and> al_to_free a' = rest \<and>
    tokens a' = tokens a - {t} \<and> (\<forall>u \<in> tokens a'. space a' u = space a u)"
proof -
  obtain k x y z where t: "t = (k, x, y, z)" by (cases t)
  define a1 where "a1 = a\<lparr>al_to_free := rest\<rparr>"
  have ok: "tokens_ok a" "books a (tokens a)" "busy a (tokens a)"
    using assms(1) by (simp_all add: allocator_ok_def)
  note pop = pop_tokens[OF ok(1) assms(2) a1_def]
  have b1: "books a1 (tokens a)" "busy a1 (tokens a)" using ok by (simp_all add: a1_def)
  have mem: "(k, x, y, z) \<in> tokens a" using pop(3) t by simp
  have sp: "space a1 = space a" by (simp add: a1_def)
  have "k = Triads \<or> k = Board" using books_token[OF ok(2) mem] by (auto simp: token_ok_def)
  then have "\<exists>a'. free_next a = (Inr (), a') \<and> lists_only a1 a' \<and> books a' (tokens a1) \<and>
      busy a' (tokens a1) \<and> (\<forall>u \<in> tokens a1. space a' u = space a u)"
  proof
    assume k: "k = Triads"
    obtain t' where t': "free_block x y a1 = (Inr (), a1\<lparr>al_pack_tree := t'\<rparr>)"
      "books (a1\<lparr>al_pack_tree := t'\<rparr>) (tokens a - {t})"
      "\<forall>u \<in> tokens a - {t}. space (a1\<lparr>al_pack_tree := t'\<rparr>) u = space a1 u"
      using books_free_block[OF b1(1), of x y z] mem unfolding t k by blast
    have "lists_only a1 (a1\<lparr>al_pack_tree := t'\<rparr>)"
      unfolding lists_only_def by (rule exI[of _ t'], rule exI[of _ "al_single_board_triads a1"],
          rule exI[of _ "al_full_single_board_triads a1"]) simp
    moreover have "busy (a1\<lparr>al_pack_tree := t'\<rparr>) (tokens a - {t})"
      using b1(2) by (simp add: busy_def single_triads_def t k)
    moreover have "free_next a = free_block x y a1"
      by (simp add: free_next_def assms(2) t k a1_def Let_def)
    ultimately show ?thesis using t' unfolding pop(2) sp by auto
  next
    assume k: "k = Board"
    have "free_next a = free_board x y z a1"
      by (simp add: free_next_def assms(2) t k a1_def Let_def)
    with books_free_board[OF b1, of x y z] mem show ?thesis unfolding pop(2) sp t k by auto
  qed
  then obtain a' where a': "free_next a = (Inr (), a')" "lists_only a1 a'" "books a' (tokens a1)"
    "busy a' (tokens a1)" "\<forall>u \<in> tokens a1. space a' u = space a u" by blast
  note same = lists_only_simps[OF a'(2)]
  have "allocator_ok a'" using a' pop(1) by (simp add: allocator_ok_def same)
  moreover have "kept a1 a'" by (simp add: kept_def same)
  then have "kept a a'" using pop(4) kept_trans by blast
  moreover have "al_to_free a' = rest" using same by (simp add: a1_def)
  ultimately show ?thesis using a'(1,5) pop(2) same by auto
qed

text \<open>An item is due when it has waited long enough at the reading of the clock.\<close>

definition due :: "allocator \<Rightarrow> int \<Rightarrow> int \<times> token \<Rightarrow> bool" where
  "due a now item \<longleftrightarrow> \<not> fdiv (of_int (now - fst item)) 1000000 < al_seconds_before_free a"

declare check_free_from.simps [simp del]

lemma check_free_from_spec:
  assumes "allocator_ok a"
  shows "\<exists>n a'. check_free_from clock i a = (Inr (0 < i + n), a') \<and> allocator_ok a' \<and> kept a a' \<and>
    n \<le> length (al_to_free a) \<and> al_to_free a' = drop n (al_to_free a) \<and>
    (\<forall>j < n. due a (clock (i + j)) (al_to_free a ! j)) \<and>
    (n < length (al_to_free a) \<longrightarrow> \<not> due a (clock (i + n)) (al_to_free a ! n)) \<and>
    tokens a' \<subseteq> tokens a \<and> (\<forall>u \<in> tokens a'. space a' u = space a u)"
  using assms
proof (induction "length (al_to_free a)" arbitrary: i a)
  case 0
  then show ?case by (intro exI[of _ 0] exI[of _ a]) (simp add: check_free_from.simps)
next
  case (Suc m)
  then obtain now t rest where q: "al_to_free a = (now, t) # rest" by (cases "al_to_free a") auto
  show ?case
  proof (cases "due a (clock i) (now, t)")
    case False
    then have "check_free_from clock i a = (Inr (0 < i), a)"
      by (simp add: check_free_from.simps[of clock i a] q due_def)
    with False Suc.prems show ?thesis by (intro exI[of _ 0] exI[of _ a]) (simp add: q)
  next
    case True
    obtain a1 where a1: "free_next a = (Inr (), a1)" "allocator_ok a1" "kept a a1" "al_to_free a1 = rest"
      "tokens a1 = tokens a - {t}" "\<forall>u \<in> tokens a1. space a1 u = space a u"
      using free_next_spec[OF Suc.prems q] by blast
    have run: "check_free_from clock i a = check_free_from clock (Suc i) a1"
      using True by (simp add: check_free_from.simps[of clock i a] q due_def a1(1))
    have due: "due a1 = due a" using a1(3) by (simp add: due_def kept_def fun_eq_iff)
    have "m = length (al_to_free a1)" using Suc.hyps(2) by (simp add: q a1(4))
    from Suc.hyps(1)[OF this a1(2), of "Suc i"] obtain n a' where
      IH: "check_free_from clock (Suc i) a1 = (Inr (0 < Suc i + n), a')" "allocator_ok a'" "kept a1 a'"
      "n \<le> length rest" "al_to_free a' = drop n rest"
      "\<forall>j < n. due a (clock (Suc i + j)) (rest ! j)"
      "n < length rest \<longrightarrow> \<not> due a (clock (Suc i + n)) (rest ! n)"
      "tokens a' \<subseteq> tokens a1" "\<forall>u \<in> tokens a'. space a' u = space a1 u"
      unfolding a1(4) due by blast
    have "\<forall>j < Suc n. due a (clock (i + j)) (al_to_free a ! j)"
      using IH(6) True by (auto simp: q nth_Cons split: nat.split)
    moreover have "kept a a'" using a1(3) IH(3) kept_trans by blast
    moreover have "tokens a' \<subseteq> tokens a" "\<forall>u \<in> tokens a'. space a' u = space a u"
      using IH(8,9) a1(5,6) by auto
    ultimately show ?thesis using IH
      by (intro exI[of _ "Suc n"] exI[of _ a']) (simp add: run q)
  qed
qed


lemma allocator_free_spec:
  assumes "allocator_ok a"
  shows "case live a i of
      None \<Rightarrow> allocator_free now i a = (Inl KeyError, a)
    | Some t \<Rightarrow> \<exists>a'. allocator_free now i a = (Inr (), a') \<and> allocator_ok a' \<and>
        live a' = (live a)(i := None) \<and> al_to_free a' = al_to_free a @ [(now, t)] \<and>
        tokens a' = tokens a \<and> space a' = space a \<and> al_next_id a' = al_next_id a \<and>
        al_dead_boards a' = al_dead_boards a"
proof -
  have ok: "tokens_ok a" "books a (tokens a)" "busy a (tokens a)"
    using assms by (simp_all add: allocator_ok_def)
  show ?thesis
  proof (cases "live a i")
    case None
    have "dom (al_allocation_types a) = dom (al_allocation_board a)" using ok(1) by (simp add: tokens_ok_def)
    then have "al_allocation_types a i = None \<longleftrightarrow> al_allocation_board a i = None" by (metis domIff)
    with None have "al_allocation_types a i = None" by (auto simp: live_def split: option.splits)
    with None show ?thesis by (simp add: allocator_free_def)
  next
    case (Some t)
    obtain k b where t: "t = (k, b)" by (cases t)
    have kb: "al_allocation_types a i = Some k" "al_allocation_board a i = Some b"
      using Some by (auto simp: live_def t split: option.splits)
    define a' where "a' = a\<lparr> al_allocation_types := (al_allocation_types a)(i := None),
      al_allocation_board := (al_allocation_board a)(i := None), al_to_free := al_to_free a @ [(now, t)] \<rparr>"
    have run: "allocator_free now i a = (Inr (), a')"
      by (simp add: allocator_free_def kb a'_def t Let_def)
    have l: "live a' = (live a)(i := None)" by (rule ext) (simp add: live_def a'_def)
    have p: "pending a' = pending a @ [t]" by (simp add: pending_def a'_def)
    have inj: "live a j \<noteq> Some t" if "j \<noteq> i" for j
      using ok(1) Some that unfolding tokens_ok_def by (metis domI inj_onD)
    have r: "ran (live a') = ran (live a) - {t}"
    proof -
      have "ran (live a) = insert t (ran ((live a)(i := None)))"
        using Some by (metis fun_upd_triv fun_upd_upd ran_map_upd fun_upd_same)
      moreover have "t \<notin> ran ((live a)(i := None))" using inj by (auto simp: ran_def)
      ultimately show ?thesis unfolding l by auto
    qed
    have tin: "t \<in> ran (live a)" using Some by (rule ranI)
    have tok: "tokens a' = tokens a" unfolding tokens_def r p using tin by auto
    have "dom (live a') \<subseteq> dom (live a)" unfolding l by auto
    moreover have "inj_on (live a') (dom (live a'))"
      using ok(1) unfolding tokens_ok_def l by (auto simp: inj_on_def)
    moreover have "\<forall>j \<in> dom (live a'). j < al_next_id a'"
    proof
      fix j assume "j \<in> dom (live a')"
      then have "j \<in> dom (live a)" by (simp add: l split: if_splits)
      then show "j < al_next_id a'" using ok(1) unfolding tokens_ok_def by (simp add: a'_def)
    qed
    moreover have "dom (al_allocation_types a') = dom (al_allocation_board a')"
      using ok(1) by (simp add: tokens_ok_def a'_def)
    moreover have "distinct (pending a')" "ran (live a') \<inter> set (pending a') = {}"
      using ok(1) tin unfolding tokens_ok_def r p by auto
    ultimately have "tokens_ok a'" unfolding tokens_ok_def by blast
    moreover have "books a' (tokens a')" "busy a' (tokens a')" unfolding tok using ok
      by (simp_all add: a'_def)
    ultimately have "allocator_ok a'" by (simp add: allocator_ok_def)
    moreover have "space a' = space a" by (simp add: a'_def)
    moreover have "al_to_free a' = al_to_free a @ [(now, t)]" "al_next_id a' = al_next_id a"
      "al_dead_boards a' = al_dead_boards a" by (simp_all add: a'_def)
    ultimately show ?thesis using Some run l tok by simp
  qed
qed

section \<open>Allocation\<close>

text \<open>The effect of a request: nothing, or one new token with working boards of its own.\<close>

definition machine_boards :: "allocator \<Rightarrow> board set" where
  "machine_boards a = {0..<al_width a} \<times> {0..<al_height a} \<times> {0, 1, 2}"

definition alloc_effect :: "allocator \<Rightarrow> allocation option res \<Rightarrow> allocator \<Rightarrow> bool" where
  "alloc_effect a r a' \<longleftrightarrow>
     (case r of
        Inr (Some an) \<Rightarrow> allocator_ok a' \<and> an_id an = al_next_id a \<and> al_next_id a' = al_next_id a + 1 \<and>
          al_dead_boards a' = al_dead_boards a \<and> pending a' = pending a \<and>
          an_boards an \<noteq> {} \<and> an_boards an \<subseteq> machine_boards a - al_dead_boards a \<and>
          (\<exists>t. t \<notin> tokens a \<and> live a' = (live a)(al_next_id a \<mapsto> t) \<and> tokens a' = insert t (tokens a) \<and>
             an_boards an \<subseteq> space a' t \<and> (\<forall>u \<in> tokens a. space a' u = space a u))
      | _ \<Rightarrow> a' = a)"

lemma accepted_boards:
  assumes "0 < cf_width cf" "0 < cf_height cf" "0 < w" "0 < h" "accepts cf x y w h = Inr True"
  shows "cand_boards (accepted cf x y w h) \<noteq> []"
    "(x', y', z') \<in> set (cand_boards (accepted cf x y w h)) \<Longrightarrow>
       (x', y', z') \<notin> cf_dead_boards cf \<and> (x', y') \<in> cells (x, y, w, h) \<and> z' \<in> {0, 1, 2}"
proof -
  have ok: "cf_ok cf" using assms(1,2) by (simp add: cf_ok_def)
  obtain bs k where s: "set bs = {b. reach cf x y w h b}" "within_limits cf w h (set bs) k"
    "accepted cf x y w h = \<lparr> cand_boards = bs, cand_periphery = lc_periphery k, cand_torus = lc_wrap_type k \<rparr>"
    using filter_call_spec[OF ok assms(3,4), of x y] assms(5)
    by (force simp: accepts_def accepted_def split: if_splits)
  show "cand_boards (accepted cf x y w h) \<noteq> []"
    using s(2) unfolding s(3) by (auto simp: within_limits_def)
  assume "(x', y', z') \<in> set (cand_boards (accepted cf x y w h))"
  then have "reach cf x y w h (x', y', z')" unfolding s(3) using s(1) by auto
  from reach_boards[OF this assms(3,4)]
  show "(x', y', z') \<notin> cf_dead_boards cf \<and> (x', y') \<in> cells (x, y, w, h) \<and> z' \<in> {0, 1, 2}"
    by (auto simp: in_region_def)
qed

lemma store_block_effect:
  assumes "allocator_ok a" "0 < w" "0 < h" "accepts cf x y w h = Inr True"
    "grow (al_pack_tree a) (x, y, w, h) t'"
    "cf_width cf = al_width a" "cf_height cf = al_height a" "cf_dead_boards cf = al_dead_boards a"
    "store_block cf x y w h (a\<lparr>al_pack_tree := t'\<rparr>) = (r, a')"
  shows "alloc_effect a r a' \<and> (\<exists>an. r = Inr (Some an))"
proof -
  have ok: "tokens_ok a" "books a (tokens a)" "busy a (tokens a)"
    using assms(1) by (simp_all add: allocator_ok_def)
  note t_ok = books_tree[OF ok(2)]
  have dims: "0 < cf_width cf" "0 < cf_height cf" using ok(2) by (simp_all add: books_def assms(6,7))
  let ?c = "accepted cf x y w h" and ?t = "(Triads, x, y, 0)"
  have ra: "r = Inr (Some \<lparr> an_id = al_next_id a, an_boards = set (cand_boards ?c),
      an_periphery = cand_periphery ?c, an_torus = cand_torus ?c \<rparr>)"
    "a' = store_allocation Triads (x, y, 0) (a\<lparr>al_pack_tree := t'\<rparr>)"
    using assms(9) by (simp_all add: store_block_def Let_def)
  note fresh = grow_fresh[OF ok(2) assms(5) corner_simp]
  have "stored Triads (x, y, 0) a a'" by (simp add: stored_def ra(2) store_allocation_def)
  note st = stored_tokens[OF ok(1) this fresh(2)]
  have b: "books a' (tokens a')" unfolding st(2) using books_grow[OF ok(2) assms(5) corner_simp]
    by (simp add: ra(2))
  have single: "single_triads a' = single_triads a"
    by (simp add: ra(2) single_triads_def store_allocation_def)
  have "busy a' (tokens a')" using ok(3) unfolding busy_def single st(2) by simp
  with b st(1) have aok: "allocator_ok a'" by (simp add: allocator_ok_def)
  have tree': "al_pack_tree a' = t'" by (simp add: ra(2) store_allocation_def)
  have g: "tree_ok t'" "rects t' = insert (x, y, w, h) (rects (al_pack_tree a))"
    "cells (x, y, w, h) \<subseteq> region (al_pack_tree a)"
    using grow_spec[OF assms(5) t_ok] by simp_all
  have reg: "region (al_pack_tree a) = {0..<al_width a} \<times> {0..<al_height a}"
    using ok(2) by (simp add: books_def)
  have sp: "space a' ?t = {(x', y', z'). z' \<in> {0, 1, 2} \<and> (x', y') \<in> cells (x, y, w, h)}"
    using space_Triads[of a' "(x, y, w, h)" x y 0] g(1,2) by (simp add: tree')
  note acc = accepted_boards[OF dims assms(2-4)]
  have "set (cand_boards ?c) \<subseteq> space a' ?t"
  proof
    fix p assume p: "p \<in> set (cand_boards ?c)"
    obtain x' y' z' where xyz: "p = (x', y', z')" by (cases p)
    from acc(2)[OF p[unfolded xyz]] show "p \<in> space a' ?t" unfolding sp xyz by blast
  qed
  moreover have "set (cand_boards ?c) \<subseteq> machine_boards a - al_dead_boards a"
  proof
    fix p assume p: "p \<in> set (cand_boards ?c)"
    obtain x' y' z' where xyz: "p = (x', y', z')" by (cases p)
    note q = acc(2)[OF p[unfolded xyz], unfolded assms(8)]
    then have "(x', y') \<in> region (al_pack_tree a)" using g(3) by blast
    with q xyz reg show "p \<in> machine_boards a - al_dead_boards a" by (simp add: machine_boards_def)
  qed
  moreover have "space a' u = space a u" if "u \<in> tokens a" for u
    using space_grow[OF ok(2) assms(5) that] by (simp add: ra(2))
  moreover have "al_next_id a' = al_next_id a + 1" "al_dead_boards a' = al_dead_boards a"
    by (simp_all add: ra(2) store_allocation_def)
  moreover have "set (cand_boards ?c) \<noteq> {}" using acc(1) by simp
  ultimately show ?thesis
    using aok st fresh(2)[of Triads 0] unfolding alloc_effect_def ra(1) by auto
qed


lemma alloc_effect_none [simp]: "alloc_effect a (Inl e) a" "alloc_effect a (Inr None) a"
  by (simp_all add: alloc_effect_def)

lemma alloc_triads_effect:
  assumes "allocator_ok a" "alloc_triads w h kw a = (r, a')"
  shows "alloc_effect a r a'"
proof (cases "kw_require_torus kw \<and> (w \<noteq> al_width a \<or> h \<noteq> al_height a) \<or> w \<le> 0 \<or> h \<le> 0")
  case True
  with assms(2) show ?thesis by (auto simp: alloc_triads_def split: if_splits)
next
  case False
  then have pos: "0 < w" "0 < h" by auto
  have t_ok: "tree_ok (al_pack_tree a)" using assms(1) by (auto simp: allocator_ok_def intro: books_tree)
  let ?cf = "make_filter a kw None"
  note spec = alloc_spec[OF t_ok pos, of "accepts ?cf"]
  have run: "(r, a') = (case alloc (accepts ?cf) w h (al_pack_tree a) of
             Inl e \<Rightarrow> (Inl e, a)
           | Inr (None, t) \<Rightarrow> (Inr None, a\<lparr>al_pack_tree := t\<rparr>)
           | Inr (Some (x, y), t) \<Rightarrow> store_block ?cf x y w h (a\<lparr>al_pack_tree := t\<rparr>))"
    unfolding assms(2)[symmetric] alloc_triads_def Let_def using False by (simp only: if_False de_Morgan_disj simp_thms)
  show ?thesis
  proof (cases "alloc (accepts ?cf) w h (al_pack_tree a)")
    case (Inl e)
    with run show ?thesis by simp
  next
    case (Inr res)
    obtain xy t' where res: "res = (xy, t')" by (cases res)
    show ?thesis
    proof (cases xy)
      case None
      with run Inr res spec show ?thesis by (simp add: alloc_result_def)
    next
      case (Some p)
      obtain x y where "p = (x, y)" by (cases p)
      with Some have xy: "xy = Some (x, y)" by simp
      have g: "accepts ?cf x y w h = Inr True" "grow (al_pack_tree a) (x, y, w, h) t'"
        using spec unfolding Inr res xy by (simp_all add: alloc_result_def)
      have "store_block ?cf x y w h (a\<lparr>al_pack_tree := t'\<rparr>) = (r, a')" using run Inr res xy by simp
      from store_block_effect[OF assms(1) pos g _ _ _ this] show ?thesis by (simp add: make_filter_def)
    qed
  qed
qed

lemma alloc_boards_effect:
  assumes "allocator_ok a" "0 \<le> kw_min_ratio kw" "ceil_div n 3 < max_area" "alloc_boards n kw a = (r, a')"
  shows "alloc_effect a r a'"
proof (cases "ceil_div n 3 \<le> 0 \<or> kw_require_torus kw \<and> ceil_div n 3 \<noteq> al_width a * al_height a")
  case True
  with assms(4) show ?thesis by (auto simp: alloc_boards_def Let_def split: if_splits)
next
  case False
  then have pos: "0 < ceil_div n 3" by auto
  have t_ok: "tree_ok (al_pack_tree a)" using assms(1) by (auto simp: allocator_ok_def intro: books_tree)
  let ?cf = "make_filter a kw (Some n)" and ?alloc = "\<lambda>cf. alloc_area cf (ceil_div n 3) (kw_min_ratio kw) (al_pack_tree a)"
  note spec = alloc_area_spec[OF t_ok pos assms(3,2), of "accepts ?cf"]
  have run: "(r, a') = (case ?alloc (accepts ?cf) of
             Inl e \<Rightarrow> (Inl e, a)
           | Inr (None, t) \<Rightarrow> (Inr None, a\<lparr>al_pack_tree := t\<rparr>)
           | Inr (Some (x, y, w, h), t) \<Rightarrow> store_block ?cf x y w h (a\<lparr>al_pack_tree := t\<rparr>))"
    unfolding assms(4)[symmetric] alloc_boards_def Let_def using False by (simp only: if_False de_Morgan_disj simp_thms)
  show ?thesis
  proof (cases "?alloc (accepts ?cf)")
    case (Inl e)
    with run show ?thesis by simp
  next
    case (Inr res)
    obtain xy t' where res: "res = (xy, t')" by (cases res)
    show ?thesis
    proof (cases xy)
      case None
      with run Inr res spec show ?thesis by (simp add: area_result_def)
    next
      case (Some p)
      obtain x y w h where "p = (x, y, w, h)" by (cases p)
      with Some have xy: "xy = Some (x, y, w, h)" by simp
      have g: "0 < w" "0 < h" "accepts ?cf x y w h = Inr True" "grow (al_pack_tree a) (x, y, w, h) t'"
        using spec unfolding Inr res xy by (simp_all add: area_result_def)
      have "store_block ?cf x y w h (a\<lparr>al_pack_tree := t'\<rparr>) = (r, a')" using run Inr res xy by simp
      from store_block_effect[OF assms(1) g _ _ _ this] show ?thesis by (simp add: make_filter_def)
    qed
  qed
qed

text \<open>Taking a board: only the triad it comes from may have been idle before.\<close>

lemma take_board_effect:
  assumes "tokens_ok a" "books a (tokens a)" "od_get (al_single_board_triads a) (x, y) = Some s" "z \<in> s"
    "\<forall>xy \<in> single_triads a - {(x, y)}. used_boards (tokens a) xy \<noteq> {}"
    "take_board x y z s a = (r, a')"
  shows "alloc_effect a r a' \<and> (\<exists>an. r = Inr (Some an))"
proof -
  note tb = books_take_board[OF assms(2-4,6)]
  note st = stored_tokens[OF assms(1) tb(8,3)]
  have "busy a' (tokens a')"
    unfolding busy_def tb(2) st(2) using assms(5) by (auto simp: used_insert_Board)
  with st(1) tb(1) have aok: "allocator_ok a'" by (simp add: allocator_ok_def st(2))
  have "(x, y, 1, 1) \<in> rects (al_pack_tree a)" using single_rect[OF assms(2) tb(5)] .
  with rects_within[OF books_tree[OF assms(2)]] have "(x, y) \<in> region (al_pack_tree a)" by force
  then have "(x, y, z) \<in> machine_boards a - al_dead_boards a"
    using assms(2) tb(4) by (simp add: books_def machine_boards_def working_boards_alt)
  moreover have "al_next_id a' = al_next_id a + 1" using tb(8) by (simp add: stored_def)
  moreover have "al_dead_boards a' = al_dead_boards a"
    using assms(6) by (auto simp: take_board_def Let_def store_allocation_def split: if_splits)
  moreover have "\<exists>t. t \<notin> tokens a \<and> live a' = (live a)(al_next_id a \<mapsto> t) \<and> tokens a' = insert t (tokens a) \<and>
      {(x, y, z)} \<subseteq> space a' t \<and> (\<forall>u \<in> tokens a. space a' u = space a u)"
    by (rule exI[of _ "(Board, x, y, z)"]) (use st tb(3,6) in simp)
  ultimately show ?thesis
    using aok st(4) unfolding alloc_effect_def tb(7) by simp
qed

lemma effect_lists:
  assumes "lists_only a a1" "\<forall>u \<in> tokens a. space a1 u = space a u" "alloc_effect a1 r a'"
    "r = Inr (Some an)"
  shows "alloc_effect a r a'"
  using assms(3) assms(2) unfolding alloc_effect_def assms(4)
  by (simp add: lists_only_simps[OF assms(1)] machine_boards_def)

definition pick_ok :: "pop_choice \<Rightarrow> bool" where
  "pick_ok pick \<longleftrightarrow> (\<forall>i s. s \<subseteq> {0, 1, 2} \<longrightarrow> s \<noteq> {} \<longrightarrow> pick i s \<in> s)"

text \<open>The request names a board of a triad, and its numbers can be computed with.\<close>

definition request_ok :: "alloc_args \<Rightarrow> alloc_kwargs \<Rightarrow> bool" where
  "request_ok args kw \<longleftrightarrow> 0 \<le> kw_min_ratio kw \<and>
     (case args of
        Num n \<Rightarrow> ceil_div n 3 < max_area
      | One_board x y z \<Rightarrow> z \<in> {0, 1, 2}
      | _ \<Rightarrow> True)"

lemma working_subset: "working_boards a xy \<subseteq> {0, 1, 2}"
  by (auto simp: working_boards_def)

lemma take_available_effect:
  assumes "tokens_ok a" "books a (tokens a)" "pick_ok pick" "board_available wanted a"
    "take_available pick wanted a = (r, a')"
    "\<forall>xy \<in> single_triads a - idle. used_boards (tokens a) xy \<noteq> {}"
    "idle \<subseteq> (case wanted of None \<Rightarrow> {fst (hd (al_single_board_triads a))} | Some (x, y, z) \<Rightarrow> {(x, y)})"
  shows "alloc_effect a r a' \<and> (\<exists>an. r = Inr (Some an))"
proof (cases wanted)
  case None
  with assms(4) obtain x y s rest where d: "al_single_board_triads a = ((x, y), s) # rest"
    by (cases "al_single_board_triads a") (auto simp: board_available_def)
  then have get: "od_get (al_single_board_triads a) (x, y) = Some s" by simp
  from books_left[OF assms(2) get] have s: "s \<noteq> {}" "s \<subseteq> {0, 1, 2}"
    using working_subset[of a "(x, y)"] by (auto simp: left_boards_def)
  then have z: "pick (al_next_id a) s \<in> s" using assms(3) by (simp add: pick_ok_def)
  have "take_board x y (pick (al_next_id a) s) s a = (r, a')"
    using assms(5) s(1) by (simp add: take_available_def None d)
  from take_board_effect[OF assms(1,2) get z _ this] assms(6,7) show ?thesis by (auto simp: None d)
next
  case (Some b)
  obtain x y z where b: "wanted = Some (x, y, z)" using Some by (cases b) simp
  with assms(4) obtain s where get: "od_get (al_single_board_triads a) (x, y) = Some s" and z: "z \<in> s"
    by (auto simp: board_available_def split: option.splits)
  have "take_board x y z s a = (r, a')" using assms(5) by (simp add: take_available_def b get)
  from take_board_effect[OF assms(1,2) get z _ this] assms(6,7) show ?thesis by (auto simp: b)
qed


lemma has_working: "has_working_board a x y 1 1 = Inr (working_boards a (x, y) \<noteq> {})"
  by (auto simp: has_working_board_def working_boards_def)

text \<open>Reserving a triad for single boards, and what the next call finds there.\<close>

lemma reserve_triad_spec:
  assumes "allocator_ok a" "\<not> board_available wanted a" "reserve_triad wanted a = Inr (Some xy, t')"
    "case wanted of None \<Rightarrow> True | Some (x, y, z) \<Rightarrow> z \<in> {0, 1, 2} \<and> (x, y, z) \<notin> al_dead_boards a"
  shows "grow (al_pack_tree a) (fst xy, snd xy, 1, 1) t' \<and> working_boards a xy \<noteq> {} \<and>
    (case wanted of None \<Rightarrow> al_single_board_triads a = []
     | Some (x, y, z) \<Rightarrow> xy = (x, y) \<and> z \<in> working_boards a xy)"
proof -
  have t_ok: "tree_ok (al_pack_tree a)" using assms(1) by (auto simp: allocator_ok_def intro: books_tree)
  obtain x y where xy: "xy = (x, y)" by (cases xy)
  show ?thesis
  proof (cases wanted)
    case None
    have "alloc (has_working_board a) 1 1 (al_pack_tree a) = Inr (Some (x, y), t')"
      using assms(3) by (simp add: reserve_triad_def None xy)
    with alloc_spec[OF t_ok, of 1 1 "has_working_board a"]
    have "has_working_board a x y 1 1 = Inr True" "grow (al_pack_tree a) (x, y, 1, 1) t'"
      by (simp_all add: alloc_result_def)
    with assms(2) None xy show ?thesis by (simp add: has_working board_available_def)
  next
    case (Some b)
    obtain u v z where b: "wanted = Some (u, v, z)" using Some by (cases b) simp
    have "request u v (al_pack_tree a) = Inr (Some xy, t')"
      using assms(3) by (simp add: reserve_triad_def b)
    with request_spec[OF t_ok, of u v] have "xy = (u, v)" "grow (al_pack_tree a) (u, v, 1, 1) t'"
      by (auto split: if_splits)
    moreover have "z \<in> working_boards a (u, v)" using assms(4) by (simp add: b working_boards_alt)
    ultimately show ?thesis by (auto simp: b)
  qed
qed

lemma reserve_None: "allocator_ok a \<Longrightarrow> reserve_triad wanted a = Inr (None, t') \<Longrightarrow> t' = al_pack_tree a"
proof -
  assume a: "allocator_ok a" "reserve_triad wanted a = Inr (None, t')"
  then have t_ok: "tree_ok (al_pack_tree a)" by (auto simp: allocator_ok_def intro: books_tree)
  show "t' = al_pack_tree a"
  proof (cases wanted)
    case None
    with a(2) alloc_spec[OF t_ok, of 1 1 "has_working_board a"] show ?thesis
      by (simp add: reserve_triad_def alloc_result_def)
  next
    case (Some b)
    with a(2) show ?thesis using request_spec[OF t_ok, of "fst b" "fst (snd b)"]
      by (cases b) (auto simp: reserve_triad_def split: if_splits)
  qed
qed

lemma reserve_no_error: "allocator_ok a \<Longrightarrow> reserve_triad wanted a \<noteq> Inl e"
proof
  assume a: "allocator_ok a" "reserve_triad wanted a = Inl e"
  then have t_ok: "tree_ok (al_pack_tree a)" by (auto simp: allocator_ok_def intro: books_tree)
  show False
  proof (cases wanted)
    case None
    with a(2) alloc_spec[OF t_ok, of 1 1 "has_working_board a"] show ?thesis
      by (simp add: reserve_triad_def alloc_result_def has_working)
  next
    case (Some b)
    with a(2) show ?thesis using request_spec[OF t_ok, of "fst b" "fst (snd b)"]
      by (cases b) (auto simp: reserve_triad_def split: if_splits)
  qed
qed

lemma alloc_board_effect:
  assumes "allocator_ok a" "pick_ok pick" "\<And>x y z. args = One_board x y z \<Longrightarrow> z \<in> {0, 1, 2}"
    "alloc_board (Suc (Suc n)) pick args torus a = (r, a')"
  shows "alloc_effect a r a' \<and> (\<forall>e. r = Inl e \<longrightarrow> board_args args torus = Inl e)"
proof (cases "board_args args torus")
  case (Inl e)
  with assms(4) show ?thesis by auto
next
  case (Inr wanted)
  have args: "\<not> torus" "board_args args False = Inr wanted" using Inr by (cases torus; cases args; simp)+
  have ok: "tokens_ok a" "books a (tokens a)" "busy a (tokens a)"
    using assms(1) by (simp_all add: allocator_ok_def)
  let ?dead = "case wanted of None \<Rightarrow> False | Some b \<Rightarrow> b \<in> al_dead_boards a"
  have z: "case wanted of None \<Rightarrow> True | Some (x, y, z) \<Rightarrow> z \<in> {0, 1, 2} \<and> (x, y, z) \<notin> al_dead_boards a"
    if "\<not> ?dead" using that Inr assms(3) by (cases args; cases torus) (auto split: if_splits)
  consider (dead) "?dead" | (avail) "\<not> ?dead" "board_available wanted a"
    | (none) t' where "\<not> ?dead" "\<not> board_available wanted a" "reserve_triad wanted a = Inr (None, t')"
    | (res) xy t' where "\<not> ?dead" "\<not> board_available wanted a" "reserve_triad wanted a = Inr (Some xy, t')"
  proof -
    obtain p where p: "reserve_triad wanted a = Inr p"
      using reserve_no_error[OF assms(1), of wanted] by (cases "reserve_triad wanted a") auto
    obtain x t' where "p = (x, t')" by (cases p)
    with p dead avail none res show thesis by (cases x) blast+
  qed
  then show ?thesis
  proof cases
    case dead
    with assms(4) Inr show ?thesis by auto
  next
    case avail
    then have "take_available pick wanted a = (r, a')" using assms(4) Inr by simp
    from take_available_effect[OF ok(1,2) assms(2) avail(2) this, of "{}"] ok(3)
    show ?thesis by (auto simp: busy_def)
  next
    case none
    with assms(4) Inr reserve_None[OF assms(1) none(3)] show ?thesis by auto
  next
    case res
    obtain x y where xy: "xy = (x, y)" by (cases xy)
    define a1 where "a1 = a\<lparr> al_pack_tree := t', al_single_board_triads :=
      od_set (x, y) (working_boards a (x, y)) (al_single_board_triads a) \<rparr>"
    note spec = reserve_triad_spec[OF assms(1) res(2,3) z[OF res(1)], unfolded xy fst_conv snd_conv]
    have b1: "books a1 (tokens a)" "single_triads a1 = insert (x, y) (single_triads a)"
      "od_get (al_single_board_triads a1) (x, y) = Some (working_boards a (x, y))"
      "\<forall>t \<in> tokens a. space a1 t = space a t"
      using books_reserve[OF ok(2) _ _ a1_def] spec by blast+
    have lists: "lists_only a a1"
      unfolding lists_only_def a1_def by (rule exI[of _ t'], rule exI, rule exI[of _ "al_full_single_board_triads a"]) simp
    note same = lists_only_simps[OF lists]
    have avail: "board_available wanted a1"
      using spec b1(3) by (cases wanted) (auto simp: board_available_def a1_def)
    have "alloc_board (Suc n) pick args False a1 = (r, a')"
      using assms(4) Inr res args(1) by (simp add: a1_def xy)
    moreover have "\<not> (case wanted of None \<Rightarrow> False | Some b \<Rightarrow> b \<in> al_dead_boards a1)"
      using res(1) by (simp only: same not_False_eq_True)
    ultimately have run: "take_available pick wanted a1 = (r, a')"
      by (simp only: alloc_board.simps args(2) sum.case if_False avail if_True)
    have "alloc_effect a1 r a' \<and> (\<exists>an. r = Inr (Some an))"
    proof (rule take_available_effect[OF _ _ assms(2) avail run, of "{(x, y)}"])
      show "tokens_ok a1" "books a1 (tokens a1)" using ok(1) b1(1) by (simp_all add: same)
      show "\<forall>xy \<in> single_triads a1 - {(x, y)}. used_boards (tokens a1) xy \<noteq> {}"
        using ok(3) by (auto simp: same busy_def b1(2))
      show "{(x, y)} \<subseteq> (case wanted of None \<Rightarrow> {fst (hd (al_single_board_triads a1))}
          | Some (x, y, z) \<Rightarrow> {(x, y)})"
        using spec by (cases wanted) (auto simp: a1_def)
    qed
    then obtain an where "alloc_effect a1 r a'" "r = Inr (Some an)" by blast
    with effect_lists[OF lists b1(4) this] show ?thesis by simp
  qed
qed

lemma reach_z: "reach cf x y w h b \<Longrightarrow> z_ok b"
  by (induction rule: reach.induct) (auto simp: z_ok_def dest: hop_z)

lemma accepts_ok:
  assumes "0 < cf_width cf" "0 < cf_height cf" shows "is_ok (accepts cf x y w h)"
proof -
  have ok: "cf_ok cf" using assms by (simp add: cf_ok_def)
  obtain bs where bs: "enumerate_boards cf x y w h = Inr bs" "set bs = {b. reach cf x y w h b}"
    using enumerate_boards_reach[OF ok] by blast
  then have "\<forall>b \<in> set bs. z_ok b" using reach_z by auto
  then obtain c where "classify_links cf bs = Inr c" using classify_links_spec[OF ok] by blast
  with bs(1) show ?thesis by (simp add: accepts_def filter_call_def)
qed

lemma make_filter_no_error:
  assumes "books a K" shows "accepts (make_filter a kw n) x y w h \<noteq> Inl e"
proof -
  have "0 < al_width a" "0 < al_height a" using assms by (simp_all add: books_def)
  then have "is_ok (accepts (make_filter a kw n) x y w h)" by (intro accepts_ok) (simp_all add: make_filter_def)
  then show ?thesis by auto
qed

lemma alloc_triads_no_error:
  assumes "allocator_ok a" shows "fst (alloc_triads w h kw a) \<noteq> Inl e"
proof
  assume e: "fst (alloc_triads w h kw a) = Inl e"
  have b: "books a (tokens a)" using assms by (simp add: allocator_ok_def)
  from e have "0 < w" "0 < h" "alloc (accepts (make_filter a kw None)) w h (al_pack_tree a) = Inl e"
    by (auto simp: alloc_triads_def store_block_def Let_def split: if_splits sum.splits option.splits prod.splits)
  with alloc_spec[OF books_tree[OF b] this(1,2), of "accepts (make_filter a kw None)"]
    make_filter_no_error[OF b]
  show False by (simp add: alloc_result_def)
qed

lemma alloc_boards_no_error:
  assumes "allocator_ok a" "0 \<le> kw_min_ratio kw" "ceil_div n 3 < max_area"
  shows "fst (alloc_boards n kw a) \<noteq> Inl e"
proof
  assume e: "fst (alloc_boards n kw a) = Inl e"
  have b: "books a (tokens a)" using assms by (simp add: allocator_ok_def)
  then have d: "0 < al_width a" "0 < al_height a" by (simp_all add: books_def)
  let ?cf = "make_filter a kw (Some n)"
  from e have "0 < ceil_div n 3" "alloc_area (accepts ?cf) (ceil_div n 3) (kw_min_ratio kw) (al_pack_tree a) = Inl e"
    by (auto simp: alloc_boards_def store_block_def Let_def split: if_splits sum.splits option.splits prod.splits)
  with alloc_area_spec[OF books_tree[OF b] this(1) assms(3,2), of "accepts ?cf"] make_filter_no_error[OF b]
  show False by (simp add: area_result_def)
qed

lemma alloc_now_effect:
  assumes "allocator_ok a" "pick_ok pick" "request_ok args kw" "alloc_now pick args kw a = (r, a')"
  shows "alloc_effect a r a' \<and> (\<forall>e. r = Inl e \<longrightarrow> alloc_type args (kw_require_torus kw) = Inl e)"
proof (cases "alloc_type args (kw_require_torus kw)")
  case (Inl e)
  with assms(4) show ?thesis by (auto simp: alloc_now_def)
next
  case (Inr k)
  have board: ?thesis if "alloc_board 2 pick args (kw_require_torus kw) a = (r, a')"
    "\<And>e. board_args args (kw_require_torus kw) \<noteq> Inl e"
  proof -
    have run: "alloc_board (Suc (Suc 0)) pick args (kw_require_torus kw) a = (r, a')"
      using that(1) by (simp only: numeral_2_eq_2)
    have "\<forall>x y z. args = One_board x y z \<longrightarrow> z \<in> {0, 1, 2}"
      using assms(3) by (auto simp: request_ok_def)
    then have "alloc_effect a r a' \<and> (\<forall>e. r = Inl e \<longrightarrow> board_args args (kw_require_torus kw) = Inl e)"
      using alloc_board_effect[OF assms(1,2) _ run] by blast
    with that(2) show ?thesis by blast
  qed
  show ?thesis
  proof (cases args)
    case Any_board
    with Inr assms(4) show ?thesis
      by (intro board) (auto simp: alloc_now_def alloc_type_def Let_def split: if_splits)
  next
    case (Num m)
    show ?thesis
    proof (cases "m = 1")
      case True
      with Num Inr assms(4) show ?thesis
        by (intro board) (auto simp: alloc_now_def alloc_type_def Let_def split: if_splits)
    next
      case False
      then have run: "alloc_boards m kw a = (r, a')" using Inr assms(4) Num by (simp add: alloc_now_def)
      have rk: "0 \<le> kw_min_ratio kw" "ceil_div m 3 < max_area"
        using assms(3) Num by (simp_all add: request_ok_def)
      from alloc_boards_effect[OF assms(1) rk run] alloc_boards_no_error[OF assms(1) rk] run
      show ?thesis by (metis fst_conv)
    qed
  next
    case (Block w h)
    then have run: "alloc_triads w h kw a = (r, a')" using Inr assms(4) by (simp add: alloc_now_def)
    from alloc_triads_effect[OF assms(1) run] alloc_triads_no_error[OF assms(1)] run
    show ?thesis by (metis fst_conv)
  next
    case (One_board x y z)
    with Inr assms(4) show ?thesis
      by (intro board) (auto simp: alloc_now_def alloc_type_def Let_def split: if_splits)
  qed
qed


end
