(* ===== verification/AllocatorCorrect.thy ===== *)
theory AllocatorCorrect
  imports AllocatorBooks
begin

text \<open>
  The allocator over whole histories of requests and frees: no board is ever given out twice,
  freed boards wait their time, and nothing is lost.
\<close>

section \<open>Histories\<close>

text \<open>
  A history of calls on one allocator, with what the callers know: \<open>G\<close> has the boards of the
  allocations that were returned and not yet freed, \<open>Q\<close> those freed and still waiting.
\<close>

type_synonym holdings = "int \<rightharpoonup> board set"
type_synonym waiting = "(int \<times> board set) list"

definition still_waiting :: "allocator \<Rightarrow> waiting \<Rightarrow> waiting" where
  "still_waiting a Q = drop (length Q - length (al_to_free a)) Q"

inductive history :: "allocator \<Rightarrow> allocator \<Rightarrow> holdings \<Rightarrow> waiting \<Rightarrow> bool" for a0 where
  h_new: "history a0 a0 Map.empty []"
| h_alloc: "history a0 a G Q \<Longrightarrow> request_ok args kw \<Longrightarrow> pick_ok pick \<Longrightarrow>
    allocator_alloc clock pick args kw a = (Inr (Some an), a') \<Longrightarrow>
    history a0 a' (G(an_id an \<mapsto> an_boards an)) (still_waiting a' Q)"
| h_refused: "history a0 a G Q \<Longrightarrow> request_ok args kw \<Longrightarrow> pick_ok pick \<Longrightarrow>
    allocator_alloc clock pick args kw a = (r, a') \<Longrightarrow> (\<And>an. r \<noteq> Inr (Some an)) \<Longrightarrow>
    history a0 a' G (still_waiting a' Q)"
| h_free: "history a0 a G Q \<Longrightarrow> G i = Some B \<Longrightarrow> allocator_free now i a = (r, a') \<Longrightarrow>
    history a0 a' (G(i := None)) (Q @ [(now, B)])"
| h_unknown: "history a0 a G Q \<Longrightarrow> G i = None \<Longrightarrow> allocator_free now i a = (r, a') \<Longrightarrow> history a0 a' G Q"
| h_check: "history a0 a G Q \<Longrightarrow> check_free clock a = (r, a') \<Longrightarrow> history a0 a' G (still_waiting a' Q)"

text \<open>What holds along every history.\<close>

definition holds_boards :: "allocator \<Rightarrow> token \<Rightarrow> board set \<Rightarrow> bool" where
  "holds_boards a t B \<longleftrightarrow> B \<subseteq> space a t \<and> B \<noteq> {} \<and> B \<subseteq> machine_boards a - al_dead_boards a"

definition accounted :: "allocator \<Rightarrow> holdings \<Rightarrow> waiting \<Rightarrow> bool" where
  "accounted a G Q \<longleftrightarrow> allocator_ok a \<and> dom G = dom (live a) \<and>
     (\<forall>i B. G i = Some B \<longrightarrow> holds_boards a (the (live a i)) B) \<and>
     list_all2 (\<lambda>w item. fst w = fst item \<and> holds_boards a (snd item) (snd w)) Q (al_to_free a)"

definition same_machine :: "allocator \<Rightarrow> allocator \<Rightarrow> bool" where
  "same_machine a a' \<longleftrightarrow> al_width a' = al_width a \<and> al_height a' = al_height a \<and>
     al_dead_boards a' = al_dead_boards a \<and> al_dead_links a' = al_dead_links a \<and>
     al_seconds_before_free a' = al_seconds_before_free a"

lemma same_machine_trans: "same_machine a b \<Longrightarrow> same_machine b c \<Longrightarrow> same_machine a c"
  by (simp add: same_machine_def)

lemma new_allocator_ok:
  assumes "0 < w" "0 < h" shows "allocator_ok (new_allocator w h dead links i secs)"
proof -
  have "live (new_allocator w h dead links i secs) = Map.empty"
    by (rule ext) (simp add: live_def new_allocator_def)
  then show ?thesis using assms
    by (simp add: allocator_ok_def tokens_ok_def tokens_def pending_def books_def busy_def
        single_triads_def) (simp add: new_allocator_def)
qed

lemma holds_boards_cong:
  "holds_boards a t B \<Longrightarrow> same_machine a a' \<Longrightarrow> space a' t = space a t \<Longrightarrow> holds_boards a' t B"
  by (simp add: holds_boards_def same_machine_def machine_boards_def)

text \<open>Freeing what is due keeps the accounts of everything else.\<close>

lemma check_free_accounted:
  assumes "accounted a G Q" "check_free clock a = (r, a')"
  shows "accounted a' G (still_waiting a' Q) \<and> same_machine a a' \<and> is_ok r"
proof -
  have ok: "allocator_ok a" using assms(1) by (simp add: accounted_def)
  obtain n where n: "r = Inr (0 < n)" "allocator_ok a'" "kept a a'" "n \<le> length (al_to_free a)"
    "al_to_free a' = drop n (al_to_free a)" "tokens a' \<subseteq> tokens a" "\<forall>u \<in> tokens a'. space a' u = space a u"
    using check_free_from_spec[OF ok, of clock 0] assms(2) unfolding check_free_def by auto
  note l = kept_live[OF n(3)]
  have same: "same_machine a a'" using n(3) by (simp add: kept_def same_machine_def)
  have Q: "list_all2 (\<lambda>w item. fst w = fst item \<and> holds_boards a (snd item) (snd w)) Q (al_to_free a)"
    using assms(1) by (simp add: accounted_def)
  then have len: "length Q = length (al_to_free a)" by (rule list_all2_lengthD)
  then have still: "still_waiting a' Q = drop n Q"
    using n(4,5) by (simp add: still_waiting_def)
  have tok: "snd item \<in> tokens a'" if "item \<in> set (al_to_free a')" for item
    using that by (auto simp: tokens_def pending_def)
  have "list_all2 (\<lambda>w item. fst w = fst item \<and> holds_boards a (snd item) (snd w)) (drop n Q) (al_to_free a')"
    using Q unfolding n(5) by (rule list_all2_dropI)
  then have "list_all2 (\<lambda>w item. fst w = fst item \<and> holds_boards a' (snd item) (snd w)) (drop n Q) (al_to_free a')"
    by (rule list.rel_mono_strong) (use tok n(7) same holds_boards_cong in blast)
  moreover have "holds_boards a' (the (live a' i)) B" if "G i = Some B" for i B
  proof -
    have "i \<in> dom (live a)" using assms(1) that unfolding accounted_def by blast
    then have "the (live a' i) \<in> tokens a'" unfolding l[symmetric] by (auto simp: tokens_def ran_def)
    moreover have "holds_boards a (the (live a' i)) B" using assms(1) that unfolding accounted_def l by blast
    ultimately show ?thesis using holds_boards_cong same n(7) by blast
  qed
  ultimately show ?thesis
    using assms(1) n(1,2) same unfolding accounted_def still l by simp
qed


text \<open>A request changes neither the machine nor the queue.\<close>

definition same_frame :: "allocator \<Rightarrow> allocator \<Rightarrow> bool" where
  "same_frame a a' \<longleftrightarrow> same_machine a a' \<and> al_to_free a' = al_to_free a"

lemma same_frame_refl [simp]: "same_frame a a"
  by (simp add: same_frame_def same_machine_def)

lemma same_frame_trans: "same_frame a b \<Longrightarrow> same_frame b c \<Longrightarrow> same_frame a c"
  by (simp add: same_frame_def same_machine_def)

lemma same_frame_update [simp]:
  "same_frame a (store_allocation k b (a\<lparr>al_pack_tree := t\<rparr>))"
  "same_frame a (store_allocation k b (a\<lparr>al_single_board_triads := d\<rparr>))"
  "same_frame a (store_allocation k b (a\<lparr>al_single_board_triads := d, al_full_single_board_triads := f\<rparr>))"
  "same_frame a (a\<lparr>al_pack_tree := t\<rparr>)"
  "same_frame a (a\<lparr>al_pack_tree := t, al_single_board_triads := d\<rparr>)"
  by (simp_all add: same_frame_def same_machine_def store_allocation_def)

lemma take_board_frame: "same_frame a (snd (take_board x y z s a))"
  by (simp add: take_board_def Let_def)

lemma take_available_frame: "same_frame a (snd (take_available pick wanted a))"
  by (auto simp: take_available_def take_board_frame split: option.split prod.split)

lemma alloc_board_frame: "same_frame a (snd (alloc_board n pick args torus a))"
proof (induction n arbitrary: torus a)
  case (Suc n)
  have "same_frame a (snd (alloc_board n pick args False (a\<lparr>al_pack_tree := t, al_single_board_triads := d\<rparr>)))"
    for t d using Suc.IH same_frame_trans same_frame_update(5) by blast
  then show ?case
    using take_available_frame by (auto split: sum.split option.split prod.split)
qed simp

lemma alloc_now_frame: "same_frame a (snd (alloc_now pick args kw a))"
  using alloc_board_frame
  by (auto simp: alloc_now_def alloc_boards_def alloc_triads_def store_block_def Let_def
      split: sum.split alloc_args.split option.split prod.split)

lemma alloc_accounted:
  assumes "accounted a G Q" "request_ok args kw" "pick_ok pick"
    "allocator_alloc clock pick args kw a = (r, a')"
  shows "same_machine a a' \<and>
    (case r of
       Inr (Some an) \<Rightarrow> accounted a' (G(an_id an \<mapsto> an_boards an)) (still_waiting a' Q) \<and> G (an_id an) = None
     | _ \<Rightarrow> accounted a' G (still_waiting a' Q))"
proof -
  obtain u a1 where chk: "check_free clock a = (u, a1)" by (cases "check_free clock a")
  from check_free_accounted[OF assms(1) chk] have acc: "accounted a1 G (still_waiting a1 Q)"
    and same1: "same_machine a a1" and "is_ok u" by auto
  then obtain c where "u = Inr c" by blast
  with assms(4) chk have run: "alloc_now pick args kw a1 = (r, a')" by (simp add: allocator_alloc_def)
  have ok: "allocator_ok a1" using acc by (simp add: accounted_def)
  have eff: "alloc_effect a1 r a'" using alloc_now_effect[OF ok assms(3,2) run] by simp
  have fr: "same_machine a1 a'" "al_to_free a' = al_to_free a1"
    using alloc_now_frame[of a1 pick args kw] run by (simp_all add: same_frame_def)
  have still: "still_waiting a' Q = still_waiting a1 Q" by (simp add: still_waiting_def fr(2))
  have same: "same_machine a a'" using same1 fr(1) by (simp add: same_machine_def)
  show ?thesis
  proof (cases "\<exists>an. r = Inr (Some an)")
    case False
    then have "a' = a1" using eff by (auto simp: alloc_effect_def split: sum.splits option.splits)
    with False acc same show ?thesis by (auto split: sum.split option.split)
  next
    case True
    then obtain an where an: "r = Inr (Some an)" by blast
    obtain t where t: "t \<notin> tokens a1" "live a' = (live a1)(al_next_id a1 \<mapsto> t)"
      "an_boards an \<subseteq> space a' t" "\<forall>u \<in> tokens a1. space a' u = space a1 u"
      and e: "allocator_ok a'" "an_id an = al_next_id a1" "an_boards an \<noteq> {}"
      "an_boards an \<subseteq> machine_boards a1 - al_dead_boards a1"
      using eff unfolding an alloc_effect_def by auto
    have new: "live a1 (al_next_id a1) = None" using ok by (auto simp: allocator_ok_def tokens_ok_def)
    have dom: "dom G = dom (live a1)" using acc by (simp add: accounted_def)
    with new have G: "G (an_id an) = None" unfolding e(2) by (metis domIff)
    have mb: "machine_boards a' - al_dead_boards a' = machine_boards a1 - al_dead_boards a1"
      using fr(1) by (simp add: same_machine_def machine_boards_def)
    have hold: "holds_boards a' u B" if "holds_boards a1 u B" "u \<in> tokens a1" for u B
      using holds_boards_cong[OF that(1) fr(1)] t(4) that(2) by blast
    have "holds_boards a' (the (live a' i)) B" if "(G(an_id an \<mapsto> an_boards an)) i = Some B" for i B
    proof (cases "i = an_id an")
      case True
      with that t(3) e(3,4) show ?thesis by (simp add: holds_boards_def t(2) e(2) mb)
    next
      case False
      with that have B: "G i = Some B" by simp
      then have "i \<in> dom (live a1)" unfolding dom[symmetric] by blast
      then have "the (live a1 i) \<in> tokens a1" by (auto simp: tokens_def ran_def)
      moreover have "holds_boards a1 (the (live a1 i)) B" using acc B unfolding accounted_def by blast
      ultimately show ?thesis using hold False by (simp add: t(2) e(2))
    qed
    moreover have "list_all2 (\<lambda>w item. fst w = fst item \<and> holds_boards a' (snd item) (snd w))
        (still_waiting a1 Q) (al_to_free a1)"
    proof (rule list.rel_mono_strong)
      show "list_all2 (\<lambda>w item. fst w = fst item \<and> holds_boards a1 (snd item) (snd w))
          (still_waiting a1 Q) (al_to_free a1)" using acc by (simp add: accounted_def)
      fix w item assume "item \<in> set (al_to_free a1)" "fst w = fst item \<and> holds_boards a1 (snd item) (snd w)"
      moreover from this have "snd item \<in> tokens a1" by (auto simp: tokens_def pending_def)
      ultimately show "fst w = fst item \<and> holds_boards a' (snd item) (snd w)" using hold by blast
    qed
    moreover have "dom (G(an_id an \<mapsto> an_boards an)) = dom (live a')"
      using dom by (simp add: t(2) e(2))
    ultimately have "accounted a' (G(an_id an \<mapsto> an_boards an)) (still_waiting a1 Q)"
      using e(1) unfolding accounted_def fr(2) by blast
    with G same show ?thesis by (simp add: an still)
  qed
qed

lemma free_accounted:
  assumes "accounted a G Q" "G i = Some B" "allocator_free now i a = (r, a')"
  shows "accounted a' (G(i := None)) (Q @ [(now, B)]) \<and> same_machine a a'"
proof -
  have ok: "allocator_ok a" and dom: "dom G = dom (live a)" using assms(1) by (simp_all add: accounted_def)
  then obtain t where t: "live a i = Some t" using assms(2) by (metis domD domI)
  have hB: "holds_boards a t B" using assms(1,2) t unfolding accounted_def by (metis option.sel)
  from allocator_free_spec[OF ok, of now i] t assms(3)
  have f: "allocator_ok a'" "live a' = (live a)(i := None)" "al_to_free a' = al_to_free a @ [(now, t)]"
    "space a' = space a" by auto
  have same: "same_machine a a'"
    using assms(3) by (auto simp: allocator_free_def same_machine_def Let_def split: option.splits)
  have hold: "holds_boards a u C \<Longrightarrow> holds_boards a' u C" for u C
    using holds_boards_cong same f(4) by metis
  have "list_all2 (\<lambda>w item. fst w = fst item \<and> holds_boards a' (snd item) (snd w)) Q (al_to_free a)"
    by (rule list.rel_mono_strong[where R = "\<lambda>w item. fst w = fst item \<and> holds_boards a (snd item) (snd w)"])
      (use assms(1) hold in \<open>auto simp: accounted_def\<close>)
  then have "list_all2 (\<lambda>w item. fst w = fst item \<and> holds_boards a' (snd item) (snd w))
      (Q @ [(now, B)]) (al_to_free a')"
    unfolding f(3) using hold[OF hB] by (simp add: list_all2_appendI)
  moreover have "holds_boards a' (the (live a' j)) C" if "(G(i := None)) j = Some C" for j C
    using that assms(1) hold unfolding accounted_def by (auto simp: f(2) split: if_splits)
  moreover have "dom (G(i := None)) = dom (live a')" using dom by (simp add: f(2))
  ultimately show ?thesis using f(1) same unfolding accounted_def by blast
qed

lemma history_accounted:
  assumes "history (new_allocator w h dead links i secs) a G Q" "0 < w" "0 < h"
  shows "accounted a G Q \<and> same_machine (new_allocator w h dead links i secs) a"
  using assms(1)
proof induction
  case h_new
  have "accounted (new_allocator w h dead links i secs) Map.empty []"
    using new_allocator_ok[OF assms(2,3)]
    by (simp add: accounted_def) (auto simp: new_allocator_def live_def dom_def)
  then show ?case by (simp add: same_machine_def)
next
  case (h_alloc a G Q args kw pick clock an a')
  have "same_machine a a'" "accounted a' (G(an_id an \<mapsto> an_boards an)) (still_waiting a' Q)"
    using alloc_accounted[OF conjunct1[OF h_alloc.IH] h_alloc.hyps(2-4)] by simp_all
  with h_alloc.IH same_machine_trans show ?case by blast
next
  case (h_refused a G Q args kw pick clock r a')
  from alloc_accounted[OF conjunct1[OF h_refused.IH] h_refused.hyps(2-4)] h_refused.IH h_refused.hyps(5)
  show ?case by (auto intro: same_machine_trans split: sum.splits option.splits)
next
  case (h_free a G Q j B now r a')
  from free_accounted[OF conjunct1[OF h_free.IH] h_free.hyps(2,3)] h_free.IH same_machine_trans
  show ?case by blast
next
  case (h_unknown a G Q j now r a')
  then have "live a j = None" unfolding accounted_def by (metis domIff)
  with allocator_free_spec[of a now j] h_unknown show ?case by (simp add: accounted_def)
next
  case (h_check a G Q clock r a')
  from check_free_accounted[OF conjunct1[OF h_check.IH] h_check.hyps(2)] h_check.IH
  show ?case by (auto intro: same_machine_trans)
qed


section \<open>Correctness\<close>

lemma check_free_keeps:
  assumes "allocator_ok a"
  shows "\<exists>b a'. check_free clock a = (Inr b, a') \<and> allocator_ok a' \<and> kept a a' \<and>
    (\<forall>u \<in> tokens a'. u \<in> tokens a \<and> space a' u = space a u)"
  using check_free_from_spec[OF assms, of clock 0] unfolding check_free_def by blast

lemma accounted_books: "accounted a G Q \<Longrightarrow> books a (tokens a) \<and> tokens_ok a"
  by (simp add: accounted_def allocator_ok_def)

lemma holds_disjoint:
  assumes "accounted a G Q" "holds_boards a t B" "holds_boards a u C" "t \<in> tokens a" "u \<in> tokens a" "t \<noteq> u"
  shows "B \<inter> C = {}"
proof -
  have "books a (tokens a)" using accounted_books[OF assms(1)] by blast
  from space_disjoint[OF this assms(4-6)] assms(2,3) show ?thesis unfolding holds_boards_def by blast
qed

text \<open>
  C1. Exclusive use. However requests and frees are interleaved, the boards handed out are
  working boards of the machine, no board belongs to two allocations at once, and no board
  that was freed and still waits is given out or waits twice.
\<close>

theorem allocator_exclusive:
  assumes "history (new_allocator w h dead links i secs) a G Q" "0 < w" "0 < h"
  shows "(\<forall>i B. G i = Some B \<longrightarrow> B \<noteq> {} \<and> B \<subseteq> {0..<w} \<times> {0..<h} \<times> {0, 1, 2} - dead) \<and>
    (\<forall>i j B C. G i = Some B \<longrightarrow> G j = Some C \<longrightarrow> i \<noteq> j \<longrightarrow> B \<inter> C = {}) \<and>
    (\<forall>i B k. G i = Some B \<longrightarrow> k < length Q \<longrightarrow> B \<inter> snd (Q ! k) = {}) \<and>
    (\<forall>k l. k < l \<longrightarrow> l < length Q \<longrightarrow> snd (Q ! k) \<inter> snd (Q ! l) = {})"
proof -
  have acc: "accounted a G Q" and m: "same_machine (new_allocator w h dead links i secs) a"
    using history_accounted[OF assms] by simp_all
  note disj = holds_disjoint[OF acc]
  have tok: "tokens_ok a" and dom: "dom G = dom (live a)" and
    Q: "list_all2 (\<lambda>w item. fst w = fst item \<and> holds_boards a (snd item) (snd w)) Q (al_to_free a)"
    using acc by (simp_all add: accounted_def allocator_ok_def)
  have G: "\<exists>t. live a i = Some t \<and> holds_boards a t B \<and> t \<in> ran (live a)" if "G i = Some B" for i B
  proof -
    have "i \<in> dom (live a)" using that dom by blast
    then obtain t where t: "live a i = Some t" by blast
    then have "t \<in> ran (live a)" by (rule ranI)
    moreover have "holds_boards a t B" using acc that t unfolding accounted_def by (metis option.sel)
    ultimately show ?thesis using t by blast
  qed
  have len: "length Q = length (pending a)" using Q by (simp add: list_all2_lengthD pending_def)
  have W: "holds_boards a (pending a ! k) (snd (Q ! k)) \<and> pending a ! k \<in> set (pending a)"
    if "k < length Q" for k
    using Q that len by (simp add: list_all2_conv_all_nth pending_def)
  have rp: "ran (live a) \<inter> set (pending a) = {}" "distinct (pending a)" "inj_on (live a) (dom (live a))"
    using tok by (simp_all add: tokens_ok_def)
  have sub: "ran (live a) \<subseteq> tokens a" "set (pending a) \<subseteq> tokens a" by (simp_all add: tokens_def)
  have 1: "B \<noteq> {} \<and> B \<subseteq> {0..<w} \<times> {0..<h} \<times> {0, 1, 2} - dead" if "G i = Some B" for i B
    using G[OF that] m by (auto simp: holds_boards_def machine_boards_def same_machine_def new_allocator_def)
  have 2: "B \<inter> C = {}" if "G i = Some B" "G j = Some C" "i \<noteq> j" for i j B C
  proof -
    note i = G[OF that(1)] and j = G[OF that(2)]
    obtain t u where tu: "live a i = Some t" "holds_boards a t B" "t \<in> ran (live a)"
      "live a j = Some u" "holds_boards a u C" "u \<in> ran (live a)"
      using i j by blast
    then have "t \<noteq> u" using rp(3) that(3) by (metis domI inj_onD)
    with tu sub disj show ?thesis by blast
  qed
  have 3: "B \<inter> snd (Q ! k) = {}" if "G i = Some B" "k < length Q" for i B k
    using G[OF that(1)] W[OF that(2)] rp(1) sub disj by blast
  have 4: "snd (Q ! k) \<inter> snd (Q ! l) = {}" if "k < l" "l < length Q" for k l
  proof -
    have "k < length Q" using that by simp
    moreover have "pending a ! k \<noteq> pending a ! l"
      using rp(2) that len by (simp add: nth_eq_iff_index_eq)
    ultimately show ?thesis using W[of k] W[OF that(2)] sub disj by blast
  qed
  from 1 2 3 4 show ?thesis by blast
qed

text \<open>Two triads, and the requests of the witnesses.\<close>

definition small_machine :: allocator where
  "small_machine = new_allocator 2 1 {(1, 0, 2)} {} 1 30"

definition plain :: alloc_kwargs where
  "plain = \<lparr> kw_max_dead_boards = None, kw_max_dead_links = None, kw_require_torus = False, kw_min_ratio = 0 \<rparr>"

definition pick_least :: pop_choice where
  "pick_least i s = (if 0 \<in> s then 0 else if 1 \<in> s then 1 else 2)"

lemma pick_least_ok: "pick_ok pick_least"
  by (auto simp: pick_ok_def pick_least_def)

definition result_is :: "allocation option al_result \<Rightarrow> int \<Rightarrow> board set \<Rightarrow> bool" where
  "result_is ra i B = (case fst ra of Inr (Some an) \<Rightarrow> an_id an = i \<and> an_boards an = B | _ \<Rightarrow> False)"

lemma result_isE:
  assumes "result_is ra i B"
  obtains an where "ra = (Inr (Some an), snd ra)" "an_id an = i" "an_boards an = B"
  using assms by (cases ra) (auto simp: result_is_def split: sum.splits option.splits)

lemma small_first: "result_is (allocator_alloc (\<lambda>_. 0) pick_least Any_board plain small_machine) 1 {(0, 0, 0)}"
  by code_simp

lemma small_second:
  "result_is (allocator_alloc (\<lambda>_. 0) pick_least (Block 1 1) plain
     (snd (allocator_alloc (\<lambda>_. 0) pick_least Any_board plain small_machine))) 2 {(1, 0, 0), (1, 0, 1)}"
  by code_simp

lemma small_history:
  "\<exists>a. history small_machine a [1 \<mapsto> {(0, 0, 0)}, 2 \<mapsto> {(1, 0, 0), (1, 0, 1)}] []"
proof -
  define r1 where "r1 = allocator_alloc (\<lambda>_. 0) pick_least Any_board plain small_machine"
  define r2 where "r2 = allocator_alloc (\<lambda>_. 0) pick_least (Block 1 1) plain (snd r1)"
  obtain x where x: "r1 = (Inr (Some x), snd r1)" "an_id x = 1" "an_boards x = {(0, 0, 0)}"
    using small_first unfolding r1_def[symmetric] by (rule result_isE)
  obtain y where y: "r2 = (Inr (Some y), snd r2)" "an_id y = 2" "an_boards y = {(1, 0, 0), (1, 0, 1)}"
    using small_second unfolding r1_def[symmetric] r2_def[symmetric] by (rule result_isE)
  have rk: "request_ok Any_board plain" "request_ok (Block 1 1) plain"
    by (simp_all add: request_ok_def plain_def)
  have e: "[1 \<mapsto> {(0, 0, 0)}, 2 \<mapsto> {(1, 0, 0), (1, 0, 1)}] =
      (Map.empty(an_id x \<mapsto> an_boards x))(an_id y \<mapsto> an_boards y)" by (simp add: x y)
  have "history small_machine (snd r1) (Map.empty(an_id x \<mapsto> an_boards x)) (still_waiting (snd r1) [])"
    by (rule history.h_alloc[where clock = "\<lambda>_. 0", OF history.h_new rk(1) pick_least_ok])
      (use x(1) r1_def in metis)
  then have "history small_machine (snd r2) ((Map.empty(an_id x \<mapsto> an_boards x))(an_id y \<mapsto> an_boards y))
      (still_waiting (snd r2) (still_waiting (snd r1) []))"
    by (rule history.h_alloc[where clock = "\<lambda>_. 0", OF _ rk(2) pick_least_ok])
      (use y(1) r2_def in metis)
  then show ?thesis unfolding e by (auto simp: still_waiting_def)
qed

theorem allocator_exclusive_witness:
  "{(0, 0, 0)} \<inter> {(1, 0, 0), (1, 0, 1)} = ({} :: board set) \<and>
   {(1, 0, 0), (1, 0, 1)} \<subseteq> {0..<2} \<times> {0..<1} \<times> {0, 1, 2} - {(1 :: int, 0 :: int, 2 :: int)}"
proof -
  obtain a where "history (new_allocator 2 1 {(1, 0, 2)} {} 1 30) a
      [1 \<mapsto> {(0, 0, 0)}, 2 \<mapsto> {(1, 0, 0), (1, 0, 1)}] []"
    using small_history unfolding small_machine_def by blast
  from allocator_exclusive[OF this] show ?thesis by simp
qed


lemma books_empty:
  assumes "books a {}" "busy a {}"
  shows "al_pack_tree a = new_tree 0 0 (al_width a) (al_height a)" "al_single_board_triads a = []"
    "al_full_single_board_triads a = {}"
proof -
  have "single_triads a = {}" using assms(2) unfolding busy_def used_boards_def by blast
  then show s: "al_single_board_triads a = []" "al_full_single_board_triads a = {}"
    by (simp_all add: single_triads_def)
  have "rects (al_pack_tree a) = {}"
    using books_rect[OF assms(1)] \<open>single_triads a = {}\<close> by blast
  with tree_empty[OF books_tree[OF assms(1)]] assms(1)
  show "al_pack_tree a = new_tree 0 0 (al_width a) (al_height a)" by (simp add: books_def)
qed

lemma accounted_times:
  assumes "accounted a G Q" shows "map fst (al_to_free a) = map fst Q"
proof -
  have "list_all2 (\<lambda>w item. fst w = fst item \<and> holds_boards a (snd item) (snd w)) Q (al_to_free a)"
    using assms by (simp add: accounted_def)
  then show ?thesis by (induction rule: list_all2_induct) auto
qed

text \<open>
  C27. Full recovery. When every allocation has been freed and has waited its time, checking
  the queue succeeds and leaves the allocator as it was when it was new, but for the next id:
  the tree in one piece, no triad kept for single boards, nothing waiting.
\<close>

theorem allocator_recovers:
  assumes "history (new_allocator w h dead links i secs) a Map.empty Q" "0 < w" "0 < h"
    and "\<And>k t B. (t, B) \<in> set Q \<Longrightarrow> \<not> fdiv (of_int (clock k - t)) 1000000 < secs"
    and "check_free clock a = (r, a')"
  shows "r = Inr (Q \<noteq> []) \<and> a' = new_allocator w h dead links (al_next_id a) secs"
proof -
  have acc: "accounted a Map.empty Q" and m: "same_machine (new_allocator w h dead links i secs) a"
    using history_accounted[OF assms(1-3)] by simp_all
  then have ok: "allocator_ok a" and l: "live a = Map.empty" and len: "length Q = length (al_to_free a)"
    by (auto simp: accounted_def dest: list_all2_lengthD)
  obtain n where n: "r = Inr (0 < n)" "allocator_ok a'" "kept a a'" "n \<le> length (al_to_free a)"
    "al_to_free a' = drop n (al_to_free a)"
    "n < length (al_to_free a) \<longrightarrow> \<not> due a (clock n) (al_to_free a ! n)"
    using check_free_from_spec[OF ok, of clock 0] assms(5) unfolding check_free_def by auto
  have "due a (clock k) item" if "item \<in> set (al_to_free a)" for k item
  proof -
    have "fst item \<in> fst ` set (al_to_free a)" using that by (rule imageI)
    then have "fst item \<in> fst ` set Q" by (simp only: accounted_times[OF acc] flip: set_map)
    then obtain B where "(fst item, B) \<in> set Q" by force
    from assms(4)[OF this] m show ?thesis by (simp add: due_def same_machine_def new_allocator_def)
  qed
  then have "n = length (al_to_free a)" using n(4,6) by (metis le_neq_implies_less nth_mem)
  then have q: "al_to_free a' = []" using n(5) by simp
  have l': "live a' = Map.empty" using kept_live[OF n(3)] l by simp
  have "tokens a' = {}" by (simp add: tokens_def l' pending_def q)
  with n(2) have b: "books a' {}" "busy a' {}" "tokens_ok a'" by (simp_all add: allocator_ok_def)
  have "al_allocation_types a' j = None \<and> al_allocation_board a' j = None" for j
  proof -
    have "dom (al_allocation_types a') = dom (al_allocation_board a')" using b(3) by (simp add: tokens_ok_def)
    then have "al_allocation_types a' j = None \<longleftrightarrow> al_allocation_board a' j = None" by (metis domIff)
    moreover have "live a' j = None" by (simp add: l')
    ultimately show ?thesis by (auto simp: live_def split: option.splits)
  qed
  then have "al_allocation_types a' = Map.empty" "al_allocation_board a' = Map.empty" by auto
  moreover have "r = Inr (Q \<noteq> [])" using n(1) \<open>n = length (al_to_free a)\<close> len by auto
  ultimately show ?thesis
    using books_empty[OF b(1,2)] q n(3) m
    by (auto simp: new_allocator_def kept_def same_machine_def intro!: allocator.equality)
qed

lemma small_freed:
  "\<exists>a. history small_machine a Map.empty [(5, {(0, 0, 0)})]"
proof -
  define r1 where "r1 = allocator_alloc (\<lambda>_. 0) pick_least Any_board plain small_machine"
  define r2 where "r2 = allocator_free 5 1 (snd r1)"
  obtain x where x: "r1 = (Inr (Some x), snd r1)" "an_id x = 1" "an_boards x = {(0, 0, 0)}"
    using small_first unfolding r1_def[symmetric] by (rule result_isE)
  have rk: "request_ok Any_board plain" by (simp add: request_ok_def plain_def)
  have h: "history small_machine (snd r1) (Map.empty(an_id x \<mapsto> an_boards x)) (still_waiting (snd r1) [])"
    by (rule history.h_alloc[where clock = "\<lambda>_. 0", OF history.h_new rk pick_least_ok])
      (use x(1) r1_def in metis)
  have "history small_machine (snd r2) ((Map.empty(an_id x \<mapsto> an_boards x))(1 := None))
      (still_waiting (snd r1) [] @ [(5, {(0, 0, 0)})])"
    by (rule history.h_free[OF h, of 1 _ 5 "fst r2"]) (simp_all add: x(2,3) r2_def)
  moreover have "((Map.empty(an_id x \<mapsto> an_boards x))(1 := None)) = Map.empty" by (simp add: x(2))
  ultimately show ?thesis by (intro exI[of _ "snd r2"]) (simp add: still_waiting_def)
qed

theorem allocator_recovers_witness:
  "\<exists>a r a'. history small_machine a Map.empty [(5, {(0, 0, 0)})] \<and>
     check_free (\<lambda>_. 30000005) a = (r, a') \<and> r = Inr True \<and>
     a' = new_allocator 2 1 {(1, 0, 2)} {} (al_next_id a) 30"
proof -
  obtain a where a: "history small_machine a Map.empty [(5, {(0, 0, 0)})]"
    using small_freed by (rule exE)
  obtain r a' where c: "check_free (\<lambda>_. 30000005) a = (r, a')"
    by (cases "check_free (\<lambda>_. 30000005) a") blast
  have "fdiv (of_int (30000005 - 5)) 1000000 = 30" using fl_of_int[of 30] by (simp add: fdiv_def)
  then have due: "\<not> fdiv (of_int (30000005 - t)) 1000000 < 30" if "(t, B) \<in> set [(5, {(0, 0, 0)})]" for t and B :: "board set"
    using that by simp
  from allocator_recovers[OF a[unfolded small_machine_def] _ _ due c]
  have "r = Inr True \<and> a' = new_allocator 2 1 {(1, 0, 2)} {} (al_next_id a) 30" by simp
  with a c show ?thesis by blast
qed

text \<open>
  The waiting time. Checking the queue frees the longest prefix of items of which each
  had waited long enough at the reading of the clock taken for it, never raises, reports
  whether it freed anything, keeps all live allocations, and the boards of every token that
  is left.
\<close>

theorem check_free_exact:
  assumes "allocator_ok a"
  shows "\<exists>n a'. check_free clock a = (Inr (0 < n), a') \<and> allocator_ok a' \<and>
    n \<le> length (al_to_free a) \<and> al_to_free a' = drop n (al_to_free a) \<and>
    (\<forall>j < n. due a (clock j) (al_to_free a ! j)) \<and>
    (n < length (al_to_free a) \<longrightarrow> \<not> due a (clock n) (al_to_free a ! n)) \<and>
    live a' = live a \<and> (\<forall>u \<in> tokens a'. u \<in> tokens a \<and> space a' u = space a u)"
proof -
  obtain n a' where n: "check_free clock a = (Inr (0 < n), a')" "allocator_ok a'" "kept a a'"
    "n \<le> length (al_to_free a)" "al_to_free a' = drop n (al_to_free a)"
    "\<forall>j < n. due a (clock j) (al_to_free a ! j)"
    "n < length (al_to_free a) \<longrightarrow> \<not> due a (clock n) (al_to_free a ! n)"
    "tokens a' \<subseteq> tokens a" "\<forall>u \<in> tokens a'. space a' u = space a u"
    using check_free_from_spec[OF assms, of clock 0] unfolding check_free_def add_0 by blast
  then show ?thesis using kept_live[OF n(3)] by (intro exI[of _ n] exI[of _ a']) auto
qed

theorem check_free_exact_witness:
  "\<exists>(n::nat) a'. check_free (\<lambda>_. 0) small_machine = (Inr (0 < n), a') \<and> allocator_ok a' \<and> n = 0"
proof -
  have "allocator_ok small_machine" using new_allocator_ok by (simp add: small_machine_def)
  from check_free_exact[OF this, of "\<lambda>_. 0"] obtain n a' where
    "check_free (\<lambda>_. 0) small_machine = (Inr (0 < n), a')" "allocator_ok a'"
    "n \<le> length (al_to_free small_machine)" by blast
  moreover have "al_to_free small_machine = []" by (simp add: small_machine_def new_allocator_def)
  moreover from calculation have "n = 0" by simp
  ultimately show ?thesis by blast
qed

text \<open>A request for one board, of whatever form.\<close>

definition single_board :: "alloc_args \<Rightarrow> bool" where
  "single_board args = (case args of Num n \<Rightarrow> n = 1 | Block _ _ \<Rightarrow> False | _ \<Rightarrow> True)"

text \<open>
  Errors of a request: on a sound allocator the only exception a request can raise is the
  ValueError for asking torus connectivity of a single board, it raises it always then, and
  the live allocations are kept.
\<close>

theorem alloc_errors:
  assumes "allocator_ok a" "pick_ok pick" "request_ok args kw"
  shows "case fst (allocator_alloc clock pick args kw a) of
      Inl e \<Rightarrow> e = ValueError \<and> kw_require_torus kw \<and> single_board args \<and>
        live (snd (allocator_alloc clock pick args kw a)) = live a
    | Inr _ \<Rightarrow> \<not> (kw_require_torus kw \<and> single_board args)"
proof -
  obtain b a1 where chk: "check_free clock a = (Inr b, a1)" "allocator_ok a1" "live a1 = live a"
    using check_free_keeps[OF assms(1), of clock] kept_live by metis
  obtain r a' where run: "alloc_now pick args kw a1 = (r, a')" by fastforce
  have eff: "alloc_effect a1 r a'" "\<forall>e. r = Inl e \<longrightarrow> alloc_type args (kw_require_torus kw) = Inl e"
    using alloc_now_effect[OF chk(2) assms(2,3) run] by blast+
  have ty: "alloc_type args (kw_require_torus kw) =
      (if kw_require_torus kw \<and> single_board args then Inl ValueError
       else Inr (case args of Num n \<Rightarrow> if n = 1 then Board else Boards | Block _ _ \<Rightarrow> Triads | _ \<Rightarrow> Board))"
    by (auto simp: alloc_type_def single_board_def Let_def split: alloc_args.splits)
  have eq: "allocator_alloc clock pick args kw a = (r, a')" by (simp add: allocator_alloc_def chk(1) run)
  show ?thesis
  proof (cases r)
    case (Inl e)
    with eff ty chk(3) show ?thesis by (auto simp: eq alloc_effect_def split: if_splits)
  next
    case (Inr x)
    then have "alloc_type args (kw_require_torus kw) \<noteq> Inl ValueError"
      using run by (auto simp: alloc_now_def)
    with Inr ty show ?thesis by (auto simp: eq split: if_splits)
  qed
qed

theorem alloc_errors_witness:
  "case fst (allocator_alloc (\<lambda>_. 0) pick_least (One_board 1 0 1) (plain\<lparr>kw_require_torus := True\<rparr>) small_machine) of
      Inl e \<Rightarrow> e = ValueError | Inr _ \<Rightarrow> False"
proof -
  have ok: "allocator_ok small_machine" using new_allocator_ok by (simp add: small_machine_def)
  have rk: "request_ok (One_board 1 0 1) (plain\<lparr>kw_require_torus := True\<rparr>)"
    by (simp add: request_ok_def plain_def)
  from alloc_errors[OF ok pick_least_ok rk, of "\<lambda>_. 0"] show ?thesis
    by (auto simp: single_board_def split: sum.splits)
qed

text \<open>
  Freeing an id: a live id is no longer live, its boards wait at the end of the queue with
  the time of the call and are kept from all others as before; any other id raises KeyError
  and changes nothing.
\<close>

theorem free_exact_id:
  assumes "allocator_ok a"
  shows "case live a i of
      None \<Rightarrow> allocator_free now i a = (Inl KeyError, a)
    | Some t \<Rightarrow> \<exists>a'. allocator_free now i a = (Inr (), a') \<and> allocator_ok a' \<and>
        live a' = (live a)(i := None) \<and> al_to_free a' = al_to_free a @ [(now, t)] \<and>
        tokens a' = tokens a \<and> space a' = space a"
  using allocator_free_spec[OF assms, of now i] by (auto split: option.splits)

theorem free_exact_id_witness:
  "allocator_free 0 7 small_machine = (Inl KeyError, small_machine)"
proof -
  have "allocator_ok small_machine" using new_allocator_ok by (simp add: small_machine_def)
  from free_exact_id[OF this, of 0 7] show ?thesis
    by (simp add: live_def small_machine_def new_allocator_def)
qed


section \<open>What could be allocated\<close>

lemma any_accepts_ok:
  assumes "\<And>x y. is_ok (accepts cf x y w h)"
  shows "any_accepts cf w h xys = Inr (\<exists>(x, y) \<in> set xys. accepts cf x y w h = Inr True)"
proof (induction xys)
  case (Cons xy xys)
  obtain x y where xy: "xy = (x, y)" by (cases xy)
  obtain v where "accepts cf x y w h = Inr v" using assms[of x y] by blast
  with Cons show ?case by (cases v) (auto simp: xy)
qed simp

lemma set_machine_corners:
  "set (machine_corners a w h) = {0, al_width a - w} \<times> {0, al_height a - h}"
  by (auto simp: machine_corners_def)

text \<open>On the idle machine the corners that are tried are those of the whole machine.\<close>

lemma refused_machine:
  assumes "\<And>x y. is_ok (accepts cf x y w h)" "w \<le> al_width a" "h \<le> al_height a"
  shows "refused (accepts cf) w h (0, 0, al_width a, al_height a) \<longleftrightarrow>
    any_accepts cf w h (machine_corners a w h) = Inr False"
proof -
  have "accepts cf x y w h = Inr False \<longleftrightarrow> accepts cf x y w h \<noteq> Inr True" for x y
    using assms(1)[of x y] by (auto elim!: is_okE)
  with assms(2,3) show ?thesis
    unfolding any_accepts_ok[OF assms(1)] set_machine_corners by (auto simp: refused_def)
qed

definition idle :: "allocator \<Rightarrow> bool" where
  "idle a \<longleftrightarrow> 0 < al_width a \<and> 0 < al_height a \<and> al_to_free a = [] \<and>
     al_pack_tree a = new_tree 0 0 (al_width a) (al_height a) \<and>
     al_single_board_triads a = [] \<and> al_full_single_board_triads a = {}"

lemma idle_filter_ok:
  "idle a \<Longrightarrow> is_ok (accepts (make_filter a kw n) x y w h)"
  by (rule accepts_ok) (simp_all add: idle_def make_filter_def)

lemma triads_possible_idle:
  assumes "idle a"
  shows "\<exists>r. fst (alloc_triads w h kw a) = Inr r \<and> alloc_triads_possible w h kw a = Inr (r \<noteq> None)"
proof (cases "kw_require_torus kw \<and> (w \<noteq> al_width a \<or> h \<noteq> al_height a) \<or> w \<le> 0 \<or> h \<le> 0")
  case True
  then show ?thesis by (auto simp: alloc_triads_def alloc_triads_possible_def)
next
  case False
  then have pos: "0 < w" "0 < h" by auto
  let ?cf = "make_filter a kw None"
  have t: "tree_ok (al_pack_tree a)" "free_rects (al_pack_tree a) = {(0, 0, al_width a, al_height a)}"
    using assms by (simp_all add: idle_def) (simp_all add: new_tree_def)
  note ok = idle_filter_ok[OF assms, of kw None]
  obtain xy t' where al: "alloc (accepts ?cf) w h (al_pack_tree a) = Inr (xy, t')"
    "xy = None \<longleftrightarrow> refused (accepts ?cf) w h (0, 0, al_width a, al_height a)"
  proof (cases "alloc (accepts ?cf) w h (al_pack_tree a)")
    case (Inl e)
    with alloc_spec[OF t(1) pos, of "accepts ?cf"] ok show ?thesis
      by (simp add: alloc_result_def) (metis is_ok_simps(2))
  next
    case (Inr p)
    with alloc_spec[OF t(1) pos, of "accepts ?cf"] that[of "fst p" "snd p"] show ?thesis
      by (cases p) (auto simp: alloc_result_def t(2) split: option.splits)
  qed
  have run: "fst (alloc_triads w h kw a) =
      Inr (case xy of None \<Rightarrow> None | Some p \<Rightarrow> (case fst (store_block ?cf (fst p) (snd p) w h a) of Inr x \<Rightarrow> x))"
    using False al(1) by (auto simp: alloc_triads_def Let_def store_block_def split: option.split)
  have some: "(case fst (store_block cf x y w h a) of Inr r \<Rightarrow> r) \<noteq> None" for cf x y
    by (simp add: store_block_def Let_def)
  have "alloc_triads_possible w h kw a = Inr (xy \<noteq> None)"
  proof (cases "w \<le> al_width a \<and> h \<le> al_height a")
    case True
    with al(2) refused_machine[OF ok, of w a h] any_accepts_ok[OF ok, of w h] False show ?thesis
      by (auto simp: alloc_triads_possible_def)
  next
    case no: False
    then have "xy = None" using al(2) by (auto simp: refused_def)
    with no False show ?thesis by (auto simp: alloc_triads_possible_def)
  qed
  with run some show ?thesis by (auto split: option.splits)
qed

lemma boards_possible_idle:
  assumes "idle a" "0 \<le> kw_min_ratio kw" "ceil_div n 3 < max_area"
  shows "\<exists>r. fst (alloc_boards n kw a) = Inr r \<and> alloc_boards_possible n kw a = Inr (r \<noteq> None)"
proof (cases "ceil_div n 3 \<le> 0 \<or> kw_require_torus kw \<and> ceil_div n 3 \<noteq> al_width a * al_height a")
  case True
  then show ?thesis by (auto simp: alloc_boards_def alloc_boards_possible_def Let_def)
next
  case False
  then have pos: "0 < ceil_div n 3" by auto
  let ?cf = "make_filter a kw (Some n)" and ?A = "ceil_div n 3" and ?W = "al_width a" and ?H = "al_height a"
  have d: "0 < ?W" "0 < ?H" using assms(1) by (simp_all add: idle_def)
  have t: "tree_ok (al_pack_tree a)" "free_rects (al_pack_tree a) = {(0, 0, ?W, ?H)}"
    using assms(1) by (simp_all add: idle_def) (simp_all add: new_tree_def)
  note ok = idle_filter_ok[OF assms(1), of kw "Some n"]
  obtain res where res: "area_to_rect ?A ?W ?H (kw_min_ratio kw) = Inr res"
    "\<And>w h. res = Some (w, h) \<Longrightarrow> w \<le> ?W \<and> h \<le> ?H \<and> ?A \<le> w * h \<and> 1 \<le> w \<and> 1 \<le> h"
    using area_to_rect_bounds[OF pos assms(3) d assms(2)] by auto
  note spec = alloc_area_spec[OF t(1) pos assms(3,2), of "accepts ?cf"]
  obtain xy t' where al: "alloc_area (accepts ?cf) ?A (kw_min_ratio kw) (al_pack_tree a) = Inr (xy, t')"
    "xy = None \<longleftrightarrow> refused_area (accepts ?cf) ?A (kw_min_ratio kw) (0, 0, ?W, ?H)"
  proof (cases "alloc_area (accepts ?cf) ?A (kw_min_ratio kw) (al_pack_tree a)")
    case (Inl e)
    with spec ok show ?thesis by (simp add: area_result_def) (metis is_ok_simps(2))
  next
    case (Inr p)
    with spec that[of "fst p" "snd p"] show ?thesis
      by (cases p) (auto simp: area_result_def t(2) split: option.splits)
  qed
  have big: "res = None" if "\<not> ?A \<le> ?W * ?H"
  proof (rule ccontr)
    assume "res \<noteq> None"
    then obtain w h where "res = Some (w, h)" by auto
    from res(2)[OF this] area_le_mono[of w ?W h ?H] that show False by linarith
  qed
  have run: "fst (alloc_boards n kw a) =
      Inr (case xy of None \<Rightarrow> None | Some (x, y, w, h) \<Rightarrow> (case fst (store_block ?cf x y w h a) of Inr r \<Rightarrow> r))"
    using False al(1) by (auto simp: alloc_boards_def Let_def store_block_def split: option.split)
  have some: "(case fst (store_block cf x y w h a) of Inr r \<Rightarrow> r) \<noteq> None" for cf x y w h
    by (simp add: store_block_def Let_def)
  have "alloc_boards_possible n kw a = Inr (xy \<noteq> None)"
  proof (cases res)
    case None
    then have "xy = None" using al(2) by (simp add: refused_area_def res(1))
    with None False show ?thesis by (auto simp: alloc_boards_possible_def Let_def res(1))
  next
    case (Some p)
    obtain w h where p: "res = Some (w, h)" using Some by (cases p) simp
    note wh = res(2)[OF p]
    then have "?A \<le> ?W * ?H" using big p by force
    with al(2) have "xy = None \<longleftrightarrow> refused (accepts ?cf) w h (0, 0, ?W, ?H)"
      by (simp add: refused_area_def res(1) p)
    with refused_machine[OF ok, of w a h] any_accepts_ok[OF ok, of w h] wh False show ?thesis
      by (auto simp: alloc_boards_possible_def Let_def res(1) p)
  qed
  with run some show ?thesis by (auto split: option.splits)
qed

lemma one_board_possible_idle:
  assumes "idle a" "al_dead_boards a \<subseteq> machine_boards a" "z \<in> {0, 1, 2}"
  shows "\<exists>r. fst (alloc_board 2 pick (One_board x y z) False a) = Inr r \<and>
    alloc_board_possible (One_board x y z) False a = Inr (r \<noteq> None)"
proof (cases "(x, y, z) \<in> machine_boards a - al_dead_boards a")
  case False
  have "request x y (al_pack_tree a) = Inr (None, al_pack_tree a)"
    if "\<not> (0 \<le> x \<and> x < al_width a \<and> 0 \<le> y \<and> y < al_height a)"
    using request_spec[of "al_pack_tree a" x y] that assms(1) by (auto simp: idle_def split: if_splits)
  with False assms show ?thesis
    by (auto simp: alloc_board_possible_def idle_def board_available_def reserve_triad_def
        machine_boards_def numeral_2_eq_2)
next
  case True
  then have r: "0 \<le> x" "x < al_width a" "0 \<le> y" "y < al_height a" "(x, y, z) \<notin> al_dead_boards a"
    by (auto simp: machine_boards_def)
  have fin: "finite (machine_boards a)" by (simp add: machine_boards_def)
  have "al_dead_boards a \<subset> machine_boards a" using assms(2) True by blast
  from psubset_card_mono[OF fin this] have "card (al_dead_boards a) < card (machine_boards a)" .
  also have "card (machine_boards a) = nat (al_width a) * (nat (al_height a) * 3)"
    by (simp add: machine_boards_def card_cartesian_product)
  finally have "int (card (al_dead_boards a)) < al_width a * al_height a * 3"
    using assms(1) by (simp add: idle_def nat_mult_distrib mult.assoc flip: zless_nat_eq_int_zless)
  then have p: "alloc_board_possible (One_board x y z) False a = Inr True"
    using r assms(3) by (auto simp: alloc_board_possible_def)
  obtain t' where "request x y (al_pack_tree a) = Inr (Some (x, y), t')"
    using request_spec[of "al_pack_tree a" x y] r assms(1) by (auto simp: idle_def split: if_splits)
  moreover have "z \<in> working_boards a (x, y)" using r assms(3) by (simp add: working_boards_alt)
  ultimately have "\<exists>an. fst (alloc_board 2 pick (One_board x y z) False a) = Inr (Some an)"
    using assms(1) r by (auto simp: idle_def board_available_def reserve_triad_def numeral_2_eq_2
        take_available_def take_board_def Let_def)
  with p show ?thesis by auto
qed


lemma dead_count:
  assumes "idle a" "al_dead_boards a \<subseteq> machine_boards a"
  shows "int (card (al_dead_boards a)) < al_width a * al_height a * 3 \<longleftrightarrow> \<not> machine_boards a \<subseteq> al_dead_boards a"
proof -
  have fin: "finite (machine_boards a)" by (simp add: machine_boards_def)
  have "card (machine_boards a) = nat (al_width a) * (nat (al_height a) * 3)"
    by (simp add: machine_boards_def card_cartesian_product)
  then have n: "int (card (machine_boards a)) = al_width a * al_height a * 3" using assms(1) by (simp add: idle_def)
  have "card (al_dead_boards a) < card (machine_boards a)" if "\<not> machine_boards a \<subseteq> al_dead_boards a"
    using psubset_card_mono[OF fin, of "al_dead_boards a"] assms(2) that by blast
  moreover have "al_dead_boards a = machine_boards a" if "machine_boards a \<subseteq> al_dead_boards a" using assms(2) that by blast
  ultimately show ?thesis using n by force
qed

text \<open>For a board of no particular place only the triads in the corners of the machine are tried.\<close>

lemma any_board_idle:
  assumes "idle a" "args = Any_board \<or> args = Num 1"
  shows "\<exists>r. fst (alloc_board 2 pick args False a) = Inr r \<and>
    (r \<noteq> None \<longleftrightarrow> (\<exists>x\<in>{0, al_width a - 1}. \<exists>y\<in>{0, al_height a - 1}. working_boards a (x, y) \<noteq> {}))"
proof -
  have t: "tree_ok (al_pack_tree a)" "free_rects (al_pack_tree a) = {(0, 0, al_width a, al_height a)}"
    using assms(1) by (simp_all add: idle_def) (simp_all add: new_tree_def)
  have ba: "board_args args False = Inr None" using assms(2) by auto
  note res = alloc_spec[OF t(1), of 1 1 "has_working_board a", simplified]
  have corners: "refused (has_working_board a) 1 1 (0, 0, al_width a, al_height a) \<longleftrightarrow>
      \<not> (\<exists>x\<in>{0, al_width a - 1}. \<exists>y\<in>{0, al_height a - 1}. working_boards a (x, y) \<noteq> {})"
    using assms(1) by (auto simp: refused_def has_working idle_def)
  show ?thesis
  proof (cases "alloc (has_working_board a) 1 1 (al_pack_tree a)")
    case (Inl e)
    with res show ?thesis by (simp add: alloc_result_def has_working)
  next
    case (Inr p)
    obtain xy t' where p: "p = (xy, t')" by (cases p)
    show ?thesis
    proof (cases xy)
      case None
      with res Inr p have "refused (has_working_board a) 1 1 (0, 0, al_width a, al_height a)" by (simp add: alloc_result_def t(2))
      moreover have "fst (alloc_board 2 pick args False a) = Inr None"
        using Inr p None assms(1) ba by (simp add: numeral_2_eq_2 board_available_def idle_def reserve_triad_def)
      ultimately show ?thesis using corners by blast
    next
      case (Some c)
      obtain x y where c: "c = (x, y)" by (cases c)
      have w: "working_boards a (x, y) \<noteq> {}" "\<not> refused (has_working_board a) 1 1 (0, 0, al_width a, al_height a)"
        using res Inr p Some c by (simp_all add: alloc_result_def has_working t(2))
      have "\<exists>an. fst (alloc_board 2 pick args False a) = Inr (Some an)"
        using Inr p Some c assms(1) ba w(1)
        by (simp add: numeral_2_eq_2 board_available_def idle_def reserve_triad_def take_available_def take_board_def Let_def)
      with w(2) corners show ?thesis by blast
    qed
  qed
qed

text \<open>
  C28. The promise of \<open>alloc_possible\<close>. On the idle machine, which is how the allocator starts and
  what it returns to, the request and \<open>alloc_possible\<close> raise the same error or none. A request for a
  block of triads, several boards or a given board succeeds exactly when it was said
  to be possible. A single board of no particular place is said to be possible exactly when some
  board works, but the request succeeds exactly when a board of a triad in a corner of the machine works.
\<close>

theorem alloc_possible_idle:
  assumes "0 < w" "0 < h" "dead \<subseteq> {0..<w} \<times> {0..<h} \<times> {0, 1, 2}" "request_ok args kw"
  shows "case alloc_possible args kw (new_allocator w h dead links i secs) of
      Inl e \<Rightarrow> fst (allocator_alloc clock pick args kw (new_allocator w h dead links i secs)) = Inl e
    | Inr b \<Rightarrow> \<exists>r. fst (allocator_alloc clock pick args kw (new_allocator w h dead links i secs)) = Inr r \<and>
        (if args = Any_board \<or> args = Num 1
         then (b \<longleftrightarrow> \<not> {0..<w} \<times> {0..<h} \<times> {0, 1, 2} \<subseteq> dead) \<and>
           (r \<noteq> None \<longleftrightarrow> (\<exists>x\<in>{0, w - 1}. \<exists>y\<in>{0, h - 1}. \<exists>z\<in>{0, 1, 2}. (x, y, z) \<notin> dead))
         else b \<longleftrightarrow> r \<noteq> None)"
proof -
  define a where "a = new_allocator w h dead links i secs"
  have idle: "idle a" using assms(1,2) by (simp add: a_def idle_def new_allocator_def)
  have sel: "al_dead_boards a = dead" "machine_boards a = {0..<w} \<times> {0..<h} \<times> {0, 1, 2}" "al_width a = w" "al_height a = h"
    by (simp_all add: a_def new_allocator_def machine_boards_def)
  have dead: "al_dead_boards a \<subseteq> machine_boards a" using assms(3) by (simp add: sel)
  have run: "allocator_alloc clock pick args kw a = alloc_now pick args kw a"
    using idle by (simp add: allocator_alloc_def check_free_def check_free_from.simps[of clock 0] idle_def)
  consider (block) bw bh where "args = Block bw bh" | (num) n where "args = Num n" "n \<noteq> 1"
    | (one) x y z where "args = One_board x y z" | (any) "args = Any_board \<or> args = Num 1"
    by (cases args) auto
  then have "case alloc_possible args kw a of
      Inl e \<Rightarrow> fst (alloc_now pick args kw a) = Inl e
    | Inr b \<Rightarrow> \<exists>r. fst (alloc_now pick args kw a) = Inr r \<and>
        (if args = Any_board \<or> args = Num 1
         then (b \<longleftrightarrow> \<not> machine_boards a \<subseteq> al_dead_boards a) \<and>
           (r \<noteq> None \<longleftrightarrow> (\<exists>x\<in>{0, al_width a - 1}. \<exists>y\<in>{0, al_height a - 1}. working_boards a (x, y) \<noteq> {}))
         else b \<longleftrightarrow> r \<noteq> None)"
  proof cases
    case block
    with triads_possible_idle[OF idle, of bw bh kw] show ?thesis
      by (auto simp: alloc_possible_def alloc_now_def alloc_type_def)
  next
    case num
    have "0 \<le> kw_min_ratio kw" "ceil_div n 3 < max_area" using assms(4) num by (simp_all add: request_ok_def)
    from boards_possible_idle[OF idle this] num show ?thesis
      by (auto simp: alloc_possible_def alloc_now_def alloc_type_def)
  next
    case one
    have "z \<in> {0, 1, 2}" using assms(4) one by (simp add: request_ok_def)
    from one_board_possible_idle[OF idle dead this, of pick x y] one show ?thesis
      by (cases "kw_require_torus kw")
        (auto simp: alloc_possible_def alloc_now_def alloc_type_def simp del: alloc_board.simps)
  next
    case any
    then have p: "alloc_board_possible args False a = Inr (int (card (al_dead_boards a)) < al_width a * al_height a * 3)"
      by (auto simp: alloc_board_possible_def)
    from any_board_idle[OF idle any, of pick] any p dead_count[OF idle dead] show ?thesis
      by (cases "kw_require_torus kw")
        (auto simp: alloc_possible_def alloc_now_def alloc_type_def simp del: alloc_board.simps)
  qed
  moreover have "working_boards a (x, y) \<noteq> {} \<longleftrightarrow> (\<exists>z\<in>{0, 1, 2}. (x, y, z) \<notin> dead)" for x y
    by (auto simp: working_boards_def sel)
  ultimately show ?thesis by (simp only: run a_def[symmetric] sel)
qed

theorem alloc_possible_idle_witness:
  "(case alloc_possible (Block 3 2) plain (new_allocator 3 2 {} {} 1 30) of
      Inl e \<Rightarrow> False
    | Inr b \<Rightarrow> \<exists>r. fst (allocator_alloc (\<lambda>_. 0) pick_least (Block 3 2) plain (new_allocator 3 2 {} {} 1 30)) = Inr r \<and> (b \<longleftrightarrow> r \<noteq> None)) \<and>
   fst (allocator_alloc (\<lambda>_. 0) pick_least Any_board plain
     (new_allocator 3 3 ({0, 2} \<times> {0, 2} \<times> {0, 1, 2}) {} 1 30)) = Inr None"
proof
  have p: "alloc_possible (Block 3 2) plain (new_allocator 3 2 {} {} 1 30) = Inr True"
    "alloc_possible Any_board plain (new_allocator 3 3 ({0, 2} \<times> {0, 2} \<times> {0, 1, 2}) {} 1 30) = Inr True"
    by code_simp+
  have "request_ok (Block 3 2) plain" "request_ok Any_board plain" by (simp_all add: request_ok_def plain_def)
  note q = alloc_possible_idle[OF _ _ _ this(1), where w = 3 and h = 2 and dead = "{}" and links = "{}" and i = 1 and secs = 30 and clock = "\<lambda>_. 0" and pick = pick_least]
    alloc_possible_idle[OF _ _ _ this(2), where w = 3 and h = 3 and dead = "{0, 2} \<times> {0, 2} \<times> {0, 1, 2}" and links = "{}" and i = 1 and secs = 30 and clock = "\<lambda>_. 0" and pick = pick_least]
  show "case alloc_possible (Block 3 2) plain (new_allocator 3 2 {} {} 1 30) of
      Inl e \<Rightarrow> False
    | Inr b \<Rightarrow> \<exists>r. fst (allocator_alloc (\<lambda>_. 0) pick_least (Block 3 2) plain (new_allocator 3 2 {} {} 1 30)) = Inr r \<and> (b \<longleftrightarrow> r \<noteq> None)"
    using q(1) unfolding p by simp
  show "fst (allocator_alloc (\<lambda>_. 0) pick_least Any_board plain
     (new_allocator 3 3 ({0, 2} \<times> {0, 2} \<times> {0, 1, 2}) {} 1 30)) = Inr None"
    using q(2) unfolding p by force
qed

text \<open>
  The promise fails for a single board of no particular place. On a 3x3 machine in which
  just the triads of the four corners are dead a board is said to be possible, but even the
  idle machine refuses it, as only corner triads are tried: a job waiting for it never starts.
\<close>

theorem alloc_possible_unsound:
  "alloc_possible Any_board plain (new_allocator 3 3 ({0, 2} \<times> {0, 2} \<times> {0, 1, 2}) {} 1 30) = Inr True \<and>
   fst (allocator_alloc (\<lambda>_. 0) pick_least Any_board plain
     (new_allocator 3 3 ({0, 2} \<times> {0, 2} \<times> {0, 1, 2}) {} 1 30)) = Inr None"
proof -
  define a where "a = new_allocator 3 3 ({0, 2} \<times> {0, 2} \<times> {0, 1, 2}) {} 1 30"
  have "(case fst (allocator_alloc (\<lambda>_. 0) pick_least Any_board plain a) of Inr None \<Rightarrow> True | _ \<Rightarrow> False)"
    unfolding a_def by code_simp
  moreover have "alloc_possible Any_board plain a = Inr True"
    unfolding a_def by code_simp
  ultimately show ?thesis unfolding a_def[symmetric] by (auto split: sum.splits option.splits)
qed


end
