(* ===== verification/JobQueue.thy ===== *)
theory JobQueue
  imports Allocator
begin

text \<open>
  The job queue (\<open>job_queue.py\<close>): jobs are queued on every machine that could run them, and
  started by the first that has room. Job and machine objects are shared between the
  dictionaries, the queues and each other, so they live in two stores and are referred to by
  their index there. The callbacks are recorded, in order, as events.
\<close>

section \<open>The state\<close>

type_synonym job_ref = nat
type_synonym machine_ref = nat

record job =
  j_id :: int
  j_pending :: bool
  j_machine_name :: "string option"
  j_tags :: "string set"
  j_args :: alloc_args
  j_kwargs :: alloc_kwargs
  j_machine :: "machine_ref option"
  j_allocation_id :: "int option"

record machine =
  m_name :: string
  m_tags :: "string set"
  m_allocator :: allocator
  m_queue :: "job_ref list"

datatype jq_event =
    On_allocate int string "board set" "board_link set" wrap_around
  | On_free int "string option"
  | On_cancel int "string option"

record job_queue =
  jq_seconds_before_free :: rat
  jq_machines :: "(string, machine_ref) odict"
  jq_jobs :: "(int, job_ref) odict"
  jq_postpone :: int
  jq_machine_store :: "machine list"
  jq_job_store :: "job list"
  jq_events :: "jq_event list"
  jq_calls :: nat

definition new_job_queue :: "rat \<Rightarrow> job_queue" where
  "new_job_queue seconds =
     \<lparr> jq_seconds_before_free = seconds, jq_machines = [], jq_jobs = [], jq_postpone = 0,
       jq_machine_store = [], jq_job_store = [], jq_events = [], jq_calls = 0 \<rparr>"

text \<open>
  What is not determined by the state, for the n-th call of an allocator: the readings of the
  clock and the choices of \<open>set.pop\<close>.
\<close>

record world =
  w_clock :: "nat \<Rightarrow> clock"
  w_pick :: "nat \<Rightarrow> pop_choice"

type_synonym 'a jq = "(job_queue, 'a) py_call"

text \<open>Reading and changing an object of a store.\<close>

definition no_job :: job where
  "no_job = \<lparr> j_id = 0, j_pending = False, j_machine_name = None, j_tags = {}, j_args = Any_board,
     j_kwargs = \<lparr> kw_max_dead_boards = None, kw_max_dead_links = None, kw_require_torus = False,
       kw_min_ratio = 0 \<rparr>, j_machine = None, j_allocation_id = None \<rparr>"

definition the_job :: "job_queue \<Rightarrow> job_ref \<Rightarrow> job" where
  "the_job q r = (if r < length (jq_job_store q) then jq_job_store q ! r else no_job)"

definition the_machine :: "job_queue \<Rightarrow> machine_ref \<Rightarrow> machine" where
  "the_machine q m = jq_machine_store q ! m"

definition set_job :: "job_ref \<Rightarrow> job \<Rightarrow> job_queue \<Rightarrow> job_queue" where
  "set_job r j q = q\<lparr>jq_job_store := (jq_job_store q)[r := j]\<rparr>"

definition set_machine :: "machine_ref \<Rightarrow> machine \<Rightarrow> job_queue \<Rightarrow> job_queue" where
  "set_machine m x q = q\<lparr>jq_machine_store := (jq_machine_store q)[m := x]\<rparr>"

definition callback :: "jq_event \<Rightarrow> job_queue \<Rightarrow> job_queue" where
  "callback ev q = q\<lparr>jq_events := jq_events q @ [ev]\<rparr>"

definition call_done :: "job_queue \<Rightarrow> job_queue" where
  "call_done q = q\<lparr>jq_calls := Suc (jq_calls q)\<rparr>"

section \<open>Running jobs\<close>

definition try_job :: "world \<Rightarrow> job_ref \<Rightarrow> machine_ref \<Rightarrow> bool jq" where
  "try_job w r m q =
     (let j = the_job q r; x = the_machine q m;
          (out, a) = allocator_alloc (w_clock w (jq_calls q)) (w_pick w (jq_calls q))
                       (j_args j) (j_kwargs j) (m_allocator x);
          q = call_done (set_machine m (x\<lparr>m_allocator := a\<rparr>) q)
      in case out of
           Inl e \<Rightarrow> (Inl e, q)
         | Inr None \<Rightarrow> (Inr False, q)
         | Inr (Some an) \<Rightarrow>
             (Inr True,
              callback (On_allocate (j_id j) (m_name x) (an_boards an) (an_periphery an) (an_torus an))
                (set_job r (j\<lparr> j_pending := False, j_machine := Some m,
                               j_allocation_id := Some (an_id an) \<rparr>) q)))"

definition pop_queue :: "machine_ref \<Rightarrow> job_queue \<Rightarrow> job_queue" where
  "pop_queue m q =
     (let x = the_machine q m in set_machine m (x\<lparr>m_queue := tl (m_queue x)\<rparr>) q)"

text \<open>
  The loop over the queue of one machine: jobs that are no longer pending are skipped, then
  one job is tried. The first argument is the queue as it stands. The result is whether a
  job was started.
\<close>

fun serve_queue :: "world \<Rightarrow> machine_ref \<Rightarrow> job_ref list \<Rightarrow> bool jq" where
  "serve_queue w m [] q = (Inr False, q)"
| "serve_queue w m (r # rs) q =
     (if \<not> j_pending (the_job q r) then serve_queue w m rs (pop_queue m q)
      else case try_job w r m q of
             (Inl e, q') \<Rightarrow> (Inl e, q')
           | (Inr True, q') \<Rightarrow> (Inr True, pop_queue m q')
           | (Inr False, q') \<Rightarrow> (Inr False, q'))"

fun serve_machines :: "world \<Rightarrow> machine_ref list \<Rightarrow> bool \<Rightarrow> bool jq" where
  "serve_machines w [] changed q = (Inr changed, q)"
| "serve_machines w (m # ms) changed q =
     (case serve_queue w m (m_queue (the_machine q m)) q of
        (Inl e, q') \<Rightarrow> (Inl e, q')
      | (Inr c, q') \<Rightarrow> serve_machines w ms (changed \<or> c) q')"

text \<open>Each round that starts a job leaves one job less pending.\<close>

definition pending_jobs :: "job_queue \<Rightarrow> nat" where
  "pending_jobs q = length (filter j_pending (jq_job_store q))"

lemma pending_jobs_other [simp]:
  "pending_jobs (set_machine m x q) = pending_jobs q" "pending_jobs (callback ev q) = pending_jobs q"
  "pending_jobs (call_done q) = pending_jobs q" "pending_jobs (pop_queue m q) = pending_jobs q"
  by (simp_all add: pending_jobs_def set_machine_def callback_def call_done_def pop_queue_def Let_def)

lemma length_filter_update:
  "r < length xs \<Longrightarrow> P (xs ! r) \<Longrightarrow> \<not> P y \<Longrightarrow> Suc (length (filter P (xs[r := y]))) = length (filter P xs)"
proof (induction xs arbitrary: r)
  case (Cons x xs)
  then show ?case by (cases r) auto
qed simp

lemma pending_jobs_start:
  assumes "j_pending (the_job q r)" "\<not> j_pending j"
  shows "Suc (pending_jobs (set_job r j q)) = pending_jobs q"
  using assms length_filter_update[of r "jq_job_store q" j_pending j]
  by (auto simp: pending_jobs_def set_job_def the_job_def no_job_def split: if_splits)

lemma try_job_pending:
  assumes "try_job w r m q = (out, q')" "j_pending (the_job q r)"
  shows "if out = Inr True then Suc (pending_jobs q') = pending_jobs q else pending_jobs q' = pending_jobs q"
proof -
  have j: "the_job (call_done (set_machine m x q)) r = the_job q r" for x
    by (simp add: the_job_def call_done_def set_machine_def)
  show ?thesis
    using assms pending_jobs_start[of "call_done (set_machine m x q)" r for x]
    by (auto simp: try_job_def Let_def j split: prod.splits sum.splits option.splits)
qed

lemma serve_queue_pending:
  "serve_queue w m rs q = (out, q') \<Longrightarrow>
   if out = Inr True then Suc (pending_jobs q') = pending_jobs q else pending_jobs q' = pending_jobs q"
proof (induction w m rs q arbitrary: out q' rule: serve_queue.induct)
  case (2 w m r rs q)
  show ?case
  proof (cases "j_pending (the_job q r)")
    case True
    obtain o1 q1 where t: "try_job w r m q = (o1, q1)" by (cases "try_job w r m q")
    with 2(2) True try_job_pending[OF t True] show ?thesis
      by (auto split: sum.splits bool.splits)
  qed (use 2 in auto)
qed auto

lemma serve_machines_pending:
  "serve_machines w ms c q = (Inr c', q') \<Longrightarrow>
   pending_jobs q' \<le> pending_jobs q \<and> (c' \<longrightarrow> \<not> c \<longrightarrow> pending_jobs q' < pending_jobs q)"
proof (induction w ms c q rule: serve_machines.induct)
  case (2 w m ms c q)
  obtain o1 q1 where s: "serve_queue w m (m_queue (the_machine q m)) q = (o1, q1)"
    by (cases "serve_queue w m (m_queue (the_machine q m)) q")
  with 2(2) obtain c1 where o1: "o1 = Inr c1" by (auto split: sum.splits)
  from serve_queue_pending[OF s] 2(1)[OF s[symmetric] o1] 2(2) s o1 show ?case
    by (cases c1) (auto split: if_splits)
qed auto

function process_rounds :: "world \<Rightarrow> unit jq" where
  "process_rounds w q =
     (case serve_machines w (map snd (jq_machines q)) False q of
        (Inl e, q') \<Rightarrow> (Inl e, q')
      | (Inr True, q') \<Rightarrow> process_rounds w q'
      | (Inr False, q') \<Rightarrow> (Inr (), q'))"
  by pat_completeness auto
termination
proof (relation "measure (\<lambda>(w, q). pending_jobs q)"; simp?)
  fix w :: world and q q' b
  assume "(Inr True, q') = serve_machines w (map snd (jq_machines q)) False q"
  with serve_machines_pending[of w "map snd (jq_machines q)" False q True q']
  show "pending_jobs q' < pending_jobs q" by simp
qed

declare process_rounds.simps [simp del]

definition process_queue :: "world \<Rightarrow> unit jq" where
  "process_queue w q = (if jq_postpone q \<noteq> 0 then (Inr (), q) else process_rounds w q)"

section \<open>Jobs leaving\<close>

definition destroy_job :: "world \<Rightarrow> int \<Rightarrow> string option \<Rightarrow> unit jq" where
  "destroy_job w i reason q =
     (case od_get (jq_jobs q) i of
        None \<Rightarrow> (Inl AttributeError, q)
      | Some r \<Rightarrow>
          let j = the_job q r;
              q = (if j_pending j
                   then (callback (On_cancel (j_id j) reason) (set_job r (j\<lparr>j_pending := False\<rparr>) q))
                          \<lparr>jq_jobs := od_del i (jq_jobs q)\<rparr>
                   else callback (On_free (j_id j) reason) q)
          in process_queue w q)"

definition jq_free :: "world \<Rightarrow> int \<Rightarrow> unit jq" where
  "jq_free w i q =
     (case od_get (jq_jobs q) i of
        None \<Rightarrow> (Inr (), q)
      | Some r \<Rightarrow>
          let j = the_job q r; q = q\<lparr>jq_jobs := od_del i (jq_jobs q)\<rparr>
          in case (j_machine j, j_allocation_id j) of
               (Some m, Some aid) \<Rightarrow>
                 (let x = the_machine q m;
                      (out, a) = allocator_free (w_clock w (jq_calls q) 0) aid (m_allocator x);
                      q = call_done (set_machine m (x\<lparr>m_allocator := a\<rparr>) q)
                  in case out of Inl e \<Rightarrow> (Inl e, q) | Inr u \<Rightarrow> process_queue w q)
             | _ \<Rightarrow> (Inl AttributeError, q))"

section \<open>Jobs arriving\<close>

text \<open>The machines a job may run on: the one it names, or those with all of its tags.\<close>

definition candidate_machines :: "job_queue \<Rightarrow> job \<Rightarrow> machine_ref list" where
  "candidate_machines q j =
     (case j_machine_name j of
        Some name \<Rightarrow> (case od_get (jq_machines q) name of None \<Rightarrow> [] | Some m \<Rightarrow> [m])
      | None \<Rightarrow> filter (\<lambda>m. j_tags j \<subseteq> m_tags (the_machine q m)) (map snd (jq_machines q)))"

fun queue_on :: "job_ref \<Rightarrow> job \<Rightarrow> machine_ref list \<Rightarrow> bool \<Rightarrow> bool jq" where
  "queue_on r j [] found q = (Inr found, q)"
| "queue_on r j (m # ms) found q =
     (let x = the_machine q m
      in case alloc_possible (j_args j) (j_kwargs j) (m_allocator x) of
           Inl e \<Rightarrow> (Inl e, q)
         | Inr True \<Rightarrow> queue_on r j ms True (set_machine m (x\<lparr>m_queue := m_queue x @ [r]\<rparr>) q)
         | Inr False \<Rightarrow> queue_on r j ms found q)"

definition enqueue_job :: "world \<Rightarrow> job_ref \<Rightarrow> unit jq" where
  "enqueue_job w r q =
     (if jq_postpone q \<noteq> 0 then (Inr (), q)
      else
        let j = the_job q r
        in and_then (queue_on r j (candidate_machines q j) False)
             (\<lambda>found. and_then
                (if found then return ()
                 else destroy_job w (j_id j) (Some ''No suitable machines available.''))
                (\<lambda>_. process_queue w)) q)"

text \<open>
  \<open>tags\<close> is None for the default tag. Both \<open>job_id\<close> and the machine are keyword arguments that
  may be missing.
\<close>

definition create_job ::
    "world \<Rightarrow> int option \<Rightarrow> string option \<Rightarrow> string set option \<Rightarrow> alloc_args \<Rightarrow> alloc_kwargs \<Rightarrow> unit jq"
where
  "create_job w job_id machine_name tags args kwargs q =
     (case job_id of
        None \<Rightarrow> (Inl TypeError, q)
      | Some i \<Rightarrow>
          if i \<in> fst ` set (jq_jobs q) then (Inl ValueError, q)
          else if machine_name \<noteq> None \<and> tags \<noteq> None then (Inl TypeError, q)
          else
            let tags = (if machine_name \<noteq> None then Some {} else tags);
                j = \<lparr> j_id = i, j_pending = True, j_machine_name = machine_name,
                      j_tags = (case tags of Some t \<Rightarrow> t | None \<Rightarrow> {''default''}), j_args = args,
                      j_kwargs = kwargs, j_machine = None, j_allocation_id = None \<rparr>;
                r = length (jq_job_store q)
            in enqueue_job w r (q\<lparr> jq_job_store := jq_job_store q @ [j],
                                   jq_jobs := od_set i r (jq_jobs q) \<rparr>))"

section \<open>Machines\<close>

definition clear_queues :: "job_queue \<Rightarrow> job_queue" where
  "clear_queues q =
     fold (\<lambda>m q. set_machine m ((the_machine q m)\<lparr>m_queue := []\<rparr>) q) (map snd (jq_machines q)) q"

text \<open>
  The loop over the values of the ordered dictionary of jobs. Enqueueing a job that no machine
  can run removes it; the iterator notices when it is asked for a further job, and raises.
\<close>

fun requeue :: "world \<Rightarrow> nat \<Rightarrow> job_ref list \<Rightarrow> unit jq" where
  "requeue w n [] q = (Inr (), q)"
| "requeue w n (r # rs) q =
     (if length (jq_jobs q) \<noteq> n then (Inl RuntimeError, q)
      else if j_pending (the_job q r) then and_then (enqueue_job w r) (\<lambda>_. requeue w n rs) q
      else requeue w n rs q)"

definition regenerate_queues :: "world \<Rightarrow> unit jq" where
  "regenerate_queues w q =
     (if jq_postpone q \<noteq> 0 then (Inr (), q)
      else requeue w (length (jq_jobs q)) (map snd (jq_jobs q)) (clear_queues q))"

definition add_machine ::
    "world \<Rightarrow> string \<Rightarrow> int \<Rightarrow> int \<Rightarrow> string set option \<Rightarrow> board set \<Rightarrow> board_link set \<Rightarrow> unit jq"
where
  "add_machine w name width height tags dead_boards dead_links q =
     (if name \<in> fst ` set (jq_machines q) then (Inl ValueError, q)
      else
        let a = new_allocator width height dead_boards dead_links 1 (jq_seconds_before_free q);
            x = \<lparr> m_name = name, m_tags = (case tags of Some t \<Rightarrow> t | None \<Rightarrow> {''default''}),
                  m_allocator = a, m_queue = [] \<rparr>
        in regenerate_queues w
             (q\<lparr> jq_machine_store := jq_machine_store q @ [x],
                 jq_machines := od_set name (length (jq_machine_store q)) (jq_machines q) \<rparr>))"

definition move_machine_to_end :: "string \<Rightarrow> unit jq" where
  "move_machine_to_end name q =
     (case od_move_to_end name (jq_machines q) of
        Inl e \<Rightarrow> (Inl e, q)
      | Inr d \<Rightarrow> (Inr (), q\<lparr>jq_machines := d\<rparr>))"

definition modify_machine ::
    "world \<Rightarrow> string \<Rightarrow> string set option \<Rightarrow> board set option \<Rightarrow> board_link set option \<Rightarrow> unit jq"
where
  "modify_machine w name tags dead_boards dead_links q =
     (case od_get (jq_machines q) name of
        None \<Rightarrow> (Inl KeyError, q)
      | Some m \<Rightarrow>
          let x = the_machine q m;
              x = (case tags of None \<Rightarrow> x | Some t \<Rightarrow> x\<lparr>m_tags := t\<rparr>);
              x = (case dead_boards of None \<Rightarrow> x
                   | Some b \<Rightarrow> x\<lparr>m_allocator := (m_allocator x)\<lparr>al_dead_boards := b\<rparr>\<rparr>);
              x = (case dead_links of None \<Rightarrow> x
                   | Some l \<Rightarrow> x\<lparr>m_allocator := (m_allocator x)\<lparr>al_dead_links := l\<rparr>\<rparr>)
          in regenerate_queues w (set_machine m x q))"

text \<open>
  The context manager: the queues stand still inside it, and are regenerated at its end, also
  when the body raised.
\<close>

definition enter :: "job_queue \<Rightarrow> job_queue" where
  "enter q = q\<lparr>jq_postpone := jq_postpone q + 1\<rparr>"

definition leave :: "world \<Rightarrow> unit jq" where
  "leave w q = regenerate_queues w (q\<lparr>jq_postpone := jq_postpone q - 1\<rparr>)"

definition with_postponed :: "world \<Rightarrow> unit jq \<Rightarrow> unit jq" where
  "with_postponed w body q =
     (case body (enter q) of
        (out, q') \<Rightarrow>
          (case leave w q' of
             (Inl e, q'') \<Rightarrow> (Inl e, q'')
           | (Inr u, q'') \<Rightarrow> (out, q'')))"

text \<open>The jobs of a machine that is removed are destroyed and freed one by one.\<close>

definition evict :: "world \<Rightarrow> machine_ref \<Rightarrow> job_ref \<Rightarrow> unit jq" where
  "evict w m r q =
     (let j = the_job q r
      in if j_machine j = Some m
         then and_then (destroy_job w (j_id j) (Some ''Machine removed.'')) (\<lambda>_. jq_free w (j_id j)) q
         else (Inr (), q))"

definition remove_machine :: "world \<Rightarrow> string \<Rightarrow> unit jq" where
  "remove_machine w name q =
     (case od_get (jq_machines q) name of
        None \<Rightarrow> (Inl KeyError, q)
      | Some m \<Rightarrow>
          with_postponed w
            (\<lambda>q. and_then (for_each (map snd (jq_jobs q)) (evict w m))
                   (\<lambda>_ q. (Inr (), q\<lparr>jq_machines := od_del name (jq_machines q)\<rparr>)) q) q)"

section \<open>Boards that become free\<close>

fun check_machines :: "world \<Rightarrow> machine_ref list \<Rightarrow> bool \<Rightarrow> bool jq" where
  "check_machines w [] changed q = (Inr changed, q)"
| "check_machines w (m # ms) changed q =
     (let x = the_machine q m;
          (out, a) = check_free (w_clock w (jq_calls q)) (m_allocator x);
          q = call_done (set_machine m (x\<lparr>m_allocator := a\<rparr>) q)
      in case out of
           Inl e \<Rightarrow> (Inl e, q)
         | Inr c \<Rightarrow> check_machines w ms (changed \<or> c) q)"

definition jq_check_free :: "world \<Rightarrow> unit jq" where
  "jq_check_free w q =
     (if jq_postpone q \<noteq> 0 then (Inr (), q)
      else and_then (check_machines w (map snd (jq_machines q)) False)
             (\<lambda>changed. if changed then process_queue w else return ()) q)"

end
