(* ===== verification/AllocatorInterface.thy ===== *)
theory AllocatorInterface
  imports AllocatorCorrect
begin

text \<open>
  What the job queue relies on: the contract of an allocator, and what follows from it for
  several allocators whose ids are given to jobs. The contract is a locale; the allocator of
  the program is its interpretation.
\<close>

section \<open>Tenancies\<close>

text \<open>
  A tenancy says which machine and which id of its allocator a job has, and the boards it was
  told. The ledger is right when the tenancies are exactly the live ids of the allocators.
\<close>

definition ledger_ok ::
    "('a \<Rightarrow> bool) \<Rightarrow> ('a \<Rightarrow> 'i set) \<Rightarrow> ('a \<Rightarrow> 'i \<Rightarrow> 'b set \<Rightarrow> bool) \<Rightarrow> 'a list \<Rightarrow>
     ('j \<rightharpoonup> nat \<times> 'i \<times> 'b set) \<Rightarrow> bool"
where
  "ledger_ok sound ids allots as T \<longleftrightarrow>
     (\<forall>a \<in> set as. sound a) \<and>
     (\<forall>j m i B. T j = Some (m, i, B) \<longrightarrow> m < length as \<and> i \<in> ids (as ! m) \<and> allots (as ! m) i B) \<and>
     (\<forall>j k m i B C. T j = Some (m, i, B) \<longrightarrow> T k = Some (m, i, C) \<longrightarrow> j = k) \<and>
     (\<forall>m i. m < length as \<longrightarrow> i \<in> ids (as ! m) \<longrightarrow> (\<exists>j B. T j = Some (m, i, B)))"

locale board_allocator =
  fixes sound :: "'a \<Rightarrow> bool"
    and ids :: "'a \<Rightarrow> 'i set"
    and allots :: "'a \<Rightarrow> 'i \<Rightarrow> 'b set \<Rightarrow> bool"
    and fair :: "'e \<Rightarrow> bool"
    and request :: "'e \<Rightarrow> 'a \<Rightarrow> 'r \<times> 'a"
    and grant :: "'r \<Rightarrow> ('i \<times> 'b set) option"
    and release :: "'t \<Rightarrow> 'i \<Rightarrow> 'a \<Rightarrow> unit res \<times> 'a"
    and refresh :: "'c \<Rightarrow> 'a \<Rightarrow> bool res \<times> 'a"
  assumes exclusive: "sound a \<Longrightarrow> allots a i B \<Longrightarrow> allots a j C \<Longrightarrow> i \<noteq> j \<Longrightarrow> B \<inter> C = {}"
    and granted: "sound a \<Longrightarrow> fair e \<Longrightarrow> request e a = (r, a') \<Longrightarrow> grant r = Some (i, B) \<Longrightarrow>
      sound a' \<and> i \<notin> ids a \<and> ids a' = insert i (ids a) \<and> allots a' i B \<and>
      (\<forall>j C. allots a j C \<longrightarrow> allots a' j C)"
    and refused: "sound a \<Longrightarrow> fair e \<Longrightarrow> request e a = (r, a') \<Longrightarrow> grant r = None \<Longrightarrow>
      sound a' \<and> ids a' = ids a \<and> (\<forall>j C. allots a j C \<longrightarrow> allots a' j C)"
    and released: "sound a \<Longrightarrow> i \<in> ids a \<Longrightarrow> release t i a = (q, a') \<Longrightarrow>
      q = Inr () \<and> sound a' \<and> ids a' = ids a - {i} \<and> (\<forall>j C. j \<noteq> i \<longrightarrow> allots a j C \<longrightarrow> allots a' j C)"
    and refreshed: "sound a \<Longrightarrow> refresh c a = (v, a') \<Longrightarrow>
      is_ok v \<and> sound a' \<and> ids a' = ids a \<and> (\<forall>j C. allots a j C \<longrightarrow> allots a' j C)"
begin

lemma ledger_new:
  assumes "ledger_ok sound ids allots as T" "sound a" "ids a = {}"
  shows "ledger_ok sound ids allots (as @ [a]) T"
  unfolding ledger_ok_def
proof (intro conjI allI impI)
  show "\<forall>b \<in> set (as @ [a]). sound b" using assms by (auto simp: ledger_ok_def)
  fix j m i B assume "T j = Some (m, i, B)"
  with assms(1) have "m < length as" "i \<in> ids (as ! m)" "allots (as ! m) i B"
    unfolding ledger_ok_def by blast+
  then show "m < length (as @ [a])" "i \<in> ids ((as @ [a]) ! m)" "allots ((as @ [a]) ! m) i B"
    by (simp_all add: nth_append)
next
  fix j k m i B C assume "T j = Some (m, i, B)" "T k = Some (m, i, C)"
  with assms(1) show "j = k" unfolding ledger_ok_def by blast
next
  fix m i assume m: "m < length (as @ [a])" and "i \<in> ids ((as @ [a]) ! m)"
  with assms(3) have "m < length as" "i \<in> ids (as ! m)" by (auto simp: nth_append split: if_splits)
  with assms(1) show "\<exists>j B. T j = Some (m, i, B)" unfolding ledger_ok_def by blast
qed

lemma ledger_tenancy:
  assumes "ledger_ok sound ids allots as T" "T j = Some (m, i, B)"
  shows "m < length as" "i \<in> ids (as ! m)" "allots (as ! m) i B"
  using assms unfolding ledger_ok_def by blast+

lemma ledger_sound: "ledger_ok sound ids allots as T \<Longrightarrow> m < length as \<Longrightarrow> sound (as ! m)"
  unfolding ledger_ok_def by simp

lemma ledger_unique:
  "ledger_ok sound ids allots as T \<Longrightarrow> T j = Some (m, i, B) \<Longrightarrow> T k = Some (m, i, C) \<Longrightarrow> j = k"
  unfolding ledger_ok_def by blast

lemma ledger_cover:
  assumes "ledger_ok sound ids allots as T" "m < length as" "i \<in> ids (as ! m)"
  obtains j B where "T j = Some (m, i, B)"
  using assms unfolding ledger_ok_def by blast

text \<open>A change of one allocator, with what it does to its ids.\<close>

lemma ledger_change:
  assumes L: "ledger_ok sound ids allots as T" and m: "m < length as" and "sound a'"
    and T': "\<And>j n i B. T' j = Some (n, i, B) \<Longrightarrow> (if n = m then i \<in> ids a' \<and> allots a' i B else T j = Some (n, i, B))"
    and inj: "\<And>j k i B C. T' j = Some (m, i, B) \<Longrightarrow> T' k = Some (m, i, C) \<Longrightarrow> j = k"
    and cover: "\<And>i. i \<in> ids a' \<Longrightarrow> \<exists>j B. T' j = Some (m, i, B)"
    and other: "\<And>j n i B. T j = Some (n, i, B) \<Longrightarrow> n \<noteq> m \<Longrightarrow> T' j = Some (n, i, B)"
  shows "ledger_ok sound ids allots (as[m := a']) T'"
  unfolding ledger_ok_def
proof (intro conjI allI impI)
  show "\<forall>b \<in> set (as[m := a']). sound b"
    using L assms(3) set_update_subset_insert[of as m a'] unfolding ledger_ok_def by blast
  fix j n i B assume t: "T' j = Some (n, i, B)"
  show "n < length (as[m := a'])" "i \<in> ids (as[m := a'] ! n)" "allots (as[m := a'] ! n) i B"
  proof -
    consider "n = m" | "n \<noteq> m" "T j = Some (n, i, B)" using T'[OF t] by (auto split: if_splits)
    then have "n < length (as[m := a']) \<and> i \<in> ids (as[m := a'] ! n) \<and> allots (as[m := a'] ! n) i B"
    proof cases
      case 1
      with m T'[OF t] show ?thesis by simp
    next
      case 2
      with L have "n < length as" "i \<in> ids (as ! n)" "allots (as ! n) i B" unfolding ledger_ok_def by blast+
      with 2 show ?thesis by simp
    qed
    then show "n < length (as[m := a'])" "i \<in> ids (as[m := a'] ! n)" "allots (as[m := a'] ! n) i B" by auto
  qed
next
  fix j k n i B C assume t: "T' j = Some (n, i, B)" "T' k = Some (n, i, C)"
  show "j = k"
  proof (cases "n = m")
    case True
    with t inj show ?thesis by blast
  next
    case False
    with T'[OF t(1)] T'[OF t(2)] L show ?thesis unfolding ledger_ok_def by metis
  qed
next
  fix n i assume n: "n < length (as[m := a'])" "i \<in> ids (as[m := a'] ! n)"
  show "\<exists>j B. T' j = Some (n, i, B)"
  proof (cases "n = m")
    case True
    with n m cover show ?thesis by simp
  next
    case False
    with n have "n < length as" "i \<in> ids (as ! n)" by simp_all
    then obtain j B where "T j = Some (n, i, B)" using ledger_cover[OF L] by blast
    with False other show ?thesis by blast
  qed
qed

text \<open>An allocator that keeps its ids and what they stand for.\<close>

lemma ledger_same:
  assumes L: "ledger_ok sound ids allots as T" and m: "m < length as" and "sound a'"
    "ids a' = ids (as ! m)" "\<And>j C. allots (as ! m) j C \<Longrightarrow> allots a' j C"
  shows "ledger_ok sound ids allots (as[m := a']) T"
proof (rule ledger_change[OF L m assms(3)])
  fix j n i B assume "T j = Some (n, i, B)"
  then show "if n = m then i \<in> ids a' \<and> allots a' i B else T j = Some (n, i, B)"
    using ledger_tenancy(2,3)[OF L] assms(4,5) by auto
next
  show "\<And>j k i B C. T j = Some (m, i, B) \<Longrightarrow> T k = Some (m, i, C) \<Longrightarrow> j = k"
    by (rule ledger_unique[OF L])
  show "\<And>i. i \<in> ids a' \<Longrightarrow> \<exists>j B. T j = Some (m, i, B)"
    using ledger_cover[OF L m] unfolding assms(4) by metis
qed simp

lemma ledger_refused:
  assumes "ledger_ok sound ids allots as T" "m < length as" "fair e" "request e (as ! m) = (r, a')" "grant r = None"
  shows "ledger_ok sound ids allots (as[m := a']) T"
  using refused[OF ledger_sound[OF assms(1,2)] assms(3-5)] ledger_same[OF assms(1,2)] by blast

lemma ledger_refreshed:
  assumes "ledger_ok sound ids allots as T" "m < length as" "refresh c (as ! m) = (v, a')"
  shows "is_ok v \<and> ledger_ok sound ids allots (as[m := a']) T"
  using refreshed[OF ledger_sound[OF assms(1,2)] assms(3)] ledger_same[OF assms(1,2)] by blast

lemma ledger_granted:
  assumes L: "ledger_ok sound ids allots as T" and m: "m < length as" and "fair e"
    "request e (as ! m) = (r, a')" "grant r = Some (i, B)" "T j = None"
  shows "ledger_ok sound ids allots (as[m := a']) (T(j \<mapsto> (m, i, B)))"
proof -
  have g: "sound a'" "i \<notin> ids (as ! m)" "ids a' = insert i (ids (as ! m))" "allots a' i B"
    "\<And>k C. allots (as ! m) k C \<Longrightarrow> allots a' k C"
    using granted[OF ledger_sound[OF L m] assms(3-5)] by blast+
  show ?thesis
  proof (rule ledger_change[OF L m g(1)])
    fix k n l C assume "(T(j \<mapsto> (m, i, B))) k = Some (n, l, C)"
    then show "if n = m then l \<in> ids a' \<and> allots a' l C else T k = Some (n, l, C)"
      using ledger_tenancy[OF L, of k n l C] g by (auto split: if_splits)
  next
    fix k k' l C C' assume t: "(T(j \<mapsto> (m, i, B))) k = Some (m, l, C)" "(T(j \<mapsto> (m, i, B))) k' = Some (m, l, C')"
    have "x \<noteq> j \<Longrightarrow> l \<noteq> i" if "(T(j \<mapsto> (m, i, B))) x = Some (m, l, D)" for x D
      using that ledger_tenancy(2)[OF L, of x m l D] g(2) by auto
    with t have "k = j \<longleftrightarrow> l = i" "k' = j \<longleftrightarrow> l = i" by (auto split: if_splits)
    moreover have "k \<noteq> j \<Longrightarrow> k' \<noteq> j \<Longrightarrow> k = k'"
      using t ledger_unique[OF L, of k m l C k' C'] by simp
    ultimately show "k = k'" by blast
  next
    fix l assume "l \<in> ids a'"
    then consider "l = i" | "l \<in> ids (as ! m)" using g(3) by blast
    then show "\<exists>k C. (T(j \<mapsto> (m, i, B))) k = Some (m, l, C)"
    proof cases
      case 2
      then obtain k C where "T k = Some (m, l, C)" by (rule ledger_cover[OF L m])
      with assms(6) show ?thesis by (intro exI[of _ k] exI[of _ C]) auto
    qed (intro exI[of _ j] exI[of _ B], simp)
  next
    fix k n l C assume "T k = Some (n, l, C)"
    with assms(6) show "(T(j \<mapsto> (m, i, B))) k = Some (n, l, C)" by auto
  qed
qed

lemma ledger_released:
  assumes L: "ledger_ok sound ids allots as T" and j: "T j = Some (m, i, B)" and r: "release t i (as ! m) = (q, a')"
  shows "q = Inr () \<and> ledger_ok sound ids allots (as[m := a']) (T(j := None))"
proof -
  note t = ledger_tenancy[OF L j]
  have g: "q = Inr ()" "sound a'" "ids a' = ids (as ! m) - {i}"
    "\<And>k C. k \<noteq> i \<Longrightarrow> allots (as ! m) k C \<Longrightarrow> allots a' k C"
    using released[OF ledger_sound[OF L t(1)] t(2) r] by blast+
  have uniq: "k = j" if "T k = Some (m, i, C)" for k C using ledger_unique[OF L that j] .
  have "ledger_ok sound ids allots (as[m := a']) (T(j := None))"
  proof (rule ledger_change[OF L t(1) g(2)])
    fix k n l C assume k: "(T(j := None)) k = Some (n, l, C)"
    then have "T k = Some (n, l, C)" "k \<noteq> j" by (auto split: if_splits)
    moreover from this uniq have "n = m \<Longrightarrow> l \<noteq> i" by blast
    ultimately show "if n = m then l \<in> ids a' \<and> allots a' l C else T k = Some (n, l, C)"
      using ledger_tenancy[OF L, of k n l C] g(3,4) by auto
  next
    show "\<And>k k' l C C'. (T(j := None)) k = Some (m, l, C) \<Longrightarrow> (T(j := None)) k' = Some (m, l, C') \<Longrightarrow> k = k'"
      using ledger_unique[OF L] by (auto split: if_splits)
  next
    fix l assume "l \<in> ids a'"
    then have "l \<in> ids (as ! m)" "l \<noteq> i" using g(3) by auto
    then obtain k C where "T k = Some (m, l, C)" "l \<noteq> i" using ledger_cover[OF L t(1)] by blast
    with j show "\<exists>k C. (T(j := None)) k = Some (m, l, C)" by (intro exI[of _ k] exI[of _ C]) auto
  next
    fix k n l C assume "T k = Some (n, l, C)" "n \<noteq> m"
    with j show "(T(j := None)) k = Some (n, l, C)" by auto
  qed
  with g(1) show ?thesis ..
qed

lemma ledger_exclusive:
  assumes "ledger_ok sound ids allots as T" "T j = Some (m, i, B)" "T k = Some (m, l, C)" "j \<noteq> k"
  shows "B \<inter> C = {}"
proof -
  have "i \<noteq> l" using assms unfolding ledger_ok_def by blast
  with exclusive[OF ledger_sound[OF assms(1)]] ledger_tenancy[OF assms(1,2)] ledger_tenancy[OF assms(1,3)]
  show ?thesis by blast
qed

end

section \<open>The allocator keeps the contract\<close>

definition allots :: "allocator \<Rightarrow> int \<Rightarrow> board set \<Rightarrow> bool" where
  "allots a i B \<longleftrightarrow> (\<exists>t. live a i = Some t \<and> holds_boards a t B)"

definition live_ids :: "allocator \<Rightarrow> int set" where
  "live_ids a = dom (live a)"

definition granted_boards :: "allocation option res \<Rightarrow> (int \<times> board set) option" where
  "granted_boards r = (case r of Inr (Some an) \<Rightarrow> Some (an_id an, an_boards an) | _ \<Rightarrow> None)"

type_synonym alloc_call = "clock \<times> pop_choice \<times> alloc_args \<times> alloc_kwargs"

definition fair_call :: "alloc_call \<Rightarrow> bool" where
  "fair_call c \<longleftrightarrow> (case c of (_, pick, args, kw) \<Rightarrow> pick_ok pick \<and> request_ok args kw)"

definition run_call :: "alloc_call \<Rightarrow> allocator \<Rightarrow> allocation option al_result" where
  "run_call c = (case c of (clock, pick, args, kw) \<Rightarrow> allocator_alloc clock pick args kw)"

lemma live_token: "live a i = Some t \<Longrightarrow> t \<in> tokens a"
  by (auto simp: tokens_def ran_def)

lemma kept_allots:
  assumes "kept a a'" "\<forall>u \<in> tokens a'. u \<in> tokens a \<and> space a' u = space a u" "allots a i B"
  shows "allots a' i B"
proof -
  obtain t where t: "live a i = Some t" "holds_boards a t B" using assms(3) unfolding allots_def by blast
  have "live a' i = Some t" using kept_live[OF assms(1)] t(1) by simp
  moreover have "same_machine a a'" using assms(1) by (simp add: kept_def same_machine_def)
  ultimately show ?thesis
    using holds_boards_cong[OF t(2)] live_token assms(2) unfolding allots_def by blast
qed

lemma run_call_spec:
  assumes "allocator_ok a" "fair_call c" "run_call c a = (r, a')"
  shows "case granted_boards r of
      Some (i, B) \<Rightarrow> allocator_ok a' \<and> i \<notin> live_ids a \<and> live_ids a' = insert i (live_ids a) \<and>
        allots a' i B \<and> (\<forall>j C. allots a j C \<longrightarrow> allots a' j C)
    | None \<Rightarrow> allocator_ok a' \<and> live_ids a' = live_ids a \<and> (\<forall>j C. allots a j C \<longrightarrow> allots a' j C)"
proof -
  obtain clock pick args kw where c: "c = (clock, pick, args, kw)" by (cases c) auto
  have ok: "pick_ok pick" "request_ok args kw" using assms(2) by (simp_all add: fair_call_def c)
  obtain b a1 where chk: "check_free clock a = (Inr b, a1)" "allocator_ok a1" "kept a a1"
    "\<forall>u \<in> tokens a1. u \<in> tokens a \<and> space a1 u = space a u"
    using check_free_keeps[OF assms(1)] by blast
  have run: "alloc_now pick args kw a1 = (r, a')"
    using assms(3) by (simp add: run_call_def c allocator_alloc_def chk(1))
  have eff: "alloc_effect a1 r a'" using alloc_now_effect[OF chk(2) ok run] by blast
  have ids: "live_ids a1 = live_ids a" unfolding live_ids_def kept_live[OF chk(3)] ..
  have keep: "allots a1 j C" if "allots a j C" for j C using kept_allots[OF chk(3,4) that] .
  show ?thesis
  proof (cases "\<exists>an. r = Inr (Some an)")
    case False
    then have "a' = a1" "granted_boards r = None"
      using eff by (auto simp: alloc_effect_def granted_boards_def split: sum.splits option.splits)
    with chk(2) ids keep show ?thesis by simp
  next
    case True
    then obtain an where an: "r = Inr (Some an)" by blast
    obtain t where t: "t \<notin> tokens a1" "live a' = (live a1)(al_next_id a1 \<mapsto> t)"
      "an_boards an \<subseteq> space a' t" "\<forall>u \<in> tokens a1. space a' u = space a1 u"
      and e: "allocator_ok a'" "an_id an = al_next_id a1" "an_boards an \<noteq> {}"
      "an_boards an \<subseteq> machine_boards a1 - al_dead_boards a1"
      using eff unfolding an alloc_effect_def by auto
    have fr: "same_machine a1 a'" using alloc_now_frame[of a1 pick args kw] run by (simp add: same_frame_def)
    have new: "al_next_id a1 \<notin> live_ids a1"
      using chk(2) by (auto simp: allocator_ok_def tokens_ok_def live_ids_def)
    have "allots a' j C" if jc: "allots a1 j C" for j C
    proof -
      obtain u where u: "live a1 j = Some u" "holds_boards a1 u C" using jc unfolding allots_def by blast
      have "j \<noteq> al_next_id a1" using u(1) new by (auto simp: live_ids_def)
      with u(1) have "live a' j = Some u" by (simp add: t(2))
      with holds_boards_cong[OF u(2) fr] t(4) live_token[OF u(1)] show ?thesis unfolding allots_def by blast
    qed
    moreover have "allots a' (an_id an) (an_boards an)"
      using t(3) e(3,4) fr by (auto simp: allots_def t(2) e(2) holds_boards_def same_machine_def machine_boards_def)
    moreover have "live_ids a' = insert (an_id an) (live_ids a1)" by (simp add: live_ids_def t(2) e(2))
    ultimately show ?thesis using new e(1) ids keep by (simp add: granted_boards_def an e(2))
  qed
qed

interpretation ba: board_allocator allocator_ok live_ids allots fair_call run_call granted_boards
  allocator_free check_free
proof
  fix a i j and B C :: "board set"
  assume a: "allocator_ok a" "allots a i B" "allots a j C" "i \<noteq> j"
  then obtain t u where t: "live a i = Some t" "holds_boards a t B" and u: "live a j = Some u" "holds_boards a u C"
    unfolding allots_def by blast
  have "t \<noteq> u" using a(1,4) t(1) u(1)
    unfolding allocator_ok_def tokens_ok_def by (metis domI inj_onD)
  moreover have "books a (tokens a)" using a(1) by (simp add: allocator_ok_def)
  ultimately show "B \<inter> C = {}"
    using space_disjoint live_token[OF t(1)] live_token[OF u(1)] t(2) u(2) unfolding holds_boards_def by blast
next
  fix a e r a' i and B :: "board set"
  assume "allocator_ok a" "fair_call e" "run_call e a = (r, a')" "granted_boards r = Some (i, B)"
  with run_call_spec[OF this(1-3)] show "allocator_ok a' \<and> i \<notin> live_ids a \<and>
    live_ids a' = insert i (live_ids a) \<and> allots a' i B \<and> (\<forall>j C. allots a j C \<longrightarrow> allots a' j C)" by simp
next
  fix a e r a'
  assume "allocator_ok a" "fair_call e" "run_call e a = (r, a')" "granted_boards r = None"
  with run_call_spec[OF this(1-3)]
  show "allocator_ok a' \<and> live_ids a' = live_ids a \<and> (\<forall>j C. allots a j C \<longrightarrow> allots a' j C)" by simp
next
  fix a i t q a'
  assume a: "allocator_ok a" "i \<in> live_ids a" "allocator_free t i a = (q, a')"
  then obtain k where k: "live a i = Some k" unfolding live_ids_def by blast
  with allocator_free_spec[OF a(1), of t i] a(3)
  have f: "q = Inr ()" "allocator_ok a'" "live a' = (live a)(i := None)" "space a' = space a" by auto
  have "same_machine a a'"
    using a(3) by (auto simp: allocator_free_def same_machine_def Let_def split: option.splits)
  then have "allots a' j C" if "j \<noteq> i" "allots a j C" for j C
    using that holds_boards_cong f(3,4) unfolding allots_def by fastforce
  moreover have "live_ids a' = live_ids a - {i}" by (auto simp: live_ids_def f(3))
  ultimately show "q = Inr () \<and> allocator_ok a' \<and> live_ids a' = live_ids a - {i} \<and>
    (\<forall>j C. j \<noteq> i \<longrightarrow> allots a j C \<longrightarrow> allots a' j C)" using f(1,2) by blast
next
  fix a c v a'
  assume a: "allocator_ok a" "check_free c a = (v, a')"
  from check_free_keeps[OF a(1), of c] a(2) obtain b where
    b: "v = Inr b" "allocator_ok a'" "kept a a'" "\<forall>u \<in> tokens a'. u \<in> tokens a \<and> space a' u = space a u"
    by auto
  then show "is_ok v \<and> allocator_ok a' \<and> live_ids a' = live_ids a \<and> (\<forall>j C. allots a j C \<longrightarrow> allots a' j C)"
    using kept_allots kept_live[OF b(3)] unfolding live_ids_def by simp
qed

end
