(* ===== verification/JobQueueSound.thy ===== *)
theory JobQueueSound
  imports JobQueue AllocatorInterface
begin

text \<open>
  The invariant of the job queue: its tables agree with each other, every running job holds
  exactly one live allocation of the machine it is on, with the boards it was told, every
  live allocation is held by a running job, and each queue is in order of creation. Every
  operation keeps it, also when it raises.
\<close>

section \<open>The invariant\<close>

definition fair_world :: "world \<Rightarrow> bool" where
  "fair_world w \<longleftrightarrow> (\<forall>n. pick_ok (w_pick w n))"

text \<open>What was last announced to the owner of a job.\<close>

definition grants :: "jq_event list \<Rightarrow> int \<rightharpoonup> string \<times> board set" where
  "grants evs = fold (\<lambda>ev G. case ev of On_allocate i n B _ _ \<Rightarrow> G(i \<mapsto> (n, B)) | _ \<Rightarrow> G) evs Map.empty"

lemma grants_simps [simp]:
  "grants [] = Map.empty" "grants (evs @ [On_allocate i n B p t]) = (grants evs)(i \<mapsto> (n, B))"
  "grants (evs @ [On_free i reason]) = grants evs" "grants (evs @ [On_cancel i reason]) = grants evs"
  by (simp_all add: grants_def)

abbreviation job_refs :: "job_queue \<Rightarrow> job_ref set" where
  "job_refs q \<equiv> snd ` set (jq_jobs q)"

abbreviation machine_refs :: "job_queue \<Rightarrow> machine_ref set" where
  "machine_refs q \<equiv> snd ` set (jq_machines q)"

definition allocators :: "job_queue \<Rightarrow> allocator list" where
  "allocators q = map m_allocator (jq_machine_store q)"

text \<open>The machine, allocation id and announced boards of a running job.\<close>

definition tenancies :: "job_queue \<Rightarrow> job_ref \<rightharpoonup> nat \<times> int \<times> board set" where
  "tenancies q r =
     (let j = the_job q r
      in if r \<in> job_refs q \<and> \<not> j_pending j
         then case (j_machine j, j_allocation_id j, grants (jq_events q) (j_id j)) of
                (Some m, Some i, Some (_, B)) \<Rightarrow> Some (m, i, B)
              | _ \<Rightarrow> None
         else None)"

definition jobs_ok :: "job_queue \<Rightarrow> bool" where
  "jobs_ok q \<longleftrightarrow>
     distinct (od_keys (jq_jobs q)) \<and> sorted_wrt (<) (map snd (jq_jobs q)) \<and>
     (\<forall>i r. (i, r) \<in> set (jq_jobs q) \<longrightarrow> r < length (jq_job_store q) \<and> j_id (the_job q r) = i) \<and>
     (\<forall>r. j_pending (the_job q r) \<longrightarrow> r \<in> job_refs q \<and> j_machine (the_job q r) = None \<and>
        request_ok (j_args (the_job q r)) (j_kwargs (the_job q r)))"

definition machines_ok :: "job_queue \<Rightarrow> bool" where
  "machines_ok q \<longleftrightarrow>
     distinct (od_keys (jq_machines q)) \<and> distinct (map snd (jq_machines q)) \<and>
     (\<forall>n m. (n, m) \<in> set (jq_machines q) \<longrightarrow>
        m < length (jq_machine_store q) \<and> m_name (the_machine q m) = n)"

definition lines_ok :: "job_queue \<Rightarrow> bool" where
  "lines_ok q \<longleftrightarrow>
     (\<forall>m < length (jq_machine_store q).
        sorted_wrt (<) (m_queue (the_machine q m)) \<and>
        (\<forall>r \<in> set (m_queue (the_machine q m)). r < length (jq_job_store q)))"

definition runs :: "job_queue \<Rightarrow> job_ref \<Rightarrow> bool" where
  "runs q r \<longleftrightarrow>
     (\<exists>m i B. j_machine (the_job q r) = Some m \<and> j_allocation_id (the_job q r) = Some i \<and>
        m \<in> machine_refs q \<and>
        grants (jq_events q) (j_id (the_job q r)) = Some (m_name (the_machine q m), B))"

definition running_ok :: "job_queue \<Rightarrow> bool" where
  "running_ok q \<longleftrightarrow> (\<forall>r \<in> job_refs q. \<not> j_pending (the_job q r) \<longrightarrow> runs q r)"

definition ledger :: "allocator list \<Rightarrow> (job_ref \<rightharpoonup> nat \<times> int \<times> board set) \<Rightarrow> bool" where
  "ledger = ledger_ok allocator_ok live_ids allots"

definition queue_ok :: "job_queue \<Rightarrow> bool" where
  "queue_ok q \<longleftrightarrow> jobs_ok q \<and> machines_ok q \<and> lines_ok q \<and> running_ok q \<and>
     ledger (allocators q) (tenancies q)"

section \<open>Reading a changed state\<close>

lemma store_simps [simp]:
  "jq_job_store (set_machine m x q) = jq_job_store q" "jq_job_store (callback ev q) = jq_job_store q"
  "jq_job_store (call_done q) = jq_job_store q" "jq_job_store (pop_queue m q) = jq_job_store q"
  "jq_machine_store (set_job r j q) = jq_machine_store q"
  "jq_machine_store (callback ev q) = jq_machine_store q"
  "jq_machine_store (call_done q) = jq_machine_store q"
  "length (jq_machine_store (set_machine m x q)) = length (jq_machine_store q)"
  "length (jq_machine_store (pop_queue m q)) = length (jq_machine_store q)"
  "length (jq_job_store (set_job r j q)) = length (jq_job_store q)"
  by (simp_all add: set_machine_def set_job_def callback_def call_done_def pop_queue_def Let_def)

lemma field_simps [simp]:
  "jq_jobs (set_machine m x q) = jq_jobs q" "jq_machines (set_machine m x q) = jq_machines q"
  "jq_events (set_machine m x q) = jq_events q" "jq_postpone (set_machine m x q) = jq_postpone q"
  "jq_jobs (set_job r j q) = jq_jobs q" "jq_machines (set_job r j q) = jq_machines q"
  "jq_events (set_job r j q) = jq_events q" "jq_postpone (set_job r j q) = jq_postpone q"
  "jq_jobs (callback ev q) = jq_jobs q" "jq_machines (callback ev q) = jq_machines q"
  "jq_events (callback ev q) = jq_events q @ [ev]" "jq_postpone (callback ev q) = jq_postpone q"
  "jq_jobs (call_done q) = jq_jobs q" "jq_machines (call_done q) = jq_machines q"
  "jq_events (call_done q) = jq_events q" "jq_postpone (call_done q) = jq_postpone q"
  "jq_jobs (pop_queue m q) = jq_jobs q" "jq_machines (pop_queue m q) = jq_machines q"
  "jq_events (pop_queue m q) = jq_events q" "jq_postpone (pop_queue m q) = jq_postpone q"
  by (simp_all add: set_machine_def set_job_def callback_def call_done_def pop_queue_def Let_def)

lemma the_job_simps [simp]:
  "the_job (set_job r j q) s = (if s = r \<and> r < length (jq_job_store q) then j else the_job q s)"
  "the_job (set_machine m x q) = the_job q" "the_job (callback ev q) = the_job q"
  "the_job (call_done q) = the_job q" "the_job (pop_queue m q) = the_job q"
  "the_job (q\<lparr>jq_jobs := d\<rparr>) = the_job q" "the_job (q\<lparr>jq_machines := e\<rparr>) = the_job q"
  "the_job (q\<lparr>jq_postpone := p\<rparr>) = the_job q"
  "the_job (q\<lparr>jq_machine_store := ms\<rparr>) = the_job q"
  by (auto simp: the_job_def set_job_def fun_eq_iff)

lemma the_machine_simps [simp]:
  "the_machine (set_machine m x q) k = (if k = m \<and> m < length (jq_machine_store q) then x else the_machine q k)"
  "the_machine (set_job r j q) = the_machine q" "the_machine (callback ev q) = the_machine q"
  "the_machine (call_done q) = the_machine q"
  "the_machine (q\<lparr>jq_jobs := d\<rparr>) = the_machine q" "the_machine (q\<lparr>jq_machines := e\<rparr>) = the_machine q"
  "the_machine (q\<lparr>jq_postpone := p\<rparr>) = the_machine q"
  "the_machine (q\<lparr>jq_job_store := js\<rparr>) = the_machine q"
  by (auto simp: the_machine_def set_machine_def set_job_def callback_def call_done_def fun_eq_iff not_less list_update_beyond)

lemma the_machine_pop [simp]:
  "m < length (jq_machine_store q) \<Longrightarrow> the_machine (pop_queue m q) k =
     (if k = m then (the_machine q m)\<lparr>m_queue := tl (m_queue (the_machine q m))\<rparr> else the_machine q k)"
  by (simp add: pop_queue_def Let_def)

lemma allocators_simps [simp]:
  "allocators (set_machine m x q) = (allocators q)[m := m_allocator x]"
  "allocators (set_job r j q) = allocators q" "allocators (callback ev q) = allocators q"
  "allocators (call_done q) = allocators q"
  "allocators (q\<lparr>jq_jobs := d\<rparr>) = allocators q" "allocators (q\<lparr>jq_machines := e\<rparr>) = allocators q"
  "allocators (q\<lparr>jq_postpone := p\<rparr>) = allocators q"
  "allocators (q\<lparr>jq_job_store := js\<rparr>) = allocators q"
  by (simp_all add: allocators_def set_machine_def set_job_def callback_def call_done_def map_update)

lemma allocators_nth: "m < length (jq_machine_store q) \<Longrightarrow> allocators q ! m = m_allocator (the_machine q m)"
  by (simp add: allocators_def the_machine_def)

lemma length_allocators [simp]: "length (allocators q) = length (jq_machine_store q)"
  by (simp add: allocators_def)

lemma tenancies_cong:
  "the_job q' = the_job q \<Longrightarrow> job_refs q' = job_refs q \<Longrightarrow> grants (jq_events q') = grants (jq_events q) \<Longrightarrow>
   tenancies q' = tenancies q"
  by (rule ext) (simp only: tenancies_def)

lemma tenancies_simps [simp]:
  "tenancies (set_machine m x q) = tenancies q" "tenancies (call_done q) = tenancies q"
  "tenancies (callback (On_free i reason) q) = tenancies q"
  "tenancies (callback (On_cancel i reason) q) = tenancies q"
  "tenancies (q\<lparr>jq_machines := e\<rparr>) = tenancies q" "tenancies (q\<lparr>jq_postpone := p\<rparr>) = tenancies q"
  "tenancies (q\<lparr>jq_machine_store := ms\<rparr>) = tenancies q"
  by (rule tenancies_cong; simp)+

section \<open>Elementary changes\<close>

lemma job_ref_facts:
  assumes "jobs_ok q" "r \<in> job_refs q"
  shows "r < length (jq_job_store q)" "(j_id (the_job q r), r) \<in> set (jq_jobs q)"
proof -
  obtain i where "(i, r) \<in> set (jq_jobs q)" using assms(2) by auto
  with assms(1) show "r < length (jq_job_store q)" "(j_id (the_job q r), r) \<in> set (jq_jobs q)"
    unfolding jobs_ok_def by blast+
qed

lemma sorted_distinct: "sorted_wrt (<) (xs :: nat list) \<Longrightarrow> distinct xs"
  by (induction xs) auto

lemma job_ids_unique:
  assumes "jobs_ok q" "r \<in> job_refs q" "s \<in> job_refs q" "j_id (the_job q r) = j_id (the_job q s)"
  shows "r = s"
  using job_ref_facts(2)[OF assms(1,2)] job_ref_facts(2)[OF assms(1,3)] assms(1,4)
  unfolding jobs_ok_def by (metis map_of_eq_Some_iff option.inject)

lemma od_del_refs:
  assumes "jobs_ok q" "od_get (jq_jobs q) i = Some r"
  shows "snd ` set (od_del i (jq_jobs q)) = job_refs q - {r}"
proof -
  have mem: "(i, r) \<in> set (jq_jobs q)" using assms(2) by (rule map_of_SomeD)
  have uniq: "k = i \<longleftrightarrow> s = r" if "(k, s) \<in> set (jq_jobs q)" for k s
    using that mem assms(1) unfolding jobs_ok_def by (metis map_of_eq_Some_iff option.inject)
  show ?thesis
  proof (intro set_eqI iffI)
    fix s assume "s \<in> snd ` set (od_del i (jq_jobs q))"
    then obtain k where "(k, s) \<in> set (jq_jobs q)" "k \<noteq> i" by (auto simp: od_del_def)
    with uniq show "s \<in> job_refs q - {r}" by force
  next
    fix s assume "s \<in> job_refs q - {r}"
    then obtain k where k: "(k, s) \<in> set (jq_jobs q)" "s \<noteq> r" by auto
    then have "(k, s) \<in> set (od_del i (jq_jobs q))" using uniq by (auto simp: od_del_def)
    then show "s \<in> snd ` set (od_del i (jq_jobs q))" by force
  qed
qed

lemma od_del_subset: "set (od_del k d) \<subseteq> set d"
  by (auto simp: od_del_def)

lemma sorted_del: "sorted_wrt (<) (map snd d) \<Longrightarrow> sorted_wrt (<) (map snd (od_del k d))"
  by (induction d) (auto simp: od_del_def)

text \<open>A change of a machine that keeps its name, its allocator's ids and an ordered queue.\<close>

lemma queue_ok_machine:
  assumes q: "queue_ok q" and m: "m < length (jq_machine_store q)"
    and x: "m_name x = m_name (the_machine q m)" "sorted_wrt (<) (m_queue x)"
      "\<forall>r \<in> set (m_queue x). r < length (jq_job_store q)"
    and L: "ledger ((allocators q)[m := m_allocator x]) (tenancies q)"
  shows "queue_ok (set_machine m x q)"
proof -
  have "machines_ok (set_machine m x q)" using q x(1) m by (simp add: queue_ok_def machines_ok_def)
  moreover have "lines_ok (set_machine m x q)" using q x m by (simp add: queue_ok_def lines_ok_def)
  moreover have "m_name (the_machine (set_machine m x q) k) = m_name (the_machine q k)" for k
    using x(1) by simp
  then have "running_ok (set_machine m x q)" using q unfolding queue_ok_def running_ok_def runs_def by simp
  ultimately show ?thesis using q L by (simp add: queue_ok_def jobs_ok_def)
qed

lemma queue_ok_line:
  assumes "queue_ok q" "m < length (jq_machine_store q)" "sorted_wrt (<) rs"
    "\<forall>r \<in> set rs. r < length (jq_job_store q)"
  shows "queue_ok (set_machine m ((the_machine q m)\<lparr>m_queue := rs\<rparr>) q)"
proof (rule queue_ok_machine[OF assms(1,2)])
  have "(allocators q)[m := m_allocator (the_machine q m)] = allocators q"
    using assms(2) by (metis allocators_nth list_update_id)
  then show "ledger ((allocators q)[m := m_allocator ((the_machine q m)\<lparr>m_queue := rs\<rparr>)]) (tenancies q)"
    using assms(1) by (simp add: queue_ok_def)
qed (use assms in simp_all)

lemma queue_ok_pop:
  assumes "queue_ok q" "m < length (jq_machine_store q)"
  shows "queue_ok (pop_queue m q)"
proof -
  have s: "sorted_wrt (<) (m_queue (the_machine q m))"
    "\<forall>r \<in> set (m_queue (the_machine q m)). r < length (jq_job_store q)"
    using assms by (simp_all add: queue_ok_def lines_ok_def)
  then have "sorted_wrt (<) (tl (m_queue (the_machine q m)))" by (cases "m_queue (the_machine q m)") auto
  moreover have "\<forall>r \<in> set (tl (m_queue (the_machine q m))). r < length (jq_job_store q)"
    using s(2) by (cases "m_queue (the_machine q m)") auto
  ultimately show ?thesis using queue_ok_line[OF assms] by (simp add: pop_queue_def Let_def)
qed

lemma queue_ok_other [simp]:
  "queue_ok (call_done q) = queue_ok q" "queue_ok (q\<lparr>jq_postpone := p\<rparr>) = queue_ok q"
  "queue_ok (callback (On_free i reason) q) = queue_ok q"
  "queue_ok (callback (On_cancel i reason) q) = queue_ok q"
  by (simp_all add: queue_ok_def jobs_ok_def machines_ok_def lines_ok_def running_ok_def runs_def)

section \<open>Jobs being started\<close>

text \<open>
  What working through the queues may do: jobs start, each on a machine in whose queue it
  stood, and the queues lose jobs from the front that are no longer pending. Nothing else that
  the queue is asked about changes.
\<close>

definition same_request :: "job \<Rightarrow> job \<Rightarrow> bool" where
  "same_request j k \<longleftrightarrow> j_id k = j_id j \<and> j_machine_name k = j_machine_name j \<and> j_tags k = j_tags j \<and>
     j_args k = j_args j \<and> j_kwargs k = j_kwargs j"

definition is_start :: "jq_event \<Rightarrow> bool" where
  "is_start ev = (case ev of On_allocate _ _ _ _ _ \<Rightarrow> True | _ \<Rightarrow> False)"

definition frame_kept :: "job_queue \<Rightarrow> job_queue \<Rightarrow> bool" where
  "frame_kept q q' \<longleftrightarrow>
     jq_machines q' = jq_machines q \<and> jq_jobs q' = jq_jobs q \<and> jq_postpone q' = jq_postpone q \<and>
     length (jq_machine_store q') = length (jq_machine_store q) \<and>
     length (jq_job_store q') = length (jq_job_store q) \<and>
     (\<forall>m. m_name (the_machine q' m) = m_name (the_machine q m) \<and> m_tags (the_machine q' m) = m_tags (the_machine q m))"

definition jobs_advanced :: "job_queue \<Rightarrow> job_queue \<Rightarrow> bool" where
  "jobs_advanced q q' \<longleftrightarrow>
     (\<forall>r. same_request (the_job q r) (the_job q' r) \<and>
        (the_job q' r = the_job q r \<or>
         j_pending (the_job q r) \<and> \<not> j_pending (the_job q' r) \<and>
         (\<exists>m. j_machine (the_job q' r) = Some m \<and> m \<in> machine_refs q \<and> r \<in> set (m_queue (the_machine q m)))))"

definition lines_advanced :: "job_queue \<Rightarrow> job_queue \<Rightarrow> bool" where
  "lines_advanced q q' \<longleftrightarrow>
     (\<forall>m. \<exists>served. m_queue (the_machine q m) = served @ m_queue (the_machine q' m) \<and>
        (\<forall>r \<in> set served. \<not> j_pending (the_job q' r)))"

definition starts_reported :: "job_queue \<Rightarrow> job_queue \<Rightarrow> bool" where
  "starts_reported q q' \<longleftrightarrow>
     (\<exists>evs. jq_events q' = jq_events q @ evs \<and> (\<forall>ev \<in> set evs. is_start ev) \<and>
        length evs + pending_jobs q' = pending_jobs q)"

definition advanced :: "job_queue \<Rightarrow> job_queue \<Rightarrow> bool" where
  "advanced q q' \<longleftrightarrow> frame_kept q q' \<and> jobs_advanced q q' \<and> lines_advanced q q' \<and> starts_reported q q'"

lemma advanced_refl [simp]: "advanced q q"
  by (auto simp: advanced_def frame_kept_def jobs_advanced_def lines_advanced_def starts_reported_def same_request_def)

lemma jobs_advanced_still: "jobs_advanced q q' \<Longrightarrow> \<not> j_pending (the_job q r) \<Longrightarrow> the_job q' r = the_job q r"
  unfolding jobs_advanced_def by blast

lemma advanced_trans [trans]:
  assumes "advanced q q1" "advanced q1 q2"
  shows "advanced q q2"
proof -
  have f: "frame_kept q q2" using assms by (simp add: advanced_def frame_kept_def)
  have j: "jobs_advanced q q1" "jobs_advanced q1 q2" using assms by (simp_all add: advanced_def)
  have lines: "\<exists>served. m_queue (the_machine q m) = served @ m_queue (the_machine q1 m)" for m
    using assms(1) unfolding advanced_def lines_advanced_def by blast
  have "same_request (the_job q r) (the_job q2 r)" for r
    using j unfolding jobs_advanced_def same_request_def by metis
  moreover have "the_job q2 r = the_job q r \<or> j_pending (the_job q r) \<and> \<not> j_pending (the_job q2 r) \<and>
      (\<exists>m. j_machine (the_job q2 r) = Some m \<and> m \<in> machine_refs q \<and> r \<in> set (m_queue (the_machine q m)))" for r
  proof (cases "the_job q1 r = the_job q r")
    case True
    have "m \<in> machine_refs q1 \<Longrightarrow> m \<in> machine_refs q" "r \<in> set (m_queue (the_machine q1 m)) \<Longrightarrow> r \<in> set (m_queue (the_machine q m))" for m
      using lines[of m] assms(1) by (auto simp: advanced_def frame_kept_def)
    with j(2) True show ?thesis unfolding jobs_advanced_def by metis
  next
    case False
    with j show ?thesis unfolding jobs_advanced_def by metis
  qed
  ultimately have js: "jobs_advanced q q2" unfolding jobs_advanced_def by blast
  have "\<exists>served. m_queue (the_machine q m) = served @ m_queue (the_machine q2 m) \<and>
      (\<forall>r \<in> set served. \<not> j_pending (the_job q2 r))" for m
  proof -
    obtain s1 where s1: "m_queue (the_machine q m) = s1 @ m_queue (the_machine q1 m)"
      "\<forall>r \<in> set s1. \<not> j_pending (the_job q1 r)"
      using assms(1) unfolding advanced_def lines_advanced_def by blast
    obtain s2 where s2: "m_queue (the_machine q1 m) = s2 @ m_queue (the_machine q2 m)"
      "\<forall>r \<in> set s2. \<not> j_pending (the_job q2 r)"
      using assms(2) unfolding advanced_def lines_advanced_def by blast
    have "\<forall>r \<in> set s1. \<not> j_pending (the_job q2 r)" using s1(2) jobs_advanced_still[OF j(2)] by metis
    with s1 s2 show ?thesis by (intro exI[of _ "s1 @ s2"]) auto
  qed
  then have l: "lines_advanced q q2" unfolding lines_advanced_def by blast
  obtain e1 e2 where "jq_events q1 = jq_events q @ e1" "\<forall>ev \<in> set e1. is_start ev"
    "length e1 + pending_jobs q1 = pending_jobs q"
    "jq_events q2 = jq_events q1 @ e2" "\<forall>ev \<in> set e2. is_start ev"
    "length e2 + pending_jobs q2 = pending_jobs q1"
    using assms unfolding advanced_def starts_reported_def by blast
  then have "starts_reported q q2" unfolding starts_reported_def by (intro exI[of _ "e1 @ e2"]) auto
  with f js l show ?thesis by (simp add: advanced_def)
qed

text \<open>The head of the queue of a machine waits because the machine has no room for it.\<close>

definition no_room :: "job \<Rightarrow> allocator \<Rightarrow> bool" where
  "no_room j a \<longleftrightarrow> (\<exists>pick. pick_ok pick \<and> alloc_now pick (j_args j) (j_kwargs j) a = (Inr None, a))"

lemma refused_no_room:
  assumes "allocator_ok a" "fair_call c" "run_call c a = (Inr None, a')"
    "c = (clock, pick, j_args j, j_kwargs j)"
  shows "no_room j a'"
proof -
  have ok: "pick_ok pick" "request_ok (j_args j) (j_kwargs j)" using assms(2,4) by (simp_all add: fair_call_def)
  obtain b a1 where chk: "check_free clock a = (Inr b, a1)" "allocator_ok a1"
    using check_free_keeps[OF assms(1)] by blast
  have run: "alloc_now pick (j_args j) (j_kwargs j) a1 = (Inr None, a')"
    using assms(3,4) by (simp add: run_call_def allocator_alloc_def chk(1))
  have "a' = a1" using alloc_now_effect[OF chk(2) ok run] by (simp add: alloc_effect_def)
  with run ok show ?thesis unfolding no_room_def by blast
qed

text \<open>A job takes an allocation.\<close>

lemma queue_ok_start:
  assumes q: "queue_ok q" and m: "m \<in> machine_refs q" and r: "j_pending (the_job q r)"
    and L: "ledger ((allocators q)[m := a]) ((tenancies q)(r \<mapsto> (m, i, B)))"
  defines "j \<equiv> the_job q r" and "x \<equiv> the_machine q m"
  shows "queue_ok (callback (On_allocate (j_id j) (m_name x) B p t)
    (set_job r (j\<lparr>j_pending := False, j_machine := Some m, j_allocation_id := Some i\<rparr>)
      (call_done (set_machine m (x\<lparr>m_allocator := a\<rparr>) q))))" (is "queue_ok ?q")
proof -
  have jo: "jobs_ok q" and ro: "running_ok q" using q by (simp_all add: queue_ok_def)
  have rr: "r \<in> job_refs q" using jo r unfolding jobs_ok_def by blast
  have rl: "r < length (jq_job_store q)" using job_ref_facts[OF jo rr] by blast
  have ml: "m < length (jq_machine_store q)" using q m unfolding queue_ok_def machines_ok_def by auto
  have J: "the_job ?q s = (if s = r then j\<lparr>j_pending := False, j_machine := Some m, j_allocation_id := Some i\<rparr>
      else the_job q s)" for s using rl by simp
  have id: "j_id (the_job ?q s) = j_id (the_job q s)" for s by (simp add: J j_def)
  have M: "m_name (the_machine ?q k) = m_name (the_machine q k)" "m_queue (the_machine ?q k) = m_queue (the_machine q k)"
    for k by (simp_all add: x_def)
  have other: "j_id (the_job q s) \<noteq> j_id j" if "s \<in> job_refs q" "s \<noteq> r" for s
    using job_ids_unique[OF jo that(1) rr] that(2) by (auto simp: j_def)
  have "jobs_ok ?q" using jo unfolding jobs_ok_def id J by (simp add: j_def)
  moreover have "machines_ok ?q" using q unfolding queue_ok_def machines_ok_def M by simp
  moreover have "lines_ok ?q" using q unfolding queue_ok_def lines_ok_def M by simp
  moreover have "running_ok ?q"
    unfolding running_ok_def runs_def
  proof (intro ballI impI)
    fix s assume s: "s \<in> job_refs ?q" "\<not> j_pending (the_job ?q s)"
    show "\<exists>k l C. j_machine (the_job ?q s) = Some k \<and> j_allocation_id (the_job ?q s) = Some l \<and>
        k \<in> machine_refs ?q \<and> grants (jq_events ?q) (j_id (the_job ?q s)) = Some (m_name (the_machine ?q k), C)"
    proof (cases "s = r")
      case True
      with m show ?thesis unfolding J M by (simp add: x_def j_def)
    next
      case False
      with s have s': "s \<in> job_refs q" "\<not> j_pending (the_job q s)" by (simp_all add: J)
      then obtain k l C where "j_machine (the_job q s) = Some k" "j_allocation_id (the_job q s) = Some l"
        "k \<in> machine_refs q" "grants (jq_events q) (j_id (the_job q s)) = Some (m_name (the_machine q k), C)"
        using ro unfolding running_ok_def runs_def by blast
      with False other[OF s'(1) False] show ?thesis unfolding M J by simp
    qed
  qed
  moreover have "tenancies ?q s = ((tenancies q)(r \<mapsto> (m, i, B))) s" for s
    using other[of s] rr unfolding tenancies_def Let_def J by (auto simp: j_def)
  then have "tenancies ?q = (tenancies q)(r \<mapsto> (m, i, B))" ..
  with L have "ledger (allocators ?q) (tenancies ?q)" by simp
  ultimately show ?thesis unfolding queue_ok_def by blast
qed

lemma queue_ok_allocator:
  assumes q: "queue_ok q" and m: "m \<in> machine_refs q" and L: "ledger ((allocators q)[m := a]) (tenancies q)"
  shows "queue_ok (call_done (set_machine m ((the_machine q m)\<lparr>m_allocator := a\<rparr>) q))"
proof -
  have ml: "m < length (jq_machine_store q)" using q m unfolding queue_ok_def machines_ok_def by auto
  have "queue_ok (set_machine m ((the_machine q m)\<lparr>m_allocator := a\<rparr>) q)"
    by (rule queue_ok_machine[OF q ml]) (use q ml L in \<open>simp_all add: queue_ok_def lines_ok_def\<close>)
  then show ?thesis by simp
qed

lemma advanced_allocator [simp]:
  "advanced q (call_done (set_machine m ((the_machine q m)\<lparr>m_allocator := a\<rparr>) q))"
  by (auto simp: advanced_def frame_kept_def jobs_advanced_def same_request_def lines_advanced_def starts_reported_def)

lemma try_job_step:
  assumes w: "fair_world w" and q: "queue_ok q" and m: "m \<in> machine_refs q" and r: "j_pending (the_job q r)"
    and line: "r \<in> set (m_queue (the_machine q m))"
    and run: "try_job w r m q = (out, q')"
  shows "queue_ok q' \<and> advanced q q' \<and> m_queue (the_machine q' m) = m_queue (the_machine q m) \<and>
    (out = Inr True \<longrightarrow> \<not> j_pending (the_job q' r)) \<and>
    (out = Inr False \<longrightarrow> the_job q' = the_job q \<and> (\<forall>k. k \<noteq> m \<longrightarrow> the_machine q' k = the_machine q k) \<and>
       no_room (the_job q r) (m_allocator (the_machine q' m)))"
proof -
  define j where "j = the_job q r"
  define x where "x = the_machine q m"
  define c where "c = (w_clock w (jq_calls q), w_pick w (jq_calls q), j_args j, j_kwargs j)"
  have L: "ledger_ok allocator_ok live_ids allots (allocators q) (tenancies q)"
    using q by (simp add: queue_ok_def ledger_def)
  have ml: "m < length (allocators q)" using q m unfolding queue_ok_def machines_ok_def by auto
  then have ml': "m < length (jq_machine_store q)" by simp
  have jo: "jobs_ok q" using q by (simp add: queue_ok_def)
  have "request_ok (j_args j) (j_kwargs j)" using jo r unfolding jobs_ok_def j_def by blast
  then have fair: "fair_call c" using w by (simp add: c_def fair_call_def fair_world_def)
  obtain res a where call: "run_call c (m_allocator x) = (res, a)" by fastforce
  then have call': "run_call c (allocators q ! m) = (res, a)" by (simp add: x_def allocators_nth[OF ml'])
  define q1 where "q1 = call_done (set_machine m (x\<lparr>m_allocator := a\<rparr>) q)"
  have eq: "try_job w r m q = (case res of Inl e \<Rightarrow> (Inl e, q1) | Inr None \<Rightarrow> (Inr False, q1)
      | Inr (Some an) \<Rightarrow> (Inr True,
          callback (On_allocate (j_id j) (m_name x) (an_boards an) (an_periphery an) (an_torus an))
            (set_job r (j\<lparr>j_pending := False, j_machine := Some m, j_allocation_id := Some (an_id an)\<rparr>) q1)))"
    using call unfolding try_job_def q1_def j_def[symmetric] x_def[symmetric] run_call_def c_def
    by (simp add: Let_def)
  have adv1: "advanced q q1" by (simp add: q1_def x_def)
  show ?thesis
  proof (cases "granted_boards res")
    case None
    then have "ledger ((allocators q)[m := a]) (tenancies q)"
      using ba.ledger_refused[OF L ml fair call'] by (simp add: ledger_def)
    then have ok: "queue_ok q1" using queue_ok_allocator[OF q m] by (simp add: q1_def x_def)
    have out: "q' = q1" "out \<noteq> Inr True" "out = Inr False \<Longrightarrow> res = Inr None"
      using None run eq by (auto simp: granted_boards_def split: sum.splits option.splits)
    have same: "the_job q1 = the_job q" "\<And>k. k \<noteq> m \<Longrightarrow> the_machine q1 k = the_machine q k"
      "the_machine q1 m = x\<lparr>m_allocator := a\<rparr>" using ml' by (simp_all add: q1_def)
    have "no_room (the_job q r) a" if "out = Inr False"
    proof -
      have "allocator_ok (m_allocator x)"
        using ba.ledger_sound[OF L ml] by (simp add: x_def allocators_nth[OF ml'])
      from refused_no_room[OF this fair _ c_def] call out(3)[OF that] show ?thesis by (simp add: j_def)
    qed
    with ok adv1 same out show ?thesis by (simp add: x_def)
  next
    case (Some g)
    then obtain an where an: "res = Inr (Some an)" "g = (an_id an, an_boards an)"
      by (auto simp: granted_boards_def split: sum.splits option.splits)
    have T: "tenancies q r = None" using r by (simp add: tenancies_def)
    have "ledger ((allocators q)[m := a]) ((tenancies q)(r \<mapsto> (m, an_id an, an_boards an)))"
      using ba.ledger_granted[OF L ml fair call' _ T] Some an(2) by (simp add: ledger_def)
    from queue_ok_start[OF q m r this] have ok: "queue_ok q'"
      using run eq by (auto simp: an(1) q1_def j_def x_def)
    have rl: "r < length (jq_job_store q)"
      using r by (auto simp: the_job_def no_job_def split: if_splits)
    have q': "out = Inr True" "q' = callback (On_allocate (j_id j) (m_name x) (an_boards an) (an_periphery an) (an_torus an))
            (set_job r (j\<lparr>j_pending := False, j_machine := Some m, j_allocation_id := Some (an_id an)\<rparr>) q1)"
      using run eq by (auto simp: an(1))
    have J: "the_job q' s = (if s = r then j\<lparr>j_pending := False, j_machine := Some m, j_allocation_id := Some (an_id an)\<rparr>
      else the_job q s)" for s using rl by (simp add: q' q1_def)
    have M: "the_machine q' k = (if k = m then x\<lparr>m_allocator := a\<rparr> else the_machine q k)" for k
      using ml' by (simp add: q' q1_def)
    have "frame_kept q q'" unfolding frame_kept_def M by (simp add: q' q1_def x_def)
    moreover have "jobs_advanced q q'"
      unfolding jobs_advanced_def J using r m line by (simp add: same_request_def j_def)
    moreover have "lines_advanced q q'" unfolding lines_advanced_def M by (simp add: x_def)
    moreover have "starts_reported q q'"
    proof -
      have "Suc (pending_jobs q') = pending_jobs q"
        using try_job_pending[OF run r] by (simp add: q'(1))
      then show ?thesis unfolding starts_reported_def by (simp add: q'(2) q1_def is_start_def)
    qed
    ultimately have "advanced q q'" by (simp add: advanced_def)
    with ok q'(1) show ?thesis by (simp add: J M x_def)
  qed
qed

section \<open>Working through the queues\<close>

text \<open>A machine whose queue is empty, or whose head is waiting for room.\<close>

definition at_rest :: "job_queue \<Rightarrow> machine_ref \<Rightarrow> bool" where
  "at_rest q m \<longleftrightarrow> (case m_queue (the_machine q m) of [] \<Rightarrow> True
     | r # _ \<Rightarrow> j_pending (the_job q r) \<and> no_room (the_job q r) (m_allocator (the_machine q m)))"

lemma machine_ref_length: "queue_ok q \<Longrightarrow> m \<in> machine_refs q \<Longrightarrow> m < length (jq_machine_store q)"
  unfolding queue_ok_def machines_ok_def by auto

lemma advanced_pop:
  assumes "m < length (jq_machine_store q)" "m_queue (the_machine q m) = r # rs" "\<not> j_pending (the_job q r)"
  shows "advanced q (pop_queue m q)"
proof -
  have "frame_kept q (pop_queue m q)" "jobs_advanced q (pop_queue m q)" "starts_reported q (pop_queue m q)"
    using assms(1) by (simp_all add: frame_kept_def jobs_advanced_def starts_reported_def same_request_def)
  moreover have "lines_advanced q (pop_queue m q)"
    unfolding lines_advanced_def
  proof
    fix k show "\<exists>served. m_queue (the_machine q k) = served @ m_queue (the_machine (pop_queue m q) k) \<and>
        (\<forall>r \<in> set served. \<not> j_pending (the_job (pop_queue m q) r))"
      using assms by (cases "k = m") (auto intro: exI[of _ "[r]"])
  qed
  ultimately show ?thesis by (simp add: advanced_def)
qed

lemma advanced_refs: "advanced q q' \<Longrightarrow> machine_refs q' = machine_refs q"
  by (simp add: advanced_def frame_kept_def)

lemma serve_queue_step:
  assumes "fair_world w"
  shows "queue_ok q \<Longrightarrow> m \<in> machine_refs q \<Longrightarrow> rs = m_queue (the_machine q m) \<Longrightarrow>
    serve_queue w m rs q = (out, q') \<Longrightarrow>
    queue_ok q' \<and> advanced q q' \<and>
    (out = Inr False \<longrightarrow> the_job q' = the_job q \<and> (\<forall>k. k \<noteq> m \<longrightarrow> the_machine q' k = the_machine q k) \<and> at_rest q' m)"
proof (induction rs arbitrary: q)
  case Nil
  then show ?case by (simp add: at_rest_def)
next
  case (Cons r rs)
  note ml = machine_ref_length[OF Cons.prems(1,2)]
  note line = Cons.prems(3)[symmetric]
  show ?case
  proof (cases "j_pending (the_job q r)")
    case False
    have p: "queue_ok (pop_queue m q)" "advanced q (pop_queue m q)"
      using queue_ok_pop[OF Cons.prems(1) ml] advanced_pop[OF ml line False] by blast+
    have "serve_queue w m rs (pop_queue m q) = (out, q')" using Cons.prems(4) False by simp
    with Cons.IH[OF p(1)] Cons.prems(2) line ml advanced_trans[OF p(2)] show ?thesis by simp
  next
    case True
    obtain o1 q1 where t: "try_job w r m q = (o1, q1)" by fastforce
    have "r \<in> set (m_queue (the_machine q m))" by (simp add: line)
    note s = try_job_step[OF assms Cons.prems(1,2) True this t]
    show ?thesis
    proof (cases "o1 = Inr True")
      case o1: True
      then have q': "out = Inr True" "q' = pop_queue m q1" using Cons.prems(4) t True by simp_all
      have "m < length (jq_machine_store q1)" "m_queue (the_machine q1 m) = r # rs"
        using s ml line by (simp_all add: advanced_def frame_kept_def)
      with s o1 queue_ok_pop[of q1 m] advanced_pop[of m q1 r rs] advanced_trans show ?thesis
        unfolding q' by blast
    next
      case o1: False
      then have q': "out = o1" "q' = q1" using Cons.prems(4) t True by (auto split: sum.splits bool.splits)
      show ?thesis
      proof (cases "o1 = Inr False")
        case True
        with s line \<open>j_pending (the_job q r)\<close> show ?thesis unfolding q' by (simp add: at_rest_def)
      next
        case False
        with s show ?thesis unfolding q' by blast
      qed
    qed
  qed
qed

lemma serve_machines_changed: "serve_machines w ms True q \<noteq> (Inr False, q')"
  by (induction ms arbitrary: q) (auto split: sum.splits prod.splits)

lemma serve_machines_step:
  assumes "fair_world w"
  shows "queue_ok q \<Longrightarrow> set ms \<subseteq> machine_refs q \<Longrightarrow> distinct ms \<Longrightarrow> serve_machines w ms changed q = (out, q') \<Longrightarrow>
    queue_ok q' \<and> advanced q q' \<and>
    (out = Inr False \<longrightarrow> the_job q' = the_job q \<and> (\<forall>k. k \<notin> set ms \<longrightarrow> the_machine q' k = the_machine q k) \<and>
       (\<forall>m \<in> set ms. at_rest q' m))"
proof (induction ms arbitrary: q changed)
  case (Cons m ms)
  obtain o1 q1 where t: "serve_queue w m (m_queue (the_machine q m)) q = (o1, q1)" by fastforce
  have "m \<in> machine_refs q" using Cons.prems(2) by simp
  note s = serve_queue_step[OF assms Cons.prems(1) this refl t]
  show ?case
  proof (cases o1)
    case (Inl e)
    with t s Cons.prems(4) show ?thesis by auto
  next
    case (Inr c)
    then have run: "serve_machines w ms (changed \<or> c) q1 = (out, q')" using t Cons.prems(4) by simp
    have "set ms \<subseteq> machine_refs q1" using Cons.prems(2) s advanced_refs by auto
    note IH = Cons.IH[OF conjunct1[OF s] this _ run]
    have d: "distinct ms" "m \<notin> set ms" using Cons.prems(3) by simp_all
    have "at_rest q' m" if "out = Inr False"
    proof -
      have "\<not> c" using run that serve_machines_changed by auto
      then have "at_rest q1 m" using s Inr by simp
      moreover have "the_job q' = the_job q1" "the_machine q' m = the_machine q1 m"
        using IH[OF d(1)] that d(2) by auto
      ultimately show ?thesis by (simp only: at_rest_def)
    qed
    moreover have "\<not> c" if "out = Inr False" using run that serve_machines_changed by auto
    then have "the_job q' = the_job q \<and> (\<forall>k. k \<notin> set (m # ms) \<longrightarrow> the_machine q' k = the_machine q k)"
      if "out = Inr False" using that s IH[OF d(1)] Inr by simp
    moreover have "queue_ok q'" "advanced q q'" "out = Inr False \<Longrightarrow> \<forall>k \<in> set ms. at_rest q' k"
      using s IH[OF d(1)] advanced_trans by blast+
    ultimately show ?thesis by simp
  qed
qed simp

lemma process_queue_step:
  assumes "fair_world w" "queue_ok q" "process_queue w q = (out, q')"
  shows "queue_ok q' \<and> advanced q q' \<and>
    (out = Inr () \<longrightarrow> jq_postpone q = 0 \<longrightarrow> (\<forall>m \<in> machine_refs q'. at_rest q' m))"
proof (cases "jq_postpone q = 0")
  case False
  with assms show ?thesis by (simp add: process_queue_def)
next
  case True
  have "process_rounds w q = (out, q') \<Longrightarrow> queue_ok q \<Longrightarrow>
    queue_ok q' \<and> advanced q q' \<and> (out = Inr () \<longrightarrow> (\<forall>m \<in> machine_refs q'. at_rest q' m))"
    using assms(1)
  proof (induction w q rule: process_rounds.induct)
    case (1 w q)
    obtain o1 q1 where t: "serve_machines w (map snd (jq_machines q)) False q = (o1, q1)" by fastforce
    have d: "distinct (map snd (jq_machines q))" using 1(3) by (simp add: queue_ok_def machines_ok_def)
    from serve_machines_step[OF 1(4) 1(3) _ d t]
    have s: "queue_ok q1" "advanced q q1" "o1 = Inr False \<longrightarrow> (\<forall>m \<in> machine_refs q. at_rest q1 m)"
      by auto
    note eq = process_rounds.simps[of w q, unfolded t]
    consider (err) e where "o1 = Inl e" | (more) "o1 = Inr True" | (stop) "o1 = Inr False"
      by (metis (full_types) old.sum.exhaust)
    then show ?case
    proof cases
      case err
      with eq 1(2) have "out = Inl e" "q' = q1" by simp_all
      with s(1,2) show ?thesis by simp
    next
      case more
      then have "process_rounds w q1 = (out, q')" using eq 1(2) by simp
      have IH: "queue_ok q' \<and> advanced q1 q' \<and> (out = Inr () \<longrightarrow> (\<forall>m \<in> machine_refs q'. at_rest q' m))"
        using 1(1)[OF t[symmetric] more refl \<open>process_rounds w q1 = (out, q')\<close> s(1) 1(4)] .
      with s(2) advanced_trans show ?thesis by blast
    next
      case stop
      then have "(out, q') = (Inr (), q1)" using eq 1(2) by simp
      with stop s advanced_refs[OF s(2)] show ?thesis by simp
    qed
  qed
  with True assms show ?thesis by (simp add: process_queue_def)
qed

section \<open>Jobs leaving\<close>

text \<open>A job that is not pending is taken out of the dictionary.\<close>

lemma drop_job:
  assumes "jobs_ok q" "machines_ok q" "lines_ok q" "od_get (jq_jobs q) i = Some r" "\<not> j_pending (the_job q r)"
    "\<forall>s \<in> job_refs q - {r}. \<not> j_pending (the_job q s) \<longrightarrow> runs q s"
  defines "q' \<equiv> q\<lparr>jq_jobs := od_del i (jq_jobs q)\<rparr>"
  shows "jobs_ok q' \<and> machines_ok q' \<and> lines_ok q' \<and> running_ok q' \<and> tenancies q' = (tenancies q)(r := None)"
proof -
  have f: "jq_jobs q' = od_del i (jq_jobs q)" "the_job q' = the_job q" "the_machine q' = the_machine q"
    "jq_machines q' = jq_machines q" "jq_machine_store q' = jq_machine_store q" "jq_job_store q' = jq_job_store q"
    "jq_events q' = jq_events q"
    by (simp_all add: q'_def)
  have "\<forall>k s. (k, s) \<in> set (od_del i (jq_jobs q)) \<longrightarrow> s < length (jq_job_store q) \<and> j_id (the_job q s) = k"
    using assms(1) od_del_subset[of i "jq_jobs q"] unfolding jobs_ok_def by blast
  moreover have "\<forall>s. j_pending (the_job q s) \<longrightarrow> s \<in> job_refs q - {r} \<and> j_machine (the_job q s) = None \<and>
      request_ok (j_args (the_job q s)) (j_kwargs (the_job q s))"
    using assms(1,5) unfolding jobs_ok_def by blast
  moreover have "distinct (od_keys (od_del i (jq_jobs q)))" "sorted_wrt (<) (map snd (od_del i (jq_jobs q)))"
    using assms(1) sorted_del[of "jq_jobs q" i] od_distinct_del[of "jq_jobs q" i] unfolding jobs_ok_def by simp_all
  ultimately have "jobs_ok q'" unfolding jobs_ok_def f(1,2,6) od_del_refs[OF assms(1,4)] by (intro conjI)
  moreover have "machines_ok q'" using assms(2) unfolding machines_ok_def f .
  moreover have "lines_ok q'" using assms(3) unfolding lines_ok_def f by simp
  moreover have "runs q' s = runs q s" for s unfolding runs_def f by simp
  then have "running_ok q'" using assms(6) unfolding running_ok_def f od_del_refs[OF assms(1,4)] by blast
  moreover have "tenancies q' = (tenancies q)(r := None)"
    unfolding tenancies_def f od_del_refs[OF assms(1,4)] Let_def by (rule ext) simp
  ultimately show ?thesis by blast
qed

lemma queue_ok_cancel:
  assumes q: "queue_ok q" and i: "od_get (jq_jobs q) i = Some r" and p: "j_pending (the_job q r)"
  shows "queue_ok ((callback (On_cancel k reason) (set_job r ((the_job q r)\<lparr>j_pending := False\<rparr>) q))
    \<lparr>jq_jobs := od_del i (jq_jobs q)\<rparr>)"
proof -
  define q1 where "q1 = callback (On_cancel k reason) (set_job r ((the_job q r)\<lparr>j_pending := False\<rparr>) q)"
  have jo: "jobs_ok q" using q by (simp add: queue_ok_def)
  have rr: "r \<in> job_refs q" using map_of_SomeD[OF i] by force
  note rl = job_ref_facts(1)[OF jo rr]
  have J: "the_job q1 s = (if s = r then (the_job q r)\<lparr>j_pending := False\<rparr> else the_job q s)" for s
    using rl by (simp add: q1_def)
  have f: "jq_jobs q1 = jq_jobs q" "the_machine q1 = the_machine q" "jq_machines q1 = jq_machines q"
    "jq_machine_store q1 = jq_machine_store q" "length (jq_job_store q1) = length (jq_job_store q)"
    "grants (jq_events q1) = grants (jq_events q)" "allocators q1 = allocators q"
    by (simp_all add: q1_def)
  have ok: "jobs_ok q1" using jo unfolding jobs_ok_def f J by simp
  have "machines_ok q1" "lines_ok q1"
    using q unfolding queue_ok_def machines_ok_def lines_ok_def f by simp_all
  moreover have "runs q1 s = runs q s" if "s \<noteq> r" for s unfolding runs_def f J using that by simp
  then have "\<forall>s \<in> job_refs q1 - {r}. \<not> j_pending (the_job q1 s) \<longrightarrow> runs q1 s"
    using q unfolding queue_ok_def running_ok_def f J by (metis DiffE singletonI)
  moreover have "(tenancies q1)(r := None) = tenancies q"
  proof
    fix s show "((tenancies q1)(r := None)) s = tenancies q s"
      using p unfolding tenancies_def f J Let_def by simp
  qed
  moreover have "od_get (jq_jobs q1) i = Some r" "\<not> j_pending (the_job q1 r)" using i by (simp_all add: f J)
  ultimately show ?thesis
    using drop_job[OF ok, of i r] q unfolding queue_ok_def q1_def[symmetric] f
    by (simp only: allocators_simps f simp_thms)
qed

lemma queue_ok_release:
  assumes q: "queue_ok q" and i: "od_get (jq_jobs q) i = Some r" and p: "\<not> j_pending (the_job q r)"
  obtains m aid a where "j_machine (the_job q r) = Some m" "j_allocation_id (the_job q r) = Some aid"
    "m \<in> machine_refs q" "allocator_free t aid (m_allocator (the_machine q m)) = (Inr (), a)"
    "queue_ok (call_done (set_machine m ((the_machine q m)\<lparr>m_allocator := a\<rparr>) (q\<lparr>jq_jobs := od_del i (jq_jobs q)\<rparr>)))"
proof -
  have rr: "r \<in> job_refs q" using map_of_SomeD[OF i] by force
  with q p have "runs q r" unfolding queue_ok_def running_ok_def by blast
  then obtain m aid B where r: "j_machine (the_job q r) = Some m" "j_allocation_id (the_job q r) = Some aid"
    "m \<in> machine_refs q" "grants (jq_events q) (j_id (the_job q r)) = Some (m_name (the_machine q m), B)"
    unfolding runs_def by blast
  note ml = machine_ref_length[OF q r(3)]
  have T: "tenancies q r = Some (m, aid, B)" using rr p r by (simp add: tenancies_def)
  have L: "ledger_ok allocator_ok live_ids allots (allocators q) (tenancies q)"
    using q by (simp add: queue_ok_def ledger_def)
  obtain res a where free: "allocator_free t aid (allocators q ! m) = (res, a)" by fastforce
  from ba.ledger_released[OF L T free]
  have rel: "res = Inr ()" "ledger ((allocators q)[m := a]) ((tenancies q)(r := None))"
    by (simp_all add: ledger_def)
  define q1 where "q1 = q\<lparr>jq_jobs := od_del i (jq_jobs q)\<rparr>"
  have parts: "jobs_ok q1" "machines_ok q1" "lines_ok q1" "running_ok q1" "tenancies q1 = (tenancies q)(r := None)"
    using drop_job[of q i r] q i p unfolding queue_ok_def running_ok_def q1_def by blast+
  define q2 where "q2 = call_done (set_machine m ((the_machine q m)\<lparr>m_allocator := a\<rparr>) q1)"
  have f: "the_job q2 = the_job q1" "jq_jobs q2 = jq_jobs q1" "jq_machines q2 = jq_machines q1"
    "jq_job_store q2 = jq_job_store q1" "jq_events q2 = jq_events q1"
    "length (jq_machine_store q2) = length (jq_machine_store q1)"
    "m_name (the_machine q2 k) = m_name (the_machine q1 k)" "m_queue (the_machine q2 k) = m_queue (the_machine q1 k)"
    "tenancies q2 = tenancies q1" "allocators q2 = (allocators q)[m := a]" for k
    by (simp_all add: q2_def q1_def)
  have "jobs_ok q2" using parts(1) unfolding jobs_ok_def f .
  moreover have "machines_ok q2" using parts(2) unfolding machines_ok_def f .
  moreover have "lines_ok q2" using parts(3) unfolding lines_ok_def f .
  moreover have "running_ok q2" using parts(4) unfolding running_ok_def runs_def f .
  ultimately have "queue_ok q2" using rel(2) parts(5) unfolding queue_ok_def f by simp
  then show ?thesis
    using that[of m aid a] r free rel(1) by (simp add: q2_def q1_def allocators_nth[OF ml])
qed

end
