(* ===== verification/JobQueueJobs.thy ===== *)
theory JobQueueJobs
  imports JobQueueSound
begin

text \<open>
  The operations on jobs keep the invariant of the job queue; where the pending jobs wait, and
  what each operation does to those that do.
\<close>

section \<open>Who waits where\<close>

text \<open>Whether a machine is one the job asked for.\<close>

definition suits :: "job \<Rightarrow> machine \<Rightarrow> bool" where
  "suits j x \<longleftrightarrow> (case j_machine_name j of Some n \<Rightarrow> m_name x = n | None \<Rightarrow> j_tags j \<subseteq> m_tags x)"

definition waits :: "job_queue \<Rightarrow> job_ref \<Rightarrow> bool" where
  "waits q r \<longleftrightarrow> (\<exists>m \<in> machine_refs q. r \<in> set (m_queue (the_machine q m)))"

text \<open>The request is one that an allocator will not refuse by raising.\<close>

definition askable :: "job \<Rightarrow> bool" where
  "askable j \<longleftrightarrow> is_ok (alloc_type (j_args j) (kw_require_torus (j_kwargs j)))"

definition lines_suit :: "job_queue \<Rightarrow> bool" where
  "lines_suit q \<longleftrightarrow>
     (\<forall>m \<in> machine_refs q. \<forall>r \<in> set (m_queue (the_machine q m)).
        j_pending (the_job q r) \<longrightarrow> suits (the_job q r) (the_machine q m) \<and> askable (the_job q r))"

text \<open>A job that named a machine runs on no other.\<close>

definition named_ok :: "job_queue \<Rightarrow> bool" where
  "named_ok q \<longleftrightarrow>
     (\<forall>r m n. \<not> j_pending (the_job q r) \<longrightarrow> j_machine (the_job q r) = Some m \<longrightarrow>
        j_machine_name (the_job q r) = Some n \<longrightarrow> m_name (the_machine q m) = n)"

definition machines_valid :: "job_queue \<Rightarrow> bool" where
  "machines_valid q \<longleftrightarrow> (\<forall>r m. j_machine (the_job q r) = Some m \<longrightarrow> m < length (jq_machine_store q))"

definition waiting_ok :: "job_queue \<Rightarrow> bool" where
  "waiting_ok q \<longleftrightarrow> (\<forall>r. j_pending (the_job q r) \<longrightarrow> waits q r)"

text \<open>
  The invariant of histories. The flag says that no operation has been interrupted by an
  exception; only then is every pending job known to stand in a queue.
\<close>

definition state_ok :: "bool \<Rightarrow> job_queue \<Rightarrow> bool" where
  "state_ok b q \<longleftrightarrow> queue_ok q \<and> 0 \<le> jq_postpone q \<and> named_ok q \<and> machines_valid q \<and>
     (jq_postpone q = 0 \<longrightarrow> lines_suit q \<and> (b \<longrightarrow> waiting_ok q))"

lemma state_ok_weaken: "state_ok b q \<Longrightarrow> (c \<longrightarrow> b) \<Longrightarrow> state_ok c q"
  by (auto simp: state_ok_def)

lemma state_ok_queue: "state_ok b q \<Longrightarrow> queue_ok q"
  by (simp add: state_ok_def)

lemma suits_cong:
  "same_request j k \<Longrightarrow> m_name x = m_name y \<Longrightarrow> m_tags x = m_tags y \<Longrightarrow> suits k x = suits j y"
  by (simp add: suits_def same_request_def split: option.split)

section \<open>Working through the queues\<close>

lemma advanced_waits:
  assumes "advanced q q'" "j_pending (the_job q' r)"
  shows "j_pending (the_job q r)" "waits q r \<Longrightarrow> waits q' r" "the_job q' r = the_job q r"
proof -
  have j: "jobs_advanced q q'" "lines_advanced q q'" using assms(1) by (simp_all add: advanced_def)
  show same: "the_job q' r = the_job q r" using j(1) assms(2) unfolding jobs_advanced_def by blast
  with assms(2) show "j_pending (the_job q r)" by simp
  assume "waits q r"
  then obtain m where m: "m \<in> machine_refs q" "r \<in> set (m_queue (the_machine q m))" unfolding waits_def by blast
  obtain served where "m_queue (the_machine q m) = served @ m_queue (the_machine q' m)"
    "\<forall>s \<in> set served. \<not> j_pending (the_job q' s)"
    using j(2) unfolding lines_advanced_def by blast
  with m(2) assms(2) have "r \<in> set (m_queue (the_machine q' m))" by auto
  with m(1) advanced_refs[OF assms(1)] show "waits q' r" unfolding waits_def by metis
qed

lemma advanced_line:
  assumes "advanced q q'" shows "set (m_queue (the_machine q' m)) \<subseteq> set (m_queue (the_machine q m))"
proof -
  obtain served where "m_queue (the_machine q m) = served @ m_queue (the_machine q' m)"
    using assms unfolding advanced_def lines_advanced_def by blast
  then show ?thesis by simp
qed

lemma process_queue_ok:
  assumes w: "fair_world w" and q: "state_ok b q" and run: "process_queue w q = (out, q')"
  shows "state_ok b q' \<and> advanced q q'"
proof (cases "jq_postpone q = 0")
  case False
  with run q show ?thesis by (simp add: process_queue_def)
next
  case True
  have p: "queue_ok q'" "advanced q q'" using process_queue_step[OF w _ run] q by (simp_all add: state_ok_def)
  have f: "jq_postpone q' = jq_postpone q" "machine_refs q' = machine_refs q"
    "m_name (the_machine q' m) = m_name (the_machine q m)" "m_tags (the_machine q' m) = m_tags (the_machine q m)"
    "length (jq_machine_store q') = length (jq_machine_store q)" for m
    using p(2) by (simp_all add: advanced_def frame_kept_def)
  have j: "jobs_advanced q q'" using p(2) by (simp add: advanced_def)
  have suit: "lines_suit q" using q True by (simp add: state_ok_def)
  have "lines_suit q'"
    unfolding lines_suit_def f
  proof (intro ballI impI)
    fix m r assume r: "m \<in> machine_refs q" "r \<in> set (m_queue (the_machine q' m))" "j_pending (the_job q' r)"
    have "r \<in> set (m_queue (the_machine q m))" using advanced_line[OF p(2)] r(2) by blast
    then have "suits (the_job q r) (the_machine q m)" "askable (the_job q r)"
      using suit r(1) advanced_waits(1)[OF p(2) r(3)] unfolding lines_suit_def by blast+
    moreover have sr: "same_request (the_job q r) (the_job q' r)" using j unfolding jobs_advanced_def by blast
    moreover have "askable (the_job q' r) = askable (the_job q r)"
      using sr by (simp add: same_request_def askable_def)
    ultimately show "suits (the_job q' r) (the_machine q' m) \<and> askable (the_job q' r)"
      using suits_cong[OF sr f(3,4)] by simp
  qed
  moreover have "named_ok q'"
    unfolding named_ok_def f(3)
  proof (intro allI impI)
    fix r m n
    assume r: "\<not> j_pending (the_job q' r)" "j_machine (the_job q' r) = Some m" "j_machine_name (the_job q' r) = Some n"
    show "m_name (the_machine q m) = n"
    proof (cases "the_job q' r = the_job q r")
      case True
      with r q show ?thesis unfolding state_ok_def named_ok_def by metis
    next
      case False
      then have "j_pending (the_job q r)" "m \<in> machine_refs q" "r \<in> set (m_queue (the_machine q m))"
        using j r(2) unfolding jobs_advanced_def by (metis option.inject)+
      then have "suits (the_job q r) (the_machine q m)" using suit unfolding lines_suit_def by blast
      moreover have "j_machine_name (the_job q r) = Some n"
        using j r(3) unfolding jobs_advanced_def same_request_def by metis
      ultimately show ?thesis by (simp add: suits_def)
    qed
  qed
  moreover have "waiting_ok q'" if "waiting_ok q"
    using that advanced_waits[OF p(2)] unfolding waiting_ok_def by blast
  moreover have "machines_valid q'"
    unfolding machines_valid_def f
  proof (intro allI impI)
    fix r m assume r: "j_machine (the_job q' r) = Some m"
    show "m < length (jq_machine_store q)"
    proof (cases "the_job q' r = the_job q r")
      case True
      with r q show ?thesis unfolding state_ok_def machines_valid_def by metis
    next
      case False
      then have "m \<in> machine_refs q" using j r unfolding jobs_advanced_def by (metis option.inject)
      then show ?thesis using machine_ref_length q state_ok_queue by blast
    qed
  qed
  ultimately show ?thesis using p q unfolding state_ok_def f by blast
qed

section \<open>Jobs leaving\<close>

lemma process_queue_postponed: "jq_postpone q \<noteq> 0 \<Longrightarrow> process_queue w q = (Inr (), q)"
  by (simp add: process_queue_def)

text \<open>A job that is no longer pending leaves the rest of the queue as it is.\<close>

lemma state_ok_drop:
  assumes q: "state_ok b q" and ok: "queue_ok q'" and J: "\<And>s. the_job q' s = the_job q s \<or>
      (\<not> j_pending (the_job q' s) \<and> j_machine (the_job q' s) = None)"
    and f: "jq_machines q' = jq_machines q" "jq_postpone q' = jq_postpone q"
      "\<And>m. m_name (the_machine q' m) = m_name (the_machine q m)" "\<And>m. m_tags (the_machine q' m) = m_tags (the_machine q m)"
      "\<And>m. m_queue (the_machine q' m) = m_queue (the_machine q m)"
      "length (jq_machine_store q') = length (jq_machine_store q)"
  shows "state_ok b q'"
proof -
  have "named_ok q'"
    using q J unfolding state_ok_def named_ok_def f by (metis option.distinct(1))
  moreover have "machines_valid q'"
    using q J unfolding state_ok_def machines_valid_def f by (metis option.distinct(1))
  moreover have "lines_suit q'" if "lines_suit q"
  proof -
    have "suits (the_job q r) (the_machine q' m) = suits (the_job q r) (the_machine q m)" for r m
      by (rule suits_cong) (simp_all add: f same_request_def)
    with that J show ?thesis unfolding lines_suit_def f by metis
  qed
  moreover have "waiting_ok q'" if "waiting_ok q"
    using that J unfolding waiting_ok_def waits_def f by metis
  ultimately show ?thesis using q ok unfolding state_ok_def f by blast
qed

lemma cancel_state_ok:
  assumes q: "state_ok b q" and i: "od_get (jq_jobs q) i = Some r" and p: "j_pending (the_job q r)"
  shows "state_ok b ((callback (On_cancel k reason) (set_job r ((the_job q r)\<lparr>j_pending := False\<rparr>) q))
    \<lparr>jq_jobs := od_del i (jq_jobs q)\<rparr>)"
proof (rule state_ok_drop[OF q queue_ok_cancel[OF state_ok_queue[OF q] i p]])
  fix s
  have "jobs_ok q" using q by (simp add: state_ok_def queue_ok_def)
  with p have "j_machine (the_job q r) = None" unfolding jobs_ok_def by blast
  then show "the_job ((callback (On_cancel k reason) (set_job r ((the_job q r)\<lparr>j_pending := False\<rparr>) q))
    \<lparr>jq_jobs := od_del i (jq_jobs q)\<rparr>) s = the_job q s \<or>
    \<not> j_pending (the_job ((callback (On_cancel k reason) (set_job r ((the_job q r)\<lparr>j_pending := False\<rparr>) q))
    \<lparr>jq_jobs := od_del i (jq_jobs q)\<rparr>) s) \<and>
    j_machine (the_job ((callback (On_cancel k reason) (set_job r ((the_job q r)\<lparr>j_pending := False\<rparr>) q))
    \<lparr>jq_jobs := od_del i (jq_jobs q)\<rparr>) s) = None" by simp
qed simp_all

lemma state_ok_callback: "state_ok b q \<Longrightarrow> state_ok b (callback (On_free k reason) q)"
  by (rule state_ok_drop) (simp_all add: state_ok_queue)

lemma destroy_job_ok:
  assumes w: "fair_world w" and q: "state_ok b q" and run: "destroy_job w i reason q = (out, q')"
  shows "state_ok b q'"
proof (cases "od_get (jq_jobs q) i")
  case None
  with run q show ?thesis by (simp add: destroy_job_def)
next
  case (Some r)
  show ?thesis
  proof (cases "j_pending (the_job q r)")
    case True
    from process_queue_ok[OF w cancel_state_ok[OF q Some True]] run Some True
    show ?thesis by (simp add: destroy_job_def Let_def)
  next
    case False
    from process_queue_ok[OF w state_ok_callback[OF q]] run Some False
    show ?thesis by (simp add: destroy_job_def Let_def)
  qed
qed

text \<open>Power-off is over: the boards go back to their machine.\<close>

lemma jq_free_run:
  assumes q: "state_ok b q" and i: "od_get (jq_jobs q) i = Some r" and p: "\<not> j_pending (the_job q r)"
  obtains q1 where "jq_free w i q = process_queue w q1" "state_ok b q1" "the_job q1 = the_job q"
    "jq_jobs q1 = od_del i (jq_jobs q)" "jq_machines q1 = jq_machines q" "jq_postpone q1 = jq_postpone q"
    "jq_events q1 = jq_events q" "jq_job_store q1 = jq_job_store q"
    "length (jq_machine_store q1) = length (jq_machine_store q)"
    "\<And>m. m_queue (the_machine q1 m) = m_queue (the_machine q m)"
    "\<And>m. m_name (the_machine q1 m) = m_name (the_machine q m)"
proof -
  obtain m aid a where r: "j_machine (the_job q r) = Some m" "j_allocation_id (the_job q r) = Some aid"
    "m \<in> machine_refs q" "allocator_free (w_clock w (jq_calls q) 0) aid (m_allocator (the_machine q m)) = (Inr (), a)"
    and ok: "queue_ok (call_done (set_machine m ((the_machine q m)\<lparr>m_allocator := a\<rparr>) (q\<lparr>jq_jobs := od_del i (jq_jobs q)\<rparr>)))"
    using queue_ok_release[OF state_ok_queue[OF q] i p] by blast
  define q1 where "q1 = call_done (set_machine m ((the_machine q m)\<lparr>m_allocator := a\<rparr>) (q\<lparr>jq_jobs := od_del i (jq_jobs q)\<rparr>))"
  have f: "the_job q1 = the_job q" "jq_jobs q1 = od_del i (jq_jobs q)" "jq_machines q1 = jq_machines q"
    "jq_postpone q1 = jq_postpone q" "jq_events q1 = jq_events q" "jq_job_store q1 = jq_job_store q"
    "length (jq_machine_store q1) = length (jq_machine_store q)"
    "m_queue (the_machine q1 k) = m_queue (the_machine q k)"
    "m_name (the_machine q1 k) = m_name (the_machine q k)" "m_tags (the_machine q1 k) = m_tags (the_machine q k)" for k
    by (simp_all add: q1_def)
  have "jq_free w i q = process_queue w q1"
    using i r by (simp add: jq_free_def Let_def q1_def)
  moreover have "state_ok b q1"
    by (rule state_ok_drop[OF q]) (use ok in \<open>simp_all add: f q1_def[symmetric]\<close>)
  ultimately show ?thesis using that f by blast
qed

lemma jq_free_ok:
  assumes w: "fair_world w" and q: "state_ok b q" and run: "jq_free w i q = (out, q')"
    and p: "\<forall>r. od_get (jq_jobs q) i = Some r \<longrightarrow> \<not> j_pending (the_job q r)"
  shows "state_ok b q'"
proof (cases "od_get (jq_jobs q) i")
  case None
  with run q show ?thesis by (simp add: jq_free_def)
next
  case (Some r)
  with p have "\<not> j_pending (the_job q r)" by blast
  from jq_free_run[OF q Some this] process_queue_ok[OF w] run show ?thesis by metis
qed

section \<open>Jobs arriving\<close>

text \<open>Every job in a queue is older than a given one.\<close>

definition older :: "job_queue \<Rightarrow> nat \<Rightarrow> bool" where
  "older q n \<longleftrightarrow> (\<forall>m \<in> machine_refs q. \<forall>s \<in> set (m_queue (the_machine q m)). s < n)"

text \<open>Two states that differ in the queues only.\<close>

definition same_but_lines :: "job_queue \<Rightarrow> job_queue \<Rightarrow> bool" where
  "same_but_lines q q' \<longleftrightarrow>
     jq_machines q' = jq_machines q \<and> jq_jobs q' = jq_jobs q \<and> jq_postpone q' = jq_postpone q \<and>
     jq_events q' = jq_events q \<and> jq_job_store q' = jq_job_store q \<and>
     length (jq_machine_store q') = length (jq_machine_store q) \<and>
     (\<forall>m. m_name (the_machine q' m) = m_name (the_machine q m) \<and> m_tags (the_machine q' m) = m_tags (the_machine q m) \<and>
        m_allocator (the_machine q' m) = m_allocator (the_machine q m))"

lemma same_but_lines_refl [simp]: "same_but_lines q q"
  by (simp add: same_but_lines_def)

lemma same_but_lines_trans: "same_but_lines q q1 \<Longrightarrow> same_but_lines q1 q2 \<Longrightarrow> same_but_lines q q2"
  by (simp add: same_but_lines_def)

lemma same_but_lines_job: "same_but_lines q q' \<Longrightarrow> the_job q' = the_job q"
  by (simp add: same_but_lines_def the_job_def fun_eq_iff)

lemma same_but_lines_line [simp]:
  "same_but_lines q (set_machine m ((the_machine q m)\<lparr>m_queue := rs\<rparr>) q)"
  by (simp add: same_but_lines_def)

lemma queue_on_step:
  "queue_ok q \<Longrightarrow> set ms \<subseteq> machine_refs q \<Longrightarrow> distinct ms \<Longrightarrow> r < length (jq_job_store q) \<Longrightarrow>
   \<forall>m \<in> set ms. \<forall>s \<in> set (m_queue (the_machine q m)). s < r \<Longrightarrow>
   queue_on r j ms found q = (out, q') \<Longrightarrow>
   queue_ok q' \<and> same_but_lines q q' \<and>
   (\<forall>m. m_queue (the_machine q' m) = m_queue (the_machine q m) \<or>
      m \<in> set ms \<and> alloc_possible (j_args j) (j_kwargs j) (m_allocator (the_machine q m)) = Inr True \<and>
      m_queue (the_machine q' m) = m_queue (the_machine q m) @ [r]) \<and>
   (out = Inr True \<longrightarrow> \<not> found \<longrightarrow> (\<exists>m \<in> set ms. r \<in> set (m_queue (the_machine q' m)))) \<and>
   (out = Inr False \<longrightarrow> \<not> found \<and> q' = q)"
proof (induction ms arbitrary: found q)
  case Nil
  then show ?case by auto
next
  case (Cons m ms)
  have mr: "m \<in> machine_refs q" using Cons.prems(2) by simp
  note ml = machine_ref_length[OF Cons.prems(1) mr]
  consider (err) e where "alloc_possible (j_args j) (j_kwargs j) (m_allocator (the_machine q m)) = Inl e"
    | (no) "alloc_possible (j_args j) (j_kwargs j) (m_allocator (the_machine q m)) = Inr False"
    | (yes) "alloc_possible (j_args j) (j_kwargs j) (m_allocator (the_machine q m)) = Inr True"
    by (metis (full_types) old.sum.exhaust)
  then show ?case
  proof cases
    case err
    with Cons.prems show ?thesis by auto
  next
    case no
    with Cons.prems(6) have run: "queue_on r j ms found q = (out, q')" by simp
    have "set ms \<subseteq> machine_refs q" "distinct ms" "\<forall>m \<in> set ms. \<forall>s \<in> set (m_queue (the_machine q m)). s < r"
      using Cons.prems by simp_all
    from Cons.IH[OF Cons.prems(1) this(1,2) Cons.prems(4) this(3) run] show ?thesis by (metis list.set_intros(2))
  next
    case yes
    define q1 where "q1 = set_machine m ((the_machine q m)\<lparr>m_queue := m_queue (the_machine q m) @ [r]\<rparr>) q"
    have run: "queue_on r j ms True q1 = (out, q')" using yes Cons.prems(6) by (simp add: q1_def Let_def)
    have "sorted_wrt (<) (m_queue (the_machine q m))"
      "\<forall>s \<in> set (m_queue (the_machine q m)). s < length (jq_job_store q)"
      using Cons.prems(1) ml by (simp_all add: queue_ok_def lines_ok_def)
    then have ok: "queue_ok q1"
      using Cons.prems(4,5) queue_ok_line[OF Cons.prems(1) ml] by (simp add: q1_def sorted_wrt_append)
    have sm: "same_but_lines q q1" by (simp add: q1_def)
    have line: "m_queue (the_machine q1 k) = (if k = m then m_queue (the_machine q m) @ [r] else m_queue (the_machine q k))"
      "m_allocator (the_machine q1 k) = m_allocator (the_machine q k)" for k
      using ml by (simp_all add: q1_def)
    have ne: "\<forall>k \<in> set ms. k \<noteq> m" using Cons.prems(3) by auto
    have pre: "set ms \<subseteq> machine_refs q1" "distinct ms" "r < length (jq_job_store q1)"
      "\<forall>k \<in> set ms. \<forall>s \<in> set (m_queue (the_machine q1 k)). s < r"
      using Cons.prems(2-5) ne by (simp_all add: line(1)) (simp_all add: q1_def)
    note IH = Cons.IH[OF ok pre run]
    have "m \<notin> set ms" using Cons.prems(3) by simp
    then have m': "m_queue (the_machine q' m) = m_queue (the_machine q m) @ [r]" using IH line(1) by metis
    have "\<forall>k. m_queue (the_machine q' k) = m_queue (the_machine q k) \<or>
      k \<in> set (m # ms) \<and> alloc_possible (j_args j) (j_kwargs j) (m_allocator (the_machine q k)) = Inr True \<and>
      m_queue (the_machine q' k) = m_queue (the_machine q k) @ [r]"
    proof
      fix k
      have "m_queue (the_machine q' k) = m_queue (the_machine q1 k) \<or>
        k \<in> set ms \<and> alloc_possible (j_args j) (j_kwargs j) (m_allocator (the_machine q1 k)) = Inr True \<and>
        m_queue (the_machine q' k) = m_queue (the_machine q1 k) @ [r]" using IH by blast
      then show "m_queue (the_machine q' k) = m_queue (the_machine q k) \<or>
        k \<in> set (m # ms) \<and> alloc_possible (j_args j) (j_kwargs j) (m_allocator (the_machine q k)) = Inr True \<and>
        m_queue (the_machine q' k) = m_queue (the_machine q k) @ [r]"
        using yes m' unfolding line by (cases "k = m") simp_all
    qed
    moreover have "out \<noteq> Inr False" using IH by simp
    moreover have "same_but_lines q q'" using IH sm same_but_lines_trans by blast
    ultimately show ?thesis using IH m' by simp
  qed
qed

text \<open>Where the pending jobs of a later state come from.\<close>

definition onward :: "job_queue \<Rightarrow> job_queue \<Rightarrow> bool" where
  "onward q q' \<longleftrightarrow>
     jq_machines q' = jq_machines q \<and> jq_postpone q' = jq_postpone q \<and>
     length (jq_job_store q') = length (jq_job_store q) \<and>
     (\<forall>s. j_pending (the_job q' s) \<longrightarrow> the_job q' s = the_job q s \<and> (waits q s \<longrightarrow> waits q' s)) \<and>
     (\<exists>evs. jq_events q' = jq_events q @ evs)"

lemma onward_refl [simp]: "onward q q"
  by (simp add: onward_def)

lemma onward_trans:
  assumes "onward q q1" "onward q1 q2" shows "onward q q2"
proof -
  have "\<forall>s. j_pending (the_job q2 s) \<longrightarrow> the_job q2 s = the_job q s \<and> (waits q s \<longrightarrow> waits q2 s)"
    using assms unfolding onward_def by metis
  moreover have "\<exists>evs. jq_events q2 = jq_events q @ evs" using assms unfolding onward_def by auto
  ultimately show ?thesis using assms unfolding onward_def by simp
qed

lemma advanced_onward:
  assumes "advanced q q'" shows "onward q q' \<and> (\<forall>n. older q n \<longrightarrow> older q' n)"
proof -
  have "frame_kept q q'" "\<exists>evs. jq_events q' = jq_events q @ evs"
    using assms by (auto simp: advanced_def starts_reported_def)
  then have "onward q q'"
    using advanced_waits[OF assms] unfolding onward_def frame_kept_def by blast
  moreover have "older q' n" if "older q n" for n
    using that advanced_line[OF assms] advanced_refs[OF assms] unfolding older_def by blast
  ultimately show ?thesis by blast
qed

lemma destroy_job_onward:
  assumes w: "fair_world w" and q: "state_ok b q" and run: "destroy_job w i reason q = (out, q')"
  shows "onward q q' \<and> (\<forall>n. older q n \<longrightarrow> older q' n) \<and>
    (\<forall>r. od_get (jq_jobs q) i = Some r \<longrightarrow> \<not> j_pending (the_job q' r))"
proof (cases "od_get (jq_jobs q) i")
  case None
  with run show ?thesis by (simp add: destroy_job_def)
next
  case (Some r)
  show ?thesis
  proof (cases "j_pending (the_job q r)")
    case True
    define q1 where "q1 = (callback (On_cancel (j_id (the_job q r)) reason)
      (set_job r ((the_job q r)\<lparr>j_pending := False\<rparr>) q))\<lparr>jq_jobs := od_del i (jq_jobs q)\<rparr>"
    have run1: "process_queue w q1 = (out, q')" using run Some True by (simp add: destroy_job_def Let_def q1_def)
    have ok: "state_ok b q1" unfolding q1_def by (rule cancel_state_ok[OF q Some True])
    have rl: "r < length (jq_job_store q)"
      using q map_of_SomeD[OF Some] by (simp add: state_ok_def queue_ok_def jobs_ok_def)
    have J: "the_job q1 s = (if s = r then (the_job q r)\<lparr>j_pending := False\<rparr> else the_job q s)" for s
      using rl by (simp add: q1_def)
    have W: "waits q1 = waits q" "older q1 = older q" by (simp_all add: fun_eq_iff waits_def older_def q1_def)
    have "onward q q1" unfolding onward_def W J by (simp add: q1_def)
    moreover have p: "advanced q1 q'" using process_queue_ok[OF w ok run1] by blast
    moreover have "\<not> j_pending (the_job q' r)"
      using advanced_waits(1)[OF p, of r] by (auto simp: J)
    ultimately show ?thesis using Some advanced_onward[OF p] onward_trans unfolding W by (metis option.inject)
  next
    case False
    define q1 where "q1 = callback (On_free (j_id (the_job q r)) reason) q"
    have run1: "process_queue w q1 = (out, q')" using run Some False by (simp add: destroy_job_def Let_def q1_def)
    have ok: "state_ok b q1" unfolding q1_def by (rule state_ok_callback[OF q])
    have W: "waits q1 = waits q" "older q1 = older q" "the_job q1 = the_job q"
      by (simp_all add: fun_eq_iff waits_def older_def q1_def)
    have "onward q q1" unfolding onward_def W by (simp add: q1_def)
    moreover have p: "advanced q1 q'" using process_queue_ok[OF w ok run1] by blast
    moreover have "\<not> j_pending (the_job q' r)"
      using advanced_waits(1)[OF p, of r] False by (auto simp: W)
    ultimately show ?thesis using Some advanced_onward[OF p] onward_trans unfolding W by (metis option.inject)
  qed
qed

lemma possible_askable: "alloc_possible (j_args j) (j_kwargs j) a = Inr b \<Longrightarrow> askable j"
  by (auto simp: alloc_possible_def askable_def split: sum.splits)

lemma candidate_facts:
  assumes "queue_ok q"
  shows "set (candidate_machines q j) \<subseteq> machine_refs q" "distinct (candidate_machines q j)"
    "m \<in> set (candidate_machines q j) \<longleftrightarrow> m \<in> machine_refs q \<and> suits j (the_machine q m)"
proof -
  have m: "distinct (od_keys (jq_machines q))" "distinct (map snd (jq_machines q))"
    "\<And>n m. (n, m) \<in> set (jq_machines q) \<Longrightarrow> m_name (the_machine q m) = n"
    using assms unfolding queue_ok_def machines_ok_def by blast+
  show iff: "m \<in> set (candidate_machines q j) \<longleftrightarrow> m \<in> machine_refs q \<and> suits j (the_machine q m)" for m
  proof (cases "j_machine_name j")
    case None
    then show ?thesis by (auto simp: candidate_machines_def suits_def)
  next
    case (Some n)
    then have "m \<in> set (candidate_machines q j) \<longleftrightarrow> od_get (jq_machines q) n = Some m"
      by (auto simp: candidate_machines_def split: option.splits)
    also have "\<dots> \<longleftrightarrow> (n, m) \<in> set (jq_machines q)" using m(1) by simp
    also have "\<dots> \<longleftrightarrow> m \<in> machine_refs q \<and> m_name (the_machine q m) = n" using m(3) by force
    finally show ?thesis using Some by (simp add: suits_def)
  qed
  then show "set (candidate_machines q j) \<subseteq> machine_refs q" by blast
  show "distinct (candidate_machines q j)"
    using m(2) by (simp add: candidate_machines_def split: option.split)
qed

lemma queue_on_ok:
  assumes q: "state_ok b q" and p: "j_pending (the_job q r)" and old: "older q r" and p0: "jq_postpone q = 0"
  defines "j \<equiv> the_job q r"
  assumes on: "queue_on r j (candidate_machines q j) False q = (o1, q1)"
  shows "state_ok False q1 \<and> onward q q1 \<and> older q1 (Suc r) \<and> same_but_lines q q1 \<and>
    (o1 = Inr True \<longrightarrow> waits q1 r) \<and> (o1 = Inr False \<longrightarrow> q1 = q)"
proof -
  have qo: "queue_ok q" using q by (rule state_ok_queue)
  have jo: "jobs_ok q" using qo by (simp add: queue_ok_def)
  have rr: "r \<in> job_refs q" using jo p unfolding jobs_ok_def by blast
  note rf = job_ref_facts[OF jo rr]
  note cand = candidate_facts[OF qo, where j = j]
  have "\<forall>m \<in> set (candidate_machines q j). \<forall>s \<in> set (m_queue (the_machine q m)). s < r"
    using old cand(1) unfolding older_def by blast
  note s = queue_on_step[OF qo cand(1,2) rf(1) this on]
  have sm: "same_but_lines q q1" using s by blast
  note J = same_but_lines_job[OF sm]
  have f: "jq_machines q1 = jq_machines q" "jq_postpone q1 = jq_postpone q" "jq_jobs q1 = jq_jobs q"
    "jq_job_store q1 = jq_job_store q" "length (jq_machine_store q1) = length (jq_machine_store q)"
    "m_name (the_machine q1 m) = m_name (the_machine q m)" "m_tags (the_machine q1 m) = m_tags (the_machine q m)" for m
    using sm by (simp_all add: same_but_lines_def)
  have line: "m_queue (the_machine q1 m) = m_queue (the_machine q m) \<or>
      m \<in> set (candidate_machines q j) \<and> m_queue (the_machine q1 m) = m_queue (the_machine q m) @ [r]" for m
    using s by blast
  have suit: "lines_suit q1"
    unfolding lines_suit_def f J
  proof (intro ballI impI)
    fix m s assume ms: "m \<in> machine_refs q" "s \<in> set (m_queue (the_machine q1 m))" "j_pending (the_job q s)"
    have "suits (the_job q s) (the_machine q m) \<and> askable (the_job q s)"
    proof (cases "s \<in> set (m_queue (the_machine q m))")
      case True
      then show ?thesis using q ms p0 unfolding state_ok_def lines_suit_def by blast
    next
      case False
      then have "m \<in> set (candidate_machines q j)" "s = r" using line[of m] ms(2) by auto
      moreover have "alloc_possible (j_args j) (j_kwargs j) (m_allocator (the_machine q m)) = Inr True"
        using s False ms(2) by metis
      ultimately show ?thesis using cand(3) possible_askable by (simp add: j_def)
    qed
    moreover have "same_request (the_job q s) (the_job q s)" by (simp add: same_request_def)
    ultimately show "suits (the_job q s) (the_machine q1 m) \<and> askable (the_job q s)"
      using suits_cong f(6,7) by blast
  qed
  have ok1: "state_ok False q1"
    using q s suit unfolding state_ok_def named_ok_def machines_valid_def f J by simp
  have on1: "onward q q1"
  proof -
    have "waits q1 k" if "waits q k" for k
      using that line unfolding waits_def f by (metis UnCI set_append)
    moreover have "jq_events q1 = jq_events q" using sm by (simp add: same_but_lines_def)
    ultimately show ?thesis unfolding onward_def f J by simp
  qed
  have old1: "older q1 (Suc r)"
    unfolding older_def f
  proof (intro ballI)
    fix m s assume "m \<in> machine_refs q" "s \<in> set (m_queue (the_machine q1 m))"
    with line[of m] old show "s < Suc r" unfolding older_def by (auto simp: less_Suc_eq)
  qed
  have "waits q1 r" if "o1 = Inr True" using s that cand(1) unfolding waits_def f by blast
  moreover have "q1 = q" if "o1 = Inr False" using s that by simp
  ultimately show ?thesis using ok1 on1 old1 sm by blast
qed

lemma enqueue_job_step:
  assumes w: "fair_world w" and q: "state_ok b q" and p: "j_pending (the_job q r)" and old: "older q r"
    and run: "enqueue_job w r q = (out, q')"
  shows "state_ok False q' \<and> onward q q' \<and> older q' (Suc r) \<and>
    (jq_postpone q = 0 \<longrightarrow> out = Inr () \<longrightarrow> j_pending (the_job q' r) \<longrightarrow> waits q' r)"
proof (cases "jq_postpone q = 0")
  case False
  have "older q (Suc r)" using old unfolding older_def by (meson less_SucI)
  with False run q state_ok_weaken[OF q, of False] show ?thesis by (simp add: enqueue_job_def)
next
  case True
  have jo: "jobs_ok q" using q by (simp add: state_ok_def queue_ok_def)
  have rr: "r \<in> job_refs q" using jo p unfolding jobs_ok_def by blast
  note rf = job_ref_facts[OF jo rr]
  define j where "j = the_job q r"
  obtain o1 q1 where on: "queue_on r j (candidate_machines q j) False q = (o1, q1)" by fastforce
  note s = queue_on_ok[OF q p old True on[unfolded j_def]]
  have ok1: "state_ok False q1" and on1: "onward q q1" and old1: "older q1 (Suc r)" using s by blast+
  have eq: "enqueue_job w r q = and_then (queue_on r j (candidate_machines q j) False)
      (\<lambda>found. and_then (if found then return ()
         else destroy_job w (j_id j) (Some ''No suitable machines available.'')) (\<lambda>_. process_queue w)) q"
    unfolding enqueue_job_def Let_def j_def using True by simp
  consider (err) e where "o1 = Inl e" | (none) "o1 = Inr False" | (found) "o1 = Inr True"
    by (metis (full_types) old.sum.exhaust)
  then show ?thesis
  proof cases
    case err
    with run have "out = Inl e" "q' = q1" by (simp_all add: eq and_then_def on)
    with ok1 on1 old1 show ?thesis by simp
  next
    case found
    with run have run1: "process_queue w q1 = (out, q')" by (simp add: eq and_then_def on return_def)
    note pr = process_queue_ok[OF w ok1 run1]
    have "waits q1 r" using s found by blast
    then have "waits q' r" if "j_pending (the_job q' r)" using advanced_waits(2)[OF _ that] pr by blast
    moreover have "onward q q'" "older q' (Suc r)"
      using pr advanced_onward[of q1 q'] onward_trans[OF on1, of q'] old1 by blast+
    ultimately show ?thesis using pr by blast
  next
    case none
    then have q1: "q1 = q" using s by simp
    obtain o2 q2 where d: "destroy_job w (j_id j) (Some ''No suitable machines available.'') q = (o2, q2)" by fastforce
    note dj = destroy_job_ok[OF w q d] destroy_job_onward[OF w q d]
    have "od_get (jq_jobs q) (j_id j) = Some r"
      using rf(2) jo unfolding jobs_ok_def j_def by (metis map_of_is_SomeI)
    with conjunct2[OF conjunct2[OF dj(2)]] have gone: "\<not> j_pending (the_job q2 r)" by metis
    from conjunct1[OF conjunct2[OF dj(2)]] old1 have old2: "older q2 (Suc r)" unfolding q1 by metis
    show ?thesis
    proof (cases o2)
      case (Inl e)
      with run none d have "out = Inl e" "q' = q2" by (simp_all add: eq and_then_def on q1)
      with dj gone old2 state_ok_weaken[OF dj(1), of False] show ?thesis by simp
    next
      case (Inr u)
      with run none d have run2: "process_queue w q2 = (out, q')" by (simp add: eq and_then_def on q1)
      note pr = process_queue_ok[OF w dj(1) run2]
      have "\<not> j_pending (the_job q' r)" using advanced_waits(1)[OF conjunct2[OF pr], of r] gone by blast
      moreover have "state_ok False q'" using pr state_ok_weaken[of b q' False] by blast
      moreover have adv: "onward q2 q'" "older q2 (Suc r) \<longrightarrow> older q' (Suc r)"
        using advanced_onward[OF conjunct2[OF pr]] by simp_all
      moreover have "onward q q'" using onward_trans[OF conjunct1[OF dj(2)] adv(1)] .
      moreover have "older q' (Suc r)" using adv(2) old2 by simp
      ultimately show ?thesis by blast
    qed
  qed
qed

section \<open>Regenerating the queues\<close>

lemma clear_queues_fold:
  "queue_ok q \<Longrightarrow> set ms \<subseteq> machine_refs q \<Longrightarrow>
   q' = fold (\<lambda>m q. set_machine m ((the_machine q m)\<lparr>m_queue := []\<rparr>) q) ms q \<Longrightarrow>
   queue_ok q' \<and> same_but_lines q q' \<and>
   (\<forall>m. m_queue (the_machine q' m) = (if m \<in> set ms then [] else m_queue (the_machine q m)))"
proof (induction ms arbitrary: q)
  case (Cons m ms)
  define q1 where "q1 = set_machine m ((the_machine q m)\<lparr>m_queue := []\<rparr>) q"
  have ml: "m < length (jq_machine_store q)" using machine_ref_length[OF Cons.prems(1)] Cons.prems(2) by simp
  have ok: "queue_ok q1" unfolding q1_def by (rule queue_ok_line[OF Cons.prems(1) ml]) simp_all
  have line: "m_queue (the_machine q1 k) = (if k = m then [] else m_queue (the_machine q k))" for k
    using ml by (simp add: q1_def)
  have sm: "same_but_lines q q1" by (simp add: q1_def)
  have sub: "set ms \<subseteq> machine_refs q1" using Cons.prems(2) by (simp add: q1_def)
  have "q' = fold (\<lambda>m q. set_machine m ((the_machine q m)\<lparr>m_queue := []\<rparr>) q) ms q1"
    using Cons.prems(3) by (simp add: q1_def)
  from Cons.IH[OF ok sub this] show ?case
    using same_but_lines_trans[OF sm] by (simp add: line)
qed simp

lemma clear_queues_ok:
  assumes "queue_ok q"
  shows "queue_ok (clear_queues q) \<and> same_but_lines q (clear_queues q) \<and>
    (\<forall>m \<in> machine_refs q. m_queue (the_machine (clear_queues q) m) = [])"
proof -
  have "set (map snd (jq_machines q)) \<subseteq> machine_refs q" by simp
  from clear_queues_fold[OF assms this refl] show ?thesis by (simp add: clear_queues_def)
qed

lemma clear_state_ok:
  assumes "queue_ok q" "0 \<le> jq_postpone q" "named_ok q" "machines_valid q"
  shows "state_ok False (clear_queues q)" "older (clear_queues q) n"
proof -
  note c = clear_queues_ok[OF assms(1)]
  then have sm: "same_but_lines q (clear_queues q)" by blast
  note J = same_but_lines_job[OF sm]
  have f: "jq_machines (clear_queues q) = jq_machines q" "jq_postpone (clear_queues q) = jq_postpone q"
    "length (jq_machine_store (clear_queues q)) = length (jq_machine_store q)"
    "m_name (the_machine (clear_queues q) m) = m_name (the_machine q m)" for m
    using sm by (simp_all add: same_but_lines_def)
  have "lines_suit (clear_queues q)" unfolding lines_suit_def f using c by simp
  then show "state_ok False (clear_queues q)"
    using assms c unfolding state_ok_def named_ok_def machines_valid_def f J by simp
  show "older (clear_queues q) n" unfolding older_def f using c by simp
qed

text \<open>One round over the jobs, in the order of the dictionary.\<close>

lemma requeue_step:
  assumes w: "fair_world w"
  shows "state_ok False q \<Longrightarrow> jq_postpone q = 0 \<Longrightarrow> sorted_wrt (<) rs \<Longrightarrow> \<forall>r \<in> set rs. older q r \<Longrightarrow>
    requeue w n rs q = (out, q') \<Longrightarrow>
    state_ok False q' \<and> onward q q' \<and>
    (out = Inr () \<longrightarrow> (\<forall>r \<in> set rs. j_pending (the_job q' r) \<longrightarrow> waits q' r))"
proof (induction rs arbitrary: q)
  case Nil
  then show ?case by simp
next
  case (Cons r rs)
  show ?case
  proof (cases "length (jq_jobs q) = n")
    case False
    with Cons.prems show ?thesis by auto
  next
    case n: True
    show ?thesis
    proof (cases "j_pending (the_job q r)")
      case False
      then have run: "requeue w n rs q = (out, q')" using n Cons.prems(5) by simp
      have "sorted_wrt (<) rs" "\<forall>r \<in> set rs. older q r" using Cons.prems(3,4) by simp_all
      note IH = Cons.IH[OF Cons.prems(1,2) this run]
      then have "j_pending (the_job q' r) \<Longrightarrow> the_job q' r = the_job q r" unfolding onward_def by blast
      with False IH show ?thesis by auto
    next
      case True
      obtain o1 q1 where en: "enqueue_job w r q = (o1, q1)" by fastforce
      have old: "older q r" using Cons.prems(4) by simp
      note s = enqueue_job_step[OF w Cons.prems(1) True old en]
      show ?thesis
      proof (cases o1)
        case (Inl e)
        with n True en Cons.prems(5) have "out = Inl e" "q' = q1" by (simp_all add: and_then_def)
        with s show ?thesis by simp
      next
        case (Inr u)
        with n True en Cons.prems(5) have run: "requeue w n rs q1 = (out, q')" by (simp add: and_then_def)
        have p: "jq_postpone q1 = 0" using s Cons.prems(2) by (simp add: onward_def)
        have "older q1 k" if "k \<in> set rs" for k
        proof -
          have "r < k" using that Cons.prems(3) by simp
          moreover have "older q1 (Suc r)" using s by blast
          ultimately show ?thesis unfolding older_def by fastforce
        qed
        then have "\<forall>k \<in> set rs. older q1 k" by blast
        moreover have "sorted_wrt (<) rs" using Cons.prems(3) by simp
        ultimately have IH: "state_ok False q' \<and> onward q1 q' \<and>
          (out = Inr () \<longrightarrow> (\<forall>r \<in> set rs. j_pending (the_job q' r) \<longrightarrow> waits q' r))"
          using Cons.IH[OF conjunct1[OF s] p _ _ run] by blast
        have on: "onward q1 q'" using IH by blast
        have "waits q' r" if "j_pending (the_job q' r)"
        proof -
          have "the_job q' r = the_job q1 r" using on that unfolding onward_def by blast
          then have "waits q1 r" using s Inr that Cons.prems(2) by simp
          then show ?thesis using on that unfolding onward_def by blast
        qed
        moreover have "onward q q'" using onward_trans[OF _ on] s by blast
        ultimately show ?thesis using IH by simp
      qed
    qed
  qed
qed

lemma regenerate_ok:
  assumes w: "fair_world w" and q: "queue_ok q" "0 \<le> jq_postpone q" "named_ok q" "machines_valid q"
    and run: "regenerate_queues w q = (out, q')"
  shows "state_ok (out = Inr ()) q' \<and> jq_machines q' = jq_machines q \<and> jq_postpone q' = jq_postpone q \<and>
    (\<exists>evs. jq_events q' = jq_events q @ evs)"
proof (cases "jq_postpone q = 0")
  case False
  with run q show ?thesis by (simp add: regenerate_queues_def state_ok_def)
next
  case True
  define q1 where "q1 = clear_queues q"
  have run1: "requeue w (length (jq_jobs q)) (map snd (jq_jobs q)) q1 = (out, q')"
    using run True by (simp add: regenerate_queues_def q1_def)
  have sm: "same_but_lines q q1" using clear_queues_ok[OF q(1)] by (simp add: q1_def)
  have p: "jq_postpone q1 = 0" using sm True by (simp add: same_but_lines_def)
  have old: "\<forall>r \<in> set (map snd (jq_jobs q)). older q1 r"
    using clear_state_ok(2)[OF q] by (simp add: q1_def)
  have sorted: "sorted_wrt (<) (map snd (jq_jobs q))" using q(1) by (simp add: queue_ok_def jobs_ok_def)
  have s: "state_ok False q' \<and> onward q1 q' \<and>
    (out = Inr () \<longrightarrow> (\<forall>r \<in> set (map snd (jq_jobs q)). j_pending (the_job q' r) \<longrightarrow> waits q' r))"
    using requeue_step[OF w clear_state_ok(1)[OF q, folded q1_def] p sorted old run1] .
  have "waiting_ok q'" if "out = Inr ()"
    unfolding waiting_ok_def
  proof (intro allI impI)
    fix r assume r: "j_pending (the_job q' r)"
    then have "the_job q' r = the_job q1 r" using s unfolding onward_def by blast
    then have "j_pending (the_job q r)" using r same_but_lines_job[OF sm] by simp
    then have "r \<in> job_refs q" using q(1) unfolding queue_ok_def jobs_ok_def by blast
    with s that r show "waits q' r" by auto
  qed
  moreover have "jq_machines q' = jq_machines q" "jq_postpone q' = jq_postpone q"
    "\<exists>evs. jq_events q' = jq_events q @ evs"
    using s sm by (simp_all add: onward_def same_but_lines_def)
  ultimately show ?thesis using s unfolding state_ok_def by blast
qed

section \<open>Creating jobs\<close>

text \<open>The guards of \<open>create_job\<close>.\<close>

definition create_refused :: "int option \<Rightarrow> string option \<Rightarrow> string set option \<Rightarrow> job_queue \<Rightarrow> py_error option" where
  "create_refused job_id machine_name tags q =
     (case job_id of
        None \<Rightarrow> Some TypeError
      | Some i \<Rightarrow> if i \<in> fst ` set (jq_jobs q) then Some ValueError
                 else if machine_name \<noteq> None \<and> tags \<noteq> None then Some TypeError else None)"

definition created_job ::
    "int \<Rightarrow> string option \<Rightarrow> string set option \<Rightarrow> alloc_args \<Rightarrow> alloc_kwargs \<Rightarrow> job" where
  "created_job i machine_name tags args kwargs =
     \<lparr> j_id = i, j_pending = True, j_machine_name = machine_name,
       j_tags = (case machine_name of Some _ \<Rightarrow> {} | None \<Rightarrow> (case tags of Some t \<Rightarrow> t | None \<Rightarrow> {''default''})),
       j_args = args, j_kwargs = kwargs, j_machine = None, j_allocation_id = None \<rparr>"

definition with_job :: "job \<Rightarrow> job_queue \<Rightarrow> job_queue" where
  "with_job j q = q\<lparr> jq_job_store := jq_job_store q @ [j], jq_jobs := od_set (j_id j) (length (jq_job_store q)) (jq_jobs q) \<rparr>"

lemma create_job_alt:
  "create_job w job_id machine_name tags args kwargs q =
     (case create_refused job_id machine_name tags q of
        Some e \<Rightarrow> (Inl e, q)
      | None \<Rightarrow> enqueue_job w (length (jq_job_store q))
                  (with_job (created_job (the job_id) machine_name tags args kwargs) q))"
  by (auto simp: create_job_def create_refused_def with_job_def created_job_def Let_def split: option.split)

lemma od_set_fresh: "i \<notin> fst ` set d \<Longrightarrow> od_set i v d = d @ [(i, v)]"
  by (induction d) auto

lemma with_job_ok:
  fixes machine_name tags
  assumes q: "state_ok b q" and i: "i \<notin> fst ` set (jq_jobs q)" and rq: "request_ok args kwargs"
  defines "q' \<equiv> with_job (created_job i machine_name tags args kwargs) q" and "r \<equiv> length (jq_job_store q)"
  shows "state_ok False q'" "older q' r" "j_pending (the_job q' r)"
    "the_job q' = (the_job q)(r := created_job i machine_name tags args kwargs)"
    "waits q' = waits q" "od_get (jq_jobs q') i = Some r"
proof -
  have jo: "jobs_ok q" using q by (simp add: state_ok_def queue_ok_def)
  have r: "the_job q r = no_job" by (simp add: the_job_def r_def)
  show J: "the_job q' = (the_job q)(r := created_job i machine_name tags args kwargs)"
    by (rule ext) (simp add: q'_def with_job_def the_job_def r_def nth_append)
  have d: "jq_jobs q' = jq_jobs q @ [(i, r)]"
    using od_set_fresh[OF i] by (simp add: q'_def with_job_def r_def created_job_def)
  have f: "jq_machines q' = jq_machines q" "jq_postpone q' = jq_postpone q" "jq_events q' = jq_events q"
    "jq_machine_store q' = jq_machine_store q" "the_machine q' = the_machine q" "allocators q' = allocators q"
    "length (jq_job_store q') = Suc r"
    by (simp_all add: q'_def with_job_def r_def the_machine_def allocators_def fun_eq_iff)
  have refs: "job_refs q' = insert r (job_refs q)" by (simp add: d)
  have lt: "s < r" if "s \<in> job_refs q" for s using job_ref_facts(1)[OF jo that] by (simp add: r_def)
  have new: "j_pending (created_job i machine_name tags args kwargs)"
    "j_machine (created_job i machine_name tags args kwargs) = None"
    "j_id (created_job i machine_name tags args kwargs) = i"
    "j_args (created_job i machine_name tags args kwargs) = args"
    "j_kwargs (created_job i machine_name tags args kwargs) = kwargs"
    by (simp_all add: created_job_def)
  show "j_pending (the_job q' r)" using new by (simp add: J)
  show "waits q' = waits q" by (simp add: waits_def fun_eq_iff f)
  have "map_of (jq_jobs q) i = None" using i by (simp add: od_get_None_iff)
  then show "od_get (jq_jobs q') i = Some r" by (simp add: d map_add_def)
  have jobs: "jobs_ok q'"
  proof -
    have "distinct (od_keys (jq_jobs q'))" using jo i by (simp add: d jobs_ok_def)
    moreover have "sorted_wrt (<) (map snd (jq_jobs q'))"
      using jo lt by (simp add: d jobs_ok_def sorted_wrt_append)
    moreover have "k < Suc r \<and> j_id (the_job q' k) = l" if "(l, k) \<in> set (jq_jobs q')" for k l
    proof (cases "(l, k) \<in> set (jq_jobs q)")
      case True
      with jo have "k < r" "j_id (the_job q k) = l" unfolding jobs_ok_def r_def by blast+
      then show ?thesis by (simp add: J)
    next
      case False
      with that have "l = i" "k = r" by (simp_all add: d)
      then show ?thesis by (simp add: J new)
    qed
    moreover have "k \<in> job_refs q' \<and> j_machine (the_job q' k) = None \<and>
        request_ok (j_args (the_job q' k)) (j_kwargs (the_job q' k))" if "j_pending (the_job q' k)" for k
    proof (cases "k = r")
      case True
      then show ?thesis using rq by (simp add: J new refs)
    next
      case False
      with that jo show ?thesis unfolding jobs_ok_def J refs by simp
    qed
    ultimately show ?thesis unfolding jobs_ok_def f by blast
  qed
  have machines: "machines_ok q'" using q unfolding state_ok_def queue_ok_def machines_ok_def f by blast
  have len: "r = length (jq_job_store q)" by (simp add: r_def)
  have lines: "lines_ok q'"
    using q less_SucI unfolding state_ok_def queue_ok_def lines_ok_def f len by metis
  have runs: "runs q' s = runs q s" if "s \<noteq> r" for s using that by (simp add: runs_def f J)
  have running: "running_ok q'"
    unfolding running_ok_def refs
  proof (intro ballI impI)
    fix s assume s: "s \<in> insert r (job_refs q)" "\<not> j_pending (the_job q' s)"
    then have "s \<noteq> r" using new by (auto simp: J)
    with s have "s \<in> job_refs q" "\<not> j_pending (the_job q s)" by (simp_all add: J)
    then have "runs q s" using q unfolding state_ok_def queue_ok_def running_ok_def by blast
    with runs \<open>s \<noteq> r\<close> show "runs q' s" by simp
  qed
  have tn: "tenancies q' = tenancies q"
  proof
    fix s show "tenancies q' s = tenancies q s"
      unfolding tenancies_def refs f J Let_def using new r by (simp add: no_job_def)
  qed
  have "ledger (allocators q') (tenancies q')" using q unfolding tn f state_ok_def queue_ok_def by blast
  with jobs machines lines running have qo: "queue_ok q'" unfolding queue_ok_def by blast
  have "s \<noteq> r" if "m \<in> machine_refs q" "s \<in> set (m_queue (the_machine q m))" for m s
  proof -
    have "m < length (jq_machine_store q)" using machine_ref_length that(1) q state_ok_queue by blast
    with that(2) q have "s < r" unfolding state_ok_def queue_ok_def lines_ok_def r_def by blast
    then show ?thesis by simp
  qed
  then have "lines_suit q'" if "lines_suit q"
    using that unfolding lines_suit_def f J by simp
  moreover have "named_ok q'" using q new unfolding state_ok_def named_ok_def f J by simp
  moreover have "machines_valid q'" using q new unfolding state_ok_def machines_valid_def f J by simp
  ultimately show "state_ok False q'" using q qo unfolding state_ok_def f by blast
  show "older q' r"
    unfolding older_def f
  proof (intro ballI)
    fix m s assume "m \<in> machine_refs q" "s \<in> set (m_queue (the_machine q m))"
    moreover from this have "m < length (jq_machine_store q)" using machine_ref_length q state_ok_queue by blast
    ultimately show "s < r" using q unfolding state_ok_def queue_ok_def lines_ok_def r_def by blast
  qed
qed

lemma create_job_ok:
  assumes w: "fair_world w" and q: "state_ok b q" and rq: "request_ok args kwargs"
    and run: "create_job w job_id machine_name tags args kwargs q = (out, q')"
  shows "state_ok (b \<and> (out = Inr () \<or> q' = q)) q'"
proof (cases "create_refused job_id machine_name tags q")
  case (Some e)
  with run q show ?thesis by (simp add: create_job_alt)
next
  case None
  then obtain i where i: "job_id = Some i" "i \<notin> fst ` set (jq_jobs q)"
    by (auto simp: create_refused_def split: option.splits if_splits)
  define r where "r = length (jq_job_store q)"
  define q1 where "q1 = with_job (created_job i machine_name tags args kwargs) q"
  have run1: "enqueue_job w r q1 = (out, q')" using run None i by (simp add: create_job_alt q1_def r_def)
  note n = with_job_ok[OF q i(2) rq, of machine_name tags, folded q1_def r_def]
  note s = enqueue_job_step[OF w n(1,3,2) run1]
  have len: "length (jq_job_store q') = Suc r" using s by (simp add: onward_def q1_def with_job_def r_def)
  then have ne: "q' \<noteq> q" by (auto simp: r_def)
  have post: "jq_postpone q' = jq_postpone q" "jq_postpone q1 = jq_postpone q"
    using s by (simp_all add: onward_def q1_def with_job_def)
  have "waiting_ok q'" if "b" "out = Inr ()" "jq_postpone q = 0"
    unfolding waiting_ok_def
  proof (intro allI impI)
    fix k assume k: "j_pending (the_job q' k)"
    show "waits q' k"
    proof (cases "k = r")
      case True
      with s k that post show ?thesis by simp
    next
      case False
      have "the_job q' k = the_job q1 k" "waits q1 k \<longrightarrow> waits q' k" using s k unfolding onward_def by blast+
      moreover have "waits q k" if "j_pending (the_job q k)"
        using that q \<open>b\<close> \<open>jq_postpone q = 0\<close> unfolding state_ok_def waiting_ok_def by blast
      ultimately show ?thesis using k False by (simp add: n(4,5))
    qed
  qed
  with s ne post show ?thesis unfolding state_ok_def by simp
qed

end
