(* ===== verification/JobQueueMachines.thy ===== *)
theory JobQueueMachines
  imports JobQueueJobs
begin

text \<open>
  The operations on machines keep the invariant of the job queue: adding, reordering, changing
  and removing machines, the context manager, and the check for boards that became free.
\<close>

section \<open>Changing the machines\<close>

lemma state_ok_postponed: "state_ok b q \<Longrightarrow> jq_postpone q \<noteq> 0 \<Longrightarrow> state_ok c q"
  by (simp add: state_ok_def)

lemma state_okD:
  assumes "state_ok b q"
  shows "queue_ok q" "0 \<le> jq_postpone q" "named_ok q" "machines_valid q"
  using assms by (simp_all add: state_ok_def)

lemma enter_ok: "state_ok b q \<Longrightarrow> state_ok c (enter q) \<and> jq_postpone (enter q) \<noteq> 0"
  by (simp add: state_ok_def enter_def named_ok_def machines_valid_def)

lemma leave_ok:
  assumes "fair_world w" "state_ok b q" "0 < jq_postpone q" "leave w q = (out, q')"
  shows "state_ok (out = Inr ()) q' \<and> jq_machines q' = jq_machines q \<and> jq_postpone q' = jq_postpone q - 1 \<and>
    (\<exists>evs. jq_events q' = jq_events q @ evs)"
  using regenerate_ok[OF assms(1), of "q\<lparr>jq_postpone := jq_postpone q - 1\<rparr>" out q'] state_okD[OF assms(2)] assms(3,4)
  by (simp add: leave_def named_ok_def machines_valid_def)

text \<open>Adding.\<close>

lemma add_machine_ok:
  assumes w: "fair_world w" and q: "state_ok b q" and size: "0 < width" "0 < height"
    and run: "add_machine w name width height tags dead_boards dead_links q = (out, q')"
  shows "state_ok (out = Inr () \<or> b \<and> q' = q) q'"
proof (cases "name \<in> fst ` set (jq_machines q)")
  case True
  with run q show ?thesis by (auto simp: add_machine_def)
next
  case False
  define a where "a = new_allocator width height dead_boards dead_links 1 (jq_seconds_before_free q)"
  define x where "x = \<lparr> m_name = name, m_tags = (case tags of Some t \<Rightarrow> t | None \<Rightarrow> {''default''}),
    m_allocator = a, m_queue = [] \<rparr>"
  define n where "n = length (jq_machine_store q)"
  define q1 where "q1 = q\<lparr> jq_machine_store := jq_machine_store q @ [x], jq_machines := od_set name n (jq_machines q) \<rparr>"
  have run1: "regenerate_queues w q1 = (out, q')"
    using run False by (simp add: add_machine_def Let_def q1_def x_def n_def a_def)
  note s = state_okD[OF q]
  have mo: "machines_ok q" "jobs_ok q" "lines_ok q" "running_ok q" "ledger (allocators q) (tenancies q)"
    using s(1) by (simp_all add: queue_ok_def)
  have lt: "m < n" if "m \<in> machine_refs q" for m using machine_ref_length[OF s(1) that] by (simp add: n_def)
  have d: "jq_machines q1 = jq_machines q @ [(name, n)]" using od_set_fresh[OF False] by (simp add: q1_def)
  have f: "jq_jobs q1 = jq_jobs q" "the_job q1 = the_job q" "jq_events q1 = jq_events q"
    "jq_postpone q1 = jq_postpone q" "jq_job_store q1 = jq_job_store q" "tenancies q1 = tenancies q"
    "length (jq_machine_store q1) = Suc n"
    by (simp_all add: q1_def n_def)
  have M: "the_machine q1 m = (if m = n then x else the_machine q m)" if "m < Suc n" for m
    using that by (simp add: q1_def the_machine_def n_def nth_append)
  have refs: "machine_refs q1 = insert n (machine_refs q)" by (simp add: d)
  have "distinct (od_keys (jq_machines q1))" using mo(1) False by (simp add: d machines_ok_def)
  moreover have "distinct (map snd (jq_machines q1))"
    using mo(1) lt by (auto simp: d machines_ok_def)
  moreover have "m < Suc n \<and> m_name (the_machine q1 m) = k" if "(k, m) \<in> set (jq_machines q1)" for k m
  proof (cases "(k, m) \<in> set (jq_machines q)")
    case True
    with mo(1) have "m < n" "m_name (the_machine q m) = k" unfolding machines_ok_def n_def by blast+
    then show ?thesis by (simp add: M)
  next
    case False
    with that have "k = name" "m = n" by (simp_all add: d)
    then show ?thesis by (simp add: M x_def)
  qed
  ultimately have machines: "machines_ok q1" unfolding machines_ok_def f by blast
  have "sorted_wrt (<) (m_queue (the_machine q1 m)) \<and> (\<forall>r \<in> set (m_queue (the_machine q1 m)). r < length (jq_job_store q))"
    if m: "m < Suc n" for m
  proof (cases "m = n")
    case False
    with m have "m < length (jq_machine_store q)" by (simp add: n_def)
    with mo(3) False m show ?thesis unfolding lines_ok_def by (simp add: M)
  qed (simp add: M x_def)
  then have lines: "lines_ok q1" unfolding lines_ok_def f by blast
  have running: "running_ok q1"
    unfolding running_ok_def f
  proof (intro ballI impI)
    fix r assume "r \<in> job_refs q" "\<not> j_pending (the_job q r)"
    with mo(4) obtain m i B where r: "j_machine (the_job q r) = Some m" "j_allocation_id (the_job q r) = Some i"
      "m \<in> machine_refs q" "grants (jq_events q) (j_id (the_job q r)) = Some (m_name (the_machine q m), B)"
      unfolding running_ok_def runs_def by blast
    then show "runs q1 r" using lt[OF r(3)] by (auto simp: runs_def f refs M)
  qed
  have "live_ids a = {}" by (auto simp: live_ids_def a_def live_def new_allocator_def)
  from ba.ledger_new[OF mo(5)[unfolded ledger_def] new_allocator_ok[OF size] this[unfolded a_def]]
  have "ledger (allocators q1) (tenancies q1)"
    unfolding f ledger_def by (simp add: allocators_def q1_def x_def a_def)
  with machines lines running mo(2) have "queue_ok q1" unfolding queue_ok_def jobs_ok_def f by blast
  moreover have "named_ok q1"
    unfolding named_ok_def f
  proof (intro allI impI)
    fix r m k assume r: "\<not> j_pending (the_job q r)" "j_machine (the_job q r) = Some m" "j_machine_name (the_job q r) = Some k"
    then have "m < n" using s(4) unfolding machines_valid_def n_def by blast
    then show "m_name (the_machine q1 m) = k" using r s(3) unfolding named_ok_def by (simp add: M)
  qed
  moreover have "machines_valid q1"
    using s(4) less_SucI unfolding machines_valid_def f n_def by blast
  moreover have "0 \<le> jq_postpone q1" using s(2) by (simp add: f)
  ultimately have "state_ok (out = Inr ()) q'" using regenerate_ok[OF w _ _ _ _ run1] by blast
  moreover have "q' \<noteq> q"
  proof -
    have "jq_machines q' = jq_machines q1"
      using regenerate_ok[OF w \<open>queue_ok q1\<close> \<open>0 \<le> jq_postpone q1\<close> \<open>named_ok q1\<close> \<open>machines_valid q1\<close> run1] by blast
    then show ?thesis using d by auto
  qed
  ultimately show ?thesis by simp
qed

text \<open>Moving to the end.\<close>

lemma move_to_end_set:
  assumes "distinct (od_keys d)" "od_get d k = Some v"
  shows "set (od_del k d @ [(k, v)]) = set d"
proof -
  have "(k, v) \<in> set d" using assms(2) by (rule map_of_SomeD)
  moreover have "(k, v') \<in> set d \<longleftrightarrow> v' = v" for v'
    using map_of_is_SomeI[OF assms(1)] map_of_SomeD[OF assms(2)] assms(2) by fastforce
  ultimately have "(l, u) \<in> set (od_del k d @ [(k, v)]) \<longleftrightarrow> (l, u) \<in> set d" for l u
    by (cases "l = k") (auto simp: od_del_def simp del: map_of_eq_Some_iff)
  then show ?thesis by (metis subsetI subset_antisym surj_pair)
qed

lemma state_ok_reorder:
  assumes q: "state_ok b q" and d: "set d = set (jq_machines q)" "distinct (od_keys d)" "distinct (map snd d)"
  shows "state_ok b (q\<lparr>jq_machines := d\<rparr>)"
proof -
  define q' where "q' = q\<lparr>jq_machines := d\<rparr>"
  have f: "set (jq_machines q') = set (jq_machines q)" "jq_jobs q' = jq_jobs q" "the_job q' = the_job q"
    "the_machine q' = the_machine q" "jq_postpone q' = jq_postpone q" "jq_job_store q' = jq_job_store q"
    "jq_machine_store q' = jq_machine_store q" "jq_events q' = jq_events q" "allocators q' = allocators q"
    "tenancies q' = tenancies q"
    by (simp_all add: q'_def d(1))
  have "machines_ok q'"
    using q d unfolding state_ok_def queue_ok_def machines_ok_def f by (simp add: q'_def)
  moreover have "jobs_ok q' = jobs_ok q" "lines_ok q' = lines_ok q" "running_ok q' = running_ok q"
    unfolding jobs_ok_def lines_ok_def running_ok_def runs_def f by (rule refl)+
  ultimately have "queue_ok q'" using q unfolding state_ok_def queue_ok_def f by simp
  moreover have "named_ok q' = named_ok q" "machines_valid q' = machines_valid q" "lines_suit q' = lines_suit q"
    "waiting_ok q' = waiting_ok q"
    unfolding named_ok_def machines_valid_def lines_suit_def waiting_ok_def waits_def f by (rule refl)+
  ultimately show ?thesis using q unfolding state_ok_def f q'_def[symmetric] by simp
qed

lemma move_machine_ok:
  assumes q: "state_ok b q" and run: "move_machine_to_end name q = (out, q')"
  shows "state_ok b q'"
proof (cases "od_get (jq_machines q) name")
  case None
  with run q show ?thesis by (simp add: move_machine_to_end_def od_move_to_end_def)
next
  case (Some m)
  define d where "d = od_del name (jq_machines q) @ [(name, m)]"
  have mo: "distinct (od_keys (jq_machines q))" "distinct (map snd (jq_machines q))"
    using q by (simp_all add: state_ok_def queue_ok_def machines_ok_def)
  have set: "set d = set (jq_machines q)" unfolding d_def by (rule move_to_end_set[OF mo(1) Some])
  have keys: "distinct (od_keys d)" using mo(1) by (simp add: d_def od_keys_del)
  have "distinct d" using keys by (simp add: distinct_map)
  moreover have "inj_on snd (set d)" unfolding set using mo(2) by (simp add: distinct_map)
  ultimately have "distinct (map snd d)" by (simp add: distinct_map)
  from state_ok_reorder[OF q set keys this] run Some show ?thesis
    by (simp add: move_machine_to_end_def od_move_to_end_def d_def)
qed

text \<open>Tags and dead links may change while jobs run.\<close>

lemma allocator_ok_links:
  "allocator_ok (a\<lparr>al_dead_links := l\<rparr>) = allocator_ok a" "live_ids (a\<lparr>al_dead_links := l\<rparr>) = live_ids a"
  "allots (a\<lparr>al_dead_links := l\<rparr>) i B = allots a i B"
proof -
  have l: "live (a\<lparr>al_dead_links := l\<rparr>) = live a" by (rule ext) (simp add: live_def)
  have t: "tokens (a\<lparr>al_dead_links := l\<rparr>) = tokens a" by (simp add: tokens_def l pending_def)
  have s: "single_triads (a\<lparr>al_dead_links := l\<rparr>) = single_triads a" by (simp add: single_triads_def)
  have w: "working_boards (a\<lparr>al_dead_links := l\<rparr>) = working_boards a" by (simp add: working_boards_def fun_eq_iff)
  have "tokens_ok (a\<lparr>al_dead_links := l\<rparr>) = tokens_ok a" by (simp add: tokens_ok_def l pending_def)
  moreover have tk: "token_ok (a\<lparr>al_dead_links := l\<rparr>) t = token_ok a t" for t by (simp add: token_ok_def s w)
  have lb: "left_boards (a\<lparr>al_dead_links := l\<rparr>) K xy = left_boards a K xy" for K xy by (simp add: left_boards_def w)
  have "books (a\<lparr>al_dead_links := l\<rparr>) K = books a K" for K by (simp add: books_def s lb tk)
  moreover have "busy (a\<lparr>al_dead_links := l\<rparr>) = busy a" by (simp add: busy_def s fun_eq_iff)
  ultimately show "allocator_ok (a\<lparr>al_dead_links := l\<rparr>) = allocator_ok a" by (simp add: allocator_ok_def t)
  show "live_ids (a\<lparr>al_dead_links := l\<rparr>) = live_ids a" by (simp add: live_ids_def l)
  show "allots (a\<lparr>al_dead_links := l\<rparr>) i B = allots a i B"
    by (simp add: allots_def l holds_boards_def machine_boards_def space_def)
qed

lemma modify_machine_ok:
  assumes w: "fair_world w" and q: "state_ok b q"
    and run: "modify_machine w name tags None dead_links q = (out, q')"
  shows "state_ok (out = Inr () \<or> b \<and> q' = q) q'"
proof (cases "od_get (jq_machines q) name")
  case None
  with run q show ?thesis by (auto simp: modify_machine_def)
next
  case (Some m)
  note s = state_okD[OF q]
  have "m \<in> machine_refs q" using map_of_SomeD[OF Some] by force
  note ml = machine_ref_length[OF s(1) this]
  define x where "x = the_machine q m"
  define y where "y = (case dead_links of None \<Rightarrow> (case tags of None \<Rightarrow> x | Some t \<Rightarrow> x\<lparr>m_tags := t\<rparr>)
      | Some l \<Rightarrow> (case tags of None \<Rightarrow> x | Some t \<Rightarrow> x\<lparr>m_tags := t\<rparr>)\<lparr>m_allocator := (m_allocator x)\<lparr>al_dead_links := l\<rparr>\<rparr>)"
  define q1 where "q1 = set_machine m y q"
  have run1: "regenerate_queues w q1 = (out, q')"
    using run Some by (cases tags; cases dead_links) (simp_all add: modify_machine_def Let_def q1_def y_def x_def)
  have y: "m_name y = m_name x" "m_queue y = m_queue x"
    "m_allocator y = m_allocator x \<or> (\<exists>l. m_allocator y = (m_allocator x)\<lparr>al_dead_links := l\<rparr>)"
    by (auto simp: y_def split: option.split)
  have L: "ledger_ok allocator_ok live_ids allots (allocators q) (tenancies q)"
    using s(1) by (simp add: queue_ok_def ledger_def)
  have ma: "m < length (allocators q)" using ml by simp
  have "allocator_ok (m_allocator x)"
    using ba.ledger_sound[OF L ma] by (simp add: allocators_nth[OF ml] x_def)
  then have "ledger ((allocators q)[m := m_allocator y]) (tenancies q)"
    unfolding ledger_def using y(3)
    by (intro ba.ledger_same[OF L ma]) (auto simp: allocator_ok_links allocators_nth[OF ml] x_def)
  then have "queue_ok q1"
    unfolding q1_def by (rule queue_ok_machine[OF s(1) ml, rotated 3])
      (use s(1) ml y in \<open>simp_all add: x_def queue_ok_def lines_ok_def\<close>)
  moreover have M: "m_name (the_machine q1 k) = m_name (the_machine q k)" for k using y(1) by (simp add: q1_def x_def)
  have "named_ok q1" using s(3) unfolding named_ok_def M by (simp add: q1_def)
  moreover have "machines_valid q1" using s(4) by (simp add: machines_valid_def q1_def)
  moreover have "0 \<le> jq_postpone q1" using s(2) by (simp add: q1_def)
  ultimately have "state_ok (out = Inr ()) q'" using regenerate_ok[OF w _ _ _ _ run1] by blast
  then show ?thesis using q by (cases "b \<and> q' = q") (auto intro: state_ok_weaken)
qed

text \<open>Evicting the jobs of a machine, while the queues stand still.\<close>

definition removal_notices :: "job_queue \<Rightarrow> machine_ref \<Rightarrow> job_ref list \<Rightarrow> jq_event list" where
  "removal_notices q m rs =
     map (\<lambda>r. On_free (j_id (the_job q r)) (Some ''Machine removed.''))
       (filter (\<lambda>r. j_machine (the_job q r) = Some m) rs)"

lemma evict_step:
  assumes q: "state_ok b q" and p: "jq_postpone q \<noteq> 0" and r: "r \<in> job_refs q"
    and run: "evict w m r q = (out, q')"
  shows "out = Inr () \<and> state_ok b q' \<and> the_job q' = the_job q \<and> jq_machines q' = jq_machines q \<and>
    jq_postpone q' = jq_postpone q \<and> length (jq_machine_store q') = length (jq_machine_store q) \<and>
    (\<forall>k. m_name (the_machine q' k) = m_name (the_machine q k)) \<and>
    job_refs q' = (if j_machine (the_job q r) = Some m then job_refs q - {r} else job_refs q) \<and>
    jq_events q' = jq_events q @ removal_notices q m [r]"
proof (cases "j_machine (the_job q r) = Some m")
  case False
  with run q show ?thesis by (auto simp: evict_def Let_def removal_notices_def)
next
  case True
  have jo: "jobs_ok q" using q by (simp add: state_ok_def queue_ok_def)
  have np: "\<not> j_pending (the_job q r)" using jo True unfolding jobs_ok_def by fastforce
  have get: "od_get (jq_jobs q) (j_id (the_job q r)) = Some r"
    using job_ref_facts(2)[OF jo r] jo unfolding jobs_ok_def by (metis map_of_is_SomeI)
  define i where "i = j_id (the_job q r)"
  define q1 where "q1 = callback (On_free i (Some ''Machine removed.'')) q"
  have d: "destroy_job w i (Some ''Machine removed.'') q = (Inr (), q1)"
    using get np p by (simp add: destroy_job_def Let_def process_queue_postponed q1_def i_def)
  have ok1: "state_ok b q1" unfolding q1_def by (rule state_ok_callback[OF q])
  have f1: "od_get (jq_jobs q1) i = Some r" "\<not> j_pending (the_job q1 r)" "jq_postpone q1 \<noteq> 0"
    using get np p by (simp_all add: q1_def i_def)
  obtain q2 where q2: "jq_free w i q1 = process_queue w q2" "state_ok b q2" "the_job q2 = the_job q1"
    "jq_jobs q2 = od_del i (jq_jobs q1)" "jq_machines q2 = jq_machines q1" "jq_postpone q2 = jq_postpone q1"
    "jq_events q2 = jq_events q1" "length (jq_machine_store q2) = length (jq_machine_store q1)"
    "\<And>m. m_name (the_machine q2 m) = m_name (the_machine q1 m)"
    by (rule jq_free_run[OF ok1 f1(1,2)]) blast
  have "evict w m r q = and_then (destroy_job w i (Some ''Machine removed.'')) (\<lambda>_. jq_free w i) q"
    using True unfolding evict_def Let_def i_def by simp
  then have "out = Inr ()" "q' = q2"
    using run q2(1,6) f1(3) by (simp_all add: and_then_def d process_queue_postponed)
  moreover have "job_refs q2 = job_refs q - {r}"
    using od_del_refs[OF jo get] q2(4) by (simp add: q1_def i_def)
  ultimately show ?thesis using q2(2-9) True by (simp add: q1_def removal_notices_def i_def)
qed

lemma evict_all:
  "state_ok b q \<Longrightarrow> jq_postpone q \<noteq> 0 \<Longrightarrow> set rs \<subseteq> job_refs q \<Longrightarrow> distinct rs \<Longrightarrow>
   for_each rs (evict w m) q = (out, q') \<Longrightarrow>
   out = Inr () \<and> state_ok b q' \<and> the_job q' = the_job q \<and> jq_machines q' = jq_machines q \<and>
   jq_postpone q' = jq_postpone q \<and> length (jq_machine_store q') = length (jq_machine_store q) \<and>
   (\<forall>k. m_name (the_machine q' k) = m_name (the_machine q k)) \<and>
   job_refs q' = job_refs q - {r \<in> set rs. j_machine (the_job q r) = Some m} \<and>
   jq_events q' = jq_events q @ removal_notices q m rs"
proof (induction rs arbitrary: q)
  case Nil
  then show ?case by (auto simp: removal_notices_def)
next
  case (Cons r rs)
  obtain o1 q1 where ev: "evict w m r q = (o1, q1)" by fastforce
  have "r \<in> job_refs q" using Cons.prems(3) by simp
  note s = evict_step[OF Cons.prems(1,2) this ev]
  then have run: "for_each rs (evict w m) q1 = (out, q')" using Cons.prems(5) ev by (simp add: and_then_def)
  have sub: "set rs \<subseteq> job_refs q1" using Cons.prems(3,4) s by auto
  have "distinct rs" using Cons.prems(4) by simp
  have IH: "out = Inr () \<and> state_ok b q' \<and> the_job q' = the_job q1 \<and> jq_machines q' = jq_machines q1 \<and>
   jq_postpone q' = jq_postpone q1 \<and> length (jq_machine_store q') = length (jq_machine_store q1) \<and>
   (\<forall>k. m_name (the_machine q' k) = m_name (the_machine q1 k)) \<and>
   job_refs q' = job_refs q1 - {r \<in> set rs. j_machine (the_job q1 r) = Some m} \<and>
   jq_events q' = jq_events q1 @ removal_notices q1 m rs"
    by (rule Cons.IH[OF _ _ sub \<open>distinct rs\<close> run]) (use s Cons.prems(2) in simp_all)
  moreover have "removal_notices q m (r # rs) = removal_notices q m [r] @ removal_notices q1 m rs"
    using s by (simp add: removal_notices_def)
  moreover have "job_refs q1 - {k \<in> set rs. j_machine (the_job q1 k) = Some m} =
      job_refs q - {k \<in> set (r # rs). j_machine (the_job q k) = Some m}"
    using s by auto
  ultimately show ?case using s by simp
qed

text \<open>Removing a machine: the state in which it is gone, before the queues are regenerated.\<close>

lemma remove_machine_run:
  assumes q: "state_ok b q" and m: "od_get (jq_machines q) name = Some m"
  obtains q1 where "remove_machine w name q = (case leave w q1 of (Inl e, q') \<Rightarrow> (Inl e, q') | (Inr u, q') \<Rightarrow> (Inr (), q'))"
    "state_ok True q1" "jq_postpone q1 = jq_postpone q + 1" "the_job q1 = the_job q"
    "jq_machines q1 = od_del name (jq_machines q)"
    "job_refs q1 = job_refs q - {r. j_machine (the_job q r) = Some m}"
    "jq_events q1 = jq_events q @ removal_notices q m (map snd (jq_jobs q))"
proof -
  define qe where "qe = enter q"
  have qe: "state_ok True qe" "jq_postpone qe \<noteq> 0" "jq_postpone qe = jq_postpone q + 1"
    "the_job qe = the_job q" "jq_jobs qe = jq_jobs q" "jq_machines qe = jq_machines q" "jq_events qe = jq_events q"
    using enter_ok[OF q] by (simp_all add: qe_def enter_def)
  define rs where "rs = map snd (jq_jobs qe)"
  have jo: "jobs_ok qe" using qe(1) by (simp add: state_ok_def queue_ok_def)
  then have d: "distinct rs" unfolding rs_def jobs_ok_def by (blast intro: sorted_distinct)
  have sub: "set rs \<subseteq> job_refs qe" by (simp add: rs_def)
  obtain o1 q1 where fe: "for_each rs (evict w m) qe = (o1, q1)" by fastforce
  note s = evict_all[OF qe(1,2) sub d fe]
  define q2 where "q2 = q1\<lparr>jq_machines := od_del name (jq_machines q1)\<rparr>"
  have body: "and_then (for_each (map snd (jq_jobs qe)) (evict w m))
      (\<lambda>_ q. (Inr (), q\<lparr>jq_machines := od_del name (jq_machines q)\<rparr>)) qe = (Inr (), q2)"
    using fe s by (simp add: and_then_def rs_def q2_def)
  have eq: "remove_machine w name q = (case leave w q2 of (Inl e, q') \<Rightarrow> (Inl e, q') | (Inr u, q') \<Rightarrow> (Inr (), q'))"
    using m body by (simp add: remove_machine_def with_postponed_def qe_def[symmetric])
  have refs: "job_refs q1 = job_refs q - {r. j_machine (the_job q r) = Some m}"
    using s by (auto simp: rs_def qe)
  note st = state_okD[OF conjunct1[OF conjunct2[OF s]]]
  have mo: "machines_ok q1" "jobs_ok q1" "lines_ok q1" "running_ok q1" "ledger (allocators q1) (tenancies q1)"
    using st(1) by (simp_all add: queue_ok_def)
  have f: "the_job q2 = the_job q1" "the_machine q2 = the_machine q1" "jq_jobs q2 = jq_jobs q1"
    "jq_job_store q2 = jq_job_store q1" "jq_machine_store q2 = jq_machine_store q1" "jq_events q2 = jq_events q1"
    "allocators q2 = allocators q1" "tenancies q2 = tenancies q1" "jq_postpone q2 = jq_postpone q1"
    by (simp_all add: q2_def)
  have ms: "jq_machines q2 = od_del name (jq_machines q1)" by (simp add: q2_def)
  have keys: "distinct (od_keys (jq_machines q1))" "distinct (map snd (jq_machines q1))"
    using mo(1) by (simp_all add: machines_ok_def)
  have "(k, l) \<in> set (od_del name (jq_machines q1)) \<longleftrightarrow> (k, l) \<in> set (jq_machines q1) \<and> k \<noteq> name" for k l
    by (auto simp: od_del_def)
  note del = this
  have kept: "k \<in> machine_refs q2" if "k \<in> machine_refs q1" "k \<noteq> m" for k
  proof -
    obtain l where l: "(l, k) \<in> set (jq_machines q1)" using \<open>k \<in> machine_refs q1\<close> by auto
    have "l \<noteq> name"
    proof
      assume "l = name"
      then have "od_get (jq_machines q1) name = Some k" using map_of_is_SomeI[OF keys(1) l] by simp
      with m s \<open>k \<noteq> m\<close> show False by (simp add: qe)
    qed
    with l del have "(l, k) \<in> set (od_del name (jq_machines q1))" by blast
    then have "snd (l, k) \<in> machine_refs q2" unfolding ms by (rule imageI)
    then show ?thesis by simp
  qed
  have "distinct (map snd (od_del name (jq_machines q1)))"
    using keys(2) unfolding od_del_def by (metis distinct_map_filter)
  moreover have "distinct (od_keys (od_del name (jq_machines q1)))" using keys(1) by simp
  moreover have "l < length (jq_machine_store q1) \<and> m_name (the_machine q1 l) = k"
    if "(k, l) \<in> set (od_del name (jq_machines q1))" for k l
    using that mo(1) unfolding del machines_ok_def by blast
  ultimately have "machines_ok q2" unfolding machines_ok_def f ms by blast
  moreover have "running_ok q2"
    unfolding running_ok_def f
  proof (intro ballI impI)
    fix r assume r: "r \<in> job_refs q1" "\<not> j_pending (the_job q1 r)"
    then obtain k i B where k: "j_machine (the_job q1 r) = Some k" "j_allocation_id (the_job q1 r) = Some i"
      "k \<in> machine_refs q1" "grants (jq_events q1) (j_id (the_job q1 r)) = Some (m_name (the_machine q1 k), B)"
      using mo(4) unfolding running_ok_def runs_def by blast
    have "the_job q1 r = the_job q r" using s qe by simp
    then have "k \<noteq> m" using r(1) k(1) refs by auto
    with kept k show "runs q2 r" unfolding runs_def f by blast
  qed
  moreover have "jobs_ok q2 = jobs_ok q1" "lines_ok q2 = lines_ok q1" unfolding jobs_ok_def lines_ok_def f by (rule refl)+
  ultimately have "queue_ok q2" using mo unfolding queue_ok_def f by simp
  moreover have "named_ok q2 = named_ok q1" "machines_valid q2 = machines_valid q1"
    unfolding named_ok_def machines_valid_def f by (rule refl)+
  ultimately have "state_ok True q2" using st s qe(2) unfolding state_ok_def f by simp
  then show ?thesis
    using that[OF eq] s refs by (simp add: f ms qe) (simp add: rs_def qe removal_notices_def)
qed

lemma remove_machine_ok:
  assumes w: "fair_world w" and q: "state_ok b q" and run: "remove_machine w name q = (out, q')"
  shows "state_ok (out = Inr () \<or> b \<and> q' = q) q'"
proof (cases "od_get (jq_machines q) name")
  case None
  with run q show ?thesis by (auto simp: remove_machine_def)
next
  case (Some m)
  obtain q1 where q1: "remove_machine w name q = (case leave w q1 of (Inl e, q') \<Rightarrow> (Inl e, q') | (Inr u, q') \<Rightarrow> (Inr (), q'))"
    "state_ok True q1" "jq_postpone q1 = jq_postpone q + 1" "jq_machines q1 = od_del name (jq_machines q)"
    by (rule remove_machine_run[OF q Some]) blast
  obtain o2 q2 where lv: "leave w q1 = (o2, q2)" by fastforce
  have "0 < jq_postpone q1" using q1(3) state_okD(2)[OF q] by simp
  note l = leave_ok[OF w q1(2) this lv]
  have q': "q' = q2" "out = Inr () \<longleftrightarrow> o2 = Inr ()" using run q1(1) lv by (auto split: sum.splits)
  have "name \<notin> fst ` set (jq_machines q2)" using l q1(4) by simp
  moreover have "name \<in> fst ` set (jq_machines q)" using Some by (rule od_get_Some_key)
  ultimately have "q' \<noteq> q" using q' by metis
  with l q' show ?thesis by simp
qed

section \<open>Boards that become free\<close>

lemma check_machines_step:
  "state_ok b q \<Longrightarrow> set ms \<subseteq> machine_refs q \<Longrightarrow> check_machines w ms changed q = (out, q') \<Longrightarrow>
   is_ok out \<and> state_ok b q' \<and> the_job q' = the_job q \<and> jq_jobs q' = jq_jobs q \<and> jq_postpone q' = jq_postpone q \<and>
   jq_machines q' = jq_machines q \<and> jq_events q' = jq_events q"
proof (induction ms arbitrary: q changed)
  case Nil
  then show ?case by auto
next
  case (Cons m ms)
  have mr: "m \<in> machine_refs q" using Cons.prems(2) by simp
  note st = state_okD[OF Cons.prems(1)]
  note ml = machine_ref_length[OF st(1) mr]
  obtain v a where c: "check_free (w_clock w (jq_calls q)) (m_allocator (the_machine q m)) = (v, a)" by fastforce
  have L: "ledger_ok allocator_ok live_ids allots (allocators q) (tenancies q)"
    using st(1) by (simp add: queue_ok_def ledger_def)
  have ma: "m < length (allocators q)" using ml by simp
  from c have c': "check_free (w_clock w (jq_calls q)) (allocators q ! m) = (v, a)" by (simp add: allocators_nth[OF ml])
  from ba.ledger_refreshed[OF L ma c'] obtain u where
    u: "v = Inr u" "ledger ((allocators q)[m := a]) (tenancies q)" by (auto simp: ledger_def)
  define q1 where "q1 = call_done (set_machine m ((the_machine q m)\<lparr>m_allocator := a\<rparr>) q)"
  have ok: "state_ok b q1"
    by (rule state_ok_drop[OF Cons.prems(1)])
      (use queue_ok_allocator[OF st(1) mr u(2)] in \<open>simp_all add: q1_def\<close>)
  have run: "check_machines w ms (changed \<or> u) q1 = (out, q')"
    using Cons.prems(3) c u(1) by (simp add: Let_def q1_def)
  have sub: "set ms \<subseteq> machine_refs q1" using Cons.prems(2) by (simp add: q1_def)
  from Cons.IH[OF ok sub run] show ?case by (simp add: q1_def)
qed

lemma jq_check_free_ok:
  assumes w: "fair_world w" and q: "state_ok b q" and run: "jq_check_free w q = (out, q')"
  shows "state_ok b q'"
proof (cases "jq_postpone q = 0")
  case False
  with run q show ?thesis by (simp add: jq_check_free_def)
next
  case True
  obtain o1 q1 where c: "check_machines w (map snd (jq_machines q)) False q = (o1, q1)" by fastforce
  have "set (map snd (jq_machines q)) \<subseteq> machine_refs q" by simp
  note s = check_machines_step[OF q this c]
  then obtain v where v: "o1 = Inr v" by blast
  with run True c have "(if v then process_queue w else return ()) q1 = (out, q')"
    by (simp add: jq_check_free_def and_then_def)
  with s process_queue_ok[OF w, of b q1 out q'] show ?thesis by (cases v) (simp_all add: return_def)
qed

end
