(* ===== verification/JobQueueCorrect.thy ===== *)
theory JobQueueCorrect
  imports JobQueueMachines
begin

text \<open>
  The job queue over whole histories of operations: running jobs share no board, none is
  started on a machine it did not ask for, none is lost while no operation is interrupted;
  and what each operation does.
\<close>

section \<open>Histories\<close>

text \<open>
  Every operation the controller performs, whatever it returns. Boards are given back only for
  jobs that ran, and dead boards are not declared while the machine is in use. The flag says
  that no operation was interrupted by an exception since the queues were last regenerated.
\<close>

inductive jq_history :: "world \<Rightarrow> bool \<Rightarrow> job_queue \<Rightarrow> bool" for w where
  jh_new: "jq_history w True (new_job_queue secs)"
| jh_create: "jq_history w b q \<Longrightarrow> request_ok args kwargs \<Longrightarrow>
    create_job w job_id machine_name tags args kwargs q = (out, q') \<Longrightarrow>
    jq_history w (b \<and> (out = Inr () \<or> q' = q)) q'"
| jh_destroy: "jq_history w b q \<Longrightarrow> destroy_job w i reason q = (out, q') \<Longrightarrow> jq_history w b q'"
| jh_free: "jq_history w b q \<Longrightarrow> \<forall>r. od_get (jq_jobs q) i = Some r \<longrightarrow> \<not> j_pending (the_job q r) \<Longrightarrow>
    jq_free w i q = (out, q') \<Longrightarrow> jq_history w b q'"
| jh_check: "jq_history w b q \<Longrightarrow> jq_check_free w q = (out, q') \<Longrightarrow> jq_history w b q'"
| jh_add: "jq_history w b q \<Longrightarrow> 0 < width \<Longrightarrow> 0 < height \<Longrightarrow>
    add_machine w name width height mtags dead_boards dead_links q = (out, q') \<Longrightarrow>
    jq_history w (out = Inr () \<or> b \<and> q' = q) q'"
| jh_modify: "jq_history w b q \<Longrightarrow> modify_machine w name mtags None links q = (out, q') \<Longrightarrow>
    jq_history w (out = Inr () \<or> b \<and> q' = q) q'"
| jh_move: "jq_history w b q \<Longrightarrow> move_machine_to_end name q = (out, q') \<Longrightarrow> jq_history w b q'"
| jh_remove: "jq_history w b q \<Longrightarrow> remove_machine w name q = (out, q') \<Longrightarrow>
    jq_history w (out = Inr () \<or> b \<and> q' = q) q'"
| jh_enter: "jq_history w b q \<Longrightarrow> jq_history w True (enter q)"
| jh_leave: "jq_history w b q \<Longrightarrow> 0 < jq_postpone q \<Longrightarrow> leave w q = (out, q') \<Longrightarrow>
    jq_history w (out = Inr ()) q'"

lemma new_job_queue_ok: "state_ok True (new_job_queue secs)"
proof -
  have J: "the_job (new_job_queue secs) r = no_job" for r by (simp add: the_job_def new_job_queue_def)
  have T: "tenancies (new_job_queue secs) = Map.empty"
    by (rule ext) (simp add: tenancies_def new_job_queue_def)
  have "queue_ok (new_job_queue secs)"
    unfolding queue_ok_def jobs_ok_def machines_ok_def lines_ok_def running_ok_def T J
    by (simp add: new_job_queue_def no_job_def ledger_def ledger_ok_def allocators_def)
  then show ?thesis
    unfolding state_ok_def named_ok_def machines_valid_def lines_suit_def waiting_ok_def J
    by (simp add: new_job_queue_def no_job_def)
qed

lemma history_state_ok:
  assumes w: "fair_world w" and h: "jq_history w b q"
  shows "state_ok b q"
  using h
proof induction
  case jh_new
  then show ?case by (rule new_job_queue_ok)
next
  case jh_create
  then show ?case using create_job_ok[OF w] by blast
next
  case jh_destroy
  then show ?case using destroy_job_ok[OF w] by blast
next
  case jh_free
  then show ?case using jq_free_ok[OF w] by blast
next
  case jh_check
  then show ?case using jq_check_free_ok[OF w] by blast
next
  case jh_add
  then show ?case using add_machine_ok[OF w] by blast
next
  case jh_modify
  then show ?case using modify_machine_ok[OF w] by blast
next
  case jh_move
  then show ?case using move_machine_ok by blast
next
  case jh_remove
  then show ?case using remove_machine_ok[OF w] by blast
next
  case jh_enter
  then show ?case using enter_ok by blast
next
  case jh_leave
  then show ?case using leave_ok[OF w] by blast
qed

section \<open>The queues never raise while they are served\<close>

lemma try_job_returns:
  assumes w: "fair_world w" and q: "queue_ok q" and m: "m \<in> machine_refs q" and r: "j_pending (the_job q r)"
    and ask: "askable (the_job q r)" and run: "try_job w r m q = (out, q')"
  shows "\<exists>c. out = Inr c"
proof -
  define j where "j = the_job q r"
  define a where "a = m_allocator (the_machine q m)"
  have L: "ledger_ok allocator_ok live_ids allots (allocators q) (tenancies q)"
    using q by (simp add: queue_ok_def ledger_def)
  have ml: "m < length (jq_machine_store q)" using machine_ref_length[OF q m] .
  then have "m < length (allocators q)" by simp
  from ba.ledger_sound[OF L this] have a: "allocator_ok a" by (simp add: a_def allocators_nth[OF ml])
  have ok: "pick_ok (w_pick w (jq_calls q))" "request_ok (j_args j) (j_kwargs j)"
    using w q r unfolding fair_world_def queue_ok_def jobs_ok_def j_def by blast+
  obtain b a1 where chk: "check_free (w_clock w (jq_calls q)) a = (Inr b, a1)" "allocator_ok a1"
    using check_free_keeps[OF a] by blast
  obtain res a2 where now: "alloc_now (w_pick w (jq_calls q)) (j_args j) (j_kwargs j) a1 = (res, a2)" by fastforce
  have "res \<noteq> Inl e" for e
    using alloc_now_effect[OF chk(2) ok now] ask by (auto simp: askable_def j_def)
  then obtain v where "res = Inr v" by (cases res) auto
  then have "allocator_alloc (w_clock w (jq_calls q)) (w_pick w (jq_calls q)) (j_args j) (j_kwargs j) a = (Inr v, a2)"
    by (simp add: allocator_alloc_def chk(1) now)
  with run show ?thesis by (auto simp: try_job_def Let_def j_def a_def split: option.splits)
qed

lemma serve_queue_returns:
  assumes "fair_world w"
  shows "queue_ok q \<Longrightarrow> m \<in> machine_refs q \<Longrightarrow> \<forall>r \<in> set rs. j_pending (the_job q r) \<longrightarrow> askable (the_job q r) \<Longrightarrow>
    serve_queue w m rs q = (out, q') \<Longrightarrow> \<exists>c. out = Inr c"
proof (induction rs arbitrary: q)
  case (Cons r rs)
  show ?case
  proof (cases "j_pending (the_job q r)")
    case False
    note p = queue_ok_pop[OF Cons.prems(1) machine_ref_length[OF Cons.prems(1,2)]]
    from Cons.IH[OF p] Cons.prems False show ?thesis by simp
  next
    case True
    obtain o1 q1 where t: "try_job w r m q = (o1, q1)" by fastforce
    from try_job_returns[OF assms Cons.prems(1,2) True _ t] Cons.prems(3) True obtain c where "o1 = Inr c" by auto
    with t True Cons.prems(4) show ?thesis by (cases c) auto
  qed
qed auto

lemma askable_advanced:
  assumes "advanced q q'" "r \<in> set (m_queue (the_machine q' m))" "j_pending (the_job q' r)"
    "\<forall>r \<in> set (m_queue (the_machine q m)). j_pending (the_job q r) \<longrightarrow> askable (the_job q r)"
  shows "askable (the_job q' r)"
proof -
  have "r \<in> set (m_queue (the_machine q m))" using advanced_line[OF assms(1)] assms(2) by blast
  moreover have "the_job q' r = the_job q r" using advanced_waits(3)[OF assms(1,3)] .
  ultimately show ?thesis using assms(3,4) by simp
qed

lemma serve_machines_returns:
  assumes "fair_world w"
  shows "queue_ok q \<Longrightarrow> set ms \<subseteq> machine_refs q \<Longrightarrow>
    \<forall>m \<in> set ms. \<forall>r \<in> set (m_queue (the_machine q m)). j_pending (the_job q r) \<longrightarrow> askable (the_job q r) \<Longrightarrow>
    serve_machines w ms changed q = (out, q') \<Longrightarrow> \<exists>c. out = Inr c"
proof (induction ms arbitrary: q changed)
  case (Cons m ms)
  have m: "m \<in> machine_refs q" using Cons.prems(2) by simp
  obtain o1 q1 where t: "serve_queue w m (m_queue (the_machine q m)) q = (o1, q1)" by fastforce
  have ask: "\<forall>r \<in> set (m_queue (the_machine q m)). j_pending (the_job q r) \<longrightarrow> askable (the_job q r)"
    using Cons.prems(3) by simp
  from serve_queue_returns[OF assms Cons.prems(1) m ask t] obtain c where c: "o1 = Inr c" ..
  have s: "queue_ok q1" "advanced q q1" using serve_queue_step[OF assms Cons.prems(1) m refl t] by blast+
  have "askable (the_job q1 r)" if "k \<in> set ms" "r \<in> set (m_queue (the_machine q1 k))" "j_pending (the_job q1 r)" for k r
    using askable_advanced[OF s(2) that(2,3)] Cons.prems(3) that(1) by simp
  moreover have "set ms \<subseteq> machine_refs q1" using Cons.prems(2) advanced_refs[OF s(2)] by simp
  moreover have "serve_machines w ms (changed \<or> c) q1 = (out, q')" using Cons.prems(4) t c by simp
  ultimately show ?case using Cons.IH[OF s(1)] by blast
qed auto

lemma process_rounds_returns:
  "queue_ok q \<Longrightarrow>
    \<forall>m \<in> machine_refs q. \<forall>r \<in> set (m_queue (the_machine q m)). j_pending (the_job q r) \<longrightarrow> askable (the_job q r) \<Longrightarrow>
    fair_world w \<Longrightarrow> \<exists>q'. process_rounds w q = (Inr (), q')"
proof (induction w q rule: process_rounds.induct)
  case (1 w q)
  obtain o1 q1 where t: "serve_machines w (map snd (jq_machines q)) False q = (o1, q1)" by fastforce
  have sub: "set (map snd (jq_machines q)) \<subseteq> machine_refs q" by simp
  have ask: "\<forall>m \<in> set (map snd (jq_machines q)). \<forall>r \<in> set (m_queue (the_machine q m)).
      j_pending (the_job q r) \<longrightarrow> askable (the_job q r)"
    using 1(3) by simp
  from serve_machines_returns[OF 1(4) 1(2) sub ask t] obtain c where c: "o1 = Inr c" ..
  note eq = process_rounds.simps[of w q, unfolded t]
  show ?case
  proof (cases c)
    case False
    with eq c show ?thesis by simp
  next
    case True
    have d: "distinct (map snd (jq_machines q))" using 1(2) by (simp add: queue_ok_def machines_ok_def)
    have s: "queue_ok q1" "advanced q q1" using serve_machines_step[OF 1(4) 1(2) sub d t] by blast+
    have "\<forall>m \<in> machine_refs q1. \<forall>r \<in> set (m_queue (the_machine q1 m)). j_pending (the_job q1 r) \<longrightarrow> askable (the_job q1 r)"
      using askable_advanced[OF s(2)] 1(3) unfolding advanced_refs[OF s(2)] by blast
    moreover have "c = True" using True by simp
    ultimately have "\<exists>q'. process_rounds w q1 = (Inr (), q')" using 1(1)[OF t[symmetric] c _ s(1) _ 1(4)] by blast
    then show ?thesis using eq c True by simp
  qed
qed

lemma process_queue_returns:
  assumes "fair_world w" "state_ok b q"
  shows "\<exists>q'. process_queue w q = (Inr (), q')"
proof (cases "jq_postpone q = 0")
  case True
  have "\<forall>m \<in> machine_refs q. \<forall>r \<in> set (m_queue (the_machine q m)). j_pending (the_job q r) \<longrightarrow> askable (the_job q r)"
    using assms(2) True unfolding state_ok_def lines_suit_def by blast
  from process_rounds_returns[OF state_ok_queue[OF assms(2)] this assms(1)] True
  show ?thesis by (simp add: process_queue_def)
qed (simp add: process_queue_def)

section \<open>What running jobs hold\<close>

text \<open>The job of an id that runs, with the machine and the boards it was told last.\<close>

definition runs_on :: "job_queue \<Rightarrow> int \<Rightarrow> machine_ref \<Rightarrow> int \<Rightarrow> board set \<Rightarrow> bool" where
  "runs_on q i m aid B \<longleftrightarrow>
     (\<exists>r. od_get (jq_jobs q) i = Some r \<and> \<not> j_pending (the_job q r) \<and>
        j_machine (the_job q r) = Some m \<and> j_allocation_id (the_job q r) = Some aid \<and>
        grants (jq_events q) i = Some (m_name (the_machine q m), B))"

lemma od_ref_iff:
  assumes "jobs_ok q" shows "od_get (jq_jobs q) i = Some r \<longleftrightarrow> r \<in> job_refs q \<and> j_id (the_job q r) = i"
proof
  assume "od_get (jq_jobs q) i = Some r"
  then have mem: "(i, r) \<in> set (jq_jobs q)" by (rule map_of_SomeD)
  then have "snd (i, r) \<in> job_refs q" by (rule imageI)
  then show "r \<in> job_refs q \<and> j_id (the_job q r) = i" using assms mem unfolding jobs_ok_def by simp
next
  assume r: "r \<in> job_refs q \<and> j_id (the_job q r) = i"
  then have "(i, r) \<in> set (jq_jobs q)" using job_ref_facts(2)[OF assms] by blast
  then show "od_get (jq_jobs q) i = Some r" using assms unfolding jobs_ok_def by (blast intro: map_of_is_SomeI)
qed

lemma runs_on_tenancy:
  assumes "jobs_ok q"
  shows "runs_on q i m aid B \<longleftrightarrow> (\<exists>r. j_id (the_job q r) = i \<and> tenancies q r = Some (m, aid, B) \<and>
    grants (jq_events q) i = Some (m_name (the_machine q m), B))"
proof
  assume "runs_on q i m aid B"
  then obtain r where r: "od_get (jq_jobs q) i = Some r" "\<not> j_pending (the_job q r)"
    "j_machine (the_job q r) = Some m" "j_allocation_id (the_job q r) = Some aid"
    "grants (jq_events q) i = Some (m_name (the_machine q m), B)"
    unfolding runs_on_def by blast
  have "r \<in> job_refs q" "j_id (the_job q r) = i" using r(1) od_ref_iff[OF assms] by blast+
  with r show "\<exists>r. j_id (the_job q r) = i \<and> tenancies q r = Some (m, aid, B) \<and>
      grants (jq_events q) i = Some (m_name (the_machine q m), B)"
    by (intro exI[of _ r]) (simp add: tenancies_def)
next
  assume "\<exists>r. j_id (the_job q r) = i \<and> tenancies q r = Some (m, aid, B) \<and>
      grants (jq_events q) i = Some (m_name (the_machine q m), B)"
  then obtain r where r: "j_id (the_job q r) = i" "tenancies q r = Some (m, aid, B)"
    "grants (jq_events q) i = Some (m_name (the_machine q m), B)" by blast
  have "r \<in> job_refs q \<and> \<not> j_pending (the_job q r) \<and> j_machine (the_job q r) = Some m \<and>
      j_allocation_id (the_job q r) = Some aid"
    using r(2) unfolding tenancies_def Let_def by (auto split: if_splits option.splits)
  then show "runs_on q i m aid B"
    unfolding runs_on_def using r od_ref_iff[OF assms] by blast
qed

text \<open>
  C17. Exclusive use across jobs. However jobs and machines come and go, as long as the set of dead
  boards of a machine in service is not changed (\<open>jq_history\<close> leaves that out, because the allocator
  then loses track of its boards), two running jobs that were told the same machine were
  told disjoint boards: none of them is ever shared.
\<close>

theorem jobs_exclusive:
  assumes "jq_history w b q" "fair_world w" "runs_on q i m aid B" "runs_on q k m aid' C" "i \<noteq> k"
  shows "B \<inter> C = {}"
proof -
  have ok: "queue_ok q" using history_state_ok[OF assms(2,1)] by (rule state_ok_queue)
  then have jo: "jobs_ok q" and L: "ledger_ok allocator_ok live_ids allots (allocators q) (tenancies q)"
    by (simp_all add: queue_ok_def ledger_def)
  obtain r s where "tenancies q r = Some (m, aid, B)" "tenancies q s = Some (m, aid', C)"
    "j_id (the_job q r) = i" "j_id (the_job q s) = k"
    using assms(3,4) runs_on_tenancy[OF jo] by blast
  then show ?thesis using ba.ledger_exclusive[OF L, of r m aid B s aid' C] assms(5) by blast
qed

text \<open>
  C18. Every running job is backed, and no allocation is lost. A job that is not pending runs on
  a machine in service, under the name its owner was told, with a live allocation that keeps
  the boards it was told; and every live allocation of every allocator is that of exactly one
  running job.
\<close>

theorem jobs_backed:
  assumes "jq_history w b q" "fair_world w"
  shows "(\<forall>i r. od_get (jq_jobs q) i = Some r \<longrightarrow> \<not> j_pending (the_job q r) \<longrightarrow>
      (\<exists>m aid B. runs_on q i m aid B \<and> od_get (jq_machines q) (m_name (the_machine q m)) = Some m \<and>
         allots (m_allocator (the_machine q m)) aid B)) \<and>
    (\<forall>m aid. m < length (jq_machine_store q) \<longrightarrow> aid \<in> live_ids (m_allocator (the_machine q m)) \<longrightarrow>
      (\<exists>!i. \<exists>B. runs_on q i m aid B))"
proof -
  have ok: "queue_ok q" using history_state_ok[OF assms(2,1)] by (rule state_ok_queue)
  then have jo: "jobs_ok q" and mo: "machines_ok q" and ro: "running_ok q"
    and L: "ledger_ok allocator_ok live_ids allots (allocators q) (tenancies q)"
    by (simp_all add: queue_ok_def ledger_def)
  have named: "grants (jq_events q) (j_id (the_job q r)) = Some (m_name (the_machine q m), B) \<and> m \<in> machine_refs q"
    if "tenancies q r = Some (m, aid, B)" for r m aid B
  proof -
    have r: "r \<in> job_refs q" "\<not> j_pending (the_job q r)" "j_machine (the_job q r) = Some m"
      "\<exists>n. grants (jq_events q) (j_id (the_job q r)) = Some (n, B)"
      using that unfolding tenancies_def Let_def by (auto split: if_splits option.splits)
    then have "runs q r" using ro unfolding running_ok_def by blast
    with r(3,4) show ?thesis unfolding runs_def by auto
  qed
  have "\<exists>m aid B. runs_on q i m aid B \<and> od_get (jq_machines q) (m_name (the_machine q m)) = Some m \<and>
         allots (m_allocator (the_machine q m)) aid B"
    if i: "od_get (jq_jobs q) i = Some r" and r: "\<not> j_pending (the_job q r)" for i r
  proof -
    have rr: "r \<in> job_refs q" "j_id (the_job q r) = i" using i od_ref_iff[OF jo] by blast+
    then have "runs q r" using ro r unfolding running_ok_def by blast
    then obtain m aid B where m: "j_machine (the_job q r) = Some m" "j_allocation_id (the_job q r) = Some aid"
      "m \<in> machine_refs q" "grants (jq_events q) i = Some (m_name (the_machine q m), B)"
      unfolding runs_def rr(2) by blast
    obtain n where n: "(n, m) \<in> set (jq_machines q)" using m(3) by auto
    have "distinct (od_keys (jq_machines q))" "m_name (the_machine q m) = n"
      using mo n unfolding machines_ok_def by blast+
    then have "od_get (jq_machines q) (m_name (the_machine q m)) = Some m"
      using n by (blast intro: map_of_is_SomeI)
    moreover have "runs_on q i m aid B" using i r m unfolding runs_on_def by blast
    moreover have "tenancies q r = Some (m, aid, B)" using rr r m by (simp add: tenancies_def)
    then have "allots (m_allocator (the_machine q m)) aid B"
      using ba.ledger_tenancy(1,3)[OF L] by (simp add: allocators_nth)
    ultimately show ?thesis by blast
  qed
  moreover have "\<exists>!i. \<exists>B. runs_on q i m aid B"
    if m: "m < length (jq_machine_store q)" and a: "aid \<in> live_ids (m_allocator (the_machine q m))" for m aid
  proof -
    have "m < length (allocators q)" "aid \<in> live_ids (allocators q ! m)"
      using m a by (simp_all add: allocators_nth)
    then obtain r B where r: "tenancies q r = Some (m, aid, B)" by (rule ba.ledger_cover[OF L])
    have "runs_on q (j_id (the_job q r)) m aid B"
      using r named[OF r] runs_on_tenancy[OF jo] by blast
    moreover have "k = j_id (the_job q r)" if k: "runs_on q k m aid C" for k C
    proof -
      obtain s where s: "j_id (the_job q s) = k" "tenancies q s = Some (m, aid, C)"
        using k runs_on_tenancy[OF jo] by blast
      with ba.ledger_unique[OF L r s(2)] show ?thesis by simp
    qed
    ultimately show ?thesis by blast
  qed
  ultimately show ?thesis by blast
qed

text \<open>
  C19. No job is lost. While no operation has been interrupted and the queues are being
  managed, every pending job stands in the queue of a machine in service that it asked for, by
  name or by tags, so that it is started as soon as it comes to the front and there is room.
\<close>

theorem pending_jobs_wait:
  assumes "jq_history w True q" "fair_world w" "jq_postpone q = 0"
    "od_get (jq_jobs q) i = Some r" "j_pending (the_job q r)"
  shows "\<exists>m \<in> machine_refs q. r \<in> set (m_queue (the_machine q m)) \<and> suits (the_job q r) (the_machine q m)"
proof -
  have "state_ok True q" using history_state_ok[OF assms(2,1)] .
  then have "waits q r" "lines_suit q" using assms(3,5) by (simp_all add: state_ok_def waiting_ok_def)
  then show ?thesis using assms(5) unfolding waits_def lines_suit_def by blast
qed

text \<open>
  C24. Placement and order. A running job that named a machine runs on the machine of that name,
  and each queue has its jobs in the order in which they were created, without duplicates.
\<close>

theorem placement_and_order:
  assumes "jq_history w b q" "fair_world w"
  shows "(\<forall>i m aid B r n. runs_on q i m aid B \<longrightarrow> od_get (jq_jobs q) i = Some r \<longrightarrow>
        j_machine_name (the_job q r) = Some n \<longrightarrow> m_name (the_machine q m) = n) \<and>
    (\<forall>m \<in> machine_refs q. sorted_wrt (<) (m_queue (the_machine q m)))"
proof -
  have ok: "state_ok b q" using history_state_ok[OF assms(2,1)] .
  have "m_name (the_machine q m) = n" if "runs_on q i m aid B" "od_get (jq_jobs q) i = Some r"
    "j_machine_name (the_job q r) = Some n" for i m aid B r n
  proof -
    have "\<not> j_pending (the_job q r)" "j_machine (the_job q r) = Some m"
      using that(1,2) unfolding runs_on_def by auto
    with ok that(3) show ?thesis unfolding state_ok_def named_ok_def by blast
  qed
  moreover have "sorted_wrt (<) (m_queue (the_machine q m))" if "m \<in> machine_refs q" for m
    using ok machine_ref_length[OF _ that] unfolding state_ok_def queue_ok_def lines_ok_def by blast
  ultimately show ?thesis by blast
qed

text \<open>
  C20. Working through the queues. It always returns, it starts exactly as many jobs as it
  announces and that many fewer are pending, it emits no other event, and afterwards
  every queue is empty or its first job is pending and the allocator has no room for it.
\<close>

theorem process_queue_serves:
  assumes "jq_history w b q" "fair_world w" "jq_postpone q = 0"
  shows "\<exists>q' evs. process_queue w q = (Inr (), q') \<and> jq_events q' = jq_events q @ evs \<and>
    (\<forall>ev \<in> set evs. is_start ev) \<and> length evs + pending_jobs q' = pending_jobs q \<and>
    (\<forall>m \<in> machine_refs q'. case m_queue (the_machine q' m) of [] \<Rightarrow> True
       | r # _ \<Rightarrow> j_pending (the_job q' r) \<and> no_room (the_job q' r) (m_allocator (the_machine q' m)))"
proof -
  have ok: "state_ok b q" using history_state_ok[OF assms(2,1)] .
  obtain q' where run: "process_queue w q = (Inr (), q')" using process_queue_returns[OF assms(2) ok] ..
  have "advanced q q'" "\<forall>m \<in> machine_refs q'. at_rest q' m"
    using process_queue_step[OF assms(2) state_ok_queue[OF ok] run] assms(3) by blast+
  then show ?thesis
    using run unfolding advanced_def starts_reported_def at_rest_def by blast
qed

section \<open>A small run\<close>

text \<open>Two triads with one dead board; two jobs of one board each, and one that must wait.\<close>

definition calm :: world where
  "calm = \<lparr> w_clock = (\<lambda>_ _. 0), w_pick = (\<lambda>_. pick_least) \<rparr>"

lemma calm_fair: "fair_world calm"
  by (simp add: fair_world_def calm_def pick_least_ok)

definition demo0 :: job_queue where
  "demo0 = snd (add_machine calm ''m'' 2 1 None {(1, 0, 2)} {} (new_job_queue 30))"

definition demo1 :: job_queue where
  "demo1 = snd (create_job calm (Some 1) None None Any_board plain demo0)"

definition demo2 :: job_queue where
  "demo2 = snd (create_job calm (Some 2) (Some ''m'') None (One_board 1 0 1) plain demo1)"

definition demo3 :: job_queue where
  "demo3 = snd (create_job calm (Some 3) None None (Block 2 1) plain demo2)"

lemma runs_on_code [code]:
  "runs_on q i m aid B =
     (case od_get (jq_jobs q) i of
        None \<Rightarrow> False
      | Some r \<Rightarrow> \<not> j_pending (the_job q r) \<and> j_machine (the_job q r) = Some m \<and>
          j_allocation_id (the_job q r) = Some aid \<and>
          grants (jq_events q) i = Some (m_name (the_machine q m), B))"
  by (auto simp: runs_on_def split: option.split)

lemma demo_returns:
  "is_ok (fst (add_machine calm ''m'' 2 1 None {(1, 0, 2)} {} (new_job_queue 30)))"
  "is_ok (fst (create_job calm (Some 1) None None Any_board plain demo0))"
  "is_ok (fst (create_job calm (Some 2) (Some ''m'') None (One_board 1 0 1) plain demo1))"
  "is_ok (fst (create_job calm (Some 3) None None (Block 2 1) plain demo2))"
  by code_simp+

lemma demo_runs: "runs_on demo2 1 0 1 {(0, 0, 0)}" "runs_on demo2 2 0 2 {(1, 0, 1)}"
  by code_simp+

lemma demo_history: "jq_history calm True demo0" "jq_history calm True demo1" "jq_history calm True demo2"
  "jq_history calm True demo3"
proof -
  have rq: "request_ok Any_board plain" "request_ok (One_board 1 0 1) plain" "request_ok (Block 2 1) plain"
    by (simp_all add: request_ok_def plain_def)
  have ok: "out = Inr ()" if "is_ok out" for out :: "unit res" using that by (cases out) auto
  have "jq_history calm (fst (add_machine calm ''m'' 2 1 None {(1, 0, 2)} {} (new_job_queue 30)) = Inr () \<or>
      True \<and> demo0 = new_job_queue 30) demo0"
    unfolding demo0_def by (rule jh_add[OF jh_new _ _ prod.collapse[symmetric]]) simp_all
  then show 0: "jq_history calm True demo0" using ok[OF demo_returns(1)] by simp
  have "jq_history calm (True \<and> (fst (create_job calm (Some 1) None None Any_board plain demo0) = Inr () \<or> demo1 = demo0)) demo1"
    unfolding demo1_def by (rule jh_create[OF 0 rq(1) prod.collapse[symmetric]])
  then show 1: "jq_history calm True demo1" using ok[OF demo_returns(2)] by simp
  have "jq_history calm (True \<and> (fst (create_job calm (Some 2) (Some ''m'') None (One_board 1 0 1) plain demo1) = Inr () \<or>
      demo2 = demo1)) demo2"
    unfolding demo2_def by (rule jh_create[OF 1 rq(2) prod.collapse[symmetric]])
  then show 2: "jq_history calm True demo2" using ok[OF demo_returns(3)] by simp
  have "jq_history calm (True \<and> (fst (create_job calm (Some 3) None None (Block 2 1) plain demo2) = Inr () \<or> demo3 = demo2)) demo3"
    unfolding demo3_def by (rule jh_create[OF 2 rq(3) prod.collapse[symmetric]])
  then show "jq_history calm True demo3" using ok[OF demo_returns(4)] by simp
qed

theorem jobs_exclusive_witness:
  "runs_on demo2 1 0 1 {(0, 0, 0)} \<and> runs_on demo2 2 0 2 {(1, 0, 1)} \<and> {(0, 0, 0)} \<inter> {(1, 0, 1 :: int)} = {}"
  using jobs_exclusive[OF demo_history(3) calm_fair demo_runs] demo_runs by simp

lemma demo_backed: "od_get (jq_jobs demo2) 1 = Some 0" "\<not> j_pending (the_job demo2 0)"
  by code_simp+

theorem jobs_backed_witness:
  "\<exists>m aid B. runs_on demo2 1 m aid B \<and> allots (m_allocator (the_machine demo2 m)) aid B"
  using jobs_backed[OF demo_history(3) calm_fair] demo_backed by blast

lemma demo_waiting: "od_get (jq_jobs demo3) 3 = Some 2" "j_pending (the_job demo3 2)" "jq_postpone demo3 = 0"
  by code_simp+

theorem pending_jobs_wait_witness: "\<exists>m \<in> machine_refs demo3. 2 \<in> set (m_queue (the_machine demo3 m))"
  using pending_jobs_wait[OF demo_history(4) calm_fair demo_waiting(3,1,2)] by blast

lemma demo_named: "od_get (jq_jobs demo2) 2 = Some 1" "j_machine_name (the_job demo2 1) = Some ''m''"
  by code_simp+

theorem placement_and_order_witness: "m_name (the_machine demo2 0) = ''m''"
  using placement_and_order[OF demo_history(3) calm_fair] demo_runs(2) demo_named by blast

theorem process_queue_serves_witness:
  "\<exists>q'. process_queue calm demo3 = (Inr (), q') \<and> pending_jobs q' \<le> pending_jobs demo3"
  using process_queue_serves[OF demo_history(4) calm_fair demo_waiting(3)]
  by (elim exE conjE) (rule exI, rule conjI, assumption, simp)

section \<open>Creating jobs\<close>

lemma queue_on_found:
  "queue_on r j ms found q = (Inr c, q') \<Longrightarrow>
   c \<longleftrightarrow> found \<or> (\<exists>m \<in> set ms. alloc_possible (j_args j) (j_kwargs j) (m_allocator (the_machine q m)) = Inr True)"
proof (induction ms arbitrary: found q)
  case (Cons m ms)
  consider (err) e where "alloc_possible (j_args j) (j_kwargs j) (m_allocator (the_machine q m)) = Inl e"
    | (no) "alloc_possible (j_args j) (j_kwargs j) (m_allocator (the_machine q m)) = Inr False"
    | (yes) "alloc_possible (j_args j) (j_kwargs j) (m_allocator (the_machine q m)) = Inr True"
    by (metis (full_types) old.sum.exhaust)
  then show ?case
  proof cases
    case err
    with Cons.prems show ?thesis by (simp add: Let_def)
  next
    case no
    with Cons.prems have "queue_on r j ms found q = (Inr c, q')" by (simp add: Let_def)
    from Cons.IH[OF this] no show ?thesis by simp
  next
    case yes
    with Cons.prems have "queue_on r j ms True (set_machine m ((the_machine q m)\<lparr>m_queue := m_queue (the_machine q m) @ [r]\<rparr>) q) = (Inr c, q')"
      by (simp add: Let_def)
    from Cons.IH[OF this] yes show ?thesis by simp
  qed
qed simp

lemma advanced_jobs: "advanced q q' \<Longrightarrow> jq_jobs q' = jq_jobs q \<and> (\<exists>evs. jq_events q' = jq_events q @ evs)"
  by (auto simp: advanced_def frame_kept_def starts_reported_def)

text \<open>
  C21. The outcome of a request. A request that passes the guards and returns has exactly one of
  two outcomes. If some machine in service is one it asked for and could ever hold it, the job
  is known: it stands in a queue or runs. Otherwise it is cancelled at once, with the reason,
  and forgotten.
\<close>

theorem create_job_outcome:
  assumes "jq_history w b q" "fair_world w" "jq_postpone q = 0" "request_ok args kwargs"
    "create_refused (Some i) machine_name tags q = None"
    "create_job w (Some i) machine_name tags args kwargs q = (Inr (), q')"
  defines "r \<equiv> length (jq_job_store q)" and "j \<equiv> created_job i machine_name tags args kwargs"
  shows "if \<exists>m \<in> machine_refs q. suits j (the_machine q m) \<and>
        alloc_possible args kwargs (m_allocator (the_machine q m)) = Inr True
      then od_get (jq_jobs q') i = Some r \<and>
        (if j_pending (the_job q' r) then waits q' r else \<exists>m aid B. runs_on q' i m aid B)
      else od_get (jq_jobs q') i = None \<and>
        On_cancel i (Some ''No suitable machines available.'') \<in> set (jq_events q')"
proof -
  have st: "state_ok b q" using history_state_ok[OF assms(2,1)] .
  have i: "i \<notin> fst ` set (jq_jobs q)" using assms(5) by (auto simp: create_refused_def split: if_splits)
  define q1 where "q1 = with_job j q"
  have run: "enqueue_job w r q1 = (Inr (), q')"
    using assms(6) unfolding create_job_alt assms(5) by (simp add: q1_def r_def j_def)
  note n = with_job_ok[OF st i assms(4), of machine_name tags, folded j_def, folded q1_def r_def]
  note s = enqueue_job_step[OF assms(2) n(1,3,2) run]
  have jj: "the_job q1 r = j" "j_args j = args" "j_kwargs j = kwargs" "j_id j = i"
    by (simp_all add: n(4)) (simp_all add: j_def created_job_def)
  have M: "the_machine q1 = the_machine q" "jq_machines q1 = jq_machines q" "jq_postpone q1 = 0"
    using assms(3) by (simp_all add: q1_def with_job_def the_machine_def fun_eq_iff)
  define ms where "ms = candidate_machines q1 j"
  have ok1: "queue_ok q1" using n(1) by (rule state_ok_queue)
  have cand: "m \<in> set ms \<longleftrightarrow> m \<in> machine_refs q \<and> suits j (the_machine q m)" for m
    using candidate_facts(3)[OF ok1] M by (simp add: ms_def)
  obtain o1 q2 where on: "queue_on r j ms False q1 = (o1, q2)" by fastforce
  have eq: "enqueue_job w r q1 = and_then (queue_on r j ms False)
      (\<lambda>found. and_then (if found then return ()
         else destroy_job w i (Some ''No suitable machines available.'')) (\<lambda>_. process_queue w)) q1"
    unfolding enqueue_job_def Let_def jj ms_def using M(3) by simp
  with run on obtain c where c: "o1 = Inr c" by (cases o1) (auto simp: and_then_def)
  have found: "c \<longleftrightarrow> (\<exists>m \<in> machine_refs q. suits j (the_machine q m) \<and>
      alloc_possible args kwargs (m_allocator (the_machine q m)) = Inr True)"
    using queue_on_found[OF on[unfolded c]] cand unfolding jj M by blast
  have jo1: "jobs_ok q1" using ok1 by (simp add: queue_ok_def)
  then have "r \<in> job_refs q1" using n(3) unfolding jobs_ok_def by blast
  then have rl: "r < length (jq_job_store q1)" using job_ref_facts(1)[OF jo1] by blast
  have old: "\<forall>m \<in> set ms. \<forall>s \<in> set (m_queue (the_machine q1 m)). s < r"
    using n(2) candidate_facts(1)[OF ok1, where j = j] unfolding older_def ms_def by blast
  have step: "same_but_lines q1 q2" "queue_ok q2" "c \<or> q2 = q1"
    using queue_on_step[OF ok1 candidate_facts(1,2)[OF ok1, where j = j, folded ms_def] rl old on] c by auto
  have jobs2: "jq_jobs q2 = jq_jobs q1" using step(1) by (simp add: same_but_lines_def)
  show ?thesis
  proof (cases c)
    case True
    have run2: "process_queue w q2 = (Inr (), q')" using run True unfolding eq by (simp add: and_then_def on c return_def)
    have "advanced q2 q'" using process_queue_step[OF assms(2) step(2) run2] by blast
    then have jobs: "jq_jobs q' = jq_jobs q1" using advanced_jobs jobs2 by metis
    then have get: "od_get (jq_jobs q') i = Some r" using n(6) by simp
    have "\<exists>m aid B. runs_on q' i m aid B" if "\<not> j_pending (the_job q' r)"
    proof -
      have ok': "queue_ok q'" using s state_ok_queue by blast
      then have "jobs_ok q'" by (simp add: queue_ok_def)
      with get have rr: "r \<in> job_refs q'" "j_id (the_job q' r) = i" using od_ref_iff by blast+
      then have "runs q' r" using ok' that unfolding queue_ok_def running_ok_def by blast
      with get that rr(2) show ?thesis unfolding runs_def runs_on_def by blast
    qed
    with s get M(3) found True show ?thesis by simp
  next
    case False
    then have q2: "q2 = q1" using step(3) by blast
    obtain o3 q3 where d: "destroy_job w i (Some ''No suitable machines available.'') q1 = (o3, q3)" by fastforce
    have run2: "process_queue w q3 = (Inr (), q')"
      using run False d unfolding eq by (cases o3) (simp_all add: and_then_def on c q2)
    define q4 where "q4 = (callback (On_cancel i (Some ''No suitable machines available.''))
      (set_job r (j\<lparr>j_pending := False\<rparr>) q1))\<lparr>jq_jobs := od_del i (jq_jobs q1)\<rparr>"
    have pj: "j_pending j" using n(3) jj(1) by simp
    have d4: "process_queue w q4 = (o3, q3)"
      using d n(6) pj jj by (simp add: destroy_job_def Let_def q4_def)
    have ok4: "queue_ok q4"
      using queue_ok_cancel[OF ok1 n(6,3), of i "Some ''No suitable machines available.''"] jj(1) by (simp add: q4_def)
    have a: "queue_ok q3" "advanced q4 q3" using process_queue_step[OF assms(2) ok4 d4] by blast+
    have b: "advanced q3 q'" using process_queue_step[OF assms(2) a(1) run2] by blast
    have "od_get (jq_jobs q') i = None"
      using advanced_jobs[OF a(2)] advanced_jobs[OF b] by (simp add: q4_def)
    moreover have "On_cancel i (Some ''No suitable machines available.'') \<in> set (jq_events q')"
      using advanced_jobs[OF a(2)] advanced_jobs[OF b] by (auto simp: q4_def)
    ultimately show ?thesis using found False by simp
  qed
qed

theorem create_job_outcome_witness:
  "On_cancel 4 (Some ''No suitable machines available.'') \<in>
     set (jq_events (snd (create_job calm (Some 4) None None (Block 3 1) plain demo3)))"
proof -
  have rq: "request_ok (Block 3 1) plain" by (simp add: request_ok_def plain_def)
  have ref: "create_refused (Some 4) None None demo3 = None" by code_simp
  have ret: "is_ok (fst (create_job calm (Some 4) None None (Block 3 1) plain demo3))" by code_simp
  then have run: "create_job calm (Some 4) None None (Block 3 1) plain demo3 =
      (Inr (), snd (create_job calm (Some 4) None None (Block 3 1) plain demo3))"
    by (metis is_okE old.unit.exhaust prod.collapse)
  have no: "alloc_possible (Block 3 1) plain (m_allocator (the_machine demo3 0)) = Inr False"
    "machine_refs demo3 = {0}" by code_simp+
  from create_job_outcome[OF demo_history(4) calm_fair demo_waiting(3) rq ref run] show ?thesis
    by (simp add: no)
qed

section \<open>Errors\<close>

text \<open>Asking what is possible raises exactly when asking for the boards would.\<close>

lemma alloc_type_errors: "alloc_type args torus = Inl e \<longleftrightarrow> e = ValueError \<and> torus \<and> single_board args"
  by (auto simp: alloc_type_def single_board_def Let_def split: alloc_args.splits)

lemma any_accepts_returns:
  assumes "allocator_ok a" shows "\<exists>v. any_accepts (make_filter a kw n) w h xys = Inr v"
proof -
  have "0 < al_width a" "0 < al_height a" using assms by (simp_all add: allocator_ok_def books_def)
  then have "is_ok (accepts (make_filter a kw n) x y w h)" for x y
    by (intro accepts_ok) (simp_all add: make_filter_def)
  from any_accepts_ok[OF this] show ?thesis by blast
qed

lemma alloc_possible_errors:
  assumes a: "allocator_ok a" and rq: "request_ok args kw"
  shows "alloc_possible args kw a = Inl e \<longleftrightarrow> e = ValueError \<and> kw_require_torus kw \<and> single_board args"
proof (cases "alloc_type args (kw_require_torus kw)")
  case (Inl e')
  then show ?thesis using alloc_type_errors[of args "kw_require_torus kw" e'] by (auto simp: alloc_possible_def)
next
  case (Inr t)
  then have no: "\<not> (kw_require_torus kw \<and> single_board args)"
    using alloc_type_errors[of args "kw_require_torus kw" ValueError] by auto
  have d: "0 < al_width a" "0 < al_height a" using a by (simp_all add: allocator_ok_def books_def)
  have tri: "alloc_triads_possible w h kw a \<noteq> Inl e" for w h
    using any_accepts_returns[OF a, of kw None w h "machine_corners a w h"] by (auto simp: alloc_triads_possible_def)
  have brd: "alloc_boards_possible n kw a \<noteq> Inl e" if n: "ceil_div n 3 < max_area" for n
  proof (cases "ceil_div n 3 \<le> 0")
    case True
    then show ?thesis by (simp add: alloc_boards_possible_def)
  next
    case False
    then have "0 < ceil_div n 3" by simp
    moreover have "0 \<le> kw_min_ratio kw" using rq by (simp add: request_ok_def)
    ultimately obtain res where res: "area_to_rect (ceil_div n 3) (al_width a) (al_height a) (kw_min_ratio kw) = Inr res"
      using area_to_rect_bounds[OF _ n d] by blast
    show ?thesis
      using any_accepts_returns[OF a, of kw "Some n"] res
      by (auto simp: alloc_boards_possible_def Let_def split: option.split) (metis sum.distinct(1))+
  qed
  have one: "alloc_board_possible args (kw_require_torus kw) a \<noteq> Inl e" if "single_board args"
    using no that by (cases args) (auto simp: alloc_board_possible_def single_board_def)
  show ?thesis
    using Inr no tri brd one rq by (cases args) (auto simp: alloc_possible_def single_board_def request_ok_def)
qed

lemma allocator_sound: "queue_ok q \<Longrightarrow> m \<in> machine_refs q \<Longrightarrow> allocator_ok (m_allocator (the_machine q m))"
proof -
  assume q: "queue_ok q" and m: "m \<in> machine_refs q"
  note ml = machine_ref_length[OF q m]
  have L: "ledger_ok allocator_ok live_ids allots (allocators q) (tenancies q)"
    using q by (simp add: queue_ok_def ledger_def)
  have "m < length (allocators q)" using ml by simp
  from ba.ledger_sound[OF L this] show ?thesis by (simp add: allocators_nth[OF ml])
qed

lemma queue_on_error:
  "queue_on r j ms found q = (Inl e, q') \<Longrightarrow>
   \<exists>m \<in> set ms. alloc_possible (j_args j) (j_kwargs j) (m_allocator (the_machine q m)) = Inl e"
proof (induction ms arbitrary: found q)
  case (Cons m ms)
  consider (err) e where "alloc_possible (j_args j) (j_kwargs j) (m_allocator (the_machine q m)) = Inl e"
    | (no) "alloc_possible (j_args j) (j_kwargs j) (m_allocator (the_machine q m)) = Inr False"
    | (yes) "alloc_possible (j_args j) (j_kwargs j) (m_allocator (the_machine q m)) = Inr True"
    by (metis (full_types) old.sum.exhaust)
  then show ?case
  proof cases
    case err
    with Cons.prems show ?thesis by (simp add: Let_def)
  next
    case no
    with Cons.prems have "queue_on r j ms found q = (Inl e, q')" by (simp add: Let_def)
    from Cons.IH[OF this] show ?thesis by simp
  next
    case yes
    with Cons.prems have "queue_on r j ms True (set_machine m ((the_machine q m)\<lparr>m_queue := m_queue (the_machine q m) @ [r]\<rparr>) q) = (Inl e, q')"
      by (simp add: Let_def)
    from Cons.IH[OF this] obtain k where "k \<in> set ms"
      "alloc_possible (j_args j) (j_kwargs j) (m_allocator (the_machine (set_machine m ((the_machine q m)\<lparr>m_queue := m_queue (the_machine q m) @ [r]\<rparr>) q) k)) = Inl e"
      by blast
    then show ?thesis by (intro bexI[of _ k]) (auto split: if_splits)
  qed
qed simp

text \<open>What the destruction of a known job leaves.\<close>

lemma destroy_job_returns:
  assumes w: "fair_world w" and q: "state_ok b q" and i: "od_get (jq_jobs q) i = Some r"
  shows "\<exists>q' evs. destroy_job w i reason q = (Inr (), q') \<and> (\<forall>ev \<in> set evs. is_start ev) \<and>
    (if j_pending (the_job q r)
     then jq_jobs q' = od_del i (jq_jobs q) \<and> jq_events q' = jq_events q @ On_cancel i reason # evs
     else jq_jobs q' = jq_jobs q \<and> jq_events q' = jq_events q @ On_free i reason # evs)"
proof -
  have "jobs_ok q" using q by (simp add: state_ok_def queue_ok_def)
  then have id: "j_id (the_job q r) = i" using i od_ref_iff by blast
  have served: "\<exists>q' evs. process_queue w q1 = (Inr (), q') \<and> (\<forall>ev \<in> set evs. is_start ev) \<and>
      jq_jobs q' = jq_jobs q1 \<and> jq_events q' = jq_events q1 @ evs" if q1: "state_ok b q1" for q1
  proof -
    obtain q' where run: "process_queue w q1 = (Inr (), q')" using process_queue_returns[OF w q1] ..
    have "advanced q1 q'" using process_queue_step[OF w state_ok_queue[OF q1] run] by blast
    with run show ?thesis unfolding advanced_def frame_kept_def starts_reported_def by blast
  qed
  show ?thesis
  proof (cases "j_pending (the_job q r)")
    case True
    from served[OF cancel_state_ok[OF q i True, of i reason]] i True show ?thesis
      by (auto simp: destroy_job_def Let_def id)
  next
    case False
    from served[OF state_ok_callback[OF q, of i reason]] i False show ?thesis
      by (auto simp: destroy_job_def Let_def id)
  qed
qed

text \<open>
  Errors of a request. When \<open>create_job\<close> raises while the queues are managed, either a
  guard failed - no id, an id in use, or both machine and tags - and nothing changed; or
  torus connectivity was asked of a single board. Then ValueError comes out of the allocator
  after the job was stored, and the job is left behind, pending, under its id.
\<close>

theorem create_job_errors:
  assumes "jq_history w b q" "fair_world w" "jq_postpone q = 0" "request_ok args kwargs"
    "create_job w job_id machine_name tags args kwargs q = (Inl e, q')"
  shows "(create_refused job_id machine_name tags q = Some e \<and> q' = q) \<or>
    (create_refused job_id machine_name tags q = None \<and> e = ValueError \<and> kw_require_torus kwargs \<and> single_board args \<and>
     od_get (jq_jobs q') (the job_id) = Some (length (jq_job_store q)) \<and>
     j_pending (the_job q' (length (jq_job_store q))))"
proof (cases "create_refused job_id machine_name tags q")
  case (Some e')
  with assms(5) show ?thesis by (auto simp: create_job_alt)
next
  case None
  have st: "state_ok b q" using history_state_ok[OF assms(2,1)] .
  obtain i where i: "job_id = Some i" "i \<notin> fst ` set (jq_jobs q)"
    using None by (auto simp: create_refused_def split: option.splits if_splits)
  define j where "j = created_job i machine_name tags args kwargs"
  define r where "r = length (jq_job_store q)"
  define q1 where "q1 = with_job j q"
  have run: "enqueue_job w r q1 = (Inl e, q')"
    using assms(5) None i(1) by (simp add: create_job_alt q1_def r_def j_def)
  note n = with_job_ok[OF st i(2) assms(4), of machine_name tags, folded j_def, folded q1_def r_def]
  have jj: "the_job q1 r = j" "j_args j = args" "j_kwargs j = kwargs" "j_id j = i"
    by (simp_all add: n(4)) (simp_all add: j_def created_job_def)
  have p: "jq_postpone q1 = 0" using assms(3) by (simp add: q1_def with_job_def)
  define ms where "ms = candidate_machines q1 j"
  have ok1: "queue_ok q1" using n(1) by (rule state_ok_queue)
  note cand = candidate_facts[OF ok1, where j = j, folded ms_def]
  obtain o1 q2 where on: "queue_on r j ms False q1 = (o1, q2)" by fastforce
  have eq: "enqueue_job w r q1 = and_then (queue_on r j ms False)
      (\<lambda>found. and_then (if found then return ()
         else destroy_job w i (Some ''No suitable machines available.'')) (\<lambda>_. process_queue w)) q1"
    unfolding enqueue_job_def Let_def jj ms_def using p by simp
  note step = queue_on_ok[OF n(1,3,2) p on[unfolded ms_def, folded jj(1)]]
  have sm: "same_but_lines q1 q2" using step by blast
  show ?thesis
  proof (cases o1)
    case (Inl e')
    then have e: "e' = e" "q' = q2" using run unfolding eq by (simp_all add: and_then_def on)
    obtain m where m: "m \<in> set ms" "alloc_possible args kwargs (m_allocator (the_machine q1 m)) = Inl e"
      using queue_on_error[OF on[unfolded Inl]] e jj by auto
    then have "allocator_ok (m_allocator (the_machine q1 m))" using allocator_sound[OF ok1] cand(1) by blast
    with m(2) have "e = ValueError" "kw_require_torus kwargs" "single_board args"
      using alloc_possible_errors[OF _ assms(4)] by blast+
    moreover have "the_job q' = the_job q1" "jq_jobs q' = jq_jobs q1"
      using same_but_lines_job[OF sm] sm e(2) by (simp_all add: same_but_lines_def)
    ultimately show ?thesis using None n(3,6) i(1) by (simp add: r_def)
  next
    case (Inr c)
    have False
    proof (cases c)
      case True
      then have "process_queue w q2 = (Inl e, q')" using run unfolding eq by (simp add: and_then_def on Inr return_def)
      moreover have "state_ok False q2" using step by blast
      ultimately show False using process_queue_returns[OF assms(2)] by fastforce
    next
      case False
      then have q2: "q2 = q1" using step Inr by simp
      obtain q3 where d: "destroy_job w i (Some ''No suitable machines available.'') q1 = (Inr (), q3)"
        using destroy_job_returns[OF assms(2) n(1,6)] by blast
      have "process_queue w q3 = (Inl e, q')" using run False unfolding eq by (simp add: and_then_def on Inr q2 d)
      moreover have "state_ok False q3" using destroy_job_ok[OF assms(2) n(1) d] .
      ultimately show False using process_queue_returns[OF assms(2)] by fastforce
    qed
    then show ?thesis ..
  qed
qed

theorem create_job_errors_witness:
  "fst (create_job calm (Some 5) None None (Num 1) (plain\<lparr>kw_require_torus := True\<rparr>) demo3) = Inl ValueError \<and>
   od_get (jq_jobs (snd (create_job calm (Some 5) None None (Num 1) (plain\<lparr>kw_require_torus := True\<rparr>) demo3))) 5 = Some 3"
proof -
  have rq: "request_ok (Num 1) (plain\<lparr>kw_require_torus := True\<rparr>)"
    by (simp add: request_ok_def plain_def) code_simp
  have fst: "fst (create_job calm (Some 5) None None (Num 1) (plain\<lparr>kw_require_torus := True\<rparr>) demo3) = Inl ValueError"
    by code_simp
  then have run: "create_job calm (Some 5) None None (Num 1) (plain\<lparr>kw_require_torus := True\<rparr>) demo3 =
      (Inl ValueError, snd (create_job calm (Some 5) None None (Num 1) (plain\<lparr>kw_require_torus := True\<rparr>) demo3))"
    by (metis prod.collapse)
  have "create_refused (Some 5) None None demo3 = None" "length (jq_job_store demo3) = 3" by code_simp+
  with create_job_errors[OF demo_history(4) calm_fair demo_waiting(3) rq run] fst show ?thesis by simp
qed

text \<open>
  C22. Destroying a job. An unknown id raises AttributeError and changes nothing. A pending job
  is cancelled and forgotten at once; a running one is reported freed but keeps its boards.
  Either way the call returns, and beyond the report it only starts jobs that now fit.
\<close>

theorem destroy_job_exact:
  assumes "jq_history w b q" "fair_world w"
  shows "case od_get (jq_jobs q) i of
      None \<Rightarrow> destroy_job w i reason q = (Inl AttributeError, q)
    | Some r \<Rightarrow> \<exists>q' evs. destroy_job w i reason q = (Inr (), q') \<and> (\<forall>ev \<in> set evs. is_start ev) \<and>
        (if j_pending (the_job q r)
         then jq_jobs q' = od_del i (jq_jobs q) \<and> jq_events q' = jq_events q @ On_cancel i reason # evs
         else jq_jobs q' = jq_jobs q \<and> jq_events q' = jq_events q @ On_free i reason # evs)"
proof (cases "od_get (jq_jobs q) i")
  case None
  then show ?thesis by (simp add: destroy_job_def)
next
  case (Some r)
  from destroy_job_returns[OF assms(2) history_state_ok[OF assms(2,1)] Some] show ?thesis by (simp add: Some)
qed

theorem destroy_job_exact_witness:
  "\<exists>q' evs. destroy_job calm 3 None demo3 = (Inr (), q') \<and> jq_events q' = jq_events demo3 @ On_cancel 3 None # evs"
  using destroy_job_exact[OF demo_history(4) calm_fair, of 3 None] demo_waiting(1,2) by auto

text \<open>
  Giving boards back. For a job that ran, \<open>free\<close> returns, forgets the job, and reports
  nothing but the jobs it starts; for an unknown id it does nothing.
\<close>

theorem free_forgets:
  assumes "jq_history w b q" "fair_world w" "\<forall>r. od_get (jq_jobs q) i = Some r \<longrightarrow> \<not> j_pending (the_job q r)"
  shows "\<exists>q' evs. jq_free w i q = (Inr (), q') \<and> jq_jobs q' = od_del i (jq_jobs q) \<and>
    jq_events q' = jq_events q @ evs \<and> (\<forall>ev \<in> set evs. is_start ev) \<and> (od_get (jq_jobs q) i = None \<longrightarrow> q' = q)"
proof (cases "od_get (jq_jobs q) i")
  case None
  then have "od_del i (jq_jobs q) = jq_jobs q"
    by (auto simp: od_del_def map_of_eq_None_iff intro!: filter_True) (metis fst_conv imageI)
  with None show ?thesis by (simp add: jq_free_def)
next
  case (Some r)
  then have np: "\<not> j_pending (the_job q r)" using assms(3) by blast
  have st: "state_ok b q" using history_state_ok[OF assms(2,1)] .
  obtain q1 where q1: "jq_free w i q = process_queue w q1" "state_ok b q1" "jq_jobs q1 = od_del i (jq_jobs q)"
    "jq_events q1 = jq_events q"
    using jq_free_run[OF st Some np, of w thesis] by blast
  obtain q' where run: "process_queue w q1 = (Inr (), q')" using process_queue_returns[OF assms(2) q1(2)] ..
  have "advanced q1 q'" using process_queue_step[OF assms(2) state_ok_queue[OF q1(2)] run] by blast
  with run q1 Some show ?thesis
    unfolding advanced_def frame_kept_def starts_reported_def by auto
qed

theorem free_forgets_witness:
  "\<exists>q'. jq_free calm 1 demo2 = (Inr (), q') \<and> jq_jobs q' = od_del 1 (jq_jobs demo2)"
  using free_forgets[OF demo_history(3) calm_fair, of 1] demo_backed by auto

section \<open>Removing machines, and standing still\<close>

text \<open>
  C23. Removing a machine takes its jobs with it. Whatever \<open>remove_machine\<close> returns, the machine
  is no longer in service, no job is left that runs on it, and each of its jobs was reported
  freed, in order of creation, before anything else happened.
\<close>

theorem remove_machine_evicts:
  assumes "jq_history w b q" "fair_world w" "od_get (jq_machines q) name = Some m"
    "remove_machine w name q = (out, q')"
  shows "od_get (jq_machines q') name = None \<and> (\<forall>i aid B. \<not> runs_on q' i m aid B) \<and>
    (\<exists>evs. jq_events q' = jq_events q @
       map (\<lambda>r. On_free (j_id (the_job q r)) (Some ''Machine removed.''))
         (filter (\<lambda>r. j_machine (the_job q r) = Some m) (map snd (jq_jobs q))) @ evs)"
proof -
  have st: "state_ok b q" using history_state_ok[OF assms(2,1)] .
  obtain q1 where q1: "remove_machine w name q = (case leave w q1 of (Inl e, q') \<Rightarrow> (Inl e, q') | (Inr u, q') \<Rightarrow> (Inr (), q'))"
    "state_ok True q1" "jq_postpone q1 = jq_postpone q + 1" "jq_machines q1 = od_del name (jq_machines q)"
    "jq_events q1 = jq_events q @ removal_notices q m (map snd (jq_jobs q))"
    by (rule remove_machine_run[OF st assms(3)]) blast
  obtain o2 q2 where lv: "leave w q1 = (o2, q2)" by fastforce
  have "0 < jq_postpone q1" using q1(3) state_okD(2)[OF st] by simp
  note l = leave_ok[OF assms(2) q1(2) this lv]
  have q': "q' = q2" using assms(4) q1(1) lv by (auto split: sum.splits)
  have ms: "jq_machines q' = od_del name (jq_machines q)" using l q1(4) q' by simp
  have ok: "queue_ok q'" using l q' state_ok_queue by blast
  then have jo: "jobs_ok q'" and ro: "running_ok q'" by (simp_all add: queue_ok_def)
  have "m \<notin> machine_refs q'"
  proof
    assume "m \<in> machine_refs q'"
    then obtain n where n: "(n, m) \<in> set (od_del name (jq_machines q))" unfolding ms by auto
    then have "(n, m) \<in> set (jq_machines q)" "n \<noteq> name" by (auto simp: od_del_def)
    moreover have "(name, m) \<in> set (jq_machines q)" using assms(3) by (rule map_of_SomeD)
    moreover have "m_name (the_machine q m) = k" if "(k, m) \<in> set (jq_machines q)" for k
      using that st unfolding state_ok_def queue_ok_def machines_ok_def by blast
    ultimately show False by blast
  qed
  then have "\<not> runs_on q' i m aid B" for i aid B
  proof -
    have False if "runs_on q' i m aid B"
    proof -
      obtain r where r: "od_get (jq_jobs q') i = Some r" "\<not> j_pending (the_job q' r)" "j_machine (the_job q' r) = Some m"
        using \<open>runs_on q' i m aid B\<close> unfolding runs_on_def by blast
      then have "r \<in> job_refs q'" using od_ref_iff[OF jo] by blast
      with ro r(2) have "runs q' r" unfolding running_ok_def by blast
      with r(3) \<open>m \<notin> machine_refs q'\<close> show False unfolding runs_def by auto
    qed
    then show ?thesis by blast
  qed
  moreover have "\<exists>evs. jq_events q2 = jq_events q1 @ evs" using l by blast
  ultimately show ?thesis using q1(5) ms q' by (auto simp: removal_notices_def)
qed

lemma demo_removed: "od_get (jq_machines demo2) ''m'' = Some 0" by code_simp

theorem remove_machine_evicts_witness:
  "od_get (jq_machines (snd (remove_machine calm ''m'' demo2))) ''m'' = None"
  using remove_machine_evicts[OF demo_history(3) calm_fair demo_removed prod.collapse[symmetric]] by blast

end
