(* ===== verification/JobQueueFaults.thy ===== *)
theory JobQueueFaults
  imports JobQueueCorrect
begin

text \<open>
  Where the job queue goes wrong, over all histories: jobs that are dropped from every queue when
  the machines change, and a refused request that makes every later change of the machines fail. A run
  shows that a job can be reported freed twice.
\<close>

section \<open>Jobs that stand aside\<close>

text \<open>
  A pending job that stands in no queue is passed over by everything that is done for other
  jobs: it stays as it is, and for it the same machines come into question.
\<close>

definition aside :: "job_ref \<Rightarrow> job_queue \<Rightarrow> job_queue \<Rightarrow> bool" where
  "aside r q q' \<longleftrightarrow> the_job q' r = the_job q r \<and> \<not> waits q' r \<and>
     candidate_machines q' (the_job q r) = candidate_machines q (the_job q r) \<and>
     (\<forall>i. (i, r) \<in> set (jq_jobs q) \<longrightarrow> (i, r) \<in> set (jq_jobs q'))"

lemma aside_refl: "\<not> waits q r \<Longrightarrow> aside r q q"
  by (simp add: aside_def)

lemma aside_waits: "aside r q q' \<Longrightarrow> \<not> waits q' r"
  by (simp add: aside_def)

lemma aside_trans: "aside r q q1 \<Longrightarrow> aside r q1 q2 \<Longrightarrow> aside r q q2"
  by (simp add: aside_def)

lemma same_candidates:
  assumes "jq_machines q' = jq_machines q" "\<And>m. m_tags (the_machine q' m) = m_tags (the_machine q m)"
  shows "candidate_machines q' j = candidate_machines q j"
  using assms by (simp add: candidate_machines_def split: option.split)

lemma advanced_aside:
  assumes a: "advanced q q'" and r: "\<not> waits q r"
  shows "aside r q q'"
proof -
  have f: "jq_machines q' = jq_machines q" "jq_jobs q' = jq_jobs q" "\<And>m. m_tags (the_machine q' m) = m_tags (the_machine q m)"
    using a by (simp_all add: advanced_def frame_kept_def)
  have "jobs_advanced q q'" using a by (simp add: advanced_def)
  then have "the_job q' r = the_job q r" using r unfolding jobs_advanced_def waits_def by blast
  moreover have "\<not> waits q' r" using r advanced_line[OF a] advanced_refs[OF a] unfolding waits_def by blast
  ultimately show ?thesis using same_candidates[OF f(1,3)] f(2) by (simp add: aside_def)
qed

lemma queue_on_others:
  "queue_on s j ms found q = (out, q') \<Longrightarrow> r \<noteq> s \<Longrightarrow> r \<in> set (m_queue (the_machine q' m)) \<Longrightarrow> r \<in> set (m_queue (the_machine q m))"
proof (induction s j ms found q arbitrary: out q' rule: queue_on.induct)
  case (2 s j k ks found q)
  let ?x = "the_machine q k"
  show ?case
  proof (cases "alloc_possible (j_args j) (j_kwargs j) (m_allocator ?x)")
    case (Inl e)
    with 2(3,5) show ?thesis by (simp add: Let_def)
  next
    case (Inr b)
    show ?thesis
    proof (cases b)
      case True
      let ?q = "set_machine k (?x\<lparr>m_queue := m_queue ?x @ [s]\<rparr>) q"
      have run: "queue_on s j ks True ?q = (out, q')" using 2(3) Inr True by (simp add: Let_def)
      have "r \<in> set (m_queue (the_machine ?q m))" using 2(1)[OF refl Inr _ run 2(4,5)] True by simp
      then show ?thesis using 2(4) by (auto split: if_splits)
    next
      case False
      with 2(3) Inr have "queue_on s j ks found q = (out, q')" by (simp add: Let_def)
      from 2(2)[OF refl Inr _ this 2(4,5)] False show ?thesis by simp
    qed
  qed
qed simp

lemma destroy_other:
  assumes w: "fair_world w" and q: "state_ok b q" and i: "od_get (jq_jobs q) i = Some s" and p: "j_pending (the_job q s)"
    and r: "r \<noteq> s" "\<not> waits q r" and run: "destroy_job w i reason q = (out, q')"
  shows "aside r q q' \<and> length (jq_jobs q') < length (jq_jobs q)"
proof -
  let ?q = "(callback (On_cancel (j_id (the_job q s)) reason) (set_job s ((the_job q s)\<lparr>j_pending := False\<rparr>) q))
    \<lparr>jq_jobs := od_del i (jq_jobs q)\<rparr>"
  have jo: "jobs_ok q" using q by (simp add: state_ok_def queue_ok_def)
  have sl: "s < length (jq_job_store q)" "j_id (the_job q s) = i"
    using jo map_of_SomeD[OF i] unfolding jobs_ok_def by blast+
  have J: "the_job ?q r = the_job q r" using r(1) sl by simp
  have W: "waits ?q = waits q" by (simp add: fun_eq_iff waits_def)
  have run1: "process_queue w ?q = (out, q')" using run i p by (simp add: destroy_job_def Let_def)
  have a: "advanced ?q q'" using process_queue_ok[OF w cancel_state_ok[OF q i p] run1] by blast
  have other: "k \<noteq> i" if "(k, r) \<in> set (jq_jobs q)" for k
  proof
    assume "k = i"
    with that map_of_SomeD[OF i] jo have "od_get (jq_jobs q) i = Some r" unfolding jobs_ok_def by (simp add: map_of_is_SomeI)
    with i r(1) show False by simp
  qed
  have "aside r q ?q" unfolding aside_def W J using r(2) other by (auto simp: od_del_def intro!: same_candidates)
  moreover have "\<not> waits ?q r" using r(2) W by simp
  ultimately have "aside r q q'" using aside_trans advanced_aside[OF a] by blast
  moreover have "length (od_del i (jq_jobs q)) < length (jq_jobs q)"
    using map_of_SomeD[OF i] unfolding od_del_def by (intro length_filter_less[of "(i, s)"]) simp_all
  moreover have "jq_jobs q' = jq_jobs ?q" using a by (simp add: advanced_def frame_kept_def)
  ultimately show ?thesis by simp
qed

lemma enqueue_other:
  assumes w: "fair_world w" and q: "state_ok b q" and p: "j_pending (the_job q s)" and old: "older q s" and p0: "jq_postpone q = 0"
    and r: "r \<noteq> s" "\<not> waits q r" and run: "enqueue_job w s q = (out, q')"
  shows "aside r q q'"
proof -
  have jo: "jobs_ok q" using q by (simp add: state_ok_def queue_ok_def)
  have "s \<in> job_refs q" using jo p unfolding jobs_ok_def by blast
  note sf = job_ref_facts[OF jo this]
  have i: "od_get (jq_jobs q) (j_id (the_job q s)) = Some s"
    using sf(2) jo unfolding jobs_ok_def by (metis map_of_is_SomeI)
  obtain o1 q1 where on: "queue_on s (the_job q s) (candidate_machines q (the_job q s)) False q = (o1, q1)" by fastforce
  note st = queue_on_ok[OF q p old p0 on]
  have sm: "same_but_lines q q1" using st by blast
  have "\<not> waits q1 r" using queue_on_others[OF on r(1)] r(2) sm by (auto simp: waits_def same_but_lines_def)
  moreover have "candidate_machines q1 j = candidate_machines q j" for j
    using sm by (intro same_candidates) (simp_all add: same_but_lines_def)
  ultimately have a1: "aside r q q1" using sm same_but_lines_job[OF sm] by (simp add: aside_def same_but_lines_def)
  have eq: "enqueue_job w s q = and_then (queue_on s (the_job q s) (candidate_machines q (the_job q s)) False)
      (\<lambda>found. and_then (if found then return ()
         else destroy_job w (j_id (the_job q s)) (Some ''No suitable machines available.'')) (\<lambda>_. process_queue w)) q"
    unfolding enqueue_job_def Let_def using p0 by simp
  consider (err) e where "o1 = Inl e" | (none) "o1 = Inr False" | (found) "o1 = Inr True"
    by (metis (full_types) old.sum.exhaust)
  then show ?thesis
  proof cases
    case err
    with run a1 show ?thesis by (simp add: eq and_then_def on)
  next
    case found
    with run have run1: "process_queue w q1 = (out, q')" by (simp add: eq and_then_def on return_def)
    have "advanced q1 q'" using process_queue_ok[OF w conjunct1[OF st] run1] by blast
    with a1 show ?thesis using aside_trans advanced_aside aside_def by metis
  next
    case none
    then have q1: "q1 = q" using st by simp
    obtain o2 q2 where d: "destroy_job w (j_id (the_job q s)) (Some ''No suitable machines available.'') q = (o2, q2)" by fastforce
    have a2: "aside r q q2" using destroy_other[OF w q i p r d] by blast
    show ?thesis
    proof (cases o2)
      case (Inl e)
      with run none d a2 show ?thesis by (simp add: eq and_then_def on q1)
    next
      case (Inr u)
      with run none d have run2: "process_queue w q2 = (out, q')" by (simp add: eq and_then_def on q1)
      have "advanced q2 q'" using process_queue_ok[OF w destroy_job_ok[OF w q d] run2] by blast
      with a2 show ?thesis using aside_trans advanced_aside aside_def by metis
    qed
  qed
qed

lemma requeue_other:
  assumes w: "fair_world w"
  shows "state_ok False q \<Longrightarrow> jq_postpone q = 0 \<Longrightarrow> sorted_wrt (<) rs \<Longrightarrow> \<forall>s \<in> set rs. older q s \<Longrightarrow> r \<notin> set rs \<Longrightarrow>
    \<not> waits q r \<Longrightarrow> requeue w n rs q = (out, q') \<Longrightarrow> aside r q q'"
proof (induction rs arbitrary: q)
  case Nil
  then show ?case by (simp add: aside_refl)
next
  case (Cons s rs)
  show ?case
  proof (cases "length (jq_jobs q) = n \<and> j_pending (the_job q s)")
    case False
    show ?thesis
    proof (cases "length (jq_jobs q) = n")
      case True
      with False Cons.prems(7) have "requeue w n rs q = (out, q')" by simp
      with Cons show ?thesis by simp
    qed (use Cons.prems in \<open>simp add: aside_refl\<close>)
  next
    case True
    obtain o1 q1 where en: "enqueue_job w s q = (o1, q1)" by fastforce
    have old: "older q s" "r \<noteq> s" using Cons.prems(4,5) by simp_all
    note st = enqueue_job_step[OF w Cons.prems(1) conjunct2[OF True] old(1) en]
    have a: "aside r q q1" by (rule enqueue_other[OF w Cons.prems(1) conjunct2[OF True] old(1) Cons.prems(2) old(2) Cons.prems(6) en])
    show ?thesis
    proof (cases o1)
      case (Inl e)
      with True en Cons.prems(7) a show ?thesis by (simp add: and_then_def)
    next
      case (Inr u)
      with True en Cons.prems(7) have run: "requeue w n rs q1 = (out, q')" by (simp add: and_then_def)
      have "older q1 k" if "k \<in> set rs" for k
      proof -
        have "s < k" using that Cons.prems(3) by simp
        moreover have "older q1 (Suc s)" using st by blast
        ultimately show ?thesis unfolding older_def by fastforce
      qed
      moreover have "jq_postpone q1 = 0" using st Cons.prems(2) by (simp add: onward_def)
      moreover have "\<not> waits q1 r" using a by (simp add: aside_def)
      ultimately have "aside r q1 q'" using Cons.IH[OF conjunct1[OF st] _ _ _ _ _ run] Cons.prems(3,5) by simp
      with a show ?thesis by (rule aside_trans)
    qed
  qed
qed

lemma requeue_append: "requeue w n (xs @ ys) q = and_then (requeue w n xs) (\<lambda>_. requeue w n ys) q"
  by (induction xs arbitrary: q) (simp_all add: and_then_def split: prod.split sum.split)

section \<open>Dropped jobs and poisoned queues\<close>

text \<open>A job that is pending and stands in no queue.\<close>

definition stranded :: "job_queue \<Rightarrow> int \<Rightarrow> bool" where
  "stranded q i =
     (case od_get (jq_jobs q) i of None \<Rightarrow> False | Some r \<Rightarrow> j_pending (the_job q r) \<and> \<not> waits q r)"

text \<open>
  The end of a change of the machines: the queues are emptied, and the pending jobs are queued
  in the order of creation. Jobs further on stand aside until it is their turn.
\<close>

lemma leave_until:
  assumes w: "fair_world w" and q: "state_ok b q" and p: "jq_postpone q = 1" and jobs: "jq_jobs q = pre @ (i, r) # post"
  obtains o1 :: "unit res" and q1 where
    "leave w q = (case o1 of Inl e \<Rightarrow> (Inl e, q1) | Inr u \<Rightarrow> requeue w (length (jq_jobs q)) (r # map snd post) q1)"
    "state_ok False q1" "jq_postpone q1 = 0" "\<And>s. s \<notin> snd ` set pre \<Longrightarrow> aside s q q1"
proof -
  let ?q = "q\<lparr>jq_postpone := 0\<rparr>"
  define c where "c = clear_queues ?q"
  have qo: "queue_ok ?q" "named_ok ?q" "machines_valid ?q"
    using state_okD[OF q] by (simp_all add: named_ok_def machines_valid_def)
  note cl = clear_state_ok[OF qo(1) _ qo(2,3), folded c_def, simplified]
  have sm: "same_but_lines ?q c" and e: "\<forall>m\<in>machine_refs q. m_queue (the_machine c m) = []"
    using clear_queues_ok[OF qo(1)] by (simp_all add: c_def)
  have J: "the_job c s = the_job q s" for s using same_but_lines_job[OF sm] by (simp add: the_job_def)
  have M: "jq_machines c = jq_machines q" "jq_jobs c = jq_jobs q" "jq_postpone c = 0" "m_tags (the_machine c m) = m_tags (the_machine q m)" for m
    using sm by (simp_all add: same_but_lines_def the_machine_def)
  have none: "\<not> waits c s" for s using e M(1) by (simp add: waits_def)
  have ac: "aside s q c" for s using none same_candidates[OF M(1,4)] by (simp add: aside_def J M(2))
  have so: "sorted_wrt (<) (map snd pre @ r # map snd post)" using qo(1) jobs by (simp add: queue_ok_def jobs_ok_def)
  obtain o1 q1 where pre: "requeue w (length (jq_jobs q)) (map snd pre) c = (o1, q1)" by fastforce
  have "leave w q = requeue w (length (jq_jobs q)) (map snd pre @ r # map snd post) c"
    using p jobs by (simp add: leave_def regenerate_queues_def c_def)
  then have "leave w q = (case o1 of Inl e \<Rightarrow> (Inl e, q1) | Inr u \<Rightarrow> requeue w (length (jq_jobs q)) (r # map snd post) q1)"
    unfolding requeue_append and_then_def pre by simp
  moreover have "state_ok False q1 \<and> jq_postpone q1 = 0"
    using requeue_step[OF w cl(1) M(3) _ _ pre] so cl(2) M(3) by (auto simp: sorted_wrt_append onward_def)
  moreover have "aside s q q1" if "s \<notin> snd ` set pre" for s
    using aside_trans[OF ac requeue_other[OF w cl(1) M(3) _ _ _ none pre]] so cl(2) that by (simp add: sorted_wrt_append)
  ultimately show thesis using that by blast
qed

lemma stranded_aside:
  assumes q: "jobs_ok q" "jobs_ok q'" and k: "(k, s) \<in> set (jq_jobs q)" "j_pending (the_job q s)" and a: "aside s q q'"
  shows "stranded q' k"
proof -
  have "(k, s) \<in> set (jq_jobs q')" using a k(1) by (simp add: aside_def)
  then have "od_get (jq_jobs q') k = Some s" using q(2) unfolding jobs_ok_def by (simp add: map_of_is_SomeI)
  then show ?thesis using a k(2) by (simp add: stranded_def aside_def)
qed

text \<open>
  C25. Jobs are dropped from all queues. When the context manager of the queue ends, the machines
  were changed, and a pending job that is not the last one has no machine any more (none has
  its name, or its tags), the queues are not all filled again: the operation raises, whatever
  the rest of the state, and every pending job after that job is left behind, pending but in
  no queue.
\<close>

theorem regenerate_drops_jobs:
  assumes h: "jq_history w b q" "fair_world w" and p: "jq_postpone q = 1"
    and jobs: "jq_jobs q = pre @ (i, r) # post" "post \<noteq> []"
    and r: "j_pending (the_job q r)" "candidate_machines q (the_job q r) = []"
  shows "\<exists>e q'. leave w q = (Inl e, q') \<and> (\<forall>(k, s)\<in>set post. j_pending (the_job q s) \<longrightarrow> stranded q' k)"
proof -
  have q: "state_ok b q" by (rule history_state_ok[OF h(2,1)])
  then have jo: "jobs_ok q" by (simp add: state_ok_def queue_ok_def)
  obtain o1 :: "unit res" and q1 where l: "leave w q = (case o1 of Inl e \<Rightarrow> (Inl e, q1) | Inr u \<Rightarrow> requeue w (length (jq_jobs q)) (r # map snd post) q1)"
    and q1: "state_ok False q1" "jq_postpone q1 = 0" and a: "\<And>s. s \<notin> snd ` set pre \<Longrightarrow> aside s q q1"
    by (rule leave_until[OF h(2) q p jobs(1)]) (rule that)
  have later: "s \<notin> snd ` set pre \<and> s \<noteq> r \<and> r \<notin> snd ` set pre" if "(k, s) \<in> set post" for k s
    using jo jobs(1) that unfolding jobs_ok_def by (force simp: sorted_wrt_append)
  have ar: "aside r q q1" using a later jobs(2) by (metis list.set_intros(1) neq_Nil_conv surj_pair)
  have jo1: "jobs_ok q1" using q1(1) by (simp add: state_ok_def queue_ok_def)
  have finish: ?thesis if "leave w q = (Inl e, q')" "jobs_ok q'" "\<And>k s. (k, s) \<in> set post \<Longrightarrow> aside s q q'" for e q'
    using that stranded_aside[OF jo that(2)] jobs(1) by (intro exI[of _ e] exI[of _ q']) auto
  have stop: ?thesis if "leave w q = (Inl e, q1)" for e using finish[OF that jo1] a later by blast
  show ?thesis
  proof (cases o1)
    case (Inl e)
    with stop l show ?thesis by simp
  next
    case (Inr u)
    show ?thesis
    proof (cases "length (jq_jobs q1) = length (jq_jobs q)")
      case False
      with stop l Inr show ?thesis by simp
    next
      case n: True
      have j: "the_job q1 r = the_job q r" "candidate_machines q1 (the_job q1 r) = []" using ar r(2) by (simp_all add: aside_def)
      have "(i, r) \<in> set (jq_jobs q1)" using ar jobs(1) by (simp add: aside_def)
      then have id: "j_id (the_job q1 r) = i" "od_get (jq_jobs q1) i = Some r" using jo1 unfolding jobs_ok_def by (auto simp: map_of_is_SomeI)
      have pr: "j_pending (the_job q1 r)" using j(1) r(1) by simp
      obtain o2 q2 where d: "destroy_job w i (Some ''No suitable machines available.'') q1 = (o2, q2)" by fastforce
      obtain o3 q3 where pq: "process_queue w q2 = (o3, q3)" by fastforce
      have en: "enqueue_job w r q1 = (case o2 of Inl e \<Rightarrow> (Inl e, q2) | Inr u \<Rightarrow> (o3, q3))"
        using q1(2) j(2) id(1) d pq by (simp add: enqueue_job_def Let_def and_then_def split: sum.split)
      have ok2: "state_ok False q2" by (rule destroy_job_ok[OF h(2) q1(1) d])
      note p3 = process_queue_ok[OF h(2) ok2 pq]
      have others: "aside s q q2 \<and> aside s q q3" if "(k, s) \<in> set post" for k s
      proof -
        have s: "s \<noteq> r" "aside s q q1" using later[OF that] a by blast+
        then have "\<not> waits q1 s" by (simp add: aside_def)
        then have "aside s q1 q2" using destroy_other[OF h(2) q1(1) id(2) pr s(1) _ d] by blast
        moreover from this have "aside s q2 q3" using advanced_aside[OF conjunct2[OF p3]] aside_waits by blast
        ultimately show ?thesis using s(2) aside_trans by blast
      qed
      obtain k0 s0 where k0: "(k0, s0) \<in> set post" using jobs(2) by (cases post) auto
      have "length (jq_jobs q2) < length (jq_jobs q1)"
        using destroy_other[OF h(2) q1(1) id(2) pr _ _ d, of s0] later[OF k0] a[of s0] by (auto simp: aside_def)
      moreover have "jq_jobs q3 = jq_jobs q2" using p3 by (simp add: advanced_def frame_kept_def)
      ultimately have len: "length (jq_jobs q3) \<noteq> length (jq_jobs q)" using n by simp
      have run: "leave w q = and_then (enqueue_job w r) (\<lambda>_. requeue w (length (jq_jobs q)) (map snd post)) q1"
        using l Inr n pr by simp
      have jo23: "jobs_ok q2" "jobs_ok q3" using ok2 p3 by (simp_all add: state_ok_def queue_ok_def)
      show ?thesis
      proof (cases o2)
        case (Inl e)
        with run en have "leave w q = (Inl e, q2)" by (simp add: and_then_def)
        from finish[OF this jo23(1)] others show ?thesis by blast
      next
        case o2: (Inr v)
        show ?thesis
        proof (cases o3)
          case (Inl e)
          with run en o2 have "leave w q = (Inl e, q3)" by (simp add: and_then_def)
          from finish[OF this jo23(2)] others show ?thesis by blast
        next
          case (Inr x)
          with run en o2 len jobs(2) have "leave w q = (Inl RuntimeError, q3)" by (cases post) (simp_all add: and_then_def)
          from finish[OF this jo23(2)] others show ?thesis by blast
        qed
      qed
    qed
  qed
qed

text \<open>
  C26. A refused request spoils the queue. As long as a job is pending whose request is one that
  allocators refuse with an exception (torus connectivity for a single board; \<open>create_job\<close> raises
  ValueError for it but leaves the job behind), and some machine has its name or tags, every change
  of the machines raises, whatever else happened and whatever the changes were; and
  afterwards the job is there as before, so that the next change raises too.
\<close>

theorem refused_request_poisons:
  assumes h: "jq_history w b q" "fair_world w" and p: "jq_postpone q = 1"
    and i: "od_get (jq_jobs q) i = Some r" and r: "j_pending (the_job q r)" "\<not> askable (the_job q r)"
    and m: "candidate_machines q (the_job q r) \<noteq> []"
  shows "\<exists>e q'. leave w q = (Inl e, q') \<and> stranded q' i \<and> od_get (jq_jobs q') i = Some r \<and> the_job q' r = the_job q r \<and>
    candidate_machines q' (the_job q r) = candidate_machines q (the_job q r)"
proof -
  have q: "state_ok b q" by (rule history_state_ok[OF h(2,1)])
  then have jo: "jobs_ok q" by (simp add: state_ok_def queue_ok_def)
  obtain pre post where jobs: "jq_jobs q = pre @ (i, r) # post" using split_list[OF map_of_SomeD[OF i]] by blast
  obtain o1 :: "unit res" and q1 where l: "leave w q = (case o1 of Inl e \<Rightarrow> (Inl e, q1) | Inr u \<Rightarrow> requeue w (length (jq_jobs q)) (r # map snd post) q1)"
    and q1: "state_ok False q1" "jq_postpone q1 = 0" and a: "\<And>s. s \<notin> snd ` set pre \<Longrightarrow> aside s q q1"
    by (rule leave_until[OF h(2) q p jobs]) (rule that)
  have "r \<notin> snd ` set pre" using jo jobs unfolding jobs_ok_def by (force simp: sorted_wrt_append)
  then have ar: "aside r q q1" by (rule a)
  then have same: "the_job q1 r = the_job q r" "candidate_machines q1 (the_job q r) = candidate_machines q (the_job q r)"
    and i1: "(i, r) \<in> set (jq_jobs q1)"
    using jobs by (simp_all add: aside_def)
  obtain k ks where k: "candidate_machines q (the_job q r) = k # ks" using m by (cases "candidate_machines q (the_job q r)") auto
  obtain e where e: "alloc_possible (j_args (the_job q r)) (j_kwargs (the_job q r)) (m_allocator (the_machine q1 k)) = Inl e"
    using r(2) by (cases "alloc_type (j_args (the_job q r)) (kw_require_torus (j_kwargs (the_job q r)))")
      (auto simp: askable_def alloc_possible_def)
  have "enqueue_job w r q1 = (Inl e, q1)"
    using q1(2) same k e by (simp add: enqueue_job_def Let_def and_then_def)
  then have "\<exists>e. leave w q = (Inl e, q1)"
    using l r(1) same(1) by (cases o1) (auto simp: and_then_def)
  then obtain e where "leave w q = (Inl e, q1)" ..
  moreover have jo1: "jobs_ok q1" using q1(1) by (simp add: state_ok_def queue_ok_def)
  moreover have "od_get (jq_jobs q1) i = Some r" using i1 jo1 unfolding jobs_ok_def by (simp add: map_of_is_SomeI)
  moreover have "stranded q1 i" using stranded_aside[OF jo jo1 map_of_SomeD[OF i] r(1) ar] .
  ultimately show ?thesis using same by blast
qed

section \<open>Runs\<close>

text \<open>
  Two machines of one triad, with a job running on and a job waiting for each; then the first machine is
  removed inside the context manager of the queue.
\<close>

definition two_machines :: job_queue where
  "two_machines = snd (add_machine calm ''b'' 1 1 None {} {} (snd (add_machine calm ''a'' 1 1 None {} {} (new_job_queue 0))))"

definition ask_for :: "int \<Rightarrow> string \<Rightarrow> job_queue \<Rightarrow> job_queue" where
  "ask_for i name q = snd (create_job calm (Some i) (Some name) None (Block 1 1) plain q)"

definition twin :: job_queue where
  "twin = ask_for 4 ''b'' (ask_for 3 ''b'' (ask_for 2 ''a'' (ask_for 1 ''a'' two_machines)))"

definition without_a :: job_queue where
  "without_a = snd (remove_machine calm ''a'' (enter twin))"

lemma without_a_history: "\<exists>b. jq_history calm b without_a"
proof -
  have "\<exists>b. jq_history calm b (snd (add_machine calm name 1 1 None {} {} q))" if "\<exists>b. jq_history calm b q" for name q
    using that by (elim exE) (rule exI, rule jh_add[OF _ _ _ prod.collapse[symmetric]], simp_all)
  moreover have "\<exists>b. jq_history calm b (ask_for i name q)" if "\<exists>b. jq_history calm b q" for i name q
    unfolding ask_for_def
    using that by (elim exE) (rule exI, rule jh_create[OF _ _ prod.collapse[symmetric]], simp_all add: request_ok_def plain_def)
  moreover have "\<exists>b. jq_history calm b (new_job_queue 0)" by (rule exI) (rule jh_new)
  ultimately have "\<exists>b. jq_history calm b twin" unfolding twin_def two_machines_def by simp
  then obtain b where "jq_history calm b twin" ..
  then have "jq_history calm True (enter twin)" by (rule jh_enter)
  then show ?thesis unfolding without_a_def by (intro exI) (rule jh_remove[OF _ prod.collapse[symmetric]])
qed

definition drops_jobs :: "job_queue \<Rightarrow> bool" where
  "drops_jobs q \<longleftrightarrow> jq_postpone q = 1 \<and> jq_jobs q = [(2, 1), (3, 2), (4, 3)] \<and> j_pending (the_job q 1) \<and>
     j_pending (the_job q 3) \<and> candidate_machines q (the_job q 1) = []"

lemma without_a_facts: "drops_jobs without_a"
  by code_simp

theorem regenerate_drops_jobs_witness: "\<exists>e q. leave calm without_a = (Inl e, q) \<and> stranded q 4"
proof -
  obtain b where b: "jq_history calm b without_a" using without_a_history ..
  have f: "jq_postpone without_a = 1" "jq_jobs without_a = [] @ (2, 1) # [(3, 2), (4, 3)]" "j_pending (the_job without_a 1)"
    "j_pending (the_job without_a 3)" "candidate_machines without_a (the_job without_a 1) = []"
    using without_a_facts by (simp_all add: drops_jobs_def)
  from regenerate_drops_jobs[OF b calm_fair f(1,2) _ f(3,5)] f(4) show ?thesis by auto
qed

text \<open>The reports about one job.\<close>

definition free_reports :: "int \<Rightarrow> unit res \<times> job_queue \<Rightarrow> nat" where
  "free_reports i p =
     length (filter (\<lambda>ev. case ev of On_free k _ \<Rightarrow> k = i | _ \<Rightarrow> False) (jq_events (snd p)))"

text \<open>
  A job can be reported freed twice: destroyed by its owner, and then, while its boards are
  still being powered down, destroyed again because its machine is removed.
\<close>

theorem freed_twice:
  "free_reports 1 (and_then (destroy_job calm 1 None) (\<lambda>_. remove_machine calm ''m'') demo1) = 2"
  by code_simp

text \<open>A request that is refused with ValueError and leaves its job behind.\<close>

definition poison :: "unit res \<times> job_queue" where
  "poison = create_job calm (Some 5) None None (Num 1) (plain\<lparr>kw_require_torus := True\<rparr>) demo1"

lemma poison_history: "\<exists>b. jq_history calm b (enter (snd poison))"
proof -
  have "\<exists>b. jq_history calm b (snd poison)" unfolding poison_def
    by (rule exI, rule jh_create[OF demo_history(2) _ prod.collapse[symmetric]]) (code_simp)
  then show ?thesis using jh_enter by blast
qed

lemma poison_facts:
  "fst poison = Inl ValueError \<and> jq_postpone (enter (snd poison)) = 1 \<and> od_get (jq_jobs (enter (snd poison))) 5 = Some 1 \<and>
   j_pending (the_job (enter (snd poison)) 1) \<and> \<not> askable (the_job (enter (snd poison)) 1) \<and>
   (candidate_machines (enter (snd poison)) (the_job (enter (snd poison)) 1) \<noteq> []) = True"
  by code_simp

theorem refused_request_poisons_witness:
  "fst poison = Inl ValueError \<and> (\<exists>e q. leave calm (enter (snd poison)) = (Inl e, q) \<and> stranded q 5)"
proof -
  obtain b where b: "jq_history calm b (enter (snd poison))" using poison_history ..
  have f: "fst poison = Inl ValueError" "jq_postpone (enter (snd poison)) = 1" "od_get (jq_jobs (enter (snd poison))) 5 = Some 1"
    "j_pending (the_job (enter (snd poison)) 1)" "\<not> askable (the_job (enter (snd poison)) 1)"
    "candidate_machines (enter (snd poison)) (the_job (enter (snd poison)) 1) \<noteq> []"
    using poison_facts by simp_all
  from refused_request_poisons[OF b calm_fair f(2-6)] f(1) show ?thesis by blast
qed

end
