(* ===== verification/IpAddresses.thy ===== *)
theory IpAddresses
  imports Prelude
begin

unbundle bit_operations_syntax

text \<open>
  IPv4 addresses as text and as integers: \<open>ip_to_int\<close> and \<open>int_to_ip\<close>, the two functions local
  to \<open>Machine.with_standard_ips\<close> (\<open>configuration.py\<close>). A string is a list of characters with
  codes below 256. Of these, the pattern \<open>\d\<close> matches the ten decimal digits only.
\<close>

section \<open>Decimal numbers\<close>

definition is_digit :: "char \<Rightarrow> bool" where
  "is_digit c \<longleftrightarrow> 48 \<le> (of_char c :: int) \<and> (of_char c :: int) \<le> 57"

definition digit_value :: "char \<Rightarrow> int" where
  "digit_value c = of_char c - 48"

definition digit_char :: "int \<Rightarrow> char" where
  "digit_char d = char_of (d + 48)"

text \<open>\<open>int(s)\<close> of a string of digits, and \<open>str(n)\<close> of a number that is not negative.\<close>

definition int_of_digits :: "string \<Rightarrow> int" where
  "int_of_digits s = fold (\<lambda>c n. n * 10 + digit_value c) s 0"

function str_of_int :: "int \<Rightarrow> string" where
  "str_of_int n =
     (if n < 10 then [digit_char n] else str_of_int (n div 10) @ [digit_char (n mod 10)])"
  by auto
termination by (relation "measure nat") auto

declare str_of_int.simps [simp del]

lemma digit_char_props [simp]:
  assumes "0 \<le> d" "d < 10"
  shows "is_digit (digit_char d)" "digit_value (digit_char d) = d"
proof -
  have "(of_char (char_of (d + 48) :: char) :: int) = d + 48"
    using assms by (simp only: of_char_of) simp
  then show "is_digit (digit_char d)" "digit_value (digit_char d) = d"
    using assms by (simp_all add: is_digit_def digit_value_def digit_char_def)
qed

lemma int_of_digits_snoc [simp]: "int_of_digits (s @ [c]) = int_of_digits s * 10 + digit_value c"
  by (simp add: int_of_digits_def)

lemma str_of_int_not_Nil [simp]: "str_of_int n \<noteq> []"
  by (subst str_of_int.simps) simp

lemma str_of_int_digits: "0 \<le> n \<Longrightarrow> c \<in> set (str_of_int n) \<Longrightarrow> is_digit c"
proof (induction n rule: str_of_int.induct)
  case (1 n)
  then show ?case by (subst (asm) (2) str_of_int.simps) (auto split: if_splits)
qed

lemma int_of_str_of_int [simp]: "0 \<le> n \<Longrightarrow> int_of_digits (str_of_int n) = n"
proof (induction n rule: str_of_int.induct)
  case (1 n)
  show ?case
  proof (cases "n < 10")
    case True
    with 1 show ?thesis by (subst str_of_int.simps) (simp add: int_of_digits_def)
  next
    case False
    with 1 show ?thesis by (subst str_of_int.simps) simp
  qed
qed

section \<open>The two functions\<close>

definition newline :: char where
  "newline = CHR 0x0A"

text \<open>
  The pattern \<open>^(\d+).(\d+).(\d+).(\d+)$\<close>: the search for n further groups after the first,
  each as long as possible, with any character but a newline between two groups. The final
  \<open>$\<close> also matches before a newline that ends the string.
\<close>

fun first_some :: "('a \<Rightarrow> 'b option) \<Rightarrow> 'a list \<Rightarrow> 'b option" where
  "first_some f [] = None"
| "first_some f (x # xs) = (case f x of None \<Rightarrow> first_some f xs | Some y \<Rightarrow> Some y)"

definition group_lengths :: "string \<Rightarrow> nat list" where
  "group_lengths s = rev [1..<Suc (length (takeWhile is_digit s))]"

fun match_groups :: "nat \<Rightarrow> string \<Rightarrow> string list option" where
  "match_groups 0 s =
     first_some (\<lambda>k. if drop k s = [] \<or> drop k s = [newline] then Some [take k s] else None)
       (group_lengths s)"
| "match_groups (Suc n) s =
     first_some (\<lambda>k. case drop k s of
         [] \<Rightarrow> None
       | c # rest \<Rightarrow>
           if c = newline then None
           else map_option (\<lambda>gs. take k s # gs) (match_groups n rest))
       (group_lengths s)"

definition add_group :: "int \<Rightarrow> int \<Rightarrow> int res" where
  "add_group g n =
     (if g AND NOT 0xFF \<noteq> 0 then Inl ValueError else Inr (push_bit 8 n OR g))"

definition ip_to_int :: "string \<Rightarrow> int res" where
  "ip_to_int ip =
     (case match_groups 3 ip of
        None \<Rightarrow> Inl ValueError
      | Some groups \<Rightarrow> fold_res add_group (map int_of_digits groups) 0)"

definition int_to_ip :: "int \<Rightarrow> string" where
  "int_to_ip n =
     (let byte = (\<lambda>b. str_of_int (drop_bit b n AND 0xFF))
      in byte 24 @ ''.'' @ byte 16 @ ''.'' @ byte 8 @ ''.'' @ byte 0)"

section \<open>Lemmas\<close>

text \<open>The first group takes all digits when what follows then matches.\<close>

lemma takeWhile_digits:
  "(\<And>c. c \<in> set g \<Longrightarrow> is_digit c) \<Longrightarrow> \<not> is_digit c \<Longrightarrow> takeWhile is_digit (g @ c # r) = g"
  "(\<And>c. c \<in> set g \<Longrightarrow> is_digit c) \<Longrightarrow> takeWhile is_digit g = g"
  by (induction g) auto

lemma group_lengths_eq:
  "takeWhile is_digit s = g \<Longrightarrow> g \<noteq> [] \<Longrightarrow> \<exists>ks. group_lengths s = length g # ks"
  by (cases "length g") (auto simp: group_lengths_def)

lemma match_groups_step:
  assumes "\<And>c. c \<in> set g \<Longrightarrow> is_digit c" "g \<noteq> []" "\<not> is_digit c" "c \<noteq> newline" "match_groups n r = Some gs"
  shows "match_groups (Suc n) (g @ c # r) = Some (g # gs)"
proof -
  obtain ks where "group_lengths (g @ c # r) = length g # ks"
    using group_lengths_eq[OF takeWhile_digits(1)] assms(1-3) by blast
  with assms(4,5) show ?thesis by simp
qed

lemma match_groups_last:
  assumes "\<And>c. c \<in> set g \<Longrightarrow> is_digit c" "g \<noteq> []"
  shows "match_groups 0 g = Some [g]"
proof -
  obtain ks where "group_lengths g = length g # ks"
    using group_lengths_eq[OF takeWhile_digits(2)] assms by blast
  then show ?thesis by simp
qed

lemma low_byte: "(n::int) AND 0xFF = n mod 256"
  using take_bit_eq_mask[of 8 n] by (simp add: take_bit_eq_mod mask_eq_exp_minus_1)

lemma low_byte_bits: "(n::int) AND 0xFF = take_bit 8 n"
  using take_bit_eq_mask[of 8 n] by (simp add: mask_eq_exp_minus_1)

lemma high_bytes: "(n::int) AND NOT 0xFF = n div 256 * 256"
proof -
  have "n AND NOT (mask 8) = push_bit 8 (drop_bit 8 n)"
    by (rule bit_eqI) (auto simp: bit_simps)
  then show ?thesis by (simp add: mask_eq_exp_minus_1 push_bit_eq_mult drop_bit_eq_div)
qed

lemma push_byte: "0 \<le> d \<Longrightarrow> d < 256 \<Longrightarrow> push_bit 8 n OR d = n * 256 + (d::int)"
proof -
  assume d: "0 \<le> d" "d < 256"
  have "push_bit 8 n AND d = 0"
  proof (rule bit_eqI)
    fix k
    show "bit (push_bit 8 n AND d) k = bit (0::int) k"
    proof (cases "k < 8")
      case False
      have "take_bit 8 d = d" using d by (simp add: take_bit_eq_mod)
      then have "\<not> bit d k" using False by (metis bit_take_bit_iff)
      then show ?thesis by (simp add: bit_and_iff)
    qed (simp add: bit_and_iff bit_push_bit_iff)
  qed
  then have "push_bit 8 n OR d = push_bit 8 n + d" by (metis disjunctive_add bit_0_eq bit_and_iff bot_apply bot_bool_def)
  then show ?thesis by (simp add: push_bit_eq_mult)
qed

lemma add_group_eq:
  assumes "0 \<le> g"
  shows "add_group g n = (if g < 256 then Inr (n * 256 + g) else Inl ValueError)"
proof -
  have "(g AND NOT 0xFF \<noteq> 0) = (256 \<le> g)" using assms unfolding high_bytes by auto
  then show ?thesis unfolding add_group_def using assms push_byte[of g n] by auto
qed

text \<open>Four numbers with separators between them.\<close>

definition address :: "char \<Rightarrow> char \<Rightarrow> char \<Rightarrow> int \<Rightarrow> int \<Rightarrow> int \<Rightarrow> int \<Rightarrow> string" where
  "address s1 s2 s3 a b c d =
     str_of_int a @ s1 # str_of_int b @ s2 # str_of_int c @ s3 # str_of_int d"

definition separator :: "char \<Rightarrow> bool" where
  "separator c \<longleftrightarrow> \<not> is_digit c \<and> c \<noteq> newline"

lemma match_address:
  assumes "separator s1" "separator s2" "separator s3" "0 \<le> a" "0 \<le> b" "0 \<le> c" "0 \<le> d"
  shows "match_groups 3 (address s1 s2 s3 a b c d) = Some (map str_of_int [a, b, c, d])"
proof -
  have *: "\<And>x. x \<in> set (str_of_int n) \<Longrightarrow> is_digit x" if "0 \<le> n" for n
    using str_of_int_digits that by blast
  have "match_groups (Suc (Suc (Suc 0))) (address s1 s2 s3 a b c d) = Some (map str_of_int [a, b, c, d])"
    unfolding address_def list.map using assms
    by (intro match_groups_step match_groups_last *) (simp_all add: separator_def)
  then show ?thesis by (simp only: eval_nat_numeral BitM.simps)
qed

lemma ip_to_int_address:
  assumes "separator s1" "separator s2" "separator s3" "0 \<le> a" "0 \<le> b" "0 \<le> c" "0 \<le> d"
  shows "ip_to_int (address s1 s2 s3 a b c d) =
    (if a < 256 \<and> b < 256 \<and> c < 256 \<and> d < 256 then Inr (((a * 256 + b) * 256 + c) * 256 + d)
     else Inl ValueError)"
  unfolding ip_to_int_def match_address[OF assms] using assms(4-7) by (simp add: add_group_eq)

text \<open>The four bytes of a number make up the number modulo \<open>2 ^ 32\<close>.\<close>

lemma int_to_ip_address:
  "int_to_ip n = address (CHR ''.'') (CHR ''.'') (CHR ''.'')
     (n div 16777216 mod 256) (n div 65536 mod 256) (n div 256 mod 256) (n mod 256)"
  by (simp add: int_to_ip_def Let_def address_def low_byte drop_bit_eq_div)

lemma byte_step: "m = 256 * k \<Longrightarrow> 0 \<le> k \<Longrightarrow> (n::int) mod m = 256 * (n div 256 mod k) + n mod 256"
  by (simp only: zmod_zmult2_eq)

lemma div_step: "m = 256 * k \<Longrightarrow> 0 \<le> k \<Longrightarrow> (n::int) div m = n div 256 div k"
  by (simp only: zdiv_zmult2_eq)

lemma four_bytes:
  "((n div 16777216 mod 256 * 256 + n div 65536 mod 256) * 256 + n div 256 mod 256) * 256 + n mod 256
   = (n::int) mod 4294967296"
proof -
  have d: "n div 65536 = n div 256 div 256" "n div 16777216 = n div 256 div 256 div 256"
    using div_step[of 65536 256 n] div_step[of 16777216 65536 n] div_step[of 65536 256 "n div 256"]
    by (simp_all only:)
  have "n mod 4294967296 = 256 * (n div 256 mod 16777216) + n mod 256"
    by (rule byte_step) simp_all
  moreover have "n div 256 mod 16777216 = 256 * (n div 256 div 256 mod 65536) + n div 256 mod 256"
    by (rule byte_step) simp_all
  moreover have "n div 256 div 256 mod 65536 = 256 * (n div 256 div 256 div 256 mod 256) + n div 256 div 256 mod 256"
    by (rule byte_step) simp_all
  ultimately show ?thesis unfolding d by (simp only: ring_distribs)
qed

lemma byte_of_word: "j \<le> 24 \<Longrightarrow> drop_bit j (take_bit 32 (n::int)) AND 0xFF = drop_bit j n AND 0xFF"
  by (simp add: drop_bit_take_bit low_byte_bits)

lemma int_to_ip_word: "int_to_ip (take_bit 32 n) = int_to_ip n"
  unfolding int_to_ip_def Let_def by (simp add: byte_of_word byte_of_word[of 0, simplified])

lemma ip_to_int_of_int: "ip_to_int (int_to_ip n) = Inr (n mod 2 ^ 32)"
proof -
  have sep: "separator (CHR ''.'')" by (simp add: separator_def is_digit_def newline_def)
  have byte: "0 \<le> x mod 256" "x mod 256 < 256" for x :: int by simp_all
  have "ip_to_int (int_to_ip n) = Inr (n mod 4294967296)"
    unfolding int_to_ip_address ip_to_int_address[OF sep sep sep byte(1) byte(1) byte(1) byte(1)] four_bytes
    by (simp only: byte if_True simp_thms)
  then show ?thesis by simp
qed

lemma int_to_ip_eq: "int_to_ip n = int_to_ip m \<longleftrightarrow> n mod 2 ^ 32 = m mod 2 ^ 32"
  by (metis ip_to_int_of_int int_to_ip_word sum.inject(2) take_bit_eq_mod)

text \<open>
  C40. Addresses round trip. The text of any integer is a well-formed address, and reading it
  gives the integer back modulo \<open>2 ^ 32\<close>: an address computed beyond the end of the address
  space wraps around silently, and two integers get the same text only in this way.
\<close>

theorem ip_roundtrip:
  "ip_to_int (int_to_ip n) = Inr (n mod 2 ^ 32) \<and> (int_to_ip n = int_to_ip m \<longleftrightarrow> n mod 2 ^ 32 = m mod 2 ^ 32)"
  by (simp only: ip_to_int_of_int int_to_ip_eq)

text \<open>
  What is read as an address. The dots of the pattern are not escaped, so that any
  character but a digit or a newline will do between two numbers; of the numbers, each must be
  less than 256, else ValueError is raised.
\<close>

theorem ip_to_int_lenient:
  assumes "\<not> is_digit s1" "\<not> is_digit s2" "\<not> is_digit s3" "newline \<notin> {s1, s2, s3}"
    and "0 \<le> a" "0 \<le> b" "0 \<le> c" "0 \<le> d"
  shows "ip_to_int (str_of_int a @ s1 # str_of_int b @ s2 # str_of_int c @ s3 # str_of_int d) =
    (if a < 256 \<and> b < 256 \<and> c < 256 \<and> d < 256 then Inr (((a * 256 + b) * 256 + c) * 256 + d)
     else Inl ValueError)"
  using assms ip_to_int_address[of s1 s2 s3 a b c d] by (auto simp: separator_def address_def)

lemma ip_examples:
  "str_of_int 10 = ''10''" "str_of_int 1 = ''1''" "str_of_int 300 = ''300''"
  by code_simp+

theorem ip_to_int_lenient_witness:
  "ip_to_int ''10x1 1-1'' = Inr 167837953 \<and> ip_to_int ''10.1.1.300'' = Inl ValueError"
  using ip_to_int_lenient[of "CHR ''x''" "CHR '' ''" "CHR ''-''" 10 1 1 1]
    ip_to_int_lenient[of "CHR ''.''" "CHR ''.''" "CHR ''.''" 10 1 1 300]
  by (simp add: ip_examples is_digit_def newline_def)

end
