(* ===== verification/Configuration.thy ===== *)
theory Configuration
  imports Complex_Main IpAddresses Coordinates
begin

text \<open>
  The configuration (\<open>configuration.py\<close>): the description of a machine and its validation, the
  two constructors for usual machines, and the configuration of the server. An argument whose
  type the code tests is a value of \<open>py_arg\<close>: one of the expected type, or another.
\<close>

section \<open>Machines\<close>

datatype 'a py_arg = Expected 'a | Other_type

type_synonym frame = "int \<times> int"

record machine_config =
  mc_name :: string
  mc_tags :: "string set"
  mc_width :: int
  mc_height :: int
  mc_dead_boards :: "board set"
  mc_dead_links :: "board_link set"
  mc_board_locations :: "(board, board) odict"
  mc_bmp_ips :: "(frame, string) odict"
  mc_spinnaker_ips :: "(board, string) odict"

definition empty_default_dict :: "('k, 'v) odict option \<Rightarrow> ('k, 'v) odict" where
  "empty_default_dict d = (case d of None \<Rightarrow> [] | Some d \<Rightarrow> d)"

text \<open>
  The dimensions, when neither is given: one more than the largest coordinates. Without any
  board there is nothing to unpack.
\<close>

definition infer_dimensions :: "board set \<Rightarrow> (int \<times> int) res" where
  "infer_dimensions boards =
     (if boards = {} then Inl ValueError
      else Inr (Max (fst ` boards) + 1, Max ((fst \<circ> snd) ` boards) + 1))"

definition machine_dimensions :: "int option \<Rightarrow> int option \<Rightarrow> board set \<Rightarrow> (int \<times> int) res" where
  "machine_dimensions width height boards =
     (case (width, height) of
        (None, None) \<Rightarrow> infer_dimensions boards
      | (Some w, Some h) \<Rightarrow> Inr (w, h)
      | _ \<Rightarrow> Inl TypeError)"

definition in_system :: "int \<Rightarrow> int \<Rightarrow> board \<Rightarrow> bool" where
  "in_system width height b =
     (case b of (x, y, z) \<Rightarrow> 0 \<le> x \<and> x < width \<and> 0 \<le> y \<and> y < height \<and> 0 \<le> z \<and> z < 3)"

text \<open>The loop over the items of \<open>board_locations\<close>; its result is the set of locations.\<close>

fun check_locations :: "int \<Rightarrow> int \<Rightarrow> (board \<times> board) list \<Rightarrow> board set \<Rightarrow> board set res" where
  "check_locations width height [] locations = Inr locations"
| "check_locations width height ((b, cfb) # rest) locations =
     (if \<not> in_system width height b then Inl ValueError
      else if cfb \<in> locations then Inl ValueError
      else check_locations width height rest (insert cfb locations))"

definition live_boards :: "int \<Rightarrow> int \<Rightarrow> board set \<Rightarrow> board set" where
  "live_boards width height dead =
     set [(x, y, z). x \<leftarrow> [0..width - 1], y \<leftarrow> [0..height - 1], z \<leftarrow> [0, 1, 2], (x, y, z) \<notin> dead]"

definition new_machine ::
    "string \<Rightarrow> string set py_arg \<Rightarrow> int option \<Rightarrow> int option \<Rightarrow> board set py_arg \<Rightarrow>
     board_link set py_arg \<Rightarrow> (board, board) odict option \<Rightarrow> (frame, string) odict option \<Rightarrow>
     (board, string) odict option \<Rightarrow> machine_config res"
where
  "new_machine name tags width height dead_boards dead_links board_locations bmp_ips spinnaker_ips =
     (case (tags, dead_boards, dead_links) of
        (Expected tags, Expected dead_boards, Expected dead_links) \<Rightarrow>
          (let board_locations = empty_default_dict board_locations;
               bmp_ips = empty_default_dict bmp_ips;
               spinnaker_ips = empty_default_dict spinnaker_ips
           in case machine_dimensions width height (fst ` set board_locations \<union> dead_boards) of
                Inl e \<Rightarrow> Inl e
              | Inr (width, height) \<Rightarrow>
                  if \<not> (\<forall>b\<in>dead_boards. in_system width height b) then Inl ValueError
                  else if \<not> (\<forall>(x, y, z, l)\<in>dead_links. in_system width height (x, y, z)) then Inl ValueError
                  else case check_locations width height board_locations {} of
                    Inl e \<Rightarrow> Inl e
                  | Inr locations \<Rightarrow>
                      let live = live_boards width height dead_boards
                      in if \<not> live \<subseteq> fst ` set board_locations then Inl ValueError
                         else if \<not> (\<lambda>(c, f, b). (c, f)) ` locations \<subseteq> fst ` set bmp_ips then Inl ValueError
                         else if \<not> live \<subseteq> fst ` set spinnaker_ips then Inl ValueError
                         else Inr \<lparr> mc_name = name, mc_tags = tags, mc_width = width,
                                mc_height = height, mc_dead_boards = dead_boards,
                                mc_dead_links = dead_links, mc_board_locations = board_locations,
                                mc_bmp_ips = bmp_ips, mc_spinnaker_ips = spinnaker_ips \<rparr>)
      | _ \<Rightarrow> Inl TypeError)"

definition single_board ::
    "string \<Rightarrow> string set py_arg \<Rightarrow> string option \<Rightarrow> string option \<Rightarrow> machine_config res"
where
  "single_board name tags bmp_ip spinnaker_ip =
     (case (bmp_ip, spinnaker_ip) of
        (Some bmp, Some spinn) \<Rightarrow>
          new_machine name tags (Some 1) (Some 1) (Expected {(0, 0, 1), (0, 0, 2)}) (Expected {})
            (Some [((0, 0, 0), (0, 0, 0))]) (Some [((0, 0), bmp)]) (Some [((0, 0, 0), spinn)])
      | _ \<Rightarrow> Inl TypeError)"

section \<open>Standard addresses\<close>

text \<open>The six addresses the scheme is made of, as given and as integers.\<close>

record 'a ip_scheme =
  base_ip :: 'a
  cabinet_stride :: 'a
  frame_stride :: 'a
  board_stride :: 'a
  bmp_offset :: 'a
  spinnaker_offset :: 'a

definition default_scheme :: "string ip_scheme" where
  "default_scheme =
     \<lparr> base_ip = ''192.168.0.0'', cabinet_stride = ''0.0.5.0'', frame_stride = ''0.0.1.0'',
       board_stride = ''0.0.0.8'', bmp_offset = ''0.0.0.0'', spinnaker_offset = ''0.0.0.1'' \<rparr>"

definition parse_scheme :: "string ip_scheme \<Rightarrow> int ip_scheme res" where
  "parse_scheme s =
     (case (ip_to_int (base_ip s), ip_to_int (cabinet_stride s), ip_to_int (frame_stride s),
            ip_to_int (board_stride s), ip_to_int (bmp_offset s), ip_to_int (spinnaker_offset s)) of
        (Inr base, Inr cabinet, Inr frame, Inr board, Inr bmp, Inr spinn) \<Rightarrow>
          Inr \<lparr> base_ip = base, cabinet_stride = cabinet, frame_stride = frame,
                board_stride = board, bmp_offset = bmp, spinnaker_offset = spinn \<rparr>
      | _ \<Rightarrow> Inl ValueError)"

definition bmp_address :: "int ip_scheme \<Rightarrow> frame \<Rightarrow> int" where
  "bmp_address s cf =
     (case cf of (c, f) \<Rightarrow> base_ip s + cabinet_stride s * c + frame_stride s * f + bmp_offset s)"

definition spinnaker_address :: "int ip_scheme \<Rightarrow> board \<Rightarrow> int" where
  "spinnaker_address s cfb =
     (case cfb of (c, f, b) \<Rightarrow>
        base_ip s + cabinet_stride s * c + frame_stride s * f + board_stride s * b + spinnaker_offset s)"

definition standard_bmp_ips :: "int ip_scheme \<Rightarrow> (board, board) odict \<Rightarrow> (frame, string) odict" where
  "standard_bmp_ips s locations =
     map (\<lambda>cf. (cf, int_to_ip (bmp_address s cf))) (remdups (map (\<lambda>(b, c, f, _). (c, f)) locations))"

definition standard_spinnaker_ips ::
    "int ip_scheme \<Rightarrow> (board, board) odict \<Rightarrow> (board, string) odict"
where
  "standard_spinnaker_ips s locations = map (\<lambda>(b, cfb). (b, int_to_ip (spinnaker_address s cfb))) locations"

definition with_standard_ips ::
    "string \<Rightarrow> string set \<Rightarrow> int option \<Rightarrow> int option \<Rightarrow> board set \<Rightarrow> board_link set \<Rightarrow>
     (board, board) odict option \<Rightarrow> string ip_scheme \<Rightarrow> machine_config res"
where
  "with_standard_ips name tags width height dead_boards dead_links board_locations scheme =
     (case parse_scheme scheme of
        Inl e \<Rightarrow> Inl e
      | Inr s \<Rightarrow>
          let locations = empty_default_dict board_locations
          in new_machine name (Expected tags) width height (Expected dead_boards) (Expected dead_links)
               (Some locations) (Some (standard_bmp_ips s locations))
               (Some (standard_spinnaker_ips s locations)))"

section \<open>Board locations from SpiNNer\<close>

text \<open>
  The rows of the CSV file, with the numbers of its columns cabinet, frame, board, x and y.
\<close>

record spinner_row =
  row_cabinet :: int
  row_frame :: int
  row_board :: int
  row_x :: int
  row_y :: int

definition add_chip :: "spinner_row \<Rightarrow> (int \<times> int, board) odict \<Rightarrow> (int \<times> int, board) odict res" where
  "add_chip r chips =
     (if (row_x r, row_y r) \<in> fst ` set chips then Inl AssertionError
      else Inr (od_set (row_x r, row_y r) (row_cabinet r, row_frame r, row_board r) chips))"

definition locate_chip ::
    "eth_geometry \<Rightarrow> int \<Rightarrow> int \<Rightarrow> (int \<times> int) \<times> board \<Rightarrow> (board, board) odict \<Rightarrow> (board, board) odict res"
where
  "locate_chip eth width height entry locations =
     (case entry of ((x, y), cfb) \<Rightarrow>
        case chip_to_board eth x y (width * 12) (height * 12) of
          Inl e \<Rightarrow> Inl e
        | Inr b \<Rightarrow> Inr (od_set b cfb locations))"

definition board_locations_from_spinner ::
    "eth_geometry \<Rightarrow> spinner_row list \<Rightarrow> (board, board) odict res"
where
  "board_locations_from_spinner eth rows =
     (case fold_res add_chip rows [] of
        Inl e \<Rightarrow> Inl e
      | Inr chips \<Rightarrow>
          if chips = [] then Inl ValueError
          else
            let width = Max (fst ` fst ` set chips) div 12 + 1;
                height = Max (snd ` fst ` set chips) div 12 + 1
            in fold_res (locate_chip eth width height) chips [])"

section \<open>The configuration of the server\<close>

record configuration =
  cf_machines :: "machine_config list"
  cf_port :: int
  cf_ip :: string
  cf_timeout_check_interval :: rat
  cf_max_retired_jobs :: int
  cf_seconds_before_free :: rat

record used_names =
  us_names :: "string set"
  us_bmp_ips :: "string set"
  us_spinnaker_ips :: "string set"

definition use_once :: "string \<Rightarrow> string set \<Rightarrow> string set res" where
  "use_once x used = (if x \<in> used then Inl ValueError else Inr (insert x used))"

definition check_machine :: "machine_config py_arg \<Rightarrow> used_names \<Rightarrow> used_names res" where
  "check_machine arg u =
     (case arg of
        Other_type \<Rightarrow> Inl TypeError
      | Expected m \<Rightarrow>
          case use_once (mc_name m) (us_names u) of
            Inl e \<Rightarrow> Inl e
          | Inr names \<Rightarrow>
              (case fold_res use_once (map snd (mc_bmp_ips m)) (us_bmp_ips u) of
                 Inl e \<Rightarrow> Inl e
               | Inr bmps \<Rightarrow>
                   (case fold_res use_once (map snd (mc_spinnaker_ips m)) (us_spinnaker_ips u) of
                      Inl e \<Rightarrow> Inl e
                    | Inr spinns \<Rightarrow>
                        Inr \<lparr> us_names = names, us_bmp_ips = bmps, us_spinnaker_ips = spinns \<rparr>)))"

definition the_arg :: "'a py_arg \<Rightarrow> 'a list" where
  "the_arg a = (case a of Expected x \<Rightarrow> [x] | Other_type \<Rightarrow> [])"

definition new_configuration ::
    "machine_config py_arg list option \<Rightarrow> int \<Rightarrow> string \<Rightarrow> rat \<Rightarrow> int \<Rightarrow> rat \<Rightarrow> configuration res"
where
  "new_configuration machines port ip interval max_retired seconds =
     (let machines = (case machines of None \<Rightarrow> [] | Some ms \<Rightarrow> ms)
      in case fold_res check_machine machines
                \<lparr> us_names = {}, us_bmp_ips = {}, us_spinnaker_ips = {} \<rparr> of
           Inl e \<Rightarrow> Inl e
         | Inr u \<Rightarrow>
             Inr \<lparr> cf_machines = concat (map the_arg machines), cf_port = port, cf_ip = ip,
                   cf_timeout_check_interval = interval, cf_max_retired_jobs = max_retired,
                   cf_seconds_before_free = seconds \<rparr>)"

section \<open>Accepted machines\<close>

text \<open>What the validation promises about a machine.\<close>

definition machine_ok :: "machine_config \<Rightarrow> bool" where
  "machine_ok m \<longleftrightarrow>
     (let inside = in_system (mc_width m) (mc_height m);
          located = fst ` set (mc_board_locations m)
      in (\<forall>b\<in>mc_dead_boards m. inside b) \<and>
         (\<forall>(x, y, z, l)\<in>mc_dead_links m. inside (x, y, z)) \<and>
         (\<forall>b\<in>located. inside b) \<and>
         distinct (map snd (mc_board_locations m)) \<and>
         (\<forall>b. inside b \<and> b \<notin> mc_dead_boards m \<longrightarrow> b \<in> located \<and> b \<in> fst ` set (mc_spinnaker_ips m)) \<and>
         (\<forall>(b, c, f, p)\<in>set (mc_board_locations m). (c, f) \<in> fst ` set (mc_bmp_ips m)))"

lemma live_boards_iff: "b \<in> live_boards w h dead \<longleftrightarrow> in_system w h b \<and> b \<notin> dead"
proof (cases b)
  case (fields x y z)
  have "z = 0 \<or> z = 1 \<or> z = 2" if "0 \<le> z" "z < 3" using that by arith
  then show ?thesis by (auto simp: fields live_boards_def in_system_def)
qed

lemma check_locations_spec:
  "check_locations w h locs seen =
     (if (\<forall>b\<in>fst ` set locs. in_system w h b) \<and> distinct (map snd locs) \<and> snd ` set locs \<inter> seen = {}
      then Inr (seen \<union> snd ` set locs) else Inl ValueError)"
proof (induction w h locs seen rule: check_locations.induct)
  case (2 w h b cfb rest seen)
  then show ?case by (cases "in_system w h b"; cases "cfb \<in> seen") auto
qed simp

lemma new_machine_spec:
  "new_machine name (Expected tags) (Some w) (Some h) (Expected dead) (Expected links) locs bmps spinns =
     (let m = \<lparr> mc_name = name, mc_tags = tags, mc_width = w, mc_height = h, mc_dead_boards = dead,
                mc_dead_links = links, mc_board_locations = empty_default_dict locs,
                mc_bmp_ips = empty_default_dict bmps, mc_spinnaker_ips = empty_default_dict spinns \<rparr>
      in if machine_ok m then Inr m else Inl ValueError)"
proof -
  let ?L = "empty_default_dict locs"
  have f: "((\<lambda>(c, f, b). (c, f)) ` snd ` set ?L \<subseteq> F) = (\<forall>(b, c, f, p)\<in>set ?L. (c, f) \<in> F)" for F :: "frame set"
    by (auto simp: image_subset_iff split: prod.splits)
  have l: "(live_boards w h dead \<subseteq> A \<and> live_boards w h dead \<subseteq> B) =
      (\<forall>b. in_system w h b \<and> b \<notin> dead \<longrightarrow> b \<in> A \<and> b \<in> B)" for A B
    using live_boards_iff by blast
  show ?thesis
    unfolding new_machine_def machine_ok_def Let_def machine_config.select_convs l[symmetric]
    by (simp add: machine_dimensions_def check_locations_spec f)
qed

text \<open>The dimensions that are inferred are the least that hold all boards.\<close>

lemma infer_dimensions_least:
  assumes "finite boards" "infer_dimensions boards = Inr (w, h)"
  shows "(\<forall>(x, y, z)\<in>boards. x < w \<and> y < h) \<and>
    (\<exists>(x, y, z)\<in>boards. x = w - 1) \<and> (\<exists>(x, y, z)\<in>boards. y = h - 1)"
proof -
  from assms have ne: "boards \<noteq> {}" and w: "w = Max (fst ` boards) + 1" and h: "h = Max ((fst \<circ> snd) ` boards) + 1"
    by (auto simp: infer_dimensions_def split: if_splits)
  have "x < w \<and> y < h" if "(x, y, z) \<in> boards" for x y z
  proof -
    have "x \<in> fst ` boards" "y \<in> (fst \<circ> snd) ` boards" using that by force+
    then show ?thesis unfolding w h using assms(1) by (meson Max_ge finite_imageI zle_add1_eq_le)
  qed
  moreover have "Max (fst ` boards) \<in> fst ` boards" "Max ((fst \<circ> snd) ` boards) \<in> (fst \<circ> snd) ` boards"
    using ne assms(1) by (intro Max_in; simp)+
  ultimately show ?thesis unfolding w h by fastforce
qed

lemma machine_dimensions_cases:
  assumes "machine_dimensions width height boards = Inr (w, h)"
  shows "width = Some w \<and> height = Some h \<or>
    width = None \<and> height = None \<and> infer_dimensions boards = Inr (w, h)"
  using assms by (auto simp: machine_dimensions_def split: option.splits)

lemma new_machine_dimensions:
  "machine_dimensions width height (fst ` set (empty_default_dict locs) \<union> dead) = Inr (w, h) \<Longrightarrow>
   new_machine name (Expected tags) width height (Expected dead) (Expected links) locs bmps spinns =
   new_machine name (Expected tags) (Some w) (Some h) (Expected dead) (Expected links) locs bmps spinns"
  by (simp add: new_machine_def machine_dimensions_def Let_def)

lemma new_machine_raises:
  "machine_dimensions width height (fst ` set (empty_default_dict locs) \<union> dead) = Inl e \<Longrightarrow>
   new_machine name (Expected tags) width height (Expected dead) (Expected links) locs bmps spinns = Inl e"
  by (simp add: new_machine_def)

lemma new_machine_Inr:
  assumes "new_machine name (Expected tags) width height (Expected dead) (Expected links) locs bmps spinns = Inr m"
  shows "machine_ok m" and "mc_name m = name" "mc_tags m = tags" "mc_dead_boards m = dead"
    "mc_dead_links m = links" "mc_board_locations m = empty_default_dict locs"
    "mc_bmp_ips m = empty_default_dict bmps" "mc_spinnaker_ips m = empty_default_dict spinns"
    "machine_dimensions width height (fst ` set (empty_default_dict locs) \<union> dead) = Inr (mc_width m, mc_height m)"
proof -
  let ?B = "fst ` set (empty_default_dict locs) \<union> dead"
  from assms obtain w h where d: "machine_dimensions width height ?B = Inr (w, h)"
    by (cases "machine_dimensions width height ?B") (auto simp: new_machine_raises)
  note m = assms[unfolded new_machine_dimensions[OF d] new_machine_spec Let_def]
  from m show "machine_ok m" and "mc_name m = name" "mc_tags m = tags" "mc_dead_boards m = dead"
    "mc_dead_links m = links" "mc_board_locations m = empty_default_dict locs"
    "mc_bmp_ips m = empty_default_dict bmps" "mc_spinnaker_ips m = empty_default_dict spinns"
    "machine_dimensions width height ?B = Inr (mc_width m, mc_height m)"
    by (auto simp: d split: if_splits)
qed

text \<open>
  C39. Validation. A machine is made exactly when its description is consistent; it then has the
  attributes it was given, and the dimensions given or, if both were left out, the least that
  hold all boards named. A consistent machine has each dead board and link inside it, no two
  boards in one place, and a place, an address and a BMP in its frame for each working board.
\<close>

theorem new_machine_valid:
  assumes "new_machine name (Expected tags) width height (Expected dead) (Expected links) locs bmps spinns = Inr m"
    and "finite dead"
  shows "machine_ok m \<and> mc_name m = name \<and> mc_tags m = tags \<and> mc_dead_boards m = dead \<and>
    mc_dead_links m = links \<and> mc_board_locations m = empty_default_dict locs \<and>
    mc_bmp_ips m = empty_default_dict bmps \<and> mc_spinnaker_ips m = empty_default_dict spinns \<and>
    (width = Some (mc_width m) \<and> height = Some (mc_height m) \<or>
     width = None \<and> height = None \<and>
     (\<exists>(x, y, z)\<in>fst ` set (mc_board_locations m) \<union> dead. x = mc_width m - 1) \<and>
     (\<exists>(x, y, z)\<in>fst ` set (mc_board_locations m) \<union> dead. y = mc_height m - 1))"
proof -
  note m = new_machine_Inr[OF assms(1)]
  have f: "finite (fst ` set (empty_default_dict locs) \<union> dead)" using assms(2) by simp
  have "width = Some (mc_width m) \<and> height = Some (mc_height m) \<or>
     width = None \<and> height = None \<and>
     (\<exists>(x, y, z)\<in>fst ` set (mc_board_locations m) \<union> dead. x = mc_width m - 1) \<and>
     (\<exists>(x, y, z)\<in>fst ` set (mc_board_locations m) \<union> dead. y = mc_height m - 1)"
    using machine_dimensions_cases[OF m(9)] infer_dimensions_least[OF f] unfolding m(6) by blast
  with m(1-8) show ?thesis by simp
qed

theorem new_machine_valid_witness:
  "machine_ok \<lparr> mc_name = ''m'', mc_tags = {}, mc_width = 1, mc_height = 1, mc_dead_boards = {(0, 0, 1), (0, 0, 2)},
     mc_dead_links = {}, mc_board_locations = [((0, 0, 0), (0, 0, 5))], mc_bmp_ips = [((0, 0), ''b'')],
     mc_spinnaker_ips = [((0, 0, 0), ''s'')] \<rparr>"
proof -
  have "new_machine ''m'' (Expected {}) None None (Expected {(0, 0, 1), (0, 0, 2)}) (Expected {})
    (Some [((0, 0, 0), (0, 0, 5))]) (Some [((0, 0), ''b'')]) (Some [((0, 0, 0), ''s'')]) = Inr
   \<lparr> mc_name = ''m'', mc_tags = {}, mc_width = 1, mc_height = 1, mc_dead_boards = {(0, 0, 1), (0, 0, 2)},
     mc_dead_links = {}, mc_board_locations = [((0, 0, 0), (0, 0, 5))], mc_bmp_ips = [((0, 0), ''b'')],
     mc_spinnaker_ips = [((0, 0, 0), ''s'')] \<rparr>"
    by (simp add: new_machine_def machine_dimensions_def infer_dimensions_def empty_default_dict_def
        in_system_def live_boards_def Let_def)
  from new_machine_valid[OF this] show ?thesis by simp
qed

text \<open>
  Errors of the validation. With all sets and both dimensions given, an inconsistent
  description raises ValueError; one dimension alone, or an argument that is not a set, raises
  TypeError, whatever else is wrong.
\<close>

theorem new_machine_errors:
  "new_machine name (Expected tags) (Some w) (Some h) (Expected dead) (Expected links) (Some locs) (Some bmps) (Some spinns) =
     (let m = \<lparr> mc_name = name, mc_tags = tags, mc_width = w, mc_height = h, mc_dead_boards = dead,
                mc_dead_links = links, mc_board_locations = locs, mc_bmp_ips = bmps, mc_spinnaker_ips = spinns \<rparr>
      in if machine_ok m then Inr m else Inl ValueError) \<and>
   new_machine name (Expected tags) (Some w) None (Expected dead) (Expected links) locs' bmps' spinns' = Inl TypeError \<and>
   new_machine name (Expected tags) None (Some h) (Expected dead) (Expected links) locs' bmps' spinns' = Inl TypeError \<and>
   new_machine name Other_type width height dead' links' locs' bmps' spinns' = Inl TypeError \<and>
   new_machine name tags' width height Other_type links' locs' bmps' spinns' = Inl TypeError \<and>
   new_machine name tags' width height dead' Other_type locs' bmps' spinns' = Inl TypeError"
  unfolding new_machine_spec empty_default_dict_def
  by (auto simp: new_machine_def machine_dimensions_def split: py_arg.splits)

lemma single_board_ok:
  "single_board name (Expected tags) (Some bmp) (Some spinn) =
     Inr \<lparr> mc_name = name, mc_tags = tags, mc_width = 1, mc_height = 1,
           mc_dead_boards = {(0, 0, 1), (0, 0, 2)}, mc_dead_links = {},
           mc_board_locations = [((0, 0, 0), (0, 0, 0))], mc_bmp_ips = [((0, 0), bmp)],
           mc_spinnaker_ips = [((0, 0, 0), spinn)] \<rparr>"
  by (simp add: single_board_def new_machine_def machine_dimensions_def empty_default_dict_def
      in_system_def live_boards_def Let_def)

section \<open>Accepted configurations\<close>

definition is_machine :: "'a py_arg \<Rightarrow> bool" where
  "is_machine a = (case a of Expected _ \<Rightarrow> True | Other_type \<Rightarrow> False)"

text \<open>No name and no address is used twice, in one machine or in two.\<close>

definition all_unique :: "machine_config list \<Rightarrow> bool" where
  "all_unique ms \<longleftrightarrow>
     distinct (map mc_name ms) \<and>
     distinct (concat (map (\<lambda>m. map snd (mc_bmp_ips m)) ms)) \<and>
     distinct (concat (map (\<lambda>m. map snd (mc_spinnaker_ips m)) ms))"

lemma use_all_spec:
  "fold_res use_once xs used =
     (if distinct xs \<and> set xs \<inter> used = {} then Inr (used \<union> set xs) else Inl ValueError)"
  by (induction xs arbitrary: used) (auto simp: use_once_def)

lemma check_machine_spec:
  "check_machine (Expected m) u =
     (if mc_name m \<notin> us_names u \<and>
         distinct (map snd (mc_bmp_ips m)) \<and> snd ` set (mc_bmp_ips m) \<inter> us_bmp_ips u = {} \<and>
         distinct (map snd (mc_spinnaker_ips m)) \<and> snd ` set (mc_spinnaker_ips m) \<inter> us_spinnaker_ips u = {}
      then Inr \<lparr> us_names = insert (mc_name m) (us_names u),
                 us_bmp_ips = us_bmp_ips u \<union> snd ` set (mc_bmp_ips m),
                 us_spinnaker_ips = us_spinnaker_ips u \<union> snd ` set (mc_spinnaker_ips m) \<rparr>
      else Inl ValueError)"
  by (auto simp: check_machine_def use_once_def use_all_spec)

text \<open>Unique, also among the names in use before.\<close>

definition bmps_of :: "machine_config list \<Rightarrow> string list" where
  "bmps_of ms = concat (map (\<lambda>m. map snd (mc_bmp_ips m)) ms)"

definition spinns_of :: "machine_config list \<Rightarrow> string list" where
  "spinns_of ms = concat (map (\<lambda>m. map snd (mc_spinnaker_ips m)) ms)"

definition unique_after :: "used_names \<Rightarrow> machine_config list \<Rightarrow> bool" where
  "unique_after u ms \<longleftrightarrow> all_unique ms \<and>
     set (map mc_name ms) \<inter> us_names u = {} \<and>
     set (bmps_of ms) \<inter> us_bmp_ips u = {} \<and> set (spinns_of ms) \<inter> us_spinnaker_ips u = {}"

lemma of_Cons:
  "bmps_of (m # ms) = map snd (mc_bmp_ips m) @ bmps_of ms"
  "spinns_of (m # ms) = map snd (mc_spinnaker_ips m) @ spinns_of ms"
  by (simp_all add: bmps_of_def spinns_of_def)

lemma unique_after_Cons:
  "unique_after u (m # ms) \<longleftrightarrow>
     (\<exists>u'. check_machine (Expected m) u = Inr u' \<and> unique_after u' ms)"
  unfolding check_machine_spec unique_after_def all_unique_def bmps_of_def[symmetric] spinns_of_def[symmetric] of_Cons
  by (simp add: Int_Un_distrib Int_Un_distrib2 Int_commute) argo

lemma check_machine_error: "check_machine (Expected m) u = Inl e \<Longrightarrow> e = ValueError"
  by (auto simp: check_machine_spec split: if_splits)

lemma check_machines_spec:
  "case fold_res check_machine args u of
     Inl e \<Rightarrow> (let good = concat (map the_arg (takeWhile is_machine args))
                in if unique_after u good then e = TypeError \<and> \<not> list_all is_machine args else e = ValueError)
   | Inr u' \<Rightarrow> list_all is_machine args \<and> unique_after u (concat (map the_arg args))"
proof (induction args arbitrary: u)
  case Nil
  show ?case by (simp add: unique_after_def all_unique_def bmps_of_def spinns_of_def)
next
  case (Cons a args)
  show ?case
  proof (cases a)
    case Other_type
    then show ?thesis by (simp add: check_machine_def is_machine_def unique_after_def all_unique_def
          bmps_of_def spinns_of_def)
  next
    case (Expected m)
    then have a: "is_machine a" "the_arg a = [m]" by (simp_all add: is_machine_def the_arg_def)
    show ?thesis
    proof (cases "check_machine a u")
      case (Inl e)
      with Expected have "\<not> unique_after u (m # ms)" for ms by (simp add: unique_after_Cons)
      moreover have "e = ValueError" using Inl Expected check_machine_error by simp
      ultimately show ?thesis using Inl a by simp
    next
      case (Inr u')
      then have "unique_after u (m # ms) = unique_after u' ms" for ms
        using Expected by (simp add: unique_after_Cons)
      with Cons[of u'] Inr a show ?thesis by (simp add: Let_def split: sum.splits)
    qed
  qed
qed

lemma new_configuration_spec:
  "new_configuration (Some args) port ip interval retired seconds =
     (let good = concat (map the_arg (takeWhile is_machine args))
      in if \<not> all_unique good then Inl ValueError
         else if \<not> list_all is_machine args then Inl TypeError
         else Inr \<lparr> cf_machines = good, cf_port = port, cf_ip = ip, cf_timeout_check_interval = interval,
                     cf_max_retired_jobs = retired, cf_seconds_before_free = seconds \<rparr>)"
proof -
  let ?u = "\<lparr> us_names = {}, us_bmp_ips = {}, us_spinnaker_ips = {} \<rparr>"
  have u: "unique_after ?u ms = all_unique ms" for ms by (simp add: unique_after_def)
  have t: "takeWhile is_machine args = args" if "list_all is_machine args"
    using that by (simp add: takeWhile_eq_all_conv list_all_iff)
  show ?thesis
  proof (cases "list_all is_machine args")
    case True
    show ?thesis
      using check_machines_spec[of args ?u] True unfolding t[OF True]
      by (simp add: new_configuration_def u Let_def split: sum.splits if_splits)
  next
    case False
    with check_machines_spec[of args ?u] show ?thesis
      by (simp add: new_configuration_def u Let_def split: sum.splits if_splits)
  qed
qed

text \<open>
  The configuration. It is made exactly when all its machines are machines, and no machine
  name, BMP address or address of a board is used twice anywhere. Else TypeError is raised for
  an argument that is no machine if all machines before it are fine together, and ValueError if
  they are not.
\<close>

theorem new_configuration_exact:
  "new_configuration (Some args) port ip interval retired seconds =
     (let good = concat (map the_arg (takeWhile is_machine args))
      in if \<not> all_unique good then Inl ValueError
         else if \<not> list_all is_machine args then Inl TypeError
         else Inr \<lparr> cf_machines = good, cf_port = port, cf_ip = ip, cf_timeout_check_interval = interval,
                     cf_max_retired_jobs = retired, cf_seconds_before_free = seconds \<rparr>)"
  by (rule new_configuration_spec)

section \<open>Machines with standard addresses\<close>

lemma default_scheme_parsed:
  "parse_scheme default_scheme =
     Inr \<lparr> base_ip = 3232235520, cabinet_stride = 1280, frame_stride = 256, board_stride = 8,
           bmp_offset = 0, spinnaker_offset = 1 \<rparr>"
  by code_simp

lemma same_address:
  fixes n m :: int
  assumes "int_to_ip n = int_to_ip m" "\<bar>n - m\<bar> < 2 ^ 32"
  shows "n = m"
proof -
  have "2 ^ 32 dvd n - m" using assms(1) unfolding int_to_ip_eq mod_eq_dvd_iff .
  then show ?thesis using assms(2) dvd_imp_le_int[of "n - m" "2 ^ 32"] by auto
qed

text \<open>Places the standard scheme has room for: five frames of 32 boards in each cabinet.\<close>

definition standard_place :: "board \<Rightarrow> bool" where
  "standard_place cfb \<longleftrightarrow>
     (case cfb of (c, f, b) \<Rightarrow> 0 \<le> c \<and> c < 3355443 \<and> 0 \<le> f \<and> f < 5 \<and> 0 \<le> b \<and> b < 32)"

definition standard_scheme :: "int ip_scheme" where
  "standard_scheme = \<lparr> base_ip = 3232235520, cabinet_stride = 1280, frame_stride = 256,
     board_stride = 8, bmp_offset = 0, spinnaker_offset = 1 \<rparr>"

lemma two_digits:
  fixes n q b q' b' :: int
  assumes "n * q + b = n * q' + b'" "0 \<le> b" "b < n" "0 \<le> b'" "b' < n"
  shows "q = q' \<and> b = b'"
proof -
  have "(n * q + b) div n = q" "(n * q' + b') div n = q'" using assms(2-5) by simp_all
  with assms(1) show ?thesis by simp
qed

lemma standard_addresses:
  assumes "standard_place (c, f, b)" "standard_place (c', f', b')"
  shows "int_to_ip (spinnaker_address standard_scheme (c, f, b)) =
           int_to_ip (spinnaker_address standard_scheme (c', f', b')) \<Longrightarrow> (c, f, b) = (c', f', b')"
    and "int_to_ip (bmp_address standard_scheme (c, f)) =
           int_to_ip (bmp_address standard_scheme (c', f')) \<Longrightarrow> (c, f) = (c', f')"
    and "int_to_ip (bmp_address standard_scheme (c, f)) \<noteq> int_to_ip (spinnaker_address standard_scheme (c', f', b'))"
proof -
  let ?s = "\<lambda>c f b. spinnaker_address standard_scheme (c, f, b)" and ?b = "\<lambda>c f. bmp_address standard_scheme (c, f)"
  have e: "?s c f b = 3232235521 + (1280 * c + 256 * f + 8 * b)" "?b c f = 3232235520 + (1280 * c + 256 * f)" for c f b
    by (simp_all add: standard_scheme_def spinnaker_address_def bmp_address_def)
  have r: "0 \<le> 1280 * c + 256 * f + 8 * b" "1280 * c + 256 * f + 8 * b < 2 ^ 32 - 5"
    "0 \<le> 1280 * c + 256 * f" "1280 * c + 256 * f < 2 ^ 32 - 5" if "standard_place (c, f, b)" for c f b
    using that by (simp_all add: standard_place_def)
  have d: "\<bar>?s c f b - ?s c' f' b'\<bar> < 2 ^ 32" "\<bar>?b c f - ?b c' f'\<bar> < 2 ^ 32" "\<bar>?b c f - ?s c' f' b'\<bar> < 2 ^ 32"
    using r[OF assms(1)] r[OF assms(2)] unfolding e by (simp_all add: abs_less_iff)
  note p = assms[unfolded standard_place_def prod.case]
  show "(c, f, b) = (c', f', b')" if "int_to_ip (?s c f b) = int_to_ip (?s c' f' b')"
  proof -
    from same_address[OF that d(1)] have "32 * (5 * c + f) + b = 32 * (5 * c' + f') + b'" unfolding e by simp
    with two_digits[of 32 "5 * c + f" b "5 * c' + f'" b'] p two_digits[of 5 c f c' f'] show ?thesis by simp
  qed
  show "(c, f) = (c', f')" if "int_to_ip (?b c f) = int_to_ip (?b c' f')"
  proof -
    from same_address[OF that d(2)] have "5 * c + f = 5 * c' + f'" unfolding e by simp
    with two_digits[of 5 c f c' f'] p show ?thesis by simp
  qed
  show "int_to_ip (?b c f) \<noteq> int_to_ip (?s c' f' b')"
  proof
    assume "int_to_ip (?b c f) = int_to_ip (?s c' f' b')"
    from same_address[OF this d(3)] have "8 * (160 * c + 32 * f - (160 * c' + 32 * f' + b')) = 1"
      unfolding e by (simp add: algebra_simps)
    moreover have "8 * k \<noteq> 1" for k :: int by presburger
    ultimately show False by blast
  qed
qed

lemma with_standard_ips_Inr:
  assumes "with_standard_ips name tags width height dead links locs default_scheme = Inr m"
  shows "machine_ok m" "mc_board_locations m = empty_default_dict locs"
    "mc_bmp_ips m = standard_bmp_ips standard_scheme (empty_default_dict locs)"
    "mc_spinnaker_ips m = standard_spinnaker_ips standard_scheme (empty_default_dict locs)"
proof -
  have "new_machine name (Expected tags) width height (Expected dead) (Expected links)
      (Some (empty_default_dict locs)) (Some (standard_bmp_ips standard_scheme (empty_default_dict locs)))
      (Some (standard_spinnaker_ips standard_scheme (empty_default_dict locs))) = Inr m"
    using assms by (simp only: with_standard_ips_def default_scheme_parsed standard_scheme_def Let_def sum.case)
  from new_machine_Inr[OF this] show "machine_ok m" "mc_board_locations m = empty_default_dict locs"
    "mc_bmp_ips m = standard_bmp_ips standard_scheme (empty_default_dict locs)"
    "mc_spinnaker_ips m = standard_spinnaker_ips standard_scheme (empty_default_dict locs)"
    by (simp_all only: empty_default_dict_def option.case)
qed

lemma standard_ips_distinct:
  assumes "distinct (map snd locs)" "\<forall>cfb\<in>snd ` set locs. standard_place cfb"
  shows "distinct (map snd (standard_bmp_ips standard_scheme locs) @ map snd (standard_spinnaker_ips standard_scheme locs))"
proof -
  let ?F = "remdups (map (\<lambda>(b, c, f, _). (c, f)) locs)"
  let ?bmp = "\<lambda>cf. int_to_ip (bmp_address standard_scheme cf)"
  let ?spinn = "\<lambda>cfb. int_to_ip (spinnaker_address standard_scheme cfb)"
  have lists: "map snd (standard_bmp_ips standard_scheme locs) = map ?bmp ?F"
    "map snd (standard_spinnaker_ips standard_scheme locs) = map ?spinn (map snd locs)"
    by (simp_all add: standard_bmp_ips_def standard_spinnaker_ips_def split_def)
  have fr: "\<exists>b. standard_place (c, f, b)" if "(c, f) \<in> set ?F" for c f
    using that assms(2) by fastforce
  have "inj_on ?spinn (set (map snd locs))"
    using standard_addresses(1) assms(2) by (intro inj_onI) (metis prod_cases3 set_map)
  then have "distinct (map ?spinn (map snd locs))" using assms(1) distinct_map by blast
  moreover have "inj_on ?bmp (set ?F)"
    using standard_addresses(2) fr by (intro inj_onI) (metis surj_pair)
  then have "distinct (map ?bmp ?F)" using distinct_map distinct_remdups by blast
  moreover have "?bmp cf \<noteq> ?spinn cfb" if "cf \<in> set ?F" "cfb \<in> snd ` set locs" for cf cfb
    using standard_addresses(3) fr assms(2) that by (metis prod_cases3 surj_pair)
  then have "set (map ?bmp ?F) \<inter> set (map ?spinn (map snd locs)) = {}"
    unfolding set_map by blast
  ultimately show ?thesis unfolding lists distinct_append by blast
qed

text \<open>
  Standard addresses. With the default addressing scheme, when no cabinet has more than five
  frames and no frame more than 32 boards, all addresses computed for a machine are different,
  those of its BMPs from those of its boards too, and a server can be configured with it.
\<close>

theorem standard_ips_unique:
  assumes "with_standard_ips name tags width height dead links (Some locs) default_scheme = Inr m"
    and "\<forall>cfb\<in>snd ` set locs. standard_place cfb"
  shows "distinct (map snd (mc_bmp_ips m) @ map snd (mc_spinnaker_ips m)) \<and>
    is_ok (new_configuration (Some [Expected m]) port ip interval retired seconds)"
proof -
  note m = with_standard_ips_Inr[OF assms(1)]
  have "distinct (map snd locs)"
    using m(1,2) by (simp add: machine_ok_def Let_def empty_default_dict_def)
  from standard_ips_distinct[OF this assms(2)] m(3,4)
  have d: "distinct (map snd (mc_bmp_ips m) @ map snd (mc_spinnaker_ips m))" by (simp add: empty_default_dict_def)
  then show ?thesis
    by (simp add: new_configuration_spec is_machine_def the_arg_def all_unique_def Let_def)
qed

theorem standard_ips_unique_witness:
  "\<exists>m. with_standard_ips ''m'' {} None None {(0, 0, 1)} {} (Some [((0, 0, 0), (0, 4, 31)), ((0, 0, 2), (1, 0, 0))])
       default_scheme = Inr m \<and>
     is_ok (new_configuration (Some [Expected m]) 22244 [] 5 1200 30)"
proof -
  let ?locs = "[((0, 0, 0), (0, 4, 31)), ((0, 0, 2), (1, 0, 0))] :: (board, board) odict"
  have "live_boards 1 1 {(0, 0, 1)} = {(0, 0, 0), (0, 0, 2)}" by (auto simp: live_boards_def)
  then obtain m where m: "with_standard_ips ''m'' {} None None {(0, 0, 1)} {} (Some ?locs) default_scheme = Inr m"
    unfolding with_standard_ips_def default_scheme_parsed
    by (simp add: new_machine_def machine_dimensions_def infer_dimensions_def empty_default_dict_def
        in_system_def Let_def standard_bmp_ips_def standard_spinnaker_ips_def)
  moreover have "\<forall>cfb\<in>snd ` set ?locs. standard_place cfb" by (simp add: standard_place_def)
  ultimately show ?thesis using standard_ips_unique[OF m, of 22244 "[]" 5 1200 30] by blast
qed

section \<open>Reading the locations back\<close>

text \<open>The row of the CSV file for a board.\<close>

definition row_of :: "board \<times> board \<Rightarrow> spinner_row" where
  "row_of e =
     (case e of ((x, y, z), (c, f, b)) \<Rightarrow>
        \<lparr> row_cabinet = c, row_frame = f, row_board = b,
          row_x = fst (board_to_chip x y z), row_y = snd (board_to_chip x y z) \<rparr>)"

definition chip_of :: "board \<Rightarrow> int \<times> int" where
  "chip_of b = (case b of (x, y, z) \<Rightarrow> board_to_chip x y z)"

lemma chip_of_div:
  "z \<in> {0, 1, 2} \<Longrightarrow> fst (chip_of (x, y, z)) div 12 = x" "z \<in> {0, 1, 2} \<Longrightarrow> snd (chip_of (x, y, z)) div 12 = y"
  by (auto simp: chip_of_def board_to_chip_def Let_def)

lemma chip_of_inj:
  assumes "z \<in> {0, 1, 2}" "z' \<in> {0, 1, 2}" "chip_of (x, y, z) = chip_of (x', y', z')"
  shows "(x, y, z) = (x', y', z')"
proof -
  have "x = x'" "y = y'" using chip_of_div assms by metis+
  with assms show ?thesis by (auto simp: chip_of_def board_to_chip_def Let_def)
qed

lemma add_chips:
  assumes "distinct (map fst locs)" "\<forall>(x, y, z)\<in>fst ` set locs. z \<in> {0, 1, 2}"
    "\<forall>b\<in>fst ` set locs. chip_of b \<notin> fst ` set chips"
  shows "fold_res add_chip (map row_of locs) chips = Inr (chips @ map (\<lambda>(b, cfb). (chip_of b, cfb)) locs)"
  using assms
proof (induction locs arbitrary: chips)
  case (Cons e locs)
  obtain x y z c f p where e: "e = ((x, y, z), (c, f, p))" by (metis surj_pair)
  have s: "od_set k v d = d @ [(k, v)]" if "k \<notin> fst ` set d" for k v and d :: "(int \<times> int, board) odict"
    using that by (induction k v d rule: od_set.induct) auto
  have "add_chip (row_of e) chips = Inr (chips @ [(chip_of (x, y, z), (c, f, p))])"
    using Cons.prems(3) by (simp add: e add_chip_def row_of_def chip_of_def s)
  moreover have "chip_of b \<notin> fst ` set (chips @ [(chip_of (x, y, z), (c, f, p))])" if "b \<in> fst ` set locs" for b
  proof -
    have "(x, y, z) \<notin> fst ` set locs" using Cons.prems(1) by (simp add: e)
    with that have ne: "b \<noteq> (x, y, z)" by blast
    obtain x' y' z' where b: "b = (x', y', z')" by (cases b)
    have z: "z \<in> {0, 1, 2}" using Cons.prems(2) by (simp add: e)
    have "\<forall>(x, y, z)\<in>fst ` set locs. z \<in> {0, 1, 2}" using Cons.prems(2) by simp
    then have z': "z' \<in> {0, 1, 2}" using that unfolding b by blast
    have "chip_of b \<noteq> chip_of (x, y, z)" using ne chip_of_inj[OF z' z] unfolding b by blast
    moreover have "chip_of b \<notin> fst ` set chips" using Cons.prems(3) that unfolding list.set image_insert by blast
    ultimately show ?thesis by simp
  qed
  ultimately show ?case using Cons by (simp add: e)
qed simp

lemma locate_chips:
  assumes "distinct (map fst (locs0 @ locs))"
    and "\<forall>(x, y, z)\<in>fst ` set locs. chip_to_board eth (fst (chip_of (x, y, z))) (snd (chip_of (x, y, z))) (w * 12) (h * 12) = Inr (x, y, z)"
  shows "fold_res (locate_chip eth w h) (map (\<lambda>(b, cfb). (chip_of b, cfb)) locs) locs0 = Inr (locs0 @ locs)"
  using assms
proof (induction locs arbitrary: locs0)
  case (Cons e locs)
  obtain x y z cfb where e: "e = ((x, y, z), cfb)" by (metis surj_pair)
  have s: "od_set k v d = d @ [(k, v)]" if "k \<notin> fst ` set d" for k v and d :: "(board, board) odict"
    using that by (induction k v d rule: od_set.induct) auto
  have "locate_chip eth w h (chip_of (x, y, z), cfb) locs0 = Inr (locs0 @ [e])"
    using Cons.prems by (cases "chip_of (x, y, z)") (simp add: e locate_chip_def s)
  with Cons.IH[of "locs0 @ [e]"] Cons.prems show ?case by (simp add: e)
qed simp

lemma max_chip:
  fixes f g :: "'a \<Rightarrow> int"
  assumes "finite B" "\<forall>b\<in>B. f b div 12 = g b \<and> g b < n" "b \<in> B" "g b = n - 1"
  shows "Max (f ` B) div 12 + 1 = n"
proof -
  have "f b \<le> Max (f ` B)" using assms(1,3) by simp
  then have "n - 1 \<le> Max (f ` B) div 12" using assms(2-4) zdiv_mono1[of "f b" "Max (f ` B)" 12] by simp
  moreover have "Max (f ` B) \<in> f ` B" using assms(1,3) by (intro Max_in) auto
  then have "Max (f ` B) div 12 < n" using assms(2) by auto
  ultimately show ?thesis by simp
qed

text \<open>
  Locations round trip. Let the file have a row for each board of a machine, with the chip
  coordinates of the board, and let the machine be as wide and as high as its boards. If the
  geometry maps the Ethernet chips of the machine to themselves, exactly the locations the
  file was made from are read back.
\<close>

theorem spinner_locations_roundtrip:
  assumes "distinct (map fst locs)" "\<forall>b\<in>fst ` set locs. in_system w h b"
    and "\<exists>y z. (w - 1, y, z) \<in> fst ` set locs" "\<exists>x z. (x, h - 1, z) \<in> fst ` set locs"
    and "\<And>cx cy. 0 \<le> cx \<Longrightarrow> cx < 12 * w \<Longrightarrow> 0 \<le> cy \<Longrightarrow> cy < 12 * h \<Longrightarrow>
      (cx mod 12, cy mod 12) \<in> {(0, 0), (8, 4), (4, 8)} \<Longrightarrow> eth cx cy (w * 12) (h * 12) = (cx, cy)"
  shows "board_locations_from_spinner eth (map row_of locs) = Inr locs"
proof -
  let ?chips = "map (\<lambda>(b, cfb). (chip_of b, cfb)) locs"
  have in3: "z \<in> {0, 1, 2}" "0 \<le> x" "x < w" "0 \<le> y" "y < h" if "(x, y, z) \<in> fst ` set locs" for x y z
  proof -
    have "in_system w h (x, y, z)" using assms(2) that by blast
    then show "z \<in> {0, 1, 2}" "0 \<le> x" "x < w" "0 \<le> y" "y < h" by (auto simp: in_system_def)
  qed
  let ?B = "fst ` set locs"
  have keys: "fst ` fst ` set ?chips = (\<lambda>b. fst (chip_of b)) ` ?B" "snd ` fst ` set ?chips = (\<lambda>b. snd (chip_of b)) ` ?B"
    by (force simp: image_iff)+
  have div: "\<forall>b\<in>?B. fst (chip_of b) div 12 = fst b \<and> fst b < w" "\<forall>b\<in>?B. snd (chip_of b) div 12 = fst (snd b) \<and> fst (snd b) < h"
    using chip_of_div in3 by (metis prod_cases3 fst_conv snd_conv)+
  have "Max ((\<lambda>b. fst (chip_of b)) ` ?B) div 12 + 1 = w"
    using max_chip[OF _ div(1)] assms(3) by force
  moreover have "Max ((\<lambda>b. snd (chip_of b)) ` ?B) div 12 + 1 = h"
    using max_chip[OF _ div(2)] assms(4) by force
  moreover have "fold_res add_chip (map row_of locs) [] = Inr ?chips"
    using add_chips[of locs "[]"] assms(1) in3(1) by fastforce
  moreover have "fold_res (locate_chip eth w h) ?chips [] = Inr locs"
  proof -
    have "chip_to_board eth (fst (chip_of (x, y, z))) (snd (chip_of (x, y, z))) (w * 12) (h * 12) = Inr (x, y, z)"
      if "(x, y, z) \<in> fst ` set locs" for x y z
      using chip_to_board_of_chip[of x w y h z eth] in3[OF that] assms(5)
      by (simp add: chip_of_def mult.commute)
    then show ?thesis using locate_chips[of "[]" locs eth w h] assms(1) by fastforce
  qed
  moreover have "?chips \<noteq> []" using assms(3) by auto
  ultimately show ?thesis
    by (simp only: board_locations_from_spinner_def sum.case Let_def keys if_False)
qed

theorem spinner_locations_roundtrip_witness:
  "board_locations_from_spinner (\<lambda>x y _ _. (x, y))
     (map row_of [((0, 0, 0), (0, 0, 0)), ((0, 0, 1), (0, 0, 2)), ((0, 0, 2), (0, 0, 5))]) =
   Inr [((0, 0, 0), (0, 0, 0)), ((0, 0, 1), (0, 0, 2)), ((0, 0, 2), (0, 0, 5))]"
  by (rule spinner_locations_roundtrip[of _ 1 1]) (auto simp: in_system_def)

text \<open>
  A machine of one board. The constructor raises TypeError without an address for the BMP
  and for the board; with both it makes a consistent machine whose only working board is
  (0, 0, 0).
\<close>

theorem single_board_exact:
  "single_board name tags None spinn = Inl TypeError \<and> single_board name tags bmp None = Inl TypeError \<and>
   (\<exists>m. single_board name (Expected ts) (Some b) (Some s) = Inr m \<and> machine_ok m \<and>
      mc_name m = name \<and> mc_tags m = ts \<and> mc_bmp_ips m = [((0, 0), b)] \<and>
      live_boards (mc_width m) (mc_height m) (mc_dead_boards m) = {(0, 0, 0)} \<and>
      od_get (mc_spinnaker_ips m) (0, 0, 0) = Some s)"
proof -
  have "single_board name tags bmp None = Inl TypeError" "single_board name tags None spinn = Inl TypeError"
    by (cases bmp) (simp_all add: single_board_def)
  moreover have "live_boards 1 1 {(0, 0, 1), (0, 0, 2)} = {(0, 0, 0)}" by (auto simp: live_boards_def)
  moreover obtain m where m: "single_board name (Expected ts) (Some b) (Some s) = Inr m"
    using single_board_ok by blast
  moreover have "machine_ok m"
    using m unfolding single_board_def prod.case option.case by (rule new_machine_Inr(1))
  moreover note single_board_ok[of name ts b s, unfolded m sum.inject]
  ultimately show ?thesis by simp
qed

end
