(* ===== verification/BmpController.thy ===== *)
theory BmpController
  imports Links "HOL-Library.Sublist"
begin

unbundle bit_operations_syntax

text \<open>
  The controller of a BMP (\<open>async_bmp_controller.py\<close>): requests for the boards of one frame are
  queued, and a thread carries them out one by one. The transceiver belongs to the package
  \<open>spinnman\<close>: what the n-th call made to it answers, a number or an exception, is a parameter,
  and the calls made are recorded, in order, in a log. The log also records the calls of
  the callbacks, which may raise too.
\<close>

section \<open>Requests\<close>

record link_request =
  lr_board :: int
  lr_link :: link
  lr_enable :: bool

record 'c atomic_requests =
  on_done :: 'c
  power_on_boards :: "int list"
  power_off_boards :: "int list"
  link_requests :: "link_request list"

definition new_atomic_requests :: "'c \<Rightarrow> 'c atomic_requests" where
  "new_atomic_requests c =
     \<lparr> on_done = c, power_on_boards = [], power_off_boards = [], link_requests = [] \<rparr>"

definition add_power :: "int \<Rightarrow> bool \<Rightarrow> 'c atomic_requests \<Rightarrow> 'c atomic_requests" where
  "add_power board on r =
     (if on then r\<lparr>power_on_boards := power_on_boards r @ [board]\<rparr>
      else r\<lparr>power_off_boards := power_off_boards r @ [board]\<rparr>)"

definition add_link :: "int \<Rightarrow> link \<Rightarrow> bool \<Rightarrow> 'c atomic_requests \<Rightarrow> 'c atomic_requests" where
  "add_link board link enable r =
     r\<lparr>link_requests := link_requests r @ [\<lparr> lr_board = board, lr_link = link, lr_enable = enable \<rparr>]\<rparr>"

section \<open>Calls out of the thread\<close>

datatype 'c bmp_call =
    Power_on "int list"
  | Power_off "int list"
  | Read_version int
  | Read_fpga int int int
  | Write_fpga int int int int
  | On_done 'c bool "string option"
  | Sleep int
  | On_thread_start

type_synonym answers = "nat \<Rightarrow> int option"

type_synonym ('c, 'a) bmp = "('c bmp_call list, 'a) py_call"

definition ask :: "answers \<Rightarrow> 'c bmp_call \<Rightarrow> ('c, int) bmp" where
  "ask w c log =
     (case w (length log) of None \<Rightarrow> (Inl Exception, log @ [c]) | Some v \<Rightarrow> (Inr v, log @ [c]))"

definition make_call :: "answers \<Rightarrow> 'c bmp_call \<Rightarrow> ('c, unit) bmp" where
  "make_call w c = and_then (ask w c) (\<lambda>_. return ())"

section \<open>Power and links\<close>

definition bmp_ver_min :: int where "bmp_ver_min = 2"
definition fpga_flag_register_address :: int where "fpga_flag_register_address = 0x40004"
definition fpga_flag_id_mask :: int where "fpga_flag_id_mask = 0x3"

fun fpga_link_stop_registers :: "link \<Rightarrow> int \<times> int" where
  "fpga_link_stop_registers East = (0, 0x00000000 + 0x5C)"
| "fpga_link_stop_registers South = (0, 0x00010000 + 0x5C)"
| "fpga_link_stop_registers South_west = (1, 0x00000000 + 0x5C)"
| "fpga_link_stop_registers West = (1, 0x00010000 + 0x5C)"
| "fpga_link_stop_registers North = (2, 0x00000000 + 0x5C)"
| "fpga_link_stop_registers North_east = (2, 0x00010000 + 0x5C)"

definition good_fpga :: "answers \<Rightarrow> int \<Rightarrow> int \<Rightarrow> ('c, bool) bmp" where
  "good_fpga w board fpga =
     and_then (ask w (Read_fpga fpga fpga_flag_register_address board))
       (\<lambda>fpga_id. return (fpga_id AND fpga_flag_id_mask = fpga))"

text \<open>\<open>all\<close> stops at the first FPGA that is wrong.\<close>

fun good_fpgas :: "answers \<Rightarrow> int \<Rightarrow> int list \<Rightarrow> ('c, bool) bmp" where
  "good_fpgas w board [] = return True"
| "good_fpgas w board (fpga # fpgas) =
     and_then (good_fpga w board fpga)
       (\<lambda>ok. if ok then good_fpgas w board fpgas else return False)"

fun boards_to_retry :: "answers \<Rightarrow> int list \<Rightarrow> ('c, int list) bmp" where
  "boards_to_retry w [] = return []"
| "boards_to_retry w (board # boards) =
     and_then (ask w (Read_version board))
       (\<lambda>version.
          if version < bmp_ver_min then boards_to_retry w boards
          else and_then (good_fpgas w board [0, 1, 2])
                 (\<lambda>ok. and_then (boards_to_retry w boards)
                    (\<lambda>retry. return (if ok then retry else board # retry))))"

fun power_on_and_check :: "answers \<Rightarrow> nat \<Rightarrow> int list \<Rightarrow> ('c, unit) bmp" where
  "power_on_and_check w 0 boards = raise Exception"
| "power_on_and_check w (Suc tries) boards =
     and_then (make_call w (Power_on boards))
       (\<lambda>_. and_then (boards_to_retry w boards)
          (\<lambda>retry. if retry = [] then return () else power_on_and_check w tries retry))"

definition set_link_state :: "answers \<Rightarrow> link_request \<Rightarrow> ('c, unit) bmp" where
  "set_link_state w l =
     and_then (ask w (Read_version (lr_board l)))
       (\<lambda>version.
          if version < bmp_ver_min then return ()
          else case fpga_link_stop_registers (lr_link l) of (fpga, addr) \<Rightarrow>
            make_call w (Write_fpga fpga addr (if lr_enable l then 0 else 1) (lr_board l)))"

section \<open>One request\<close>

definition n_fpga_retries :: nat where "n_fpga_retries = 3"
definition n_request_tries :: nat where "n_request_tries = 2"
definition seconds_between_tries :: int where "seconds_between_tries = 15"

definition carry_out :: "answers \<Rightarrow> 'c atomic_requests \<Rightarrow> ('c, unit) bmp" where
  "carry_out w r =
     and_then (if power_on_boards r \<noteq> [] then power_on_and_check w n_fpga_retries (power_on_boards r) else return ())
       (\<lambda>_. and_then (for_each (link_requests r) (set_link_state w))
          (\<lambda>_. if power_off_boards r \<noteq> [] then make_call w (Power_off (power_off_boards r)) else return ()))"

text \<open>
  The callback is inside the \<open>try\<close>, so an exception it raises counts as a failed try.
\<close>

definition try_request :: "answers \<Rightarrow> 'c atomic_requests \<Rightarrow> ('c, unit) bmp" where
  "try_request w r = and_then (carry_out w r) (\<lambda>_. make_call w (On_done (on_done r) True None))"

text \<open>The loop over the tries, with the number of tries left.\<close>

fun request_tries :: "answers \<Rightarrow> string \<Rightarrow> 'c atomic_requests \<Rightarrow> nat \<Rightarrow> ('c, unit) bmp" where
  "request_tries w hostname r 0 log = (Inr (), log)"
| "request_tries w hostname r (Suc n) log =
     (case try_request w r log of
        (Inr u, log') \<Rightarrow> (Inr u, log')
      | (Inl e, log') \<Rightarrow>
          if n = 0
          then make_call w (On_done (on_done r) False (Some (''Requests failed on BMP '' @ hostname))) log'
          else request_tries w hostname r n (log' @ [Sleep seconds_between_tries]))"

definition do_request :: "answers \<Rightarrow> string \<Rightarrow> 'c atomic_requests \<Rightarrow> ('c, unit) bmp" where
  "do_request w hostname r = request_tries w hostname r n_request_tries"

section \<open>The thread\<close>

text \<open>
  Where the thread stands: before \<open>on_thread_start\<close>, waiting for the event, with a
  request taken from the queue, before the test at the end of the loop, returned, or ended by
  an exception.
\<close>

datatype 'c thread_pc = Starting | Waiting | Busy "'c atomic_requests" | Testing | Returned | Crashed

record 'c bmp_controller =
  bc_hostname :: string
  bc_on_thread_start :: bool
  bc_stop :: bool
  bc_pending :: bool
  bc_requests :: "'c atomic_requests list"
  bc_pc :: "'c thread_pc"
  bc_log :: "'c bmp_call list"

definition new_bmp_controller :: "string \<Rightarrow> bool \<Rightarrow> 'c bmp_controller" where
  "new_bmp_controller hostname start =
     \<lparr> bc_hostname = hostname, bc_on_thread_start = start, bc_stop = False, bc_pending = False,
       bc_requests = [], bc_pc = Starting, bc_log = [] \<rparr>"

definition add_requests :: "'c atomic_requests \<Rightarrow> ('c bmp_controller, unit) py_call" where
  "add_requests r s =
     (if bc_stop s then (Inl AssertionError, s)
      else (Inr (), s\<lparr> bc_requests := bc_requests s @ [r], bc_pending := True \<rparr>))"

definition stop_controller :: "'c bmp_controller \<Rightarrow> 'c bmp_controller" where
  "stop_controller s = s\<lparr> bc_stop := True, bc_pending := True \<rparr>"

text \<open>
  One step of the thread, up to the next point where another thread may come in between. While
  the thread waits for an event that is not set, and after it ended, there is none.
\<close>

definition crash :: "'c bmp_controller \<Rightarrow> 'c bmp_controller" where
  "crash s = s\<lparr> bc_stop := True, bc_pc := Crashed \<rparr>"

definition thread_step :: "answers \<Rightarrow> 'c bmp_controller \<Rightarrow> 'c bmp_controller option" where
  "thread_step w s =
     (case bc_pc s of
        Starting \<Rightarrow>
          if bc_on_thread_start s
          then (case make_call w On_thread_start (bc_log s) of
                  (Inl e, log) \<Rightarrow> Some (crash (s\<lparr>bc_log := log\<rparr>))
                | (Inr u, log) \<Rightarrow> Some (s\<lparr> bc_log := log, bc_pc := Waiting \<rparr>))
          else Some (s\<lparr>bc_pc := Waiting\<rparr>)
      | Waiting \<Rightarrow>
          if \<not> bc_pending s then None
          else (case bc_requests s of
                  [] \<Rightarrow> Some (s\<lparr>bc_pc := Testing\<rparr>)
                | r # rs \<Rightarrow> Some (s\<lparr> bc_requests := rs, bc_pc := Busy r \<rparr>))
      | Busy r \<Rightarrow>
          (case do_request w (bc_hostname s) r (bc_log s) of
             (Inl e, log) \<Rightarrow> Some (crash (s\<lparr>bc_log := log\<rparr>))
           | (Inr u, log) \<Rightarrow> Some (s\<lparr> bc_log := log, bc_pc := Testing \<rparr>))
      | Testing \<Rightarrow>
          if bc_requests s \<noteq> [] then Some (s\<lparr>bc_pc := Waiting\<rparr>)
          else if bc_stop s then Some (s\<lparr> bc_pending := False, bc_pc := Returned \<rparr>)
          else Some (s\<lparr> bc_pending := False, bc_pc := Waiting \<rparr>)
      | Returned \<Rightarrow> None
      | Crashed \<Rightarrow> None)"

text \<open>The interleavings of the thread with the callers of \<open>add_requests\<close> and \<open>stop\<close>.\<close>

datatype 'c bmp_event = Add "'c atomic_requests" | Stop | Thread

inductive bmp_step :: "answers \<Rightarrow> 'c bmp_controller \<Rightarrow> 'c bmp_event \<Rightarrow> 'c bmp_controller \<Rightarrow> bool"
  for w :: answers
where
  step_add: "add_requests r s = (out, s') \<Longrightarrow> bmp_step w s (Add r) s'"
| step_stop: "bmp_step w s Stop (stop_controller s)"
| step_thread: "thread_step w s = Some s' \<Longrightarrow> bmp_step w s Thread s'"

inductive_cases bmp_step_AddE: "bmp_step w s (Add r) s'"
inductive_cases bmp_step_StopE: "bmp_step w s Stop s'"
inductive_cases bmp_step_ThreadE: "bmp_step w s Thread s'"

section \<open>Reasoning about calls\<close>

lemma and_then_InrE:
  assumes "and_then m f s = (Inr v, s')"
  obtains u s1 where "m s = (Inr u, s1)" "f u s1 = (Inr v, s')"
  using assms by (auto simp: and_then_def split: prod.splits sum.splits)

lemma and_then_InlE:
  assumes "and_then m f s = (Inl e, s')"
  obtains "m s = (Inl e, s')" | u s1 where "m s = (Inr u, s1)" "f u s1 = (Inl e, s')"
  using assms by (auto simp: and_then_def split: prod.splits sum.splits)

text \<open>A program that only makes calls from a set, and only adds to the log.\<close>

definition calls :: "('c, 'a) bmp \<Rightarrow> 'c bmp_call set \<Rightarrow> bool" where
  "calls m A \<longleftrightarrow> (\<forall>log out log'. m log = (out, log') \<longrightarrow> (\<exists>new. log' = log @ new \<and> set new \<subseteq> A))"

named_theorems bmp_calls

lemma callsE:
  assumes "calls m A" "m log = (out, log')"
  obtains new where "log' = log @ new" "set new \<subseteq> A"
  using assms unfolding calls_def by blast

lemma calls_mono: "calls m A \<Longrightarrow> A \<subseteq> B \<Longrightarrow> calls m B"
  unfolding calls_def by (meson subset_trans)

lemma calls_return [bmp_calls]: "calls (return x) A" "calls (raise e) A"
  by (auto simp: calls_def return_def raise_def)

lemma calls_ask [bmp_calls]: "c \<in> A \<Longrightarrow> calls (ask w c) A"
  by (auto simp: calls_def ask_def split: option.splits)

lemma calls_and_then [bmp_calls]:
  assumes "calls m A" "\<And>x log log'. m log = (Inr x, log') \<Longrightarrow> calls (f x) A"
  shows "calls (and_then m f) A"
  unfolding calls_def
proof (intro allI impI)
  fix log out log'
  assume r: "and_then m f log = (out, log')"
  obtain o1 l1 where m: "m log = (o1, l1)" by (cases "m log")
  then obtain n1 where n1: "l1 = log @ n1" "set n1 \<subseteq> A" using assms(1) by (auto elim: callsE)
  show "\<exists>new. log' = log @ new \<and> set new \<subseteq> A"
  proof (cases o1)
    case (Inr x)
    with m r have "f x l1 = (out, log')" by (simp add: and_then_def)
    with assms(2)[of log x l1] m Inr obtain n2 where "log' = l1 @ n2" "set n2 \<subseteq> A" by (auto elim: callsE)
    with n1 show ?thesis by auto
  qed (use m r n1 in \<open>auto simp: and_then_def\<close>)
qed

lemma calls_call [bmp_calls]: "c \<in> A \<Longrightarrow> calls (make_call w c) A"
  unfolding make_call_def by (intro bmp_calls)

lemma calls_for_each [bmp_calls]: "(\<And>x. x \<in> set xs \<Longrightarrow> calls (f x) A) \<Longrightarrow> calls (for_each xs f) A"
proof (induction xs)
  case (Cons x xs)
  have e: "for_each (x # xs) f = and_then (f x) (\<lambda>_. for_each xs f)" by (rule ext) simp
  show ?case unfolding e using Cons by (intro bmp_calls) simp_all
qed (auto simp: calls_def)

lemma calls_if [bmp_calls]: "(P \<Longrightarrow> calls m A) \<Longrightarrow> (\<not> P \<Longrightarrow> calls m' A) \<Longrightarrow> calls (if P then m else m') A"
  by simp

text \<open>The calls that look at a board, and those of one try of a request.\<close>

definition reads :: "'c bmp_call set" where
  "reads = range Read_version \<union> {Read_fpga f a b | f a b. True}"

lemma reads_iff [simp]: "Read_version b \<in> reads" "Read_fpga f a b \<in> reads" "Power_on bs \<notin> reads"
    "Power_off bs \<notin> reads" "Write_fpga f a v b \<notin> reads" "On_done c r m \<notin> reads" "Sleep n \<notin> reads"
  by (auto simp: reads_def)

lemma good_fpgas_calls [bmp_calls]: "calls (good_fpgas w b fs) reads"
  by (induction fs) (auto simp: good_fpga_def intro!: bmp_calls)

lemma boards_to_retry_calls [bmp_calls]: "calls (boards_to_retry w bs) reads"
  by (induction bs) (auto intro!: bmp_calls)

definition powers_on :: "int list \<Rightarrow> 'c bmp_call set" where
  "powers_on bs = {Power_on bs' | bs'. set bs' \<subseteq> set bs}"

section \<open>Power\<close>

text \<open>
  The log shows, from position n on, that a board is fine: its version is too old for a check,
  or each of its three FPGAs answered with its own number.
\<close>

definition healthy :: "answers \<Rightarrow> 'c bmp_call list \<Rightarrow> nat \<Rightarrow> int \<Rightarrow> bool" where
  "healthy w log n b \<longleftrightarrow>
     (\<exists>k v. n \<le> k \<and> k < length log \<and> log ! k = Read_version b \<and> w k = Some v \<and>
        (v < 2 \<or> (\<forall>f\<in>{0, 1, 2}. \<exists>j x. k < j \<and> j < length log \<and>
                       log ! j = Read_fpga f 0x40004 b \<and> w j = Some x \<and> x AND 0x3 = f)))"

lemma healthy_later:
  assumes "healthy w log n b" "m \<le> n"
  shows "healthy w (log @ new) m b"
proof -
  obtain k v where k: "n \<le> k" "k < length log" "log ! k = Read_version b" "w k = Some v"
    "v < 2 \<or> (\<forall>f\<in>{0, 1, 2}. \<exists>j x. k < j \<and> j < length log \<and>
        log ! j = Read_fpga f 0x40004 b \<and> w j = Some x \<and> x AND 0x3 = f)"
    using assms(1) unfolding healthy_def by blast
  have a: "j < length (log @ new)" "(log @ new) ! j = log ! j" if "j < length log" for j
    using that by (simp_all add: nth_append)
  from k(5) have "v < 2 \<or> (\<forall>f\<in>{0, 1, 2}. \<exists>j x. k < j \<and> j < length (log @ new) \<and>
        (log @ new) ! j = Read_fpga f 0x40004 b \<and> w j = Some x \<and> x AND 0x3 = f)"
    using a by metis
  with k(1-4) a[OF k(2)] assms(2) show ?thesis unfolding healthy_def
    by (intro exI[of _ k] exI[of _ v] conjI) simp_all
qed

lemma ask_Inr: "ask w c log = (Inr v, log') \<longleftrightarrow> w (length log) = Some v \<and> log' = log @ [c]"
  by (auto simp: ask_def split: option.splits)

lemma ask_Inl: "ask w c log = (Inl e, log') \<longleftrightarrow> w (length log) = None \<and> e = Exception \<and> log' = log @ [c]"
  by (auto simp: ask_def split: option.splits)

lemma make_call_Inr: "make_call w c log = (Inr u, log') \<longleftrightarrow> w (length log) \<noteq> None \<and> log' = log @ [c]"
  by (auto simp: make_call_def and_then_def ask_def return_def split: option.splits)

lemma make_call_Inl: "make_call w c log = (Inl e, log') \<longleftrightarrow> w (length log) = None \<and> e = Exception \<and> log' = log @ [c]"
  by (auto simp: make_call_def and_then_def ask_def return_def split: option.splits)

lemma good_fpgas_true:
  assumes "good_fpgas w b fs log = (Inr True, log')" "f \<in> set fs"
  shows "\<exists>j x. length log \<le> j \<and> j < length log' \<and> log' ! j = Read_fpga f 0x40004 b \<and>
    w j = Some x \<and> x AND 0x3 = f"
  using assms
proof (induction fs arbitrary: log)
  case (Cons g fs)
  from Cons.prems(1) obtain x where x: "w (length log) = Some x" "x AND 0x3 = g"
    "good_fpgas w b fs (log @ [Read_fpga g 0x40004 b]) = (Inr True, log')"
    by (auto simp: good_fpga_def return_def ask_Inr fpga_flag_register_address_def fpga_flag_id_mask_def
        elim!: and_then_InrE split: if_splits)
  show ?case
  proof (cases "f = g")
    case True
    obtain new where "log' = (log @ [Read_fpga g 0x40004 b]) @ new"
      using x(3) good_fpgas_calls[of w b fs] by (meson callsE)
    with x True show ?thesis by (intro exI[of _ "length log"] exI[of _ x]) (simp add: nth_append)
  next
    case False
    with Cons.prems(2) have "f \<in> set fs" by simp
    from Cons.IH[OF x(3) this] show ?thesis by (metis Suc_leD length_append_singleton)
  qed
qed simp

lemma boards_to_retry_healthy:
  assumes "boards_to_retry w bs log = (Inr retry, log')"
  shows "set retry \<subseteq> set bs \<and> (\<forall>b\<in>set bs. b \<notin> set retry \<longrightarrow> healthy w log' (length log) b)"
  using assms
proof (induction bs arbitrary: log retry)
  case (Cons b bs)
  let ?l1 = "log @ [Read_version b]"
  from Cons.prems obtain v where v: "w (length log) = Some v"
    and rest: "(if v < bmp_ver_min then boards_to_retry w bs
       else and_then (good_fpgas w b [0, 1, 2])
              (\<lambda>ok. and_then (boards_to_retry w bs) (\<lambda>retry. return (if ok then retry else b # retry)))) ?l1 =
       (Inr retry, log')"
    by (auto simp: ask_Inr elim!: and_then_InrE)
  show ?case
  proof (cases "v < bmp_ver_min")
    case True
    with rest have r: "boards_to_retry w bs ?l1 = (Inr retry, log')" by simp
    obtain new where new: "log' = ?l1 @ new" using r boards_to_retry_calls[of w bs] by (meson callsE)
    have "healthy w log' (length log) b" unfolding healthy_def
      using v True new by (intro exI[of _ "length log"] exI[of _ v]) (simp add: bmp_ver_min_def nth_append)
    moreover have "healthy w log' (length log) b'" if "healthy w log' (length ?l1) b'" for b'
      using healthy_later[OF that, of "length log" "[]"] by simp
    ultimately show ?thesis using Cons.IH[OF r] by auto
  next
    case False
    with rest obtain ok l2 rs where g: "good_fpgas w b [0, 1, 2] ?l1 = (Inr ok, l2)"
      and r: "boards_to_retry w bs l2 = (Inr rs, log')" and retry: "retry = (if ok then rs else b # rs)"
      by (auto simp: return_def simp del: good_fpgas.simps elim!: and_then_InrE)
    obtain n1 n2 where new: "l2 = ?l1 @ n1" "log' = l2 @ n2"
      using g r boards_to_retry_calls[of w bs] good_fpgas_calls[of w b "[0, 1, 2]"] by (meson callsE)
    have "healthy w log' (length log) b'" if "healthy w log' (length l2) b'" for b'
      using healthy_later[OF that, of "length log" "[]"] new by simp
    moreover have "healthy w log' (length log) b" if ok
    proof -
      have "\<exists>j x. length log < j \<and> j < length log' \<and> log' ! j = Read_fpga f 0x40004 b \<and> w j = Some x \<and> x AND 0x3 = f"
        if "f \<in> {0, 1, 2}" for f
      proof -
        from good_fpgas_true[of w b "[0, 1, 2]" ?l1 l2 f] g \<open>ok\<close> that
        obtain j x where "length ?l1 \<le> j" "j < length l2" "l2 ! j = Read_fpga f 0x40004 b" "w j = Some x" "x AND 0x3 = f"
          by auto
        with new(2) show ?thesis by (intro exI[of _ j] exI[of _ x]) (simp add: nth_append)
      qed
      then show ?thesis unfolding healthy_def
        using v new by (intro exI[of _ "length log"] exI[of _ v]) (simp add: nth_append)
    qed
    ultimately show ?thesis using Cons.IH[OF r] retry by auto
  qed
qed (simp add: return_def)

lemma power_on_and_check_calls [bmp_calls]: "calls (power_on_and_check w n bs :: ('c, unit) bmp) (reads \<union> powers_on bs)"
proof (induction n arbitrary: bs)
  case (Suc n)
  have "calls (power_on_and_check w n retry :: ('c, unit) bmp) (reads \<union> powers_on bs)" if "set retry \<subseteq> set bs" for retry
    by (rule calls_mono[OF Suc.IH]) (use that in \<open>auto simp: powers_on_def\<close>)
  moreover have "calls (boards_to_retry w bs :: ('c, int list) bmp) (reads \<union> powers_on bs)"
    by (rule calls_mono[OF boards_to_retry_calls]) simp
  ultimately show ?case
    by (auto simp: powers_on_def dest: boards_to_retry_healthy intro!: bmp_calls)
qed (auto intro: bmp_calls)

text \<open>
  Since it was last powered on, at or after position n, the board has been found to be fine.
\<close>

definition powered :: "answers \<Rightarrow> 'c bmp_call list \<Rightarrow> nat \<Rightarrow> int \<Rightarrow> bool" where
  "powered w log n b \<longleftrightarrow>
     (\<exists>p bs. n \<le> p \<and> p < length log \<and> log ! p = Power_on bs \<and> b \<in> set bs \<and> healthy w log (Suc p) b \<and>
        (\<forall>i bs'. p < i \<and> i < length log \<and> log ! i = Power_on bs' \<longrightarrow> b \<notin> set bs'))"

lemma power_on_verified:
  assumes "power_on_and_check w n bs log = (Inr (), log')" "b \<in> set bs"
  shows "powered w log' (length log) b"
  using assms
proof (induction n arbitrary: bs log)
  case (Suc n)
  let ?l1 = "log @ [Power_on bs]"
  from Suc.prems(1) obtain retry l2 where l2: "boards_to_retry w bs ?l1 = (Inr retry, l2)"
    and rest: "(if retry = [] then return () else power_on_and_check w n retry) l2 = (Inr (), log')"
    by (auto simp: make_call_Inr elim!: and_then_InrE)
  obtain n1 where n1: "l2 = ?l1 @ n1" "set n1 \<subseteq> reads" using l2 boards_to_retry_calls[of w bs] by (meson callsE)
  have rest_calls: "calls (if retry = [] then return () else power_on_and_check w n retry) (reads \<union> powers_on retry)"
    by (auto intro: bmp_calls)
  from callsE[OF this rest] obtain n2 where n2: "log' = l2 @ n2" "set n2 \<subseteq> reads \<union> powers_on retry" by blast
  show ?case
  proof (cases "b \<in> set retry")
    case True
    then have "power_on_and_check w n retry l2 = (Inr (), log')" using rest by (auto split: if_splits)
    from Suc.IH[OF this True] obtain p bs' where "length l2 \<le> p" "p < length log'" "log' ! p = Power_on bs'" "b \<in> set bs'"
      "healthy w log' (Suc p) b" "\<forall>i bs'. p < i \<and> i < length log' \<and> log' ! i = Power_on bs' \<longrightarrow> b \<notin> set bs'"
      unfolding powered_def by blast
    with n1 show ?thesis unfolding powered_def by (intro exI[of _ p] exI[of _ bs']) simp
  next
    case False
    have "healthy w l2 (Suc (length log)) b"
      using boards_to_retry_healthy[OF l2] False Suc.prems(2) by simp
    from healthy_later[OF this order_refl, of n2] have "healthy w log' (Suc (length log)) b" using n2 by simp
    moreover have "b \<notin> set bs'" if "length log < i" "i < length log'" "log' ! i = Power_on bs'" for i bs'
    proof -
      have e: "log' = (log @ [Power_on bs]) @ (n1 @ n2)" using n1 n2 by simp
      have "log' ! i = (n1 @ n2) ! (i - Suc (length log))"
        unfolding e using that(1) by (simp add: nth_append)
      moreover have "i - Suc (length log) < length (n1 @ n2)" using that(1,2) e by simp
      ultimately have "log' ! i \<in> set (n1 @ n2)" using nth_mem by metis
      then have "log' ! i \<in> powers_on retry" using n1(2) n2(2) that(3) by auto
      with False that(3) show ?thesis by (auto simp: powers_on_def)
    qed
    moreover have "length log < length log'" "log' ! length log = Power_on bs" using n1 n2 by (simp_all add: nth_append)
    ultimately show ?thesis unfolding powered_def
      using Suc.prems(2) by (intro exI[of _ "length log"] exI[of _ bs]) auto
  qed
qed (simp add: raise_def)

text \<open>Why it gives up: a call raised, or a board was powered on n times in vain.\<close>

definition power_ons :: "int \<Rightarrow> 'c bmp_call list \<Rightarrow> nat" where
  "power_ons b log = length (filter (\<lambda>c. case c of Power_on bs \<Rightarrow> b \<in> set bs | _ \<Rightarrow> False) log)"

definition some_raised :: "answers \<Rightarrow> nat \<Rightarrow> nat \<Rightarrow> bool" where
  "some_raised w i j \<longleftrightarrow> (\<exists>k. i \<le> k \<and> k < j \<and> w k = None)"

lemma power_ons_append [simp]: "power_ons b (l @ l') = power_ons b l + power_ons b l'"
  by (simp add: power_ons_def)

lemma power_ons_reads: "set l \<subseteq> reads \<Longrightarrow> power_ons b l = 0"
  by (auto simp: power_ons_def filter_empty_conv split: bmp_call.splits)

lemma some_raised_mono: "some_raised w i j \<Longrightarrow> i' \<le> i \<Longrightarrow> j \<le> j' \<Longrightarrow> some_raised w i' j'"
  unfolding some_raised_def by (meson le_trans less_le_trans)

definition only_raised :: "answers \<Rightarrow> ('c, 'a) bmp \<Rightarrow> bool" where
  "only_raised w m \<longleftrightarrow>
     (\<forall>log out log'. m log = (out, log') \<longrightarrow>
        length log \<le> length log' \<and> (\<forall>e. out = Inl e \<longrightarrow> some_raised w (length log) (length log')))"

lemma only_raised_basic [bmp_calls]: "only_raised w (return x)" "only_raised w (ask w c)" "only_raised w (make_call w c)"
  by (auto simp: only_raised_def return_def ask_def make_call_def and_then_def some_raised_def split: option.splits prod.splits)

lemma only_raised_and_then [bmp_calls]:
  assumes "only_raised w m" "\<And>x. only_raised w (f x)"
  shows "only_raised w (and_then m f)"
  unfolding only_raised_def
proof (intro allI impI)
  fix log out log'
  assume r: "and_then m f log = (out, log')"
  obtain o1 l1 where m: "m log = (o1, l1)" by (cases "m log")
  with assms(1) have 1: "length log \<le> length l1" "\<And>e. o1 = Inl e \<Longrightarrow> some_raised w (length log) (length l1)"
    unfolding only_raised_def by blast+
  show "length log \<le> length log' \<and> (\<forall>e. out = Inl e \<longrightarrow> some_raised w (length log) (length log'))"
  proof (cases o1)
    case (Inr x)
    with m r have "f x l1 = (out, log')" by (simp add: and_then_def)
    with assms(2)[of x] have "length l1 \<le> length log'" "\<And>e. out = Inl e \<Longrightarrow> some_raised w (length l1) (length log')"
      unfolding only_raised_def by blast+
    moreover have "some_raised w (length log) j" if "some_raised w (length l1) j" for j
      using some_raised_mono[OF that 1(1)] by simp
    ultimately show ?thesis using 1(1) by (metis le_trans)
  qed (use m r 1 in \<open>auto simp: and_then_def\<close>)
qed

lemma only_raised_if [bmp_calls]: "only_raised w m \<Longrightarrow> only_raised w m' \<Longrightarrow> only_raised w (if P then m else m')"
  by simp

lemma good_fpgas_raised [bmp_calls]: "only_raised w (good_fpgas w b fs)"
  by (induction fs) (auto simp: good_fpga_def intro!: bmp_calls)

lemma boards_to_retry_raised [bmp_calls]: "only_raised w (boards_to_retry w bs)"
  by (induction bs) (auto intro!: bmp_calls)

lemma power_on_gives_up:
  assumes "power_on_and_check w n bs log = (Inl e, log')" "bs \<noteq> []"
  shows "some_raised w (length log) (length log') \<or> (\<exists>b\<in>set bs. n \<le> power_ons b (drop (length log) log'))"
  using assms
proof (induction n arbitrary: bs log)
  case 0
  then show ?case by (metis le0 list.set_sel(1))
next
  case (Suc n)
  let ?l1 = "log @ [Power_on bs]"
  have le: "length log \<le> length log'"
    using callsE[OF power_on_and_check_calls Suc.prems(1)] by (metis le_add1 length_append)
  show ?case
  proof (cases "w (length log)")
    case None
    with Suc.prems(1) have "log' = ?l1"
      by (auto simp: make_call_Inl make_call_Inr elim!: and_then_InlE)
    with None show ?thesis by (auto simp: some_raised_def)
  next
    case (Some v)
    obtain o2 l2 where l2: "boards_to_retry w bs ?l1 = (o2, l2)" by (cases "boards_to_retry w bs ?l1")
    obtain n1 where n1: "l2 = ?l1 @ n1" using callsE[OF boards_to_retry_calls l2] by metis
    show ?thesis
    proof (cases o2)
      case (Inl e')
      with boards_to_retry_raised[of w bs] l2 have "some_raised w (length ?l1) (length l2)"
        unfolding only_raised_def by blast
      moreover have "log' = l2" using Suc.prems(1) Some l2 Inl
        by (auto simp: and_then_def make_call_def ask_def return_def)
      ultimately show ?thesis using some_raised_mono by fastforce
    next
      case (Inr retry)
      have rest: "retry \<noteq> []" "power_on_and_check w n retry l2 = (Inl e, log')" using Suc.prems(1) Some l2 Inr
        by (auto simp: and_then_def make_call_def ask_def return_def split: if_splits)
      obtain n2 where n2: "log' = l2 @ n2" using callsE[OF power_on_and_check_calls rest(2)] by metis
      have "set retry \<subseteq> set bs" using boards_to_retry_healthy l2 Inr by blast
      from Suc.IH[OF rest(2,1)] show ?thesis
      proof
        assume "some_raised w (length l2) (length log')"
        then show ?thesis using some_raised_mono n1 by fastforce
      next
        assume "\<exists>b\<in>set retry. n \<le> power_ons b (drop (length l2) log')"
        then obtain b where b: "b \<in> set retry" "n \<le> power_ons b n2" using n2 by auto
        then have "Suc n \<le> power_ons b (drop (length log) log')"
          using \<open>set retry \<subseteq> set bs\<close> n1 n2 by (auto simp: power_ons_def)
        with b(1) \<open>set retry \<subseteq> set bs\<close> show ?thesis by blast
      qed
    qed
  qed
qed

section \<open>One request, correctly\<close>

fun is_done :: "'c bmp_call \<Rightarrow> bool" where
  "is_done (On_done _ _ _) = True"
| "is_done _ = False"

fun is_write :: "'c bmp_call \<Rightarrow> bool" where
  "is_write (Write_fpga _ _ _ _) = True"
| "is_write _ = False"

definition write_call :: "link_request \<Rightarrow> 'c bmp_call" where
  "write_call l = Write_fpga (fst (fpga_link_stop_registers (lr_link l))) (snd (fpga_link_stop_registers (lr_link l)))
     (if lr_enable l then 0 else 1) (lr_board l)"

text \<open>The versions read from position n on are those of a function.\<close>

definition versions_are :: "answers \<Rightarrow> 'c bmp_call list \<Rightarrow> nat \<Rightarrow> (int \<Rightarrow> int) \<Rightarrow> bool" where
  "versions_are w log n version \<longleftrightarrow>
     (\<forall>k b. n \<le> k \<and> k < length log \<and> log ! k = Read_version b \<longrightarrow> w k = Some (version b))"

lemma versions_are_prefix: "versions_are w (log @ new) n version \<Longrightarrow> n \<le> m \<Longrightarrow> versions_are w log m version"
  unfolding versions_are_def by (metis le_trans length_append nth_append trans_less_add1)

lemma set_link_state_calls [bmp_calls]: "calls (set_link_state w l) {c. \<not> is_done c}"
  by (auto simp: set_link_state_def split: prod.splits intro!: bmp_calls)

lemma carry_out_calls [bmp_calls]: "calls (carry_out w r) {c. \<not> is_done c}"
proof -
  have "(reads \<union> powers_on bs :: 'a bmp_call set) \<subseteq> {c. \<not> is_done c}" for bs
    by (auto simp: reads_def powers_on_def)
  then have "calls (power_on_and_check w n bs :: ('a, unit) bmp) {c. \<not> is_done c}" for n bs
    using power_on_and_check_calls calls_mono by blast
  then show ?thesis by (auto simp: carry_out_def intro!: bmp_calls)
qed

lemma set_links:
  assumes "for_each ls (set_link_state w) log = (Inr (), log')" "versions_are w log' (length log) version"
  shows "\<exists>new. log' = log @ new \<and> set new \<subseteq> range Read_version \<union> {c. is_write c} \<and>
    filter is_write new = map write_call (filter (\<lambda>l. 2 \<le> version (lr_board l)) ls)"
  using assms
proof (induction ls arbitrary: log)
  case (Cons l ls)
  let ?l1 = "log @ [Read_version (lr_board l)]"
  have c: "for_each (l # ls) (set_link_state w) = and_then (set_link_state w l) (\<lambda>_. for_each ls (set_link_state w))"
    by (rule ext) simp
  from Cons.prems(1) obtain l2 where l2: "set_link_state w l log = (Inr (), l2)"
    and rest: "for_each ls (set_link_state w) l2 = (Inr (), log')"
    unfolding c by (auto elim!: and_then_InrE)
  from l2 obtain v where v: "w (length log) = Some v"
    and link: "(if v < bmp_ver_min then return ()
      else case fpga_link_stop_registers (lr_link l) of (fpga, addr) \<Rightarrow>
        make_call w (Write_fpga fpga addr (if lr_enable l then 0 else 1) (lr_board l))) ?l1 = (Inr (), l2)"
    by (auto simp: set_link_state_def ask_Inr elim!: and_then_InrE)
  have "calls (for_each ls (set_link_state w)) (UNIV :: 'a bmp_call set)"
    by (rule calls_mono[OF calls_for_each[OF set_link_state_calls]]) simp
  from callsE[OF this rest] obtain n2 where n2: "log' = l2 @ n2" by blast
  have l2': "l2 = ?l1 @ (if 2 \<le> v then [write_call l] else [])"
    using link by (auto simp: bmp_ver_min_def return_def make_call_Inr write_call_def split: if_splits prod.splits)
  have "versions_are w log' (length l2) version"
    using versions_are_prefix[of w log' "[]" "length log"] Cons.prems(2) l2' by simp
  from Cons.IH[OF rest this] obtain new where new: "log' = l2 @ new" "set new \<subseteq> range Read_version \<union> {c. is_write c}"
    "filter is_write new = map write_call (filter (\<lambda>l. 2 \<le> version (lr_board l)) ls)" by blast
  have "log' ! length log = Read_version (lr_board l)" "length log < length log'"
    using new(1) l2' by (simp_all add: nth_append)
  then have "v = version (lr_board l)" using Cons.prems(2) v unfolding versions_are_def by auto
  moreover have "is_write (write_call l)" by (simp add: write_call_def)
  ultimately show ?case
    using new l2' by (intro exI[of _ "Read_version (lr_board l) # (if 2 \<le> v then [write_call l] else []) @ new"]) auto
qed (simp add: versions_are_def)

text \<open>
  C36. Carrying out a request. If no exception ends it, then first all boards to be powered on
  have been, and each was found to be fine after it was last powered on; then the stop register
  of the right FPGA was written for each link in turn, where the board has such a register;
  and last the boards to be powered off were powered off, by one command.
\<close>

theorem carry_out_complete:
  assumes "carry_out w r log = (Inr (), log')" "versions_are w log' (length log) version"
  shows "\<exists>ons links. log' = log @ ons @ links @ (if power_off_boards r = [] then [] else [Power_off (power_off_boards r)]) \<and>
    set ons \<subseteq> reads \<union> powers_on (power_on_boards r) \<and>
    (\<forall>b\<in>set (power_on_boards r). powered w (log @ ons) (length log) b) \<and>
    set links \<subseteq> range Read_version \<union> {c. is_write c} \<and>
    filter is_write links = map write_call (filter (\<lambda>l. 2 \<le> version (lr_board l)) (link_requests r))"
proof -
  let ?on = "if power_on_boards r \<noteq> [] then power_on_and_check w n_fpga_retries (power_on_boards r) else return ()"
  from assms(1) obtain l1 l2 where l1: "?on log = (Inr (), l1)"
    and l2: "for_each (link_requests r) (set_link_state w) l1 = (Inr (), l2)"
    and l3: "(if power_off_boards r \<noteq> [] then make_call w (Power_off (power_off_boards r)) else return ()) l2 = (Inr (), log')"
    unfolding carry_out_def by (auto elim!: and_then_InrE)
  have off: "log' = l2 @ (if power_off_boards r = [] then [] else [Power_off (power_off_boards r)])"
    using l3 by (auto simp: return_def make_call_Inr split: if_splits)
  have "calls ?on (reads \<union> powers_on (power_on_boards r))" by (auto intro!: bmp_calls)
  from callsE[OF this l1] obtain ons where ons: "l1 = log @ ons" "set ons \<subseteq> reads \<union> powers_on (power_on_boards r)" by blast
  have "versions_are w l2 (length l1) version"
    using versions_are_prefix assms(2) ons(1) unfolding off by (metis le_add1 length_append)
  from set_links[OF l2 this] obtain links where "l2 = l1 @ links" "set links \<subseteq> range Read_version \<union> {c. is_write c}"
    "filter is_write links = map write_call (filter (\<lambda>l. 2 \<le> version (lr_board l)) (link_requests r))" by blast
  moreover have "powered w (log @ ons) (length log) b" if "b \<in> set (power_on_boards r)" for b
  proof -
    have "power_on_boards r \<noteq> []" using that by auto
    with l1 have "power_on_and_check w n_fpga_retries (power_on_boards r) log = (Inr (), l1)" by simp
    from power_on_verified[OF this that] ons(1) show ?thesis by simp
  qed
  ultimately show ?thesis using off ons by (intro exI[of _ ons] exI[of _ links]) simp
qed

text \<open>A board of the second version whose first FPGA is wrong once, and a board of the first.\<close>

definition flaky :: answers where
  "flaky n = Some ([0, 2, 3, 1, 0, 2, 0, 1, 2, 2, 0, 1, 0] ! n)"

definition flaky_request :: "int atomic_requests" where
  "flaky_request = add_power 9 False (add_link 5 West False (add_link 3 North True
     (add_power 5 True (add_power 3 True (new_atomic_requests 7)))))"

lemma flaky_run:
  "carry_out flaky flaky_request [] = (Inr (),
     [Power_on [3, 5], Read_version 3, Read_fpga 0 0x40004 3, Read_version 5,
      Power_on [3], Read_version 3, Read_fpga 0 0x40004 3, Read_fpga 1 0x40004 3, Read_fpga 2 0x40004 3,
      Read_version 3, Write_fpga 2 0x5C 0 3, Read_version 5, Power_off [9]])"
  by code_simp

theorem carry_out_complete_witness:
  "\<exists>log ons links. carry_out flaky flaky_request [] = (Inr (), log) \<and> log = ons @ links @ [Power_off [9]] \<and>
     powered flaky ons 0 3 \<and> powered flaky ons 0 5 \<and> filter is_write links = [Write_fpga 2 0x5C 0 3]"
proof -
  let ?v = "\<lambda>b. if b = 3 then 2 else 1"
  obtain log where log: "carry_out flaky flaky_request [] = (Inr (), log)" using flaky_run by blast
  then have "log = [Power_on [3, 5], Read_version 3, Read_fpga 0 0x40004 3, Read_version 5,
      Power_on [3], Read_version 3, Read_fpga 0 0x40004 3, Read_fpga 1 0x40004 3, Read_fpga 2 0x40004 3,
      Read_version 3, Write_fpga 2 0x5C 0 3, Read_version 5, Power_off [9]]" using flaky_run by simp
  then have "versions_are flaky log (length ([] :: int bmp_call list)) ?v"
    by (auto simp: versions_are_def flaky_def less_Suc_eq)
  from carry_out_complete[OF log this] log show ?thesis
    by (auto simp: flaky_request_def add_power_def add_link_def new_atomic_requests_def write_call_def)
qed

text \<open>
  Powering on gives up only for a reason: unless a call to the transceiver raised, some
  board has been powered on as often as there are tries.
\<close>

theorem power_on_failure:
  assumes "power_on_and_check w n boards log = (Inl e, log')" "boards \<noteq> []"
  shows "(\<exists>k. length log \<le> k \<and> k < length log' \<and> w k = None) \<or>
    (\<exists>b\<in>set boards. n \<le> power_ons b (drop (length log) log'))"
  using power_on_gives_up[OF assms] by (simp only: some_raised_def)

theorem power_on_failure_witness:
  "3 \<le> power_ons 4 (snd (power_on_and_check (\<lambda>_. Some 3) 3 [4] ([] :: int bmp_call list)))"
proof -
  have "power_on_and_check (\<lambda>_. Some 3) 3 [4] ([] :: int bmp_call list) =
      (Inl Exception, snd (power_on_and_check (\<lambda>_. Some 3) 3 [4] []))" by code_simp
  from power_on_failure[OF this] show ?thesis by simp
qed

text \<open>From position n on, the callback is called with True only, and each call of it raises.\<close>

fun refused :: "answers \<Rightarrow> 'c \<Rightarrow> nat \<Rightarrow> 'c bmp_call list \<Rightarrow> bool" where
  "refused w c n [] = True"
| "refused w c n (x # xs) = ((is_done x \<longrightarrow> x = On_done c True None \<and> w n = None) \<and> refused w c (Suc n) xs)"

lemma refused_append [simp]: "refused w c n (xs @ ys) \<longleftrightarrow> refused w c n xs \<and> refused w c (n + length xs) ys"
  by (induction xs arbitrary: n) auto

lemma refused_none: "set xs \<subseteq> {x. \<not> is_done x} \<Longrightarrow> refused w c n xs"
  by (induction xs arbitrary: n) auto

lemma try_request_Inr:
  assumes "try_request w r log = (Inr (), log')"
  shows "\<exists>pre. log' = log @ pre @ [On_done (on_done r) True None] \<and> carry_out w r log = (Inr (), log @ pre) \<and>
    w (length (log @ pre)) \<noteq> None \<and> refused w (on_done r) (length log) pre"
proof -
  from assms obtain l1 where l1: "carry_out w r log = (Inr (), l1)"
    and c: "make_call w (On_done (on_done r) True None) l1 = (Inr (), log')"
    unfolding try_request_def by (elim and_then_InrE) simp
  obtain pre where "l1 = log @ pre" "set pre \<subseteq> {c. \<not> is_done c}" using callsE[OF carry_out_calls l1] .
  with l1 c[unfolded make_call_Inr] refused_none show ?thesis by (intro exI[of _ pre]) simp
qed

lemma try_request_Inl:
  assumes "try_request w r log = (Inl e, log')"
  shows "\<exists>pre. log' = log @ pre \<and> refused w (on_done r) (length log) pre"
  using assms unfolding try_request_def
proof (cases rule: and_then_InlE)
  case 1
  obtain pre where "log' = log @ pre" "set pre \<subseteq> {c. \<not> is_done c}" using callsE[OF carry_out_calls 1] .
  with refused_none show ?thesis by (intro exI[of _ pre]) simp
next
  case (2 u l1)
  obtain pre where "l1 = log @ pre" "set pre \<subseteq> {c. \<not> is_done c}" using callsE[OF carry_out_calls 2(1)] .
  with 2(2) refused_none show ?thesis
    by (intro exI[of _ "pre @ [On_done (on_done r) True None]"]) (simp add: make_call_Inl)
qed

lemma do_request_cases:
  assumes "do_request w host r log = (out, log')"
  obtains (first) "try_request w r log = (Inr (), log')" "out = Inr ()"
  | (second) e1 log1 where "try_request w r log = (Inl e1, log1)"
      "try_request w r (log1 @ [Sleep 15]) = (Inr (), log')" "out = Inr ()"
  | (failed) e1 log1 e2 log2 where "try_request w r log = (Inl e1, log1)"
      "try_request w r (log1 @ [Sleep 15]) = (Inl e2, log2)"
      "log' = log2 @ [On_done (on_done r) False (Some (''Requests failed on BMP '' @ host))]"
      "out = Inr () \<longleftrightarrow> w (length log2) \<noteq> None"
proof -
  have d: "do_request w host r log = (case try_request w r log of (Inr u, log') \<Rightarrow> (Inr u, log')
      | (Inl e, log1) \<Rightarrow> (case try_request w r (log1 @ [Sleep 15]) of (Inr u, log') \<Rightarrow> (Inr u, log')
          | (Inl e, log2) \<Rightarrow> make_call w (On_done (on_done r) False (Some (''Requests failed on BMP '' @ host))) log2))"
    by (simp add: do_request_def n_request_tries_def numeral_2_eq_2 seconds_between_tries_def split: sum.splits prod.splits)
  obtain o1 l1 where t1: "try_request w r log = (o1, l1)" by (cases "try_request w r log")
  obtain o2 l2 where t2: "try_request w r (l1 @ [Sleep 15]) = (o2, l2)" by (cases "try_request w r (l1 @ [Sleep 15])")
  consider u where "o1 = Inr u" | e1 u where "o1 = Inl e1" "o2 = Inr u" | e1 e2 where "o1 = Inl e1" "o2 = Inl e2"
    by (cases o1; cases o2) auto
  then show thesis
  proof cases
    case 1
    with assms t1 have "try_request w r log = (Inr (), log')" "out = Inr ()" by (simp_all add: d)
    then show thesis by (rule first)
  next
    case (2 e1 u)
    with assms t1 t2 have "try_request w r (l1 @ [Sleep 15]) = (Inr (), log')" "out = Inr ()" by (simp_all add: d)
    with t1 2 second show thesis by blast
  next
    case o: (3 e1 e2)
    with assms t1 t2 have f: "make_call w (On_done (on_done r) False (Some (''Requests failed on BMP '' @ host))) l2 = (out, log')"
      by (simp add: d)
    then have "log' = l2 @ [On_done (on_done r) False (Some (''Requests failed on BMP '' @ host))]"
      "out = Inr () \<longleftrightarrow> w (length l2) \<noteq> None" by (cases out; simp add: make_call_Inr make_call_Inl)+
    with failed t1 t2 o show thesis by blast
  qed
qed

text \<open>Everything a request asks for was just done: a try of it ended with this log.\<close>

definition just_done :: "answers \<Rightarrow> 'c atomic_requests \<Rightarrow> 'c bmp_call list \<Rightarrow> bool" where
  "just_done w r log \<longleftrightarrow> (\<exists>new start. log = start @ new \<and> carry_out w r start = (Inr (), log))"

lemma just_doneI: "carry_out w r start = (Inr (), start @ new) \<Longrightarrow> just_done w r (start @ new)"
  unfolding just_done_def by blast

text \<open>
  C35. Every request is answered. The last thing a request does is call its callback. With True
  it is called directly after everything requested was done. With False it is called after two
  tries that failed, the second 15 seconds after the first. Earlier calls of the callback can
  only be calls with True that raised: such an exception makes the request be tried again. The
  request ends with an exception only if the last call of the callback raises.
\<close>

theorem request_answered:
  assumes "do_request w host r log = (out, log')"
  shows "\<exists>pre ok. log' = log @ pre @ [On_done (on_done r) ok (if ok then None else Some (''Requests failed on BMP '' @ host))] \<and>
    refused w (on_done r) (length log) pre \<and> (out = Inr () \<longleftrightarrow> w (length (log @ pre)) \<noteq> None) \<and>
    (if ok then just_done w r (log @ pre)
     else \<exists>e1 log1 e2. try_request w r log = (Inl e1, log1) \<and>
            try_request w r (log1 @ [Sleep 15]) = (Inl e2, log @ pre))"
  using assms
proof (cases rule: do_request_cases)
  case first
  obtain pre where "log' = log @ pre @ [On_done (on_done r) True None]" "carry_out w r log = (Inr (), log @ pre)"
    "w (length (log @ pre)) \<noteq> None" "refused w (on_done r) (length log) pre" using try_request_Inr[OF first(1)] by blast
  moreover from this have "just_done w r (log @ pre)" by (blast intro: just_doneI)
  ultimately show ?thesis using first(2) by (intro exI[of _ pre] exI[of _ True]) simp
next
  case (second e1 log1)
  obtain p1 where p1: "log1 = log @ p1" "refused w (on_done r) (length log) p1" using try_request_Inl[OF second(1)] by blast
  obtain p2 where "log' = (log1 @ [Sleep 15]) @ p2 @ [On_done (on_done r) True None]"
    "carry_out w r (log1 @ [Sleep 15]) = (Inr (), (log1 @ [Sleep 15]) @ p2)" "w (length ((log1 @ [Sleep 15]) @ p2)) \<noteq> None"
    "refused w (on_done r) (length (log1 @ [Sleep 15])) p2" using try_request_Inr[OF second(2)] by blast
  moreover from this have "just_done w r ((log1 @ [Sleep 15]) @ p2)" by (blast intro: just_doneI)
  ultimately show ?thesis using second(3) p1
    by (intro exI[of _ "p1 @ [Sleep 15] @ p2"] exI[of _ True]) simp
next
  case (failed e1 log1 e2 log2)
  obtain p1 where "log1 = log @ p1" "refused w (on_done r) (length log) p1" using try_request_Inl[OF failed(1)] by blast
  moreover obtain p2 where "log2 = (log1 @ [Sleep 15]) @ p2" "refused w (on_done r) (length (log1 @ [Sleep 15])) p2"
    using try_request_Inl[OF failed(2)] by blast
  ultimately show ?thesis using failed
    by (intro exI[of _ "p1 @ [Sleep 15] @ p2"] exI[of _ False]) simp
qed

text \<open>A transceiver that fails the first power-off: the request is tried again, and answered once.\<close>

definition answers_late :: answers where
  "answers_late n = (if n = 0 then None else Some 0)"

definition off_request :: "int atomic_requests" where
  "off_request = add_power 1 False (new_atomic_requests 7)"

theorem request_answered_witness:
  "do_request answers_late ''h'' off_request [] =
     (Inr (), [Power_off [1], Sleep 15, Power_off [1], On_done 7 True None]) \<and>
   refused answers_late 7 0 [Power_off [1], Sleep 15, Power_off [1]]"
proof -
  have run: "do_request answers_late ''h'' off_request [] =
     (Inr (), [Power_off [1], Sleep 15, Power_off [1], On_done 7 True None])"
    by code_simp
  have "on_done off_request = 7" by (simp add: off_request_def add_power_def new_atomic_requests_def)
  with run request_answered[OF run] show ?thesis by auto
qed

section \<open>The thread, correctly\<close>

text \<open>What is queued or being worked on.\<close>

definition outstanding :: "'c bmp_controller \<Rightarrow> 'c atomic_requests list" where
  "outstanding s = (case bc_pc s of Busy r \<Rightarrow> r # bc_requests s | _ \<Rightarrow> bc_requests s)"

text \<open>
  The service it is to provide: an open or closed line of requests and the calls made so far.
  A request in service is taken from the front of the line when it has been answered; it may
  also bring the service down, which closes it.
\<close>

record 'c service =
  sv_open :: bool
  sv_line :: "'c atomic_requests list"
  sv_calls :: "'c bmp_call list"

inductive service_step :: "answers \<Rightarrow> string \<Rightarrow> 'c service \<Rightarrow> 'c service \<Rightarrow> bool" for w host where
  submit: "sv_open v \<Longrightarrow> service_step w host v (v\<lparr>sv_line := sv_line v @ [r]\<rparr>)"
| close: "service_step w host v (v\<lparr>sv_open := False\<rparr>)"
| serve: "sv_line v = r # rs \<Longrightarrow> do_request w host r (sv_calls v) = (Inr (), l) \<Longrightarrow>
    service_step w host v (v\<lparr>sv_line := rs, sv_calls := l\<rparr>)"
| fail: "sv_line v = r # rs \<Longrightarrow> do_request w host r (sv_calls v) = (Inl e, l) \<Longrightarrow>
    service_step w host v \<lparr>sv_open = False, sv_line = rs, sv_calls = l\<rparr>"
| start: "service_step w host v (v\<lparr>sv_calls := sv_calls v @ [On_thread_start]\<rparr>)"
| start_fails: "service_step w host v (v\<lparr>sv_open := False, sv_calls := sv_calls v @ [On_thread_start]\<rparr>)"

definition service_of :: "'c bmp_controller \<Rightarrow> 'c service" where
  "service_of s = \<lparr> sv_open = (\<not> bc_stop s), sv_line = outstanding s, sv_calls = bc_log s \<rparr>"

text \<open>
  C34. Refinement. Every step of the thread, of a caller of \<open>add_requests\<close> or of a caller of
  \<open>stop\<close> is a step of a first-in first-out service, or changes nothing it shows.
\<close>

theorem bmp_refines_service:
  assumes "bmp_step w s ev s'"
  shows "service_step w (bc_hostname s) (service_of s) (service_of s') \<or> service_of s' = service_of s"
  using assms
proof cases
  case (step_add r out)
  show ?thesis
  proof (cases "bc_stop s")
    case False
    then have "service_of s' = (service_of s)\<lparr>sv_line := sv_line (service_of s) @ [r]\<rparr>"
      using step_add by (auto simp: add_requests_def service_of_def outstanding_def split: thread_pc.splits)
    moreover have "sv_open (service_of s)" using False by (simp add: service_of_def)
    ultimately show ?thesis using service_step.submit by metis
  qed (use step_add in \<open>simp add: add_requests_def\<close>)
next
  case step_stop
  then have "service_of s' = (service_of s)\<lparr>sv_open := False\<rparr>"
    by (simp add: stop_controller_def service_of_def outstanding_def split: thread_pc.splits)
  then show ?thesis using service_step.close by metis
next
  case step_thread
  show ?thesis
  proof (cases "bc_pc s")
    case Starting
    show ?thesis
    proof (cases "bc_on_thread_start s")
      case True
      with step_thread(2) Starting have "service_of s' = (service_of s)\<lparr>sv_calls := sv_calls (service_of s) @ [On_thread_start]\<rparr> \<or>
          service_of s' = (service_of s)\<lparr>sv_open := False, sv_calls := sv_calls (service_of s) @ [On_thread_start]\<rparr>"
        by (auto simp: thread_step_def service_of_def outstanding_def crash_def make_call_Inl make_call_Inr
            split: prod.splits sum.splits)
      then show ?thesis using service_step.start service_step.start_fails by metis
    next
      case False
      with step_thread(2) Starting have "service_of s' = service_of s"
        by (auto simp: thread_step_def service_of_def outstanding_def)
      then show ?thesis ..
    qed
  next
    case Waiting
    with step_thread(2) have "service_of s' = service_of s"
      by (auto simp: thread_step_def service_of_def outstanding_def split: if_splits list.splits)
    then show ?thesis ..
  next
    case (Busy r)
    obtain out l where d: "do_request w (bc_hostname s) r (bc_log s) = (out, l)"
      by (cases "do_request w (bc_hostname s) r (bc_log s)")
    have line: "sv_line (service_of s) = r # bc_requests s" "sv_calls (service_of s) = bc_log s"
      using Busy by (simp_all add: service_of_def outstanding_def)
    show ?thesis
    proof (cases out)
      case (Inl e)
      have "service_of s' = \<lparr>sv_open = False, sv_line = bc_requests s, sv_calls = l\<rparr>"
        using step_thread(2) Busy d Inl by (auto simp: thread_step_def crash_def service_of_def outstanding_def)
      then show ?thesis using service_step.fail[OF line(1)] d Inl line(2) by metis
    next
      case (Inr u)
      have "service_of s' = (service_of s)\<lparr>sv_line := bc_requests s, sv_calls := l\<rparr>"
        using step_thread(2) Busy d Inr by (auto simp: thread_step_def service_of_def outstanding_def)
      then show ?thesis using service_step.serve[OF line(1)] d Inr line(2) by (metis old.unit.exhaust)
    qed
  next
    case Testing
    with step_thread(2) have "service_of s' = service_of s"
      by (auto simp: thread_step_def service_of_def outstanding_def split: if_splits)
    then show ?thesis ..
  qed (use step_thread(2) in \<open>simp_all add: thread_step_def\<close>)
qed

theorem bmp_refines_service_witness:
  "service_step answers_late ''h'' (service_of (new_bmp_controller ''h'' False))
     (service_of (snd (add_requests off_request (new_bmp_controller ''h'' False)))) \<or>
   service_of (snd (add_requests off_request (new_bmp_controller ''h'' False))) =
     service_of (new_bmp_controller ''h'' False)"
proof -
  let ?s = "new_bmp_controller ''h'' False :: int bmp_controller"
  have "bmp_step answers_late ?s (Add off_request) (snd (add_requests off_request ?s))"
    by (rule step_add[of _ _ "fst (add_requests off_request ?s)"]) simp
  from bmp_refines_service[OF this] show ?thesis by (simp add: new_bmp_controller_def)
qed

inductive bmp_reachable :: "answers \<Rightarrow> 'c bmp_controller \<Rightarrow> bool" for w where
  initially: "bmp_reachable w (new_bmp_controller host start)"
| later: "bmp_reachable w s \<Longrightarrow> bmp_step w s ev s' \<Longrightarrow> bmp_reachable w s'"

definition ended :: "'c bmp_controller \<Rightarrow> bool" where
  "ended s = (case bc_pc s of Returned \<Rightarrow> True | Crashed \<Rightarrow> True | _ \<Rightarrow> False)"

text \<open>The event is set whenever there is something for the thread to do.\<close>

definition awake :: "'c bmp_controller \<Rightarrow> bool" where
  "awake s \<longleftrightarrow>
     (\<not> ended s \<and> (bc_requests s \<noteq> [] \<or> bc_stop s) \<longrightarrow> bc_pending s) \<and>
     (bc_pc s = Returned \<longrightarrow> bc_requests s = []) \<and> (ended s \<longrightarrow> bc_stop s)"

lemmas thread_defs = thread_step_def awake_def ended_def crash_def outstanding_def

lemma awake_thread: "awake s \<Longrightarrow> thread_step w s = Some s' \<Longrightarrow> awake s'"
  by (cases "bc_pc s") (auto simp: thread_defs split: if_splits list.splits prod.splits sum.splits)

lemma awake_step: "bmp_step w s ev s' \<Longrightarrow> awake s \<Longrightarrow> awake s'"
proof (induction rule: bmp_step.induct)
  case (step_add r s out s')
  then show ?case by (cases "bc_pc s") (auto simp: add_requests_def thread_defs split: if_splits)
next
  case (step_stop s)
  then show ?case by (cases "bc_pc s") (auto simp: stop_controller_def thread_defs)
qed (rule awake_thread)

lemma reachable_awake: "bmp_reachable w s \<Longrightarrow> awake s"
proof (induction rule: bmp_reachable.induct)
  case initially
  show ?case by (simp add: awake_def ended_def new_bmp_controller_def)
qed (rule awake_step)

text \<open>
  C37. No wake-up is lost. Whatever the interleaving, the thread stands still only when it has
  ended, or when nothing is outstanding and it has not been told to stop. When it has returned
  nothing is outstanding.
\<close>

theorem thread_never_stuck:
  assumes "bmp_reachable w s"
  shows "(thread_step w s = None \<longrightarrow> ended s \<or> outstanding s = [] \<and> \<not> bc_stop s) \<and>
    (bc_pc s = Returned \<longrightarrow> outstanding s = [])"
  using reachable_awake[OF assms]
  by (cases "bc_pc s") (auto simp: thread_defs split: if_splits list.splits prod.splits sum.splits)

theorem thread_never_stuck_witness:
  "\<exists>s. bmp_reachable answers_late s \<and> outstanding s = [off_request] \<and> thread_step answers_late s \<noteq> None"
proof -
  let ?s0 = "new_bmp_controller ''h'' False :: int bmp_controller"
  let ?s1 = "snd (add_requests off_request ?s0)"
  have "bmp_step answers_late ?s0 (Add off_request) ?s1"
    by (rule step_add[of _ _ "fst (add_requests off_request ?s0)"]) simp
  then have r: "bmp_reachable answers_late ?s1" by (rule later[OF initially])
  have o: "outstanding ?s1 = [off_request]" "\<not> ended ?s1"
    by (simp_all add: add_requests_def new_bmp_controller_def outstanding_def ended_def)
  with thread_never_stuck[OF r] r show ?thesis by auto
qed

text \<open>The thread runs on alone, for at most n steps.\<close>

fun thread_run :: "answers \<Rightarrow> nat \<Rightarrow> 'c bmp_controller \<Rightarrow> 'c bmp_controller" where
  "thread_run w 0 s = s"
| "thread_run w (Suc n) s = (case thread_step w s of None \<Rightarrow> s | Some s' \<Rightarrow> thread_run w n s')"

definition steps_left :: "'c bmp_controller \<Rightarrow> nat" where
  "steps_left s =
     (case bc_pc s of
        Starting \<Rightarrow> 3 * length (bc_requests s) + 3
      | Waiting \<Rightarrow> 3 * length (bc_requests s) + 2
      | Busy r \<Rightarrow> 3 * length (bc_requests s) + 4
      | Testing \<Rightarrow> if bc_requests s = [] then 1 else 3 * length (bc_requests s) + 3
      | _ \<Rightarrow> 0)"

lemma steps_left_less:
  "thread_step w s = Some s' \<Longrightarrow> bc_stop s \<Longrightarrow> steps_left s' < steps_left s \<and> bc_stop s'"
  by (cases "bc_pc s") (auto simp: steps_left_def thread_defs split: if_splits list.splits prod.splits sum.splits)

lemma thread_run_ends: "awake s \<Longrightarrow> bc_stop s \<Longrightarrow> steps_left s \<le> n \<Longrightarrow> ended (thread_run w n s)"
proof (induction n arbitrary: s)
  case 0
  then show ?case by (auto simp: steps_left_def ended_def split: thread_pc.splits if_splits)
next
  case (Suc n)
  show ?case
  proof (cases "thread_step w s")
    case None
    with Suc.prems show ?thesis
      by (cases "bc_pc s") (auto simp: thread_defs split: if_splits list.splits prod.splits sum.splits)
  next
    case (Some s')
    with steps_left_less[OF Some] awake_thread[of s w s'] Suc show ?thesis by simp
  qed
qed

text \<open>
  C38. Stopping. After \<open>stop\<close> the thread ends, in at most three steps for each request left in
  the queue and four more; and if it does not end with an exception it has answered them all.
\<close>

theorem stop_terminates:
  assumes "bmp_reachable w s" "bc_stop s"
  shows "\<exists>s'. s' = thread_run w (3 * length (bc_requests s) + 4) s \<and>
    (bc_pc s' = Crashed \<or> bc_pc s' = Returned \<and> outstanding s' = [])"
proof -
  let ?n = "3 * length (bc_requests s) + 4"
  have "steps_left s \<le> ?n" by (auto simp: steps_left_def split: thread_pc.splits)
  then have e: "ended (thread_run w ?n s)" using thread_run_ends[OF reachable_awake[OF assms(1)] assms(2)] by blast
  have "awake (thread_run w n s)" for n
    using reachable_awake[OF assms(1)]
    by (induction n arbitrary: s) (auto intro: awake_thread split: option.splits)
  with e show ?thesis by (auto simp: ended_def awake_def outstanding_def split: thread_pc.splits)
qed

theorem stop_terminates_witness:
  "\<exists>s. bmp_reachable answers_late s \<and> outstanding s = [off_request] \<and> bc_pc (thread_run answers_late 7 s) = Returned"
proof -
  let ?s0 = "new_bmp_controller ''h'' False :: int bmp_controller"
  let ?s1 = "snd (add_requests off_request ?s0)"
  have "bmp_step answers_late ?s0 (Add off_request) ?s1"
    by (rule step_add[of _ _ "fst (add_requests off_request ?s0)"]) simp
  then have "bmp_reachable answers_late (stop_controller ?s1)" by (rule later[OF later[OF initially] step_stop])
  moreover have "bc_stop (stop_controller ?s1)" "outstanding (stop_controller ?s1) = [off_request]"
    "length (bc_requests (stop_controller ?s1)) = 1"
    by (simp_all add: stop_controller_def add_requests_def new_bmp_controller_def outstanding_def)
  moreover have "bc_pc (thread_run answers_late 7 (stop_controller ?s1)) \<noteq> Crashed" by code_simp
  ultimately show ?thesis using stop_terminates[of answers_late "stop_controller ?s1"] by auto
qed

end
