(* ===== verification/Controller.thy ===== *)
theory Controller
  imports JobQueueFaults Configuration BmpController "HOL-Library.Product_Lexorder"
begin

text \<open>
  The controller (\<open>controller.py\<close>): it keeps what clients know about jobs, reacts to the reports
  of the job queue by powering boards, and counts the answers of the BMPs. Job objects are held
  by the callbacks of requests after they left the dictionary, so they live in a store, as do
  the BMP controllers.
\<close>

section \<open>The state\<close>

type_synonym cjob_ref = nat
type_synonym bmp_ref = nat

datatype job_state = Unknown | Queued | Power | Ready | Destroyed

record cjob =
  cj_id :: int
  cj_owner :: string
  cj_start_time :: rat
  cj_keepalive :: "rat option"
  cj_keepalive_until :: "rat option"
  cj_lasthost :: "string option"
  cj_state :: job_state
  cj_power :: "bool option"
  cj_machine_name :: "string option"
  cj_tags :: "string set option"
  cj_args :: alloc_args
  cj_kwargs :: alloc_kwargs
  cj_allocated_machine :: "machine_config option"
  cj_boards :: "board set option"
  cj_periphery :: "board_link set option"
  cj_torus :: "wrap_around option"
  cj_width :: "int option"
  cj_height :: "int option"
  cj_connections :: "(int \<times> int, string) odict option"
  cj_requests_until_ready :: int

record controller =
  c_next_id :: int
  c_on_background :: bool
  c_queue :: job_queue
  c_machines :: "(string, machine_config) odict"
  c_jobs :: "(int, cjob_ref) odict"
  c_job_store :: "cjob list"
  c_max_retired_jobs :: int
  c_retired_jobs :: "(int, string option) odict"
  c_changed_jobs :: "int set"
  c_changed_machines :: "string set"
  c_bmp_controllers :: "(string, (frame, bmp_ref) odict) odict"
  c_bmp_store :: "cjob_ref bmp_controller list"
  c_ticks :: nat
  c_wakes :: nat

text \<open>
  What the state does not determine: the world of the job queue, the n-th reading of the clock,
  and the orders in which sets are gone through. \<open>c_ticks\<close> counts the readings of the clock,
  \<open>c_wakes\<close> the calls of \<open>on_background_state_change\<close>.
\<close>

record cworld =
  cw_queue :: world
  cw_time :: "nat \<Rightarrow> rat"
  cw_boards :: "board set \<Rightarrow> board list"
  cw_links :: "board_link set \<Rightarrow> board_link list"
  cw_names :: "string set \<Rightarrow> string list"

type_synonym 'a ctl = "(controller, 'a) py_call"

definition new_controller :: "int \<Rightarrow> int \<Rightarrow> bool \<Rightarrow> rat \<Rightarrow> controller" where
  "new_controller next_id max_retired on_background seconds =
     \<lparr> c_next_id = next_id, c_on_background = on_background, c_queue = new_job_queue seconds,
       c_machines = [], c_jobs = [], c_job_store = [], c_max_retired_jobs = max_retired,
       c_retired_jobs = [], c_changed_jobs = {}, c_changed_machines = {}, c_bmp_controllers = [],
       c_bmp_store = [], c_ticks = 0, c_wakes = 0 \<rparr>"

definition the_cjob :: "controller \<Rightarrow> cjob_ref \<Rightarrow> cjob" where
  "the_cjob c r = c_job_store c ! r"

definition set_cjob :: "cjob_ref \<Rightarrow> cjob \<Rightarrow> controller \<Rightarrow> controller" where
  "set_cjob r j c = c\<lparr>c_job_store := (c_job_store c)[r := j]\<rparr>"

definition job_changed :: "int \<Rightarrow> controller \<Rightarrow> controller" where
  "job_changed i c = c\<lparr>c_changed_jobs := insert i (c_changed_jobs c)\<rparr>"

definition machine_changed :: "string \<Rightarrow> controller \<Rightarrow> controller" where
  "machine_changed name c = c\<lparr>c_changed_machines := insert name (c_changed_machines c)\<rparr>"

section \<open>Keeping jobs alive\<close>

definition timestamp :: "cworld \<Rightarrow> controller \<Rightarrow> rat \<times> controller" where
  "timestamp w c = (cw_time w (c_ticks c), c\<lparr>c_ticks := Suc (c_ticks c)\<rparr>)"

definition update_keepalive :: "cworld \<Rightarrow> string option \<Rightarrow> cjob_ref \<Rightarrow> controller \<Rightarrow> controller" where
  "update_keepalive w host r c =
     (let j = the_cjob c r;
          j = (case host of None \<Rightarrow> j | Some h \<Rightarrow> j\<lparr>cj_lasthost := Some h\<rparr>)
      in case cj_keepalive j of
           None \<Rightarrow> set_cjob r j c
         | Some k \<Rightarrow> (case timestamp w c of (now, c) \<Rightarrow> set_cjob r (j\<lparr>cj_keepalive_until := Some (now + k)\<rparr>) c))"

definition job_keepalive :: "cworld \<Rightarrow> string option \<Rightarrow> int \<Rightarrow> controller \<Rightarrow> controller" where
  "job_keepalive w host i c =
     (case od_get (c_jobs c) i of None \<Rightarrow> c | Some r \<Rightarrow> update_keepalive w host r c)"

section \<open>Powering boards\<close>

type_synonym frame_commands = "(bmp_ref, cjob_ref atomic_requests) odict"

definition add_command ::
    "cjob_ref \<Rightarrow> bmp_ref \<Rightarrow> (cjob_ref atomic_requests \<Rightarrow> cjob_ref atomic_requests) \<Rightarrow> frame_commands \<Rightarrow> frame_commands"
where
  "add_command r k f d =
     od_set k (f (case od_get d k of None \<Rightarrow> new_atomic_requests r | Some x \<Rightarrow> x)) d"

text \<open>The BMP that controls a board, and the number of the board in its frame.\<close>

definition bmp_of :: "machine_config \<Rightarrow> (frame, bmp_ref) odict \<Rightarrow> board \<Rightarrow> (bmp_ref \<times> int) res" where
  "bmp_of m controllers xyz =
     (case od_get (mc_board_locations m) xyz of
        None \<Rightarrow> Inl KeyError
      | Some (c, f, b) \<Rightarrow>
          (case od_get controllers (c, f) of None \<Rightarrow> Inl KeyError | Some k \<Rightarrow> Inr (k, b)))"

definition power_command ::
    "machine_config \<Rightarrow> (frame, bmp_ref) odict \<Rightarrow> cjob_ref \<Rightarrow> bool \<Rightarrow> board \<Rightarrow> frame_commands \<Rightarrow> frame_commands res"
where
  "power_command m controllers r on xyz d =
     (case bmp_of m controllers xyz of
        Inl e \<Rightarrow> Inl e
      | Inr (k, b) \<Rightarrow> Inr (add_command r k (add_power b on) d))"

definition link_command ::
    "machine_config \<Rightarrow> (frame, bmp_ref) odict \<Rightarrow> cjob_ref \<Rightarrow> bool \<Rightarrow> board_link \<Rightarrow> frame_commands \<Rightarrow> frame_commands res"
where
  "link_command m controllers r enable l d =
     (case l of (x, y, z, link) \<Rightarrow>
        case bmp_of m controllers (x, y, z) of
          Inl e \<Rightarrow> Inl e
        | Inr (k, b) \<Rightarrow> Inr (add_command r k (add_link b link enable) d))"

definition frame_commands ::
    "cworld \<Rightarrow> machine_config \<Rightarrow> (frame, bmp_ref) odict \<Rightarrow> cjob_ref \<Rightarrow> board set \<Rightarrow> board_link set \<Rightarrow>
     bool \<Rightarrow> bool option \<Rightarrow> frame_commands res"
where
  "frame_commands w m controllers r boards periphery on link_enable =
     (case fold_res (power_command m controllers r on) (cw_boards w boards) [] of
        Inl e \<Rightarrow> Inl e
      | Inr d \<Rightarrow>
          (case link_enable of
             None \<Rightarrow> Inr d
           | Some enable \<Rightarrow> fold_res (link_command m controllers r enable) (cw_links w periphery) d))"

definition send_commands :: "bmp_ref \<times> cjob_ref atomic_requests \<Rightarrow> unit ctl" where
  "send_commands kc c =
     (case kc of (k, commands) \<Rightarrow>
        case add_requests commands (c_bmp_store c ! k) of
          (Inl e, b) \<Rightarrow> (Inl e, c)
        | (Inr u, b) \<Rightarrow> (Inr (), c\<lparr>c_bmp_store := (c_bmp_store c)[k := b]\<rparr>))"

definition add_outstanding :: "cjob_ref \<Rightarrow> int \<Rightarrow> controller \<Rightarrow> controller" where
  "add_outstanding r n c =
     (let j = the_cjob c r in set_cjob r (j\<lparr>cj_requests_until_ready := cj_requests_until_ready j + n\<rparr>) c)"

definition set_job_power_and_links :: "cworld \<Rightarrow> cjob_ref \<Rightarrow> bool \<Rightarrow> bool option \<Rightarrow> unit ctl" where
  "set_job_power_and_links w r on link_enable c =
     (let j = the_cjob c r
      in case (cj_allocated_machine j, cj_boards j, cj_periphery j) of
           (Some m, Some boards, Some periphery) \<Rightarrow>
             (case od_get (c_bmp_controllers c) (mc_name m) of
                None \<Rightarrow> (Inl KeyError, c)
              | Some controllers \<Rightarrow>
                  (case frame_commands w m controllers r boards periphery on link_enable of
                     Inl e \<Rightarrow> (Inl e, c)
                   | Inr d \<Rightarrow>
                       and_then (for_each d send_commands)
                         (\<lambda>_ c. (Inr (), job_changed (cj_id j)
                            (set_cjob r ((the_cjob c r)\<lparr> cj_state := Power, cj_power := Some on \<rparr>) c)))
                         (add_outstanding r (int (length d)) c)))
         | _ \<Rightarrow> (Inl AttributeError, c))"

definition power_job_boards :: "cworld \<Rightarrow> bool \<Rightarrow> bool option \<Rightarrow> string option \<Rightarrow> int \<Rightarrow> unit ctl" where
  "power_job_boards w on link_enable host i c =
     (let c = job_keepalive w host i c
      in case od_get (c_jobs c) i of
           None \<Rightarrow> (Inr (), c)
         | Some r \<Rightarrow>
             if cj_boards (the_cjob c r) = None then (Inr (), c)
             else set_job_power_and_links w r on link_enable c)"

definition power_on_job_boards :: "cworld \<Rightarrow> string option \<Rightarrow> int \<Rightarrow> unit ctl" where
  "power_on_job_boards w = power_job_boards w True (Some False)"

definition power_off_job_boards :: "cworld \<Rightarrow> string option \<Rightarrow> int \<Rightarrow> unit ctl" where
  "power_off_job_boards w = power_job_boards w False None"

section \<open>Reports of the job queue\<close>

text \<open>The dimensions in chips of the boards of a job.\<close>

definition job_dimensions :: "board set \<Rightarrow> wrap_around \<Rightarrow> int \<times> int" where
  "job_dimensions boards torus =
     (case (Min boards, Max boards) of ((ox, oy, oz), (bx, b_y, bz)) \<Rightarrow>
        if card boards > 1 then triad_dimensions_to_chips (bx - ox + 1) (b_y - oy + 1) torus else (8, 8))"

definition add_connection ::
    "machine_config \<Rightarrow> board \<Rightarrow> board \<Rightarrow> (int \<times> int, string) odict \<Rightarrow> (int \<times> int, string) odict res"
where
  "add_connection m origin b d =
     (case (origin, b) of ((ox, oy, oz), (x, y, z)) \<Rightarrow>
        case od_get (mc_spinnaker_ips m) b of
          None \<Rightarrow> Inl KeyError
        | Some ip \<Rightarrow> Inr (od_set (board_to_chip (x - ox) (y - oy) (z - oz)) ip d))"

definition job_queue_on_allocate ::
    "cworld \<Rightarrow> int \<Rightarrow> string \<Rightarrow> board set \<Rightarrow> board_link set \<Rightarrow> wrap_around \<Rightarrow> unit ctl"
where
  "job_queue_on_allocate w i name boards periphery torus c =
     (case od_get (c_jobs c) i of
        None \<Rightarrow> (Inl KeyError, c)
      | Some r \<Rightarrow>
          (case od_get (c_machines c) name of
             None \<Rightarrow> (Inl KeyError, c)
           | Some m \<Rightarrow>
               let c = set_cjob r ((the_cjob c r)\<lparr> cj_allocated_machine := Some m, cj_boards := Some boards,
                         cj_periphery := Some periphery, cj_torus := Some torus \<rparr>) c;
                   c = machine_changed name (job_changed (cj_id (the_cjob c r)) c)
               in if boards = {} then (Inl ValueError, c)
                  else
                    let (width, height) = job_dimensions boards torus;
                        c = set_cjob r ((the_cjob c r)\<lparr> cj_width := Some width, cj_height := Some height \<rparr>) c
                    in case fold_res (add_connection m (Min boards)) (cw_boards w boards) [] of
                         Inl e \<Rightarrow> (Inl e, c)
                       | Inr d \<Rightarrow>
                           let c = set_cjob r ((the_cjob c r)\<lparr>cj_connections := Some d\<rparr>) c
                           in power_on_job_boards w (cj_lasthost (the_cjob c r)) i c))"

definition teardown_job :: "cworld \<Rightarrow> int \<Rightarrow> string option \<Rightarrow> unit ctl" where
  "teardown_job w i reason c =
     (case od_get (c_jobs c) i of
        None \<Rightarrow> (Inl KeyError, c)
      | Some r \<Rightarrow>
          let retired = od_set i reason (c_retired_jobs c);
              retired = (if int (length retired) > c_max_retired_jobs c then tl retired else retired);
              c = job_changed (cj_id (the_cjob c r)) (c\<lparr> c_jobs := od_del i (c_jobs c), c_retired_jobs := retired \<rparr>)
          in if cj_boards (the_cjob c r) = None then (Inr (), c)
             else set_job_power_and_links w r False None c)"

definition job_queue_on_free :: "cworld \<Rightarrow> int \<Rightarrow> string option \<Rightarrow> unit ctl" where
  "job_queue_on_free w i reason c =
     (case od_get (c_jobs c) i of
        None \<Rightarrow> (Inl KeyError, c)
      | Some r \<Rightarrow>
          (case cj_allocated_machine (the_cjob c r) of
             None \<Rightarrow> (Inl AttributeError, c)
           | Some m \<Rightarrow> teardown_job w i reason (machine_changed (mc_name m) c)))"

definition job_queue_on_cancel :: "cworld \<Rightarrow> int \<Rightarrow> string option \<Rightarrow> unit ctl" where
  "job_queue_on_cancel w i reason =
     teardown_job w i (Some (''Cancelled: '' @ (case reason of None \<Rightarrow> '''' | Some s \<Rightarrow> s)))"

definition on_event :: "cworld \<Rightarrow> jq_event \<Rightarrow> unit ctl" where
  "on_event w ev =
     (case ev of
        On_allocate i name boards periphery torus \<Rightarrow> job_queue_on_allocate w i name boards periphery torus
      | On_free i reason \<Rightarrow> job_queue_on_free w i reason
      | On_cancel i reason \<Rightarrow> job_queue_on_cancel w i reason)"

text \<open>
  A method of the queue, with its callbacks. They neither read nor change the queue, and the
  queue does not look at the controller, so they may as well be called when the method ends. An
  exception of a callback is the outcome, as it is in the code; there it also cuts the method
  of the queue short, which is not modelled: no property below is about the state such an
  exception leaves behind.
\<close>

definition in_queue :: "cworld \<Rightarrow> 'a jq \<Rightarrow> 'a ctl" where
  "in_queue w call c =
     (case call (c_queue c) of
        (out, q) \<Rightarrow>
          (case for_each (drop (length (jq_events (c_queue c))) (jq_events q)) (on_event w) (c\<lparr>c_queue := q\<rparr>) of
             (Inl e, c') \<Rightarrow> (Inl e, c')
           | (Inr u, c') \<Rightarrow> (out, c')))"

section \<open>Jobs\<close>

definition ctl_create_job ::
    "cworld \<Rightarrow> string option \<Rightarrow> string option \<Rightarrow> rat option option \<Rightarrow> string option \<Rightarrow> string set option \<Rightarrow>
     alloc_args \<Rightarrow> alloc_kwargs \<Rightarrow> int ctl"
where
  "ctl_create_job w ownerhost owner keepalive machine_name tags args kwargs c =
     (case (owner, keepalive) of
        (Some owner, Some keepalive) \<Rightarrow>
          (let i = c_next_id c; r = length (c_job_store c);
               (start, c) = timestamp w c;
               (until, c) = (case keepalive of None \<Rightarrow> (None, c)
                             | Some k \<Rightarrow> (case timestamp w c of (now, c) \<Rightarrow> (Some (now + k), c)));
               j = \<lparr> cj_id = i, cj_owner = owner, cj_start_time = start, cj_keepalive = keepalive,
                     cj_keepalive_until = until, cj_lasthost = ownerhost, cj_state = Queued, cj_power = None,
                     cj_machine_name = machine_name, cj_tags = tags, cj_args = args, cj_kwargs = kwargs,
                     cj_allocated_machine = None, cj_boards = None, cj_periphery = None, cj_torus = None,
                     cj_width = None, cj_height = None, cj_connections = None, cj_requests_until_ready = 0 \<rparr>;
               c = c\<lparr> c_next_id := i + 1, c_job_store := c_job_store c @ [j], c_jobs := od_set i r (c_jobs c) \<rparr>
           in and_then (in_queue w (create_job (cw_queue w) (Some i) machine_name tags args kwargs))
                (\<lambda>_ c. (Inr i, job_changed i c)) c)
      | _ \<Rightarrow> (Inl KeyError, c))"

definition ctl_destroy_job :: "cworld \<Rightarrow> int \<Rightarrow> string option \<Rightarrow> unit ctl" where
  "ctl_destroy_job w i reason c =
     (case od_get (c_jobs c) i of
        None \<Rightarrow> (Inr (), c)
      | Some r \<Rightarrow> in_queue w (destroy_job (cw_queue w) i reason) c)"

definition timed_out :: "rat \<Rightarrow> cjob \<Rightarrow> bool" where
  "timed_out now j =
     (case (cj_keepalive j, cj_keepalive_until j) of (Some k, Some until) \<Rightarrow> until < now | _ \<Rightarrow> False)"

definition destroy_timed_out_jobs :: "cworld \<Rightarrow> unit ctl" where
  "destroy_timed_out_jobs w c =
     (case timestamp w c of (now, c) \<Rightarrow>
        for_each (map snd (c_jobs c))
          (\<lambda>r c. if timed_out now (the_cjob c r)
                 then ctl_destroy_job w (cj_id (the_cjob c r)) (Some ''Job timed out.'') c
                 else (Inr (), c)) c)"

definition ctl_check_free :: "cworld \<Rightarrow> unit ctl" where
  "ctl_check_free w = in_queue w (jq_check_free (cw_queue w))"

section \<open>Answers of the BMPs\<close>

definition bmp_on_request_complete :: "cworld \<Rightarrow> cjob_ref \<Rightarrow> bool \<Rightarrow> string option \<Rightarrow> unit ctl" where
  "bmp_on_request_complete w r success reason =
     and_then
       (\<lambda>c. if success then (Inr (), c)
            else ctl_destroy_job w (cj_id (the_cjob c r))
                   (Some (''Machine configuration failed.'' @
                          (case reason of None \<Rightarrow> '''' | Some s \<Rightarrow> '' Error: '' @ s))) c)
       (\<lambda>_ c.
          let c = add_outstanding r (- 1) c; j = the_cjob c r
          in if cj_requests_until_ready j < 0 then (Inl AssertionError, c)
             else if cj_requests_until_ready j \<noteq> 0 then (Inr (), c)
             else
               and_then
                 (if cj_id j \<in> fst ` set (c_retired_jobs c)
                  then in_queue w (jq_free (cw_queue w) (cj_id j)) else return ())
                 (\<lambda>_ c.
                    if cj_id j \<in> fst ` set (c_jobs c)
                    then (Inr (), (job_changed (cj_id j) c)
                             \<lparr>c_wakes := c_wakes c + (if c_on_background c then 1 else 0)\<rparr>)
                    else (Inr (), c))
                 (set_cjob r (j\<lparr>cj_state := Ready\<rparr>) c))"

section \<open>Reading the state\<close>

definition read_changed_jobs :: "controller \<Rightarrow> int set \<times> controller" where
  "read_changed_jobs c = (c_changed_jobs c, c\<lparr>c_changed_jobs := {}\<rparr>)"

definition read_changed_machines :: "controller \<Rightarrow> string set \<times> controller" where
  "read_changed_machines c = (c_changed_machines c, c\<lparr>c_changed_machines := {}\<rparr>)"

record job_state_tuple =
  js_state :: job_state
  js_power :: "bool option"
  js_keepalive :: "rat option"
  js_reason :: "string option"
  js_start_time :: "rat option"
  js_keepalivehost :: "string option"

definition get_job_state :: "cworld \<Rightarrow> string option \<Rightarrow> int \<Rightarrow> controller \<Rightarrow> job_state_tuple \<times> controller" where
  "get_job_state w host i c =
     (let c = job_keepalive w host i c
      in (case od_get (c_jobs c) i of
            Some r \<Rightarrow>
              (let j = the_cjob c r
               in \<lparr> js_state = cj_state j, js_power = cj_power j, js_keepalive = cj_keepalive j,
                    js_reason = None, js_start_time = Some (cj_start_time j), js_keepalivehost = cj_lasthost j \<rparr>)
          | None \<Rightarrow>
              (case od_get (c_retired_jobs c) i of
                 Some reason \<Rightarrow>
                   \<lparr> js_state = Destroyed, js_power = None, js_keepalive = None, js_reason = reason,
                     js_start_time = None, js_keepalivehost = None \<rparr>
               | None \<Rightarrow>
                   \<lparr> js_state = Unknown, js_power = None, js_keepalive = None, js_reason = None,
                     js_start_time = None, js_keepalivehost = None \<rparr>), c))"

record job_machine_info =
  jm_width :: "int option"
  jm_height :: "int option"
  jm_connections :: "(int \<times> int, string) odict option"
  jm_machine_name :: "string option"
  jm_boards :: "board set option"

definition no_machine_info :: job_machine_info where
  "no_machine_info =
     \<lparr> jm_width = None, jm_height = None, jm_connections = None, jm_machine_name = None, jm_boards = None \<rparr>"

definition get_job_machine_info ::
    "cworld \<Rightarrow> string option \<Rightarrow> int \<Rightarrow> controller \<Rightarrow> job_machine_info res \<times> controller"
where
  "get_job_machine_info w host i c =
     (let c = job_keepalive w host i c
      in case od_get (c_jobs c) i of
           None \<Rightarrow> (Inr no_machine_info, c)
         | Some r \<Rightarrow>
             (let j = the_cjob c r
              in if cj_boards j = None then (Inr no_machine_info, c)
                 else case cj_allocated_machine j of
                   None \<Rightarrow> (Inl AttributeError, c)
                 | Some m \<Rightarrow>
                     (Inr \<lparr> jm_width = cj_width j, jm_height = cj_height j, jm_connections = cj_connections j,
                            jm_machine_name = Some (mc_name m), jm_boards = cj_boards j \<rparr>, c)))"

record job_tuple =
  jt_job_id :: int
  jt_owner :: string
  jt_start_time :: rat
  jt_keepalive :: "rat option"
  jt_state :: job_state
  jt_power :: "bool option"
  jt_args :: alloc_args
  jt_machine_name :: "string option"
  jt_tags :: "string set option"
  jt_kwargs :: alloc_kwargs
  jt_allocated_machine_name :: "string option"
  jt_boards :: "board set option"
  jt_keepalivehost :: string

definition job_tuple_of :: "cjob \<Rightarrow> job_tuple" where
  "job_tuple_of j =
     \<lparr> jt_job_id = cj_id j, jt_owner = cj_owner j, jt_start_time = cj_start_time j,
       jt_keepalive = cj_keepalive j, jt_state = cj_state j, jt_power = cj_power j, jt_args = cj_args j,
       jt_machine_name = cj_machine_name j, jt_tags = cj_tags j, jt_kwargs = cj_kwargs j,
       jt_allocated_machine_name = map_option mc_name (cj_allocated_machine j), jt_boards = cj_boards j,
       jt_keepalivehost = (case cj_lasthost j of None \<Rightarrow> [] | Some h \<Rightarrow> h) \<rparr>"

definition list_jobs :: "controller \<Rightarrow> job_tuple list" where
  "list_jobs c = map (job_tuple_of \<circ> the_cjob c \<circ> snd) (c_jobs c)"

record machine_tuple =
  mt_name :: string
  mt_tags :: "string set"
  mt_width :: int
  mt_height :: int
  mt_dead_boards :: "board set"
  mt_dead_links :: "board_link set"

definition machine_tuple_of :: "machine_config \<Rightarrow> machine_tuple" where
  "machine_tuple_of m =
     \<lparr> mt_name = mc_name m, mt_tags = mc_tags m, mt_width = mc_width m, mt_height = mc_height m,
       mt_dead_boards = mc_dead_boards m, mt_dead_links = mc_dead_links m \<rparr>"

definition list_machines :: "controller \<Rightarrow> machine_tuple list" where
  "list_machines c = map (machine_tuple_of \<circ> snd) (c_machines c)"

section \<open>Settings\<close>

text \<open>The oldest entries go first; with a negative limit there is at last none to go.\<close>

definition set_max_retired_jobs :: "int \<Rightarrow> unit ctl" where
  "set_max_retired_jobs n c =
     (if n < 0 then (Inl StopIteration, c\<lparr> c_max_retired_jobs := n, c_retired_jobs := [] \<rparr>)
      else (Inr (), c\<lparr> c_max_retired_jobs := n,
              c_retired_jobs := drop (length (c_retired_jobs c) - nat n) (c_retired_jobs c) \<rparr>))"

definition set_seconds_before_free :: "rat \<Rightarrow> controller \<Rightarrow> controller" where
  "set_seconds_before_free s c = c\<lparr>c_queue := (c_queue c)\<lparr>jq_seconds_before_free := s\<rparr>\<rparr>"

section \<open>Machines\<close>

text \<open>Equality of two machines; dictionaries are equal when their items are.\<close>

definition same_hardware :: "machine_config \<Rightarrow> machine_config \<Rightarrow> bool" where
  "same_hardware a b \<longleftrightarrow>
     mc_name a = mc_name b \<and> mc_width a = mc_width b \<and> mc_height a = mc_height b \<and>
     set (mc_board_locations a) = set (mc_board_locations b) \<and>
     set (mc_bmp_ips a) = set (mc_bmp_ips b) \<and> set (mc_spinnaker_ips a) = set (mc_spinnaker_ips b)"

definition same_machine :: "machine_config \<Rightarrow> machine_config \<Rightarrow> bool" where
  "same_machine a b \<longleftrightarrow>
     same_hardware a b \<and> mc_tags a = mc_tags b \<and> mc_dead_boards a = mc_dead_boards b \<and>
     mc_dead_links a = mc_dead_links b"

type_synonym machines = "(string, machine_config) odict"

definition machine_in :: "machines \<Rightarrow> string \<Rightarrow> (machine_config \<Rightarrow> bool) \<Rightarrow> bool" where
  "machine_in d name P = (case od_get d name of None \<Rightarrow> False | Some m \<Rightarrow> P m)"

text \<open>The machines in both that differ in their hardware are removed and added again.\<close>

definition recreated_machines :: "machines \<Rightarrow> machines \<Rightarrow> string set" where
  "recreated_machines old new =
     {name \<in> fst ` set old. machine_in old name (\<lambda>a. machine_in new name (\<lambda>b. \<not> same_hardware a b))}"

definition added_machines :: "machines \<Rightarrow> machines \<Rightarrow> string set" where
  "added_machines old new = (fst ` set new - fst ` set old) \<union> recreated_machines old new"

definition removed_machines :: "machines \<Rightarrow> machines \<Rightarrow> string set" where
  "removed_machines old new = (fst ` set old - fst ` set new) \<union> recreated_machines old new"

definition modified_machines :: "machines \<Rightarrow> machines \<Rightarrow> string set" where
  "modified_machines old new =
     {name \<in> fst ` set old.
        machine_in old name (\<lambda>a. machine_in new name (\<lambda>b. same_hardware a b \<and> \<not> same_machine a b))}"

definition stop_bmp :: "bmp_ref \<Rightarrow> controller \<Rightarrow> controller" where
  "stop_bmp k c = c\<lparr>c_bmp_store := (c_bmp_store c)[k := stop_controller (c_bmp_store c ! k)]\<rparr>"

definition bmps_of_machine :: "controller \<Rightarrow> string \<Rightarrow> bmp_ref list" where
  "bmps_of_machine c name = (case od_get (c_bmp_controllers c) name of None \<Rightarrow> [] | Some d \<Rightarrow> map snd d)"

definition remove_one :: "cworld \<Rightarrow> string \<Rightarrow> unit ctl" where
  "remove_one w name =
     and_then (in_queue w (remove_machine (cw_queue w) name))
       (\<lambda>_ c.
          if name \<notin> fst ` set (c_machines c) then (Inl KeyError, c)
          else
            let c = c\<lparr>c_machines := od_del name (c_machines c)\<rparr>
            in if name \<notin> fst ` set (c_bmp_controllers c) then (Inl KeyError, c)
               else (Inr (), c\<lparr>c_bmp_controllers := od_del name (c_bmp_controllers c)\<rparr>))"

definition modify_one :: "cworld \<Rightarrow> machines \<Rightarrow> string \<Rightarrow> unit ctl" where
  "modify_one w new name c =
     (case od_get new name of
        None \<Rightarrow> (Inl KeyError, c)
      | Some m \<Rightarrow>
          and_then (in_queue w (modify_machine (cw_queue w) name (Some (mc_tags m))
                                  (Some (mc_dead_boards m)) (Some (mc_dead_links m))))
            (\<lambda>_ c. (Inr (), c\<lparr>c_machines := od_set name m (c_machines c)\<rparr>)) c)"

text \<open>One BMP controller for each frame, which waits for those that were shut down.\<close>

definition create_machine_bmp_controllers :: "bool \<Rightarrow> machine_config \<Rightarrow> controller \<Rightarrow> controller" where
  "create_machine_bmp_controllers on_thread_start m c =
     (let n = length (c_bmp_store c)
      in c\<lparr> c_bmp_controllers :=
              od_set (mc_name m) (zip (map fst (mc_bmp_ips m)) [n..<n + length (mc_bmp_ips m)]) (c_bmp_controllers c),
            c_bmp_store := c_bmp_store c @ map (\<lambda>(cf, host). new_bmp_controller host on_thread_start) (mc_bmp_ips m) \<rparr>)"

definition add_one :: "cworld \<Rightarrow> machines \<Rightarrow> string \<Rightarrow> unit ctl" where
  "add_one w new name c =
     (case od_get new name of
        None \<Rightarrow> (Inl KeyError, c)
      | Some m \<Rightarrow>
          in_queue w (add_machine (cw_queue w) name (mc_width m) (mc_height m) (Some (mc_tags m))
                        (mc_dead_boards m) (mc_dead_links m))
            (create_machine_bmp_controllers True m (c\<lparr>c_machines := od_set name m (c_machines c)\<rparr>)))"

definition reorder_one :: "cworld \<Rightarrow> string \<Rightarrow> unit ctl" where
  "reorder_one w name c =
     (case od_move_to_end name (c_machines c) of
        Inl e \<Rightarrow> (Inl e, c)
      | Inr d \<Rightarrow> in_queue w (move_machine_to_end name) (c\<lparr>c_machines := d\<rparr>))"

text \<open>The queue stands still in the body, and is regenerated after it, also when it raised.\<close>

definition with_queue :: "cworld \<Rightarrow> unit ctl \<Rightarrow> unit ctl" where
  "with_queue w body c =
     (case body (c\<lparr>c_queue := enter (c_queue c)\<rparr>) of
        (out, c') \<Rightarrow>
          (case in_queue w (leave (cw_queue w)) c' of
             (Inl e, c'') \<Rightarrow> (Inl e, c'')
           | (Inr u, c'') \<Rightarrow> (out, c'')))"

definition set_machines :: "cworld \<Rightarrow> machines \<Rightarrow> unit ctl" where
  "set_machines w new c =
     (let old = c_machines c;
          removed = removed_machines old new; added = added_machines old new; changed = modified_machines old new;
          shut_down = concat (map (bmps_of_machine c) (cw_names w removed))
      in and_then
           (with_queue w
              (and_then (for_each (cw_names w removed) (remove_one w))
                 (\<lambda>_. and_then (\<lambda>c. (Inr (), fold stop_bmp shut_down c))
                 (\<lambda>_. and_then (for_each (cw_names w changed) (modify_one w new))
                 (\<lambda>_. and_then (for_each (cw_names w added) (add_one w new))
                 (\<lambda>_. for_each (map fst new) (reorder_one w)))))))
           (\<lambda>_ c. (Inr (), c\<lparr>c_changed_machines := c_changed_machines c \<union> added \<union> changed \<union> removed\<rparr>)) c)"

definition ctl_stop :: "controller \<Rightarrow> controller" where
  "ctl_stop c = fold stop_bmp (concat (map (bmps_of_machine c) (map fst (c_machines c)))) c"

section \<open>Saving and restoring\<close>

text \<open>
  What is left of a pickled controller: neither the BMP controllers nor the callback. Unpickling
  makes new BMP controllers and gives the owners of jobs time to reconnect.
\<close>

definition pickled :: "controller \<Rightarrow> controller" where
  "pickled c = c\<lparr> c_on_background := False, c_bmp_controllers := [], c_bmp_store := [] \<rparr>"

definition init_dynamic_state :: "cworld \<Rightarrow> controller \<Rightarrow> controller" where
  "init_dynamic_state w c =
     fold (job_keepalive w None) (map fst (c_jobs c))
       (fold (create_machine_bmp_controllers False) (map snd (c_machines c)) c)"

definition unpickled :: "cworld \<Rightarrow> controller \<Rightarrow> controller" where
  "unpickled w c = init_dynamic_state w (pickled c)"

end
