(* ===== verification/Locations.thy ===== *)
theory Locations
  imports Controller
begin

text \<open>
  Where boards and chips are (\<open>controller.py\<close>, \<open>get_board_position\<close> to \<open>where_is\<close>): the tables
  of a machine read in both directions, and the four ways to ask for a place.
\<close>

section \<open>Positions of boards\<close>

definition get_board_position :: "string \<Rightarrow> int \<Rightarrow> int \<Rightarrow> int \<Rightarrow> controller \<Rightarrow> board option" where
  "get_board_position name x y z c =
     (case od_get (c_machines c) name of None \<Rightarrow> None | Some m \<Rightarrow> od_get (mc_board_locations m) (x, y, z))"

text \<open>The first entry of the table with that position.\<close>

definition get_board_at_position :: "string \<Rightarrow> int \<Rightarrow> int \<Rightarrow> int \<Rightarrow> controller \<Rightarrow> board option" where
  "get_board_at_position name cabinet frame board c =
     (case od_get (c_machines c) name of
        None \<Rightarrow> None
      | Some m \<Rightarrow> od_get (map (\<lambda>(xyz, cfb). (cfb, xyz)) (mc_board_locations m)) (cabinet, frame, board))"

section \<open>Jobs on boards\<close>

fun job_among :: "controller \<Rightarrow> (int, cjob_ref) odict \<Rightarrow> machine_config \<Rightarrow> board \<Rightarrow> (int \<times> cjob_ref) option res" where
  "job_among c [] m b = Inr None"
| "job_among c ((i, r) # jobs) m b =
     (case cj_allocated_machine (the_cjob c r) of
        None \<Rightarrow> job_among c jobs m b
      | Some n \<Rightarrow>
          if \<not> same_machine n m then job_among c jobs m b
          else case cj_boards (the_cjob c r) of
                 None \<Rightarrow> Inl TypeError
               | Some B \<Rightarrow> if b \<in> B then Inr (Some (i, r)) else job_among c jobs m b)"

definition job_for_location :: "controller \<Rightarrow> machine_config \<Rightarrow> board \<Rightarrow> (int \<times> cjob_ref) option res" where
  "job_for_location c m b = job_among c (c_jobs c) m b"

text \<open>\<open>map(min, zip(*boards))\<close>, for a set of boards that is not empty.\<close>

definition min_corner :: "board set \<Rightarrow> board" where
  "min_corner B = (Min (fst ` B), Min ((fst \<circ> snd) ` B), Min ((snd \<circ> snd) ` B))"

definition get_job_chip :: "cjob \<Rightarrow> board \<Rightarrow> int \<times> int \<Rightarrow> (int \<times> int) res" where
  "get_job_chip j b board_chip =
     (case (cj_boards j, cj_width j, cj_height j) of
        (Some B, Some width, Some height) \<Rightarrow>
          if B = {} then Inl ValueError
          else if width = 0 \<or> height = 0 then Inl ZeroDivisionError
          else
            (case (b, min_corner B) of ((x, y, z), (job_x, job_y, job_z)) \<Rightarrow>
               case board_to_chip (x - job_x) (y - job_y) (z - job_z) of (cx, cy) \<Rightarrow>
                 Inr ((cx + fst board_chip) mod width, (cy + snd board_chip) mod height))
      | _ \<Rightarrow> Inl TypeError)"

section \<open>Where is it\<close>

text \<open>
  The geometry of SpiNN-5 boards is that of the package \<open>spinn_machine\<close>: the Ethernet chip of the
  board a chip is on (\<open>get_ethernet_chip_coordinates\<close>), and the place of a chip on its
  board (\<open>get_local_chip_coordinate\<close>).
\<close>

record geometry =
  g_eth :: eth_geometry
  g_local :: "int \<Rightarrow> int \<Rightarrow> int \<times> int"

record location =
  at_machine :: string
  at_logical :: board
  at_physical :: board
  at_chip :: "int \<times> int"
  at_board_chip :: "int \<times> int"
  at_job_id :: "int option"
  at_job_chip :: "(int \<times> int) option"

definition place_without_job :: "string \<Rightarrow> board \<Rightarrow> board \<Rightarrow> int \<times> int \<Rightarrow> int \<times> int \<Rightarrow> location" where
  "place_without_job name b cfb chip board_chip =
     \<lparr> at_machine = name, at_logical = b, at_physical = cfb, at_chip = chip, at_board_chip = board_chip,
       at_job_id = None, at_job_chip = None \<rparr>"

text \<open>
  The end that the four queries have in common: wrap the chip around, find its board, its
  position and its job. With \<open>only\<close> a job, other jobs count as no answer.
\<close>

definition describe ::
    "controller \<Rightarrow> location \<Rightarrow> int option \<Rightarrow> (int \<times> cjob_ref) option \<Rightarrow> location option res"
where
  "describe c place only found =
     (if only \<noteq> None \<and> map_option fst found \<noteq> only then Inr None
      else
        case found of
          None \<Rightarrow> Inr (Some place)
        | Some (i, r) \<Rightarrow>
            (case get_job_chip (the_cjob c r) (at_logical place) (at_board_chip place) of
               Inl e \<Rightarrow> Inl e
             | Inr job_chip \<Rightarrow> Inr (Some (place\<lparr> at_job_id := Some i, at_job_chip := Some job_chip \<rparr>))))"

definition locate :: "geometry \<Rightarrow> controller \<Rightarrow> string \<Rightarrow> machine_config \<Rightarrow> int option \<Rightarrow> int \<Rightarrow> int \<Rightarrow> location option res" where
  "locate g c name m only chip_x chip_y =
     (case triad_dimensions_to_chips (mc_width m) (mc_height m) Wrap_both of (chip_w, chip_h) \<Rightarrow>
        if chip_w = 0 \<or> chip_h = 0 then Inl ZeroDivisionError
        else
          let chip_x = chip_x mod chip_w; chip_y = chip_y mod chip_h; board_chip = g_local g chip_x chip_y
          in case chip_to_board (g_eth g) chip_x chip_y chip_w chip_h of
               Inl e \<Rightarrow> Inl e
             | Inr b \<Rightarrow>
                 (case od_get (mc_board_locations m) b of
                    None \<Rightarrow> Inr None
                  | Some cfb \<Rightarrow>
                      (case job_for_location c m b of
                         Inl e \<Rightarrow> Inl e
                       | Inr found \<Rightarrow>
                           describe c (place_without_job name b cfb (chip_x, chip_y) board_chip) only found)))"

definition where_is_by_chip_coordinate :: "geometry \<Rightarrow> string \<Rightarrow> int \<Rightarrow> int \<Rightarrow> controller \<Rightarrow> location option res" where
  "where_is_by_chip_coordinate g name chip_x chip_y c =
     (case od_get (c_machines c) name of None \<Rightarrow> Inr None | Some m \<Rightarrow> locate g c name m None chip_x chip_y)"

definition where_is_by_logical_triple :: "geometry \<Rightarrow> string \<Rightarrow> int \<Rightarrow> int \<Rightarrow> int \<Rightarrow> controller \<Rightarrow> location option res" where
  "where_is_by_logical_triple g name x y z c =
     (case od_get (c_machines c) name of
        None \<Rightarrow> Inr None
      | Some m \<Rightarrow> (case board_to_chip x y z of (chip_x, chip_y) \<Rightarrow> locate g c name m None chip_x chip_y))"

definition where_is_by_physical_triple :: "geometry \<Rightarrow> string \<Rightarrow> int \<Rightarrow> int \<Rightarrow> int \<Rightarrow> controller \<Rightarrow> location option res" where
  "where_is_by_physical_triple g name cabinet frame board c =
     (case od_get (c_machines c) name of
        None \<Rightarrow> Inr None
      | Some m \<Rightarrow>
          (case get_board_at_position name cabinet frame board c of
             None \<Rightarrow> Inr None
           | Some (x, y, z) \<Rightarrow>
               (case board_to_chip x y z of (chip_x, chip_y) \<Rightarrow> locate g c name m None chip_x chip_y)))"

definition where_is_by_job_chip_coordinate :: "geometry \<Rightarrow> int \<Rightarrow> int \<Rightarrow> int \<Rightarrow> controller \<Rightarrow> location option res" where
  "where_is_by_job_chip_coordinate g i chip_x chip_y c =
     (case od_get (c_jobs c) i of
        None \<Rightarrow> Inr None
      | Some r \<Rightarrow>
          (case cj_boards (the_cjob c r) of
             None \<Rightarrow> Inr None
           | Some B \<Rightarrow>
               (case cj_allocated_machine (the_cjob c r) of
                  None \<Rightarrow> Inl AttributeError
                | Some n \<Rightarrow>
                    if B = {} then Inl ValueError
                    else
                      (case min_corner B of (job_x, job_y, job_z) \<Rightarrow>
                         case board_to_chip job_x job_y job_z of (dx, dy) \<Rightarrow>
                           case od_get (c_machines c) (mc_name n) of
                             None \<Rightarrow> Inr None
                           | Some m \<Rightarrow> locate g c (mc_name n) m (Some i) (chip_x + dx) (chip_y + dy)))))"

text \<open>The keyword arguments of a query decide which kind it is.\<close>

datatype query =
    By_logical string int int int
  | By_physical string int int int
  | By_chip string int int
  | By_job_chip int int int
  | Other_keywords

fun where_is :: "geometry \<Rightarrow> query \<Rightarrow> controller \<Rightarrow> location option res" where
  "where_is g (By_logical name x y z) c = where_is_by_logical_triple g name x y z c"
| "where_is g (By_physical name cabinet frame board) c = where_is_by_physical_triple g name cabinet frame board c"
| "where_is g (By_chip name chip_x chip_y) c = where_is_by_chip_coordinate g name chip_x chip_y c"
| "where_is g (By_job_chip i chip_x chip_y) c = where_is_by_job_chip_coordinate g i chip_x chip_y c"
| "where_is g Other_keywords c = Inl TypeError"

section \<open>Positions, both ways\<close>

lemma position_iff:
  assumes "\<And>m. od_get (c_machines c) name = Some m \<Longrightarrow> machine_ok m \<and> distinct (od_keys (mc_board_locations m))"
  shows "get_board_position name x y z c = Some (cabinet, frame, board) \<longleftrightarrow>
    get_board_at_position name cabinet frame board c = Some (x, y, z)"
proof (cases "od_get (c_machines c) name")
  case (Some m)
  let ?L = "mc_board_locations m"
  have d: "distinct (od_keys ?L)" "distinct (map snd ?L)" using assms[OF Some] by (simp_all add: machine_ok_def Let_def)
  have fs: "map fst (map (\<lambda>(xyz, cfb). (cfb, xyz)) ?L) = map snd ?L" by (simp add: case_prod_unfold)
  then have "distinct (od_keys (map (\<lambda>(xyz, cfb). (cfb, xyz)) ?L))" using d(2) by (simp only:)
  note at = map_of_eq_Some_iff[OF this] map_of_eq_Some_iff[OF d(1)]
  have "(cfb, xyz) \<in> set (map (\<lambda>(xyz, cfb). (cfb, xyz)) ?L) \<longleftrightarrow> (xyz, cfb) \<in> set ?L" for cfb xyz by force
  with at show ?thesis by (simp add: get_board_position_def get_board_at_position_def Some)
qed (simp add: get_board_position_def get_board_at_position_def)


text \<open>
  Positions of boards. On a machine that passed validation the two tables are inverse to each
  other: a board has a position exactly when it is the board found there.
\<close>

theorem board_position_roundtrip:
  assumes "\<And>m. od_get (c_machines c) name = Some m \<Longrightarrow> machine_ok m \<and> distinct (od_keys (mc_board_locations m))"
  shows "get_board_position name x y z c = Some (cabinet, frame, board) \<longleftrightarrow>
    get_board_at_position name cabinet frame board c = Some (x, y, z)"
  by (rule position_iff[OF assms])

section \<open>Geometry\<close>

text \<open>
  What \<open>spinn_machine\<close> documents of the SpiNN-5 triads: the place of a chip on its board depends on
  its place in the triad only and is less than 8 in both directions; the board's Ethernet
  chip is that far away, around the machine, and is one of the three of a triad; an Ethernet
  chip is the chip (0, 0) of its board.
\<close>

definition ethernet_residues :: "(int \<times> int) set" where
  "ethernet_residues = {(0, 0), (8, 4), (4, 8)}"

definition geometry_ok :: "geometry \<Rightarrow> bool" where
  "geometry_ok g \<longleftrightarrow>
     (\<forall>x y. case g_local g x y of (lx, ly) \<Rightarrow>
        0 \<le> lx \<and> lx < 8 \<and> 0 \<le> ly \<and> ly < 8 \<and> ((x - lx) mod 12, (y - ly) mod 12) \<in> ethernet_residues \<and>
        g_local g (x mod 12) (y mod 12) = (lx, ly) \<and>
        (\<forall>w h. 0 < w \<longrightarrow> 0 < h \<longrightarrow> g_eth g x y (12 * w) (12 * h) = ((x - lx) mod (12 * w), (y - ly) mod (12 * h)))) \<and>
     (\<forall>(x, y)\<in>ethernet_residues. g_local g x y = (0, 0))"

lemma geometryD:
  assumes "geometry_ok g" "g_local g x y = (lx, ly)"
  shows "0 \<le> lx" "lx < 8" "0 \<le> ly" "ly < 8" "((x - lx) mod 12, (y - ly) mod 12) \<in> ethernet_residues"
    "g_local g (x mod 12) (y mod 12) = (lx, ly)"
    "0 < w \<Longrightarrow> 0 < h \<Longrightarrow> g_eth g x y (12 * w) (12 * h) = ((x - lx) mod (12 * w), (y - ly) mod (12 * h))"
  using assms unfolding geometry_ok_def by (fastforce split: prod.splits)+

lemma local_wraps:
  assumes "geometry_ok g"
  shows "g_local g (x mod (12 * w)) (y mod (12 * h)) = g_local g x y"
proof -
  have r: "g_local g (a mod 12) (b mod 12) = g_local g a b" for a b
    using geometryD(6)[OF assms] by (cases "g_local g a b") simp
  have "(x mod (12 * w)) mod 12 = x mod 12" "(y mod (12 * h)) mod 12 = y mod 12" by (simp_all add: mod_mod_cancel)
  then show ?thesis using r by metis
qed

lemma board_to_chip_residue:
  assumes "z \<in> {0, 1, 2}" "board_to_chip x y z = (cx, cy)"
  shows "(cx mod 12, cy mod 12) \<in> ethernet_residues" "x = cx div 12" "y = cy div 12"
  using assms by (auto simp: board_to_chip_def ethernet_residues_def Let_def)

text \<open>An Ethernet chip inside the machine belongs to exactly one board.\<close>

lemma board_at:
  assumes "(ex mod 12, ey mod 12) \<in> ethernet_residues" "0 \<le> ex" "ex < 12 * w" "0 \<le> ey" "ey < 12 * h"
  obtains z where "in_system w h (ex div 12, ey div 12, z)" "board_to_chip (ex div 12) (ey div 12) z = (ex, ey)"
proof -
  have d: "ex = ex div 12 * 12 + ex mod 12" "ey = ey div 12 * 12 + ey mod 12" by simp_all
  have r: "0 \<le> ex div 12" "ex div 12 < w" "0 \<le> ey div 12" "ey div 12 < h" using assms(2-5) by auto
  consider "ex mod 12 = 0" "ey mod 12 = 0" | "ex mod 12 = 8" "ey mod 12 = 4" | "ex mod 12 = 4" "ey mod 12 = 8"
    using assms(1) by (auto simp: ethernet_residues_def)
  then show thesis
  proof cases
    case 1 with d r show thesis by (intro that[of 0]) (auto simp: in_system_def board_to_chip_def Let_def)
  next
    case 2 with d r show thesis by (intro that[of 1]) (auto simp: in_system_def board_to_chip_def Let_def)
  next
    case 3 with d r show thesis by (intro that[of 2]) (auto simp: in_system_def board_to_chip_def Let_def)
  qed
qed


lemma board_to_chip_inj:
  assumes "z \<in> {0, 1, 2}" "z' \<in> {0, 1, 2}" "board_to_chip x y z = board_to_chip x' y' z'"
  shows "x = x' \<and> y = y' \<and> z = z'"
proof -
  obtain cx cy where c: "board_to_chip x y z = (cx, cy)" by (cases "board_to_chip x y z")
  with board_to_chip_residue[OF assms(1) c] board_to_chip_residue[OF assms(2)] assms(3)
  have "x = x' \<and> y = y'" by simp
  moreover from this have "z = z'" using assms by (auto simp: board_to_chip_def Let_def split: if_splits)
  ultimately show ?thesis by simp
qed

lemma board_to_chip_mod:
  assumes "board_to_chip x y z = (ex, ey)" "z \<in> {0, 1, 2}"
  shows "ex mod 12 = (if z = 1 then 8 else if z = 2 then 4 else 0)" "ey mod 12 = (if z = 1 then 4 else if z = 2 then 8 else 0)"
  using assms by (auto simp: board_to_chip_def Let_def)

text \<open>The board of a chip: its Ethernet chip is where the geometry says.\<close>

lemma chip_to_board_at:
  assumes g: "geometry_ok g" and wh: "0 < w" "0 < h" and l: "g_local g cx cy = (lx, ly)"
  obtains x y z where "chip_to_board (g_eth g) (cx mod (12 * w)) (cy mod (12 * h)) (12 * w) (12 * h) = Inr (x, y, z)"
    "in_system w h (x, y, z)" "board_to_chip x y z = ((cx - lx) mod (12 * w), (cy - ly) mod (12 * h))"
proof -
  let ?W = "12 * w" and ?H = "12 * h"
  let ?ex = "(cx - lx) mod ?W" and ?ey = "(cy - ly) mod ?H"
  have l': "g_local g (cx mod ?W) (cy mod ?H) = (lx, ly)" using local_wraps[OF g] l by simp
  have "g_eth g (cx mod ?W) (cy mod ?H) ?W ?H = ((cx mod ?W - lx) mod ?W, (cy mod ?H - ly) mod ?H)"
    by (rule geometryD(7)[OF g l' wh])
  then have e: "g_eth g (cx mod ?W) (cy mod ?H) ?W ?H = (?ex, ?ey)" by (simp only: mod_diff_left_eq)
  have "(?ex mod 12, ?ey mod 12) \<in> ethernet_residues"
    using geometryD(5)[OF g l] by (simp add: mod_mod_cancel)
  moreover have "0 \<le> ?ex" "?ex < ?W" "0 \<le> ?ey" "?ey < ?H" using wh by simp_all
  ultimately obtain z where z: "in_system w h (?ex div 12, ?ey div 12, z)"
    "board_to_chip (?ex div 12) (?ey div 12) z = (?ex, ?ey)"
    by (rule board_at)
  have "chip_to_board (g_eth g) (cx mod ?W) (cy mod ?H) ?W ?H = Inr (?ex div 12, ?ey div 12, z)"
  proof -
    have "z = 0 \<or> z = 1 \<or> z = 2" using z(1) by (auto simp: in_system_def)
    with board_to_chip_mod[OF z(2)] show ?thesis unfolding chip_to_board_def e by (auto simp: Let_def)
  qed
  with z that show thesis by blast
qed


section \<open>The four kinds of query\<close>

text \<open>The answer for a board of a machine and one of its chips.\<close>

definition seen_at ::
    "controller \<Rightarrow> string \<Rightarrow> machine_config \<Rightarrow> int option \<Rightarrow> board \<Rightarrow> int \<times> int \<Rightarrow> int \<times> int \<Rightarrow> location option res"
where
  "seen_at c name m only b chip board_chip =
     (case od_get (mc_board_locations m) b of
        None \<Rightarrow> Inr None
      | Some cfb \<Rightarrow>
          (case job_for_location c m b of
             Inl e \<Rightarrow> Inl e
           | Inr found \<Rightarrow> describe c (place_without_job name b cfb chip board_chip) only found))"

lemma locate_at:
  assumes g: "geometry_ok g" and l: "g_local g cx cy = (lx, ly)" and b: "in_system (mc_width m) (mc_height m) (x, y, z)"
    and e: "board_to_chip x y z = ((cx - lx) mod (12 * mc_width m), (cy - ly) mod (12 * mc_height m))"
  shows "locate g c name m only cx cy =
    seen_at c name m only (x, y, z) (cx mod (12 * mc_width m), cy mod (12 * mc_height m)) (lx, ly)"
proof -
  have wh: "0 < mc_width m" "0 < mc_height m" and z: "z \<in> {0, 1, 2}" using b by (auto simp: in_system_def)
  obtain x' y' z' where c: "chip_to_board (g_eth g) (cx mod (12 * mc_width m)) (cy mod (12 * mc_height m))
      (12 * mc_width m) (12 * mc_height m) = Inr (x', y', z')"
    "in_system (mc_width m) (mc_height m) (x', y', z')"
    "board_to_chip x' y' z' = ((cx - lx) mod (12 * mc_width m), (cy - ly) mod (12 * mc_height m))"
    by (rule chip_to_board_at[OF g wh l])
  have "z' \<in> {0, 1, 2}" using c(2) by (auto simp: in_system_def)
  from board_to_chip_inj[OF this z trans[OF c(3) e[symmetric]]] have "(x', y', z') = (x, y, z)" by simp
  moreover have "triad_dimensions_to_chips (mc_width m) (mc_height m) Wrap_both = (12 * mc_width m, 12 * mc_height m)"
    by (simp add: triad_dimensions_to_chips_def)
  moreover have "g_local g (cx mod (12 * mc_width m)) (cy mod (12 * mc_height m)) = (lx, ly)" using local_wraps[OF g] l by simp
  ultimately show ?thesis using wh c(1) by (simp add: locate_def seen_at_def Let_def split: option.split sum.split)
qed

lemma board_to_chip_shift:
  "board_to_chip (x + a) (y + b) z = (fst (board_to_chip x y z) + 12 * a, snd (board_to_chip x y z) + 12 * b)"
  by (simp add: board_to_chip_def Let_def algebra_simps)

lemma board_to_chip_in:
  assumes "in_system w h (x, y, z)" "board_to_chip x y z = (ex, ey)"
  shows "0 \<le> ex" "ex < 12 * w" "0 \<le> ey" "ey < 12 * h"
  using assms by (auto simp: in_system_def board_to_chip_def Let_def split: if_splits)

lemma ethernet_local:
  assumes "geometry_ok g" "z \<in> {0, 1, 2}" "board_to_chip x y z = (ex, ey)"
  shows "g_local g ex ey = (0, 0)"
proof -
  have "g_local g (ex mod 12) (ey mod 12) = (0, 0)"
    using board_to_chip_residue(1)[OF assms(2,3)] assms(1) unfolding geometry_ok_def by blast
  moreover have "g_local g (ex mod 12) (ey mod 12) = g_local g ex ey" using local_wraps[OF assms(1), of ex 1 ey 1] by simp
  ultimately show ?thesis by simp
qed

text \<open>
  C13. The kinds of query agree. For a board of the machine: every query for one of its chips, once or
  more around the machine, answers with that board, its position, the chip and its place on
  the board; the query for the board, once or more around the machine, and the one for its
  position answer as the query for its Ethernet chip. The answer is None exactly for boards
  without a position.
\<close>

theorem where_is_agrees:
  assumes g: "geometry_ok g" and m: "od_get (c_machines c) name = Some m" "machine_ok m" "distinct (od_keys (mc_board_locations m))"
    and b: "in_system (mc_width m) (mc_height m) (x, y, z)" and e: "board_to_chip x y z = (ex, ey)"
  shows "(g_local g (ex + k) (ey + l) = (k, l) \<longrightarrow>
      where_is g (By_chip name (ex + k + p * (12 * mc_width m)) (ey + l + q * (12 * mc_height m))) c =
        seen_at c name m None (x, y, z) ((ex + k) mod (12 * mc_width m), (ey + l) mod (12 * mc_height m)) (k, l)) \<and>
    where_is g (By_logical name (x + p * mc_width m) (y + q * mc_height m) z) c =
      seen_at c name m None (x, y, z) (ex, ey) (0, 0) \<and>
    (get_board_position name x y z c = Some (cabinet, frame, board) \<longrightarrow>
      where_is g (By_physical name cabinet frame board) c = seen_at c name m None (x, y, z) (ex, ey) (0, 0))"
proof (intro conjI impI)
  let ?W = "12 * mc_width m" and ?H = "12 * mc_height m"
  note r = board_to_chip_in[OF b e]
  have z: "z \<in> {0, 1, 2}" using b by (auto simp: in_system_def)
  note l0 = ethernet_local[OF g z e]
  have chip: "locate g c name m None (ex + k + p * ?W) (ey + l + q * ?H) =
      seen_at c name m None (x, y, z) ((ex + k) mod ?W, (ey + l) mod ?H) (k, l)"
    if kl: "g_local g (ex + k) (ey + l) = (k, l)" for k l p q
  proof -
    have s: "g_local g (ex + k + p * ?W) (ey + l + q * ?H) = (k, l)"
      using local_wraps[OF g, of "ex + k + p * ?W" "mc_width m" "ey + l + q * ?H" "mc_height m"]
        local_wraps[OF g, of "ex + k" "mc_width m" "ey + l" "mc_height m"] kl by simp
    have "(ex + k + p * ?W - k) mod ?W = ex" "(ey + l + q * ?H - l) mod ?H = ey" using r by simp_all
    then have "board_to_chip x y z = ((ex + k + p * ?W - k) mod ?W, (ey + l + q * ?H - l) mod ?H)" using e by simp
    from locate_at[OF g s b this] show ?thesis by simp
  qed
  have eth: "locate g c name m None (ex + p * ?W) (ey + q * ?H) = seen_at c name m None (x, y, z) (ex, ey) (0, 0)" for p q
    using chip[of 0 0 p q] l0 r by simp
  show "where_is g (By_chip name (ex + k + p * ?W) (ey + l + q * ?H)) c =
      seen_at c name m None (x, y, z) ((ex + k) mod ?W, (ey + l) mod ?H) (k, l)" if "g_local g (ex + k) (ey + l) = (k, l)"
    using chip[OF that] m(1) by (simp add: where_is_by_chip_coordinate_def)
  show "where_is g (By_logical name (x + p * mc_width m) (y + q * mc_height m) z) c =
      seen_at c name m None (x, y, z) (ex, ey) (0, 0)"
    using eth[of p q] m(1) by (simp add: where_is_by_logical_triple_def board_to_chip_shift e algebra_simps)
  assume "get_board_position name x y z c = Some (cabinet, frame, board)"
  then have "get_board_at_position name cabinet frame board c = Some (x, y, z)"
    using position_iff[of c name] m by simp
  with eth[of 0 0] m(1) show "where_is g (By_physical name cabinet frame board) c = seen_at c name m None (x, y, z) (ex, ey) (0, 0)"
    by (simp add: where_is_by_physical_triple_def e)
qed

end
