(* ===== verification/ControllerBooks.thy ===== *)
theory ControllerBooks
  imports Controller
begin

text \<open>
  The invariant of the controller: its dictionaries fit together, and the counter of each job
  is the number of requests the BMPs have not answered yet. It holds whatever the queue reports
  and whatever exceptions are raised.
\<close>

section \<open>The invariant\<close>

definition waiting_for :: "cjob_ref \<Rightarrow> cjob_ref bmp_controller \<Rightarrow> nat" where
  "waiting_for r b = length (filter (\<lambda>q. on_done q = r) (outstanding b))"

definition unanswered :: "controller \<Rightarrow> cjob_ref \<Rightarrow> nat" where
  "unanswered c r = sum_list (map (waiting_for r) (c_bmp_store c))"

definition in_flight :: "controller \<Rightarrow> cjob_ref atomic_requests set" where
  "in_flight c = (\<Union>b\<in>set (c_bmp_store c). set (outstanding b))"

definition jobs_known :: "controller \<Rightarrow> bool" where
  "jobs_known c \<longleftrightarrow>
     distinct (od_keys (c_jobs c)) \<and>
     (\<forall>i r. od_get (c_jobs c) i = Some r \<longrightarrow> r < length (c_job_store c) \<and> map cj_id (c_job_store c) ! r = i) \<and>
     distinct (map cj_id (c_job_store c)) \<and> (\<forall>i\<in>set (map cj_id (c_job_store c)). i < c_next_id c)"

definition retired_known :: "controller \<Rightarrow> bool" where
  "retired_known c \<longleftrightarrow>
     distinct (od_keys (c_retired_jobs c)) \<and>
     (\<forall>i. od_get (c_retired_jobs c) i \<noteq> None \<longrightarrow>
        i \<in> set (map cj_id (c_job_store c)) \<and> od_get (c_jobs c) i = None) \<and>
     int (length (c_retired_jobs c)) \<le> max 0 (c_max_retired_jobs c)"

text \<open>The BMPs of the machines in service run, and no two machines share one.\<close>

definition bmps_running :: "controller \<Rightarrow> bool" where
  "bmps_running c \<longleftrightarrow>
     (\<forall>name d k. od_get (c_bmp_controllers c) name = Some d \<and> k \<in> snd ` set d \<longrightarrow>
        k < length (c_bmp_store c) \<and> \<not> map bc_stop (c_bmp_store c) ! k) \<and>
     (\<forall>name name' d d'. od_get (c_bmp_controllers c) name = Some d \<and>
        od_get (c_bmp_controllers c) name' = Some d' \<and> name \<noteq> name' \<longrightarrow> snd ` set d \<inter> snd ` set d' = {})"

text \<open>
  The counters, up to an offset: while an answer is being handled the counter of its job is
  still one too high.
\<close>

definition counter_ok :: "controller \<Rightarrow> int \<Rightarrow> cjob_ref \<Rightarrow> bool" where
  "counter_ok c n r \<longleftrightarrow>
     cj_requests_until_ready (the_cjob c r) = int (unanswered c r) + n \<and>
     (0 < cj_requests_until_ready (the_cjob c r) \<longrightarrow> cj_state (the_cjob c r) = Power)"

definition counted :: "(cjob_ref \<Rightarrow> int) \<Rightarrow> controller \<Rightarrow> bool" where
  "counted off c \<longleftrightarrow>
     (\<forall>r<length (c_job_store c). counter_ok c (off r) r) \<and>
     (\<forall>q\<in>in_flight c. on_done q < length (c_job_store c))"

definition cbooks :: "(cjob_ref \<Rightarrow> int) \<Rightarrow> controller \<Rightarrow> bool" where
  "cbooks off c \<longleftrightarrow> jobs_known c \<and> retired_known c \<and> bmps_running c \<and> counted off c"

lemma booksD:
  assumes "cbooks off c"
  shows "jobs_known c" "retired_known c" "bmps_running c" "counted off c"
  using assms by (simp_all add: cbooks_def)

text \<open>What the first three parts depend on.\<close>

definition frame_of :: "controller \<Rightarrow> (int, cjob_ref) odict \<times> (int, string option) odict \<times> int \<times> int \<times> int list \<times>
    (string, (frame, bmp_ref) odict) odict \<times> bool list \<times> machines" where
  "frame_of c = (c_jobs c, c_retired_jobs c, c_next_id c, c_max_retired_jobs c, map cj_id (c_job_store c),
     c_bmp_controllers c, map bc_stop (c_bmp_store c), c_machines c)"

lemma frame_ofD:
  assumes "frame_of c' = frame_of c"
  shows "c_jobs c' = c_jobs c" "c_retired_jobs c' = c_retired_jobs c" "c_next_id c' = c_next_id c"
    "c_max_retired_jobs c' = c_max_retired_jobs c" "map cj_id (c_job_store c') = map cj_id (c_job_store c)"
    "c_bmp_controllers c' = c_bmp_controllers c" "map bc_stop (c_bmp_store c') = map bc_stop (c_bmp_store c)"
    "length (c_job_store c') = length (c_job_store c)" "length (c_bmp_store c') = length (c_bmp_store c)"
    "c_machines c' = c_machines c"
  using assms map_eq_imp_length_eq[of cj_id "c_job_store c'" cj_id "c_job_store c"]
    map_eq_imp_length_eq[of bc_stop "c_bmp_store c'" bc_stop "c_bmp_store c"]
  by (simp_all add: frame_of_def)

lemma frame_books:
  assumes "frame_of c' = frame_of c" "cbooks off c" "counted off c'"
  shows "cbooks off c'"
proof -
  note f = frame_ofD[OF assms(1)]
  have "jobs_known c' = jobs_known c" "retired_known c' = retired_known c" "bmps_running c' = bmps_running c"
    by (simp_all only: jobs_known_def retired_known_def bmps_running_def f)
  with assms(2,3) show ?thesis by (simp only: cbooks_def)
qed

lemma same_frame [simp]:
  "frame_of (job_changed i c) = frame_of c" "frame_of (machine_changed name c) = frame_of c"
  "frame_of (c\<lparr>c_ticks := n\<rparr>) = frame_of c" "frame_of (c\<lparr>c_wakes := n\<rparr>) = frame_of c"
  "frame_of (c\<lparr>c_queue := q\<rparr>) = frame_of c"
  "frame_of (c\<lparr>c_changed_machines := S\<rparr>) = frame_of c" "frame_of (c\<lparr>c_changed_jobs := J\<rparr>) = frame_of c"
  by (simp_all add: frame_of_def job_changed_def machine_changed_def)

lemma same_counted [simp]:
  "counted off (job_changed i c) = counted off c" "counted off (machine_changed name c) = counted off c"
  "counted off (c\<lparr>c_ticks := n\<rparr>) = counted off c" "counted off (c\<lparr>c_wakes := n\<rparr>) = counted off c"
  "counted off (c\<lparr>c_queue := q\<rparr>) = counted off c" "counted off (c\<lparr>c_machines := ms\<rparr>) = counted off c"
  "counted off (c\<lparr>c_changed_machines := S\<rparr>) = counted off c" "counted off (c\<lparr>c_changed_jobs := J\<rparr>) = counted off c"
  by (simp_all add: counted_def counter_ok_def unanswered_def in_flight_def the_cjob_def job_changed_def machine_changed_def)

lemma same_books [simp]:
  "cbooks off (job_changed i c) = cbooks off c" "cbooks off (machine_changed name c) = cbooks off c"
  "cbooks off (c\<lparr>c_ticks := n\<rparr>) = cbooks off c" "cbooks off (c\<lparr>c_wakes := n\<rparr>) = cbooks off c"
  "cbooks off (c\<lparr>c_queue := q\<rparr>) = cbooks off c" "cbooks off (c\<lparr>c_machines := ms\<rparr>) = cbooks off c"
  "cbooks off (c\<lparr>c_changed_machines := S\<rparr>) = cbooks off c" "cbooks off (c\<lparr>c_changed_jobs := J\<rparr>) = cbooks off c"
  by (simp_all add: cbooks_def jobs_known_def retired_known_def bmps_running_def)
    (simp_all add: job_changed_def machine_changed_def)

text \<open>Writing to a job object.\<close>

lemma the_cjob_set:
  "r < length (c_job_store c) \<Longrightarrow> the_cjob (set_cjob r j c) r' = (if r' = r then j else the_cjob c r')"
  by (simp add: the_cjob_def set_cjob_def nth_list_update)

lemma set_cjob_simps [simp]:
  "c_jobs (set_cjob r j c) = c_jobs c" "c_queue (set_cjob r j c) = c_queue c" "c_machines (set_cjob r j c) = c_machines c"
  "c_bmp_store (set_cjob r j c) = c_bmp_store c" "c_bmp_controllers (set_cjob r j c) = c_bmp_controllers c"
  "length (c_job_store (set_cjob r j c)) = length (c_job_store c)" "unanswered (set_cjob r j c) = unanswered c" "in_flight (set_cjob r j c) = in_flight c"
  "c_retired_jobs (set_cjob r j c) = c_retired_jobs c" "c_max_retired_jobs (set_cjob r j c) = c_max_retired_jobs c"
  by (simp_all add: set_cjob_def unanswered_def in_flight_def fun_eq_iff)

lemma set_cjob_frame: "cj_id j = cj_id (the_cjob c r) \<Longrightarrow> frame_of (set_cjob r j c) = frame_of c"
  by (cases "r < length (c_job_store c)")
    (simp_all add: frame_of_def set_cjob_def the_cjob_def map_update list_update_same_conv list_update_beyond)

lemma set_cjob_counted:
  assumes "counted off c" "r < length (c_job_store c)"
    "cj_requests_until_ready j = int (unanswered c r) + off r" "0 < cj_requests_until_ready j \<longrightarrow> cj_state j = Power"
  shows "counted off (set_cjob r j c)"
  using assms unfolding counted_def counter_ok_def by (simp add: the_cjob_set)

lemma set_cjob_books:
  assumes "cbooks off c" "r < length (c_job_store c)" "cj_id j = cj_id (the_cjob c r)"
    "cj_requests_until_ready j = cj_requests_until_ready (the_cjob c r)"
    "cj_state j = cj_state (the_cjob c r)"
  shows "cbooks off (set_cjob r j c)"
proof (rule frame_books[OF set_cjob_frame[OF assms(3)] assms(1)])
  have "counter_ok c (off r) r" using booksD(4)[OF assms(1)] assms(2) by (simp add: counted_def)
  then show "counted off (set_cjob r j c)"
    using set_cjob_counted[OF booksD(4)[OF assms(1)] assms(2)] assms(4,5) by (simp add: counter_ok_def)
qed

section \<open>Commands\<close>

text \<open>A loop that ends well keeps what each round keeps.\<close>

lemma fold_res_keeps:
  assumes "fold_res f xs s = Inr s'" "P s" "\<And>x s s'. x \<in> set xs \<Longrightarrow> P s \<Longrightarrow> f x s = Inr s' \<Longrightarrow> P s'"
  shows "P s'"
  using assms
proof (induction xs arbitrary: s)
  case (Cons x xs)
  obtain s1 where f: "f x s = Inr s1" using Cons.prems(1) by (cases "f x s") auto
  then have "P s1" using Cons.prems(2) Cons.prems(3)[of x s s1] by simp
  moreover have "fold_res f xs s1 = Inr s'" using Cons.prems(1) f by simp
  ultimately show ?case using Cons.IH[of s1] Cons.prems(3) by (meson list.set_intros(2))
qed simp

text \<open>Commands for BMPs of the machine, all with the callback for the job.\<close>

definition commands_for :: "cjob_ref \<Rightarrow> bmp_ref set \<Rightarrow> frame_commands \<Rightarrow> bool" where
  "commands_for r K d \<longleftrightarrow> distinct (od_keys d) \<and> fst ` set d \<subseteq> K \<and> (\<forall>q\<in>snd ` set d. on_done q = r)"

lemma od_set_values: "snd ` set (od_set k v d) \<subseteq> insert v (snd ` set d)"
  by (induction k v d rule: od_set.induct) auto

lemma add_command_for:
  assumes "commands_for r K d" "k \<in> K" "\<And>q. on_done (f q) = on_done q"
  shows "commands_for r K (add_command r k f d)"
proof -
  let ?v = "f (case od_get d k of None \<Rightarrow> new_atomic_requests r | Some x \<Rightarrow> x)"
  have "on_done ?v = r"
    using assms(1,3) map_of_SomeD[of d k]
    by (force simp: commands_for_def new_atomic_requests_def split: option.splits)
  have "\<forall>q\<in>snd ` set (od_set k ?v d). on_done q = r"
  proof
    fix q assume "q \<in> snd ` set (od_set k ?v d)"
    then have "q \<in> insert ?v (snd ` set d)" by (rule subsetD[OF od_set_values])
    then have "q = ?v \<or> q \<in> snd ` set d" by (simp only: insert_iff)
    with assms(1) \<open>on_done ?v = r\<close> show "on_done q = r" unfolding commands_for_def by blast
  qed
  moreover have "distinct (od_keys (od_set k ?v d))" "fst ` set (od_set k ?v d) \<subseteq> K"
    using assms(1,2) by (simp_all add: commands_for_def)
  ultimately show ?thesis unfolding commands_for_def add_command_def by (intro conjI)
qed

lemma bmp_of_Inr: "bmp_of m controllers xyz = Inr (k, b) \<Longrightarrow> k \<in> snd ` set controllers"
  by (auto simp: bmp_of_def image_iff split: option.splits dest!: map_of_SomeD) force

lemma frame_commands_for:
  assumes "frame_commands w m controllers r boards periphery on link_enable = Inr d"
  shows "commands_for r (snd ` set controllers) d"
proof -
  let ?P = "commands_for r (snd ` set controllers)"
  have ini: "?P []" by (simp add: commands_for_def)
  have pw: "?P s'" if "power_command m controllers r on x s = Inr s'" "?P s" for x s s'
    using that bmp_of_Inr[of m controllers x] add_command_for[of r "snd ` set controllers" s]
    by (auto simp: power_command_def add_power_def split: sum.splits)
  have lk: "?P s'" if "link_command m controllers r e x s = Inr s'" "?P s" for x s s' e
    using that bmp_of_Inr[of m controllers] add_command_for[of r "snd ` set controllers" s]
    by (auto simp: link_command_def add_link_def split: sum.splits prod.splits)
  from assms obtain d1 where d1: "fold_res (power_command m controllers r on) (cw_boards w boards) [] = Inr d1"
    by (auto simp: frame_commands_def split: sum.splits)
  have p1: "?P d1" by (rule fold_res_keeps[where P = ?P, OF d1 ini]) (rule pw)
  show ?thesis
  proof (cases link_enable)
    case None
    with assms d1 p1 show ?thesis by (simp add: frame_commands_def)
  next
    case (Some e)
    with assms d1 have "fold_res (link_command m controllers r e) (cw_links w periphery) d1 = Inr d"
      by (simp add: frame_commands_def)
    then show ?thesis by (rule fold_res_keeps[where P = ?P, OF _ p1]) (rule lk)
  qed
qed

lemma unanswered_update:
  "k < length (c_bmp_store c) \<Longrightarrow>
   unanswered (c\<lparr>c_bmp_store := (c_bmp_store c)[k := b]\<rparr>) r + waiting_for r (c_bmp_store c ! k) =
   unanswered c r + waiting_for r b"
  using sum_list_update[of k "map (waiting_for r) (c_bmp_store c)" "waiting_for r b"]
    member_le_sum_list[of "waiting_for r (c_bmp_store c ! k)" "map (waiting_for r) (c_bmp_store c)"]
  by (simp add: unanswered_def map_update)

lemma send_commands_ok:
  assumes "k < length (c_bmp_store c)" "\<not> bc_stop (c_bmp_store c ! k)"
  shows "\<exists>c'. send_commands (k, q) c = (Inr (), c') \<and> frame_of c' = frame_of c \<and> c_job_store c' = c_job_store c \<and>
    (\<forall>r. unanswered c' r = unanswered c r + (if on_done q = r then 1 else 0)) \<and>
    in_flight c' \<subseteq> insert q (in_flight c)"
proof -
  let ?b = "c_bmp_store c ! k"
  let ?b' = "?b\<lparr> bc_requests := bc_requests ?b @ [q], bc_pending := True \<rparr>"
  let ?c = "c\<lparr>c_bmp_store := (c_bmp_store c)[k := ?b']\<rparr>"
  have o: "outstanding ?b' = outstanding ?b @ [q]" by (simp add: outstanding_def split: thread_pc.splits)
  have "unanswered ?c r = unanswered c r + (if on_done q = r then 1 else 0)" for r
    using unanswered_update[OF assms(1), of ?b' r] by (simp add: waiting_for_def o)
  moreover have "send_commands (k, q) c = (Inr (), ?c)"
    using assms(2) by (simp add: send_commands_def add_requests_def)
  moreover have "frame_of ?c = frame_of c"
    using assms(1) by (simp add: frame_of_def map_update list_update_same_conv)
  moreover have "in_flight ?c \<subseteq> insert q (in_flight c)"
    using set_update_subset_insert[of "c_bmp_store c" k ?b'] nth_mem[OF assms(1)] o
    by (fastforce simp: in_flight_def)
  ultimately show ?thesis by (intro exI[of _ ?c]) simp
qed

lemma send_all:
  assumes "distinct (od_keys d)" "\<forall>k\<in>fst ` set d. k < length (c_bmp_store c) \<and> \<not> map bc_stop (c_bmp_store c) ! k"
    "\<forall>q\<in>snd ` set d. on_done q = r"
  shows "\<exists>c'. for_each d send_commands c = (Inr (), c') \<and> frame_of c' = frame_of c \<and> c_job_store c' = c_job_store c \<and>
    (\<forall>r'. unanswered c' r' = unanswered c r' + (if r' = r then length d else 0)) \<and>
    in_flight c' \<subseteq> {q. on_done q = r} \<union> in_flight c"
  using assms
proof (induction d arbitrary: c)
  case (Cons kq d)
  obtain k q where kq: "kq = (k, q)" by (cases kq)
  have k: "k < length (c_bmp_store c)" "\<not> bc_stop (c_bmp_store c ! k)" using Cons.prems(2) by (auto simp: kq)
  obtain c1 where c1: "send_commands (k, q) c = (Inr (), c1)" "frame_of c1 = frame_of c" "c_job_store c1 = c_job_store c"
    "\<forall>r. unanswered c1 r = unanswered c r + (if on_done q = r then 1 else 0)"
    "in_flight c1 \<subseteq> insert q (in_flight c)"
    using send_commands_ok[OF k, of q] by blast
  have p: "distinct (od_keys d)" "\<forall>q\<in>snd ` set d. on_done q = r" using Cons.prems(1,3) by (simp_all add: kq)
  have p2: "\<forall>k\<in>fst ` set d. k < length (c_bmp_store c1) \<and> \<not> map bc_stop (c_bmp_store c1) ! k"
    using Cons.prems(2) unfolding frame_ofD(7,9)[OF c1(2)] by (simp add: kq del: nth_map)
  obtain c2 where c2: "for_each d send_commands c1 = (Inr (), c2)" "frame_of c2 = frame_of c1" "c_job_store c2 = c_job_store c1"
    "\<forall>r'. unanswered c2 r' = unanswered c1 r' + (if r' = r then length d else 0)"
    "in_flight c2 \<subseteq> {q. on_done q = r} \<union> in_flight c1"
    using Cons.IH[OF p(1) p2 p(2)] by blast
  have q: "on_done q = r" using Cons.prems(3) by (simp add: kq)
  have "for_each (kq # d) send_commands c = (Inr (), c2)" using c1(1) c2(1) by (simp add: kq and_then_def)
  moreover have "in_flight c2 \<subseteq> {q. on_done q = r} \<union> in_flight c"
    using c2(5) c1(5) q by blast
  moreover have "unanswered c2 r' = unanswered c r' + (if r' = r then length (kq # d) else 0)" for r'
    using c2(4) c1(4) q by simp
  ultimately show ?case using c1(2,3) c2(2,3) by (intro exI[of _ c2]) simp
qed simp

lemma the_cjob_id: "r < length (c_job_store c) \<Longrightarrow> cj_id (the_cjob c r) = map cj_id (c_job_store c) ! r"
  by (simp add: the_cjob_def)

lemma the_cjob_store: "c_job_store c' = c_job_store c \<Longrightarrow> the_cjob c' r = the_cjob c r"
  by (simp add: the_cjob_def)

lemma running_bmps:
  assumes "bmps_running c" "od_get (c_bmp_controllers c) name = Some controllers" "commands_for r (snd ` set controllers) d"
  shows "\<forall>k\<in>fst ` set d. k < length (c_bmp_store c) \<and> \<not> map bc_stop (c_bmp_store c) ! k"
  using assms unfolding bmps_running_def commands_for_def by blast

text \<open>What powering does when it gets as far as the commands.\<close>

lemma set_power_sent:
  assumes b: "cbooks off c" and r: "r < length (c_job_store c)"
    and d: "commands_for r (snd ` set controllers) d" and k: "od_get (c_bmp_controllers c) name = Some controllers"
  shows "\<exists>c2. for_each d send_commands (add_outstanding r (int (length d)) c) = (Inr (), c2) \<and>
    frame_of c2 = frame_of c \<and> c_job_store c2 = c_job_store (add_outstanding r (int (length d)) c) \<and>
    (\<forall>r'. unanswered c2 r' = unanswered c r' + (if r' = r then length d else 0)) \<and>
    cbooks off (job_changed i (set_cjob r ((the_cjob c2 r)\<lparr> cj_state := Power, cj_power := Some on \<rparr>) c2))"
proof -
  let ?c1 = "add_outstanding r (int (length d)) c"
  have f1: "frame_of ?c1 = frame_of c" unfolding add_outstanding_def Let_def by (rule set_cjob_frame) simp
  have s1: "the_cjob ?c1 r' = (if r' = r then (the_cjob c r)\<lparr>cj_requests_until_ready := cj_requests_until_ready (the_cjob c r) + int (length d)\<rparr>
      else the_cjob c r')" for r'
    using the_cjob_set[OF r] by (simp add: add_outstanding_def Let_def)
  have "\<forall>k\<in>fst ` set d. k < length (c_bmp_store ?c1) \<and> \<not> map bc_stop (c_bmp_store ?c1) ! k"
    unfolding frame_ofD[OF f1] by (rule running_bmps[OF booksD(3)[OF b] k d])
  then obtain c2 where c2: "for_each d send_commands ?c1 = (Inr (), c2)" "frame_of c2 = frame_of ?c1"
    "c_job_store c2 = c_job_store ?c1" "\<forall>r'. unanswered c2 r' = unanswered ?c1 r' + (if r' = r then length d else 0)"
    "in_flight c2 \<subseteq> {q. on_done q = r} \<union> in_flight ?c1"
    using send_all[of d ?c1 r] d unfolding commands_for_def by blast
  have u1: "unanswered ?c1 = unanswered c" "in_flight ?c1 = in_flight c" by (simp_all add: add_outstanding_def Let_def)
  have r2: "r < length (c_job_store c2)" "length (c_job_store c2) = length (c_job_store c)"
    using c2(2) f1 r frame_ofD(8) by metis+
  let ?j = "(the_cjob c2 r)\<lparr> cj_state := Power, cj_power := Some on \<rparr>"
  let ?c3 = "set_cjob r ?j c2"
  have "counter_ok ?c3 (off r') r'" if "r' < length (c_job_store ?c3)" for r'
  proof -
    have "counter_ok c (off r') r'" using booksD(4)[OF b] that r2 by (simp add: counted_def)
    then show ?thesis using c2(4) s1[of r'] the_cjob_store[OF c2(3)]
      by (auto simp: counter_ok_def the_cjob_set[OF r2(1)] u1)
  qed
  moreover have "\<forall>q\<in>in_flight ?c3. on_done q < length (c_job_store ?c3)"
    using c2(5) booksD(4)[OF b] r r2 u1 by (auto simp: counted_def)
  ultimately have "counted off ?c3" unfolding counted_def by blast
  moreover have "frame_of ?c3 = frame_of c" using set_cjob_frame[of ?j c2 r] c2(2) f1 by simp
  ultimately have "cbooks off ?c3" using frame_books[OF _ b] by blast
  then show ?thesis using c2 f1 u1 by (intro exI[of _ c2]) simp
qed

lemma set_power_books:
  assumes "cbooks off c" "r < length (c_job_store c)" "set_job_power_and_links w r on e c = (out, c')"
  shows "cbooks off c' \<and> frame_of c' = frame_of c"
proof -
  let ?j = "the_cjob c r"
  show ?thesis
  proof (cases "cj_allocated_machine ?j = None \<or> cj_boards ?j = None \<or> cj_periphery ?j = None")
    case True
    then have "c' = c" using assms(3) by (auto simp: set_job_power_and_links_def Let_def split: option.splits)
    with assms(1) show ?thesis by simp
  next
    case False
    then obtain m boards periphery where j: "cj_allocated_machine ?j = Some m" "cj_boards ?j = Some boards"
      "cj_periphery ?j = Some periphery" by auto
    note eq = assms(3)[unfolded set_job_power_and_links_def Let_def j prod.case option.case]
    show ?thesis
    proof (cases "od_get (c_bmp_controllers c) (mc_name m)")
      case None
      with eq assms(1) show ?thesis by simp
    next
      case (Some controllers)
      show ?thesis
      proof (cases "frame_commands w m controllers r boards periphery on e")
        case (Inl e)
        with eq Some assms(1) show ?thesis by simp
      next
        case (Inr d)
        obtain c2 where c2: "for_each d send_commands (add_outstanding r (int (length d)) c) = (Inr (), c2)"
          "frame_of c2 = frame_of c"
          "cbooks off (job_changed (cj_id ?j) (set_cjob r ((the_cjob c2 r)\<lparr> cj_state := Power, cj_power := Some on \<rparr>) c2))"
          using set_power_sent[OF assms(1,2) frame_commands_for[OF Inr] Some] by blast
        have "c' = job_changed (cj_id ?j) (set_cjob r ((the_cjob c2 r)\<lparr> cj_state := Power, cj_power := Some on \<rparr>) c2)"
          using eq Some Inr c2(1) by (simp add: and_then_def)
        then show ?thesis using c2 set_cjob_frame[of "(the_cjob c2 r)\<lparr> cj_state := Power, cj_power := Some on \<rparr>" c2 r] by simp
      qed
    qed
  qed
qed

lemma update_keepalive_books:
  assumes "cbooks off c" "r < length (c_job_store c)"
  shows "cbooks off (update_keepalive w host r c) \<and> frame_of (update_keepalive w host r c) = frame_of c"
proof -
  let ?j = "case host of None \<Rightarrow> the_cjob c r | Some h \<Rightarrow> (the_cjob c r)\<lparr>cj_lasthost := Some h\<rparr>"
  have j: "cj_id ?j = cj_id (the_cjob c r)" "cj_requests_until_ready ?j = cj_requests_until_ready (the_cjob c r)"
    "cj_state ?j = cj_state (the_cjob c r)" by (cases host; simp)+
  show ?thesis
  proof (cases "cj_keepalive ?j")
    case None
    then have "update_keepalive w host r c = set_cjob r ?j c" by (simp add: update_keepalive_def Let_def)
    then show ?thesis using set_cjob_books[OF assms j] set_cjob_frame[OF j(1)] by simp
  next
    case (Some k)
    let ?c = "c\<lparr>c_ticks := Suc (c_ticks c)\<rparr>" and ?j' = "?j\<lparr>cj_keepalive_until := Some (cw_time w (c_ticks c) + k)\<rparr>"
    have e: "update_keepalive w host r c = set_cjob r ?j' ?c"
      using Some by (simp add: update_keepalive_def Let_def timestamp_def)
    have "the_cjob ?c r = the_cjob c r" by (simp add: the_cjob_def)
    then show ?thesis unfolding e using set_cjob_books[of off ?c r ?j'] set_cjob_frame[of ?j' ?c r] assms j by simp
  qed
qed

lemma known_ref: "jobs_known c \<Longrightarrow> od_get (c_jobs c) i = Some r \<Longrightarrow> r < length (c_job_store c)"
  unfolding jobs_known_def by blast

lemma job_keepalive_books:
  assumes "cbooks off c"
  shows "cbooks off (job_keepalive w host i c) \<and> frame_of (job_keepalive w host i c) = frame_of c"
  using assms update_keepalive_books[OF assms known_ref[OF booksD(1)[OF assms]]]
  by (auto simp: job_keepalive_def split: option.splits)

lemma power_job_books:
  assumes "cbooks off c" "power_job_boards w on e host i c = (out, c')"
  shows "cbooks off c' \<and> frame_of c' = frame_of c"
proof -
  let ?c = "job_keepalive w host i c"
  have b: "cbooks off ?c" "frame_of ?c = frame_of c" using job_keepalive_books[OF assms(1)] by simp_all
  show ?thesis
  proof (cases "od_get (c_jobs ?c) i")
    case None
    with assms(2) b show ?thesis by (simp add: power_job_boards_def)
  next
    case (Some r)
    show ?thesis
    proof (cases "cj_boards (the_cjob ?c r) = None")
      case True
      with assms(2) b Some show ?thesis by (simp add: power_job_boards_def)
    next
      case False
      with assms(2) Some have "set_job_power_and_links w r on e ?c = (out, c')" by (simp add: power_job_boards_def Let_def)
      from set_power_books[OF b(1) known_ref[OF booksD(1)[OF b(1)] Some] this] b(2) show ?thesis by simp
    qed
  qed
qed

section \<open>Reports\<close>

declare nth_map [simp del]

text \<open>The invariant together with what no report changes.\<close>

definition fixed_of :: "controller \<Rightarrow> int list \<times> int \<times> machines \<times> (string, (frame, bmp_ref) odict) odict" where
  "fixed_of c = (map cj_id (c_job_store c), c_next_id c, c_machines c, c_bmp_controllers c)"

definition books_of ::
    "(cjob_ref \<Rightarrow> int) \<Rightarrow> int list \<times> int \<times> machines \<times> (string, (frame, bmp_ref) odict) odict \<Rightarrow> controller \<Rightarrow> bool"
where
  "books_of off fx c \<longleftrightarrow> cbooks off c \<and> fixed_of c = fx"

lemma same_fixed [simp]:
  "fixed_of (job_changed i c) = fixed_of c" "fixed_of (machine_changed name c) = fixed_of c"
  "fixed_of (c\<lparr>c_ticks := n\<rparr>) = fixed_of c" "fixed_of (c\<lparr>c_wakes := n\<rparr>) = fixed_of c"
  "fixed_of (c\<lparr>c_queue := q\<rparr>) = fixed_of c" "fixed_of (c\<lparr>c_changed_machines := S\<rparr>) = fixed_of c"
  by (simp_all add: fixed_of_def job_changed_def machine_changed_def)

lemma frame_fixed: "frame_of c' = frame_of c \<Longrightarrow> fixed_of c' = fixed_of c"
  by (simp add: frame_of_def fixed_of_def)

lemma fixed_length: "fixed_of c' = fixed_of c \<Longrightarrow> length (c_job_store c') = length (c_job_store c)"
  unfolding fixed_of_def by (metis length_map prod.inject)

lemma books_of_frame: "cbooks off c' \<and> frame_of c' = frame_of c \<Longrightarrow> books_of off fx c \<Longrightarrow> books_of off fx c'"
  unfolding books_of_def using frame_fixed by metis

lemma set_details_books:
  assumes "books_of off fx c" "r < length (c_job_store c)" "cj_id j = cj_id (the_cjob c r)"
    "cj_requests_until_ready j = cj_requests_until_ready (the_cjob c r)" "cj_state j = cj_state (the_cjob c r)"
  shows "books_of off fx (set_cjob r j c)"
proof -
  have "cbooks off c" using assms(1) by (simp add: books_of_def)
  with set_cjob_books[OF _ assms(2-5)] set_cjob_frame[OF assms(3)] books_of_frame[OF _ assms(1)]
  show ?thesis by blast
qed

lemma same_books_of [simp]:
  "books_of off fx (job_changed i c) = books_of off fx c" "books_of off fx (machine_changed name c) = books_of off fx c"
  "books_of off fx (c\<lparr>c_queue := q\<rparr>) = books_of off fx c" "books_of off fx (c\<lparr>c_ticks := n\<rparr>) = books_of off fx c"
  "books_of off fx (c\<lparr>c_wakes := n\<rparr>) = books_of off fx c"
  "books_of off fx (c\<lparr>c_changed_machines := S\<rparr>) = books_of off fx c"
  by (simp_all add: books_of_def)

lemma changed_simps [simp]:
  "the_cjob (job_changed i c) r = the_cjob c r" "the_cjob (machine_changed name c) r = the_cjob c r"
  "c_job_store (job_changed i c) = c_job_store c" "c_job_store (machine_changed name c) = c_job_store c"
  "c_jobs (job_changed i c) = c_jobs c" "c_jobs (machine_changed name c) = c_jobs c"
  by (simp_all add: the_cjob_def job_changed_def machine_changed_def)

lemma on_allocate_books:
  assumes b: "books_of off fx c" and out: "job_queue_on_allocate w i name boards periphery torus c = (out, c')"
  shows "books_of off fx c'"
proof (cases "od_get (c_jobs c) i")
  case None
  with b out show ?thesis by (simp add: job_queue_on_allocate_def)
next
  case (Some r)
  show ?thesis
  proof (cases "od_get (c_machines c) name")
    case None
    with Some b out show ?thesis by (simp add: job_queue_on_allocate_def)
  next
    case m: (Some m)
    have r: "r < length (c_job_store c)" using b Some known_ref booksD(1) unfolding books_of_def by blast
    let ?j1 = "(the_cjob c r)\<lparr> cj_allocated_machine := Some m, cj_boards := Some boards,
                cj_periphery := Some periphery, cj_torus := Some torus \<rparr>"
    let ?c0 = "set_cjob r ?j1 c"
    let ?c1 = "machine_changed name (job_changed (cj_id (the_cjob ?c0 r)) ?c0)"
    have c1: "books_of off fx ?c1" "r < length (c_job_store ?c1)"
      using set_details_books[OF b r, of ?j1] r by simp_all
    note eq = out[unfolded job_queue_on_allocate_def Some m option.case Let_def]
    show ?thesis
    proof (cases "boards = {}")
      case True
      with eq c1 show ?thesis by simp
    next
      case False
      obtain width height where dim: "job_dimensions boards torus = (width, height)" by (cases "job_dimensions boards torus")
      let ?j2 = "(the_cjob ?c1 r)\<lparr> cj_width := Some width, cj_height := Some height \<rparr>"
      let ?c2 = "set_cjob r ?j2 ?c1"
      have c2: "books_of off fx ?c2" "r < length (c_job_store ?c2)"
        using set_details_books[OF c1, of ?j2] c1(2) by simp_all
      show ?thesis
      proof (cases "fold_res (add_connection m (Min boards)) (cw_boards w boards) []")
        case (Inl e)
        with eq False dim c2 show ?thesis by simp
      next
        case (Inr d)
        let ?j3 = "(the_cjob ?c2 r)\<lparr>cj_connections := Some d\<rparr>"
        let ?c3 = "set_cjob r ?j3 ?c2"
        have c3: "books_of off fx ?c3" using set_details_books[OF c2, of ?j3] by simp
        have "power_job_boards w True (Some False) (cj_lasthost (the_cjob ?c3 r)) i ?c3 = (out, c')"
          using eq False dim Inr by (simp add: power_on_job_boards_def)
        then have "cbooks off c' \<and> frame_of c' = frame_of ?c3"
          using power_job_books c3 unfolding books_of_def by blast
        then show ?thesis using books_of_frame c3 by blast
      qed
    qed
  qed
qed

lemma od_get_tl: "od_get (tl d) i \<noteq> None \<Longrightarrow> od_get d i \<noteq> None"
  unfolding od_get_None_iff by (cases d) auto

lemma teardown_books:
  assumes b: "books_of off fx c" and out: "teardown_job w i reason c = (out, c')"
  shows "books_of off fx c'"
proof (cases "od_get (c_jobs c) i")
  case None
  with b out show ?thesis by (simp add: teardown_job_def)
next
  case (Some r)
  let ?ret = "od_set i reason (c_retired_jobs c)"
  let ?ret' = "if int (length ?ret) > c_max_retired_jobs c then tl ?ret else ?ret"
  let ?c0 = "c\<lparr> c_jobs := od_del i (c_jobs c), c_retired_jobs := ?ret' \<rparr>"
  let ?c1 = "job_changed (cj_id (the_cjob c r)) ?c0"
  have bk: "cbooks off c" "fixed_of c = fx" using b by (simp_all add: books_of_def)
  note k = booksD(1)[OF bk(1), unfolded jobs_known_def] and rt = booksD(2)[OF bk(1), unfolded retired_known_def]
  have r: "r < length (c_job_store c)" "map cj_id (c_job_store c) ! r = i" using k Some by blast+
  have "\<forall>j r. od_get (od_del i (c_jobs c)) j = Some r \<longrightarrow>
      r < length (c_job_store c) \<and> map cj_id (c_job_store c) ! r = j"
    using conjunct1[OF conjunct2[OF k]] by simp
  moreover have "distinct (od_keys (od_del i (c_jobs c)))" using k by simp
  ultimately have "jobs_known ?c0" using conjunct2[OF conjunct2[OF k]] unfolding jobs_known_def by simp
  moreover have "retired_known ?c0"
  proof -
    have mem: "i \<in> set (map cj_id (c_job_store c))" using r nth_mem by (metis length_map)
    have old: "od_get ?ret' j \<noteq> None \<Longrightarrow> j = i \<or> od_get (c_retired_jobs c) j \<noteq> None" for j
      using od_get_tl[of ?ret j] by (auto split: if_splits)
    have A: "distinct (od_keys ?ret')" using rt by (simp add: map_tl distinct_tl)
    have C: "int (length ?ret') \<le> max 0 (c_max_retired_jobs c)"
    proof -
      have "length ?ret \<le> Suc (length (c_retired_jobs c))"
        using od_keys_set[of i reason "c_retired_jobs c"] by (metis (no_types, opaque_lifting) length_append_singleton length_map le_SucI order_refl)
      moreover have "int (length (c_retired_jobs c)) \<le> max 0 (c_max_retired_jobs c)" using rt by blast
      ultimately show ?thesis by auto
    qed
    have B: "\<forall>j. od_get ?ret' j \<noteq> None \<longrightarrow> j \<in> set (map cj_id (c_job_store c)) \<and> od_get (od_del i (c_jobs c)) j = None"
    proof (intro allI impI)
      fix j assume "od_get ?ret' j \<noteq> None"
      from old[OF this] show "j \<in> set (map cj_id (c_job_store c)) \<and> od_get (od_del i (c_jobs c)) j = None"
      proof
        assume "od_get (c_retired_jobs c) j \<noteq> None"
        with rt have "j \<in> set (map cj_id (c_job_store c))" "od_get (c_jobs c) j = None" by blast+
        then show ?thesis by simp
      qed (use mem in simp)
    qed
    have s: "c_retired_jobs ?c0 = ?ret'" "c_jobs ?c0 = od_del i (c_jobs c)" "c_job_store ?c0 = c_job_store c"
      "c_max_retired_jobs ?c0 = c_max_retired_jobs c" by simp_all
    show ?thesis unfolding retired_known_def s by (intro conjI A B C)
  qed
  moreover have "bmps_running ?c0" "counted off ?c0"
    using booksD(3,4)[OF bk(1)]
    by (simp_all add: bmps_running_def counted_def counter_ok_def unanswered_def in_flight_def the_cjob_def)
  ultimately have "cbooks off ?c0" unfolding cbooks_def by (intro conjI)
  moreover have "fixed_of ?c0 = fx" using bk(2) by (simp add: fixed_of_def)
  ultimately have c1: "books_of off fx ?c1" unfolding same_books_of(1) unfolding books_of_def by (intro conjI)
  define c1 where "c1 = ?c1"
  have eq: "teardown_job w i reason c = (if cj_boards (the_cjob c r) = None then (Inr (), c1)
      else set_job_power_and_links w r False None c1)"
    unfolding teardown_job_def Some option.case Let_def c1_def by (simp add: the_cjob_def)
  have b1: "books_of off fx c1" "r < length (c_job_store c1)" using c1 r unfolding c1_def by simp_all
  show ?thesis
  proof (cases "cj_boards (the_cjob c r) = None")
    case True
    with out eq b1 show ?thesis by simp
  next
    case False
    with out eq have "set_job_power_and_links w r False None c1 = (out, c')" by simp
    then show ?thesis using set_power_books[OF _ b1(2)] books_of_frame[OF _ b1(1)] b1(1) unfolding books_of_def by blast
  qed
qed

lemma on_event_books:
  assumes "books_of off fx c" "on_event w ev c = (out, c')"
  shows "books_of off fx c'"
proof (cases ev)
  case (On_allocate i name boards periphery torus)
  with assms(2) have "job_queue_on_allocate w i name boards periphery torus c = (out, c')" by (simp add: on_event_def)
  with assms(1) show ?thesis by (rule on_allocate_books)
next
  case (On_cancel i reason)
  with assms(2) have "job_queue_on_cancel w i reason c = (out, c')" by (simp add: on_event_def)
  with assms(1) show ?thesis unfolding job_queue_on_cancel_def by (rule teardown_books)
next
  case (On_free i reason)
  with assms(2) have f: "job_queue_on_free w i reason c = (out, c')" by (simp add: on_event_def)
  show ?thesis
  proof (cases "\<exists>r m. od_get (c_jobs c) i = Some r \<and> cj_allocated_machine (the_cjob c r) = Some m")
    case True
    then obtain r m where "od_get (c_jobs c) i = Some r" "cj_allocated_machine (the_cjob c r) = Some m" by blast
    with f have "teardown_job w i reason (machine_changed (mc_name m) c) = (out, c')"
      by (simp add: job_queue_on_free_def)
    then show ?thesis using teardown_books assms(1) same_books_of(2) by blast
  next
    case False
    with f have "c' = c" by (auto simp: job_queue_on_free_def split: option.splits)
    with assms(1) show ?thesis by simp
  qed
qed

lemma in_queue_books:
  assumes "books_of off fx c" "in_queue w call c = (out, c')"
  shows "books_of off fx c'"
proof -
  obtain o1 q where call: "call (c_queue c) = (o1, q)" by (cases "call (c_queue c)")
  obtain o2 c2 where ev: "for_each (drop (length (jq_events (c_queue c))) (jq_events q)) (on_event w) (c\<lparr>c_queue := q\<rparr>) = (o2, c2)"
    by (cases "for_each (drop (length (jq_events (c_queue c))) (jq_events q)) (on_event w) (c\<lparr>c_queue := q\<rparr>)")
  have "books_of off fx (c\<lparr>c_queue := q\<rparr>)" using assms(1) by simp
  then have "books_of off fx c2"
    by (rule for_each_invar[where P = "books_of off fx", OF _ _ ev, rotated]) (rule on_event_books)
  moreover have "c' = c2" using assms(2) call ev by (auto simp: in_queue_def split: sum.splits)
  ultimately show ?thesis by simp
qed

section \<open>Operations\<close>

lemma and_then_cases:
  assumes "and_then m f s = (out, s')"
  obtains (stop) e where "m s = (Inl e, s')" "out = Inl e" | (go) x s1 where "m s = (Inr x, s1)" "f x s1 = (out, s')"
  using assms by (cases "m s"; cases "fst (m s)") (auto simp: and_then_def)

lemma new_job_books:
  assumes b: "cbooks off c" and o: "off (length (c_job_store c)) = 0"
    and j: "cj_id j = c_next_id c" "cj_requests_until_ready j = 0"
  shows "cbooks off (c\<lparr> c_next_id := c_next_id c + 1, c_job_store := c_job_store c @ [j],
      c_jobs := od_set (c_next_id c) (length (c_job_store c)) (c_jobs c) \<rparr>)" (is "cbooks off ?c")
proof -
  note k = booksD(1)[OF b, unfolded jobs_known_def] and rt = booksD(2)[OF b, unfolded retired_known_def]
    and ct = booksD(4)[OF b, unfolded counted_def]
  have fresh: "c_next_id c \<notin> set (map cj_id (c_job_store c))" using k by auto
  have "jobs_known ?c"
  proof -
    have "od_get (c_jobs ?c) i = Some r \<Longrightarrow> r < length (c_job_store ?c) \<and> map cj_id (c_job_store ?c) ! r = i" for i r
      using conjunct1[OF conjunct2[OF k]] j(1) by (auto simp: nth_append less_Suc_eq split: if_splits)
    moreover have "\<forall>i\<in>set (map cj_id (c_job_store ?c)). i < c_next_id ?c" using k j(1) by force
    ultimately show ?thesis using k fresh j(1) unfolding jobs_known_def by (simp del: set_map)
  qed
  moreover have "retired_known ?c"
    using rt fresh unfolding retired_known_def by auto
  moreover have "bmps_running ?c" using booksD(3)[OF b] by (simp add: bmps_running_def)
  moreover have "counted off ?c"
  proof -
    have u: "unanswered ?c = unanswered c" "in_flight ?c = in_flight c" by (simp_all add: unanswered_def in_flight_def fun_eq_iff)
    have "\<forall>q\<in>in_flight c. on_done q \<noteq> length (c_job_store c)" using ct by fastforce
    then have "unanswered c (length (c_job_store c)) = 0"
      by (auto simp: unanswered_def waiting_for_def in_flight_def filter_empty_conv)
    then have "counter_ok ?c (off r) r" if "r < length (c_job_store ?c)" for r
      using that ct j(2) o by (cases "r = length (c_job_store c)") (auto simp: counter_ok_def the_cjob_def u nth_append less_Suc_eq)
    moreover have "\<forall>q\<in>in_flight ?c. on_done q < length (c_job_store ?c)" using ct u by auto
    ultimately show ?thesis unfolding counted_def by blast
  qed
  ultimately show ?thesis by (simp only: cbooks_def)
qed

text \<open>The job object is made and listed, then the queue hears of it.\<close>

lemma create_split:
  assumes "ctl_create_job w host (Some ow) (Some ka) machine_name tags args kwargs c = (out, c')"
  obtains n j where
    "and_then (in_queue w (create_job (cw_queue w) (Some (c_next_id c)) machine_name tags args kwargs))
       (\<lambda>_ c'. (Inr (c_next_id c), job_changed (c_next_id c) c'))
       (c\<lparr> c_ticks := n, c_next_id := c_next_id c + 1, c_job_store := c_job_store c @ [j],
           c_jobs := od_set (c_next_id c) (length (c_job_store c)) (c_jobs c) \<rparr>) = (out, c')"
    "cj_id j = c_next_id c" "cj_requests_until_ready j = 0" "cj_boards j = None" "cj_allocated_machine j = None"
    "cj_state j = Queued" "cj_keepalive j = ka"
proof -
  obtain start c1 where t1: "timestamp w c = (start, c1)" by (cases "timestamp w c")
  obtain until c2 where t2: "(case ka of None \<Rightarrow> (None, c1) | Some k \<Rightarrow> (case timestamp w c1 of (now, c) \<Rightarrow> (Some (now + k), c))) = (until, c2)"
    by (cases "case ka of None \<Rightarrow> (None, c1) | Some k \<Rightarrow> (case timestamp w c1 of (now, c) \<Rightarrow> (Some (now + k), c))")
  have c1: "c1 = c\<lparr>c_ticks := Suc (c_ticks c)\<rparr>" using t1 by (auto simp: timestamp_def)
  obtain n where c2: "c2 = c\<lparr>c_ticks := n\<rparr>" using t2 unfolding c1 by (cases ka) (auto simp: timestamp_def)
  let ?j = "\<lparr> cj_id = c_next_id c, cj_owner = ow, cj_start_time = start, cj_keepalive = ka,
       cj_keepalive_until = until, cj_lasthost = host, cj_state = Queued, cj_power = None,
       cj_machine_name = machine_name, cj_tags = tags, cj_args = args, cj_kwargs = kwargs,
       cj_allocated_machine = None, cj_boards = None, cj_periphery = None, cj_torus = None,
       cj_width = None, cj_height = None, cj_connections = None, cj_requests_until_ready = 0 \<rparr>"
  show thesis
    by (rule that[of ?j n]) (use assms t1 t2 in \<open>simp_all add: ctl_create_job_def Let_def c2\<close>)
qed

lemma ctl_create_job_books:
  assumes b: "cbooks (\<lambda>_. 0) c" and out: "ctl_create_job w host owner keepalive machine_name tags args kwargs c = (out, c')"
  shows "cbooks (\<lambda>_. 0) c'"
proof (cases "owner = None \<or> keepalive = None")
  case True
  with b out show ?thesis by (auto simp: ctl_create_job_def split: option.splits)
next
  case False
  then obtain ow ka where o: "owner = Some ow" "keepalive = Some ka" by auto
  obtain n j where c1: "and_then (in_queue w (create_job (cw_queue w) (Some (c_next_id c)) machine_name tags args kwargs))
       (\<lambda>_ c'. (Inr (c_next_id c), job_changed (c_next_id c) c'))
       (c\<lparr> c_ticks := n, c_next_id := c_next_id c + 1, c_job_store := c_job_store c @ [j],
           c_jobs := od_set (c_next_id c) (length (c_job_store c)) (c_jobs c) \<rparr>) = (out, c')"
    and j: "cj_id j = c_next_id c" "cj_requests_until_ready j = 0"
    using create_split[OF out[unfolded o]] by metis
  have "cbooks (\<lambda>_. 0) (c\<lparr>c_ticks := n\<rparr>)" using b by simp
  from new_job_books[OF this, of j] j have bj: "cbooks (\<lambda>_. 0) (c\<lparr> c_ticks := n, c_next_id := c_next_id c + 1,
      c_job_store := c_job_store c @ [j], c_jobs := od_set (c_next_id c) (length (c_job_store c)) (c_jobs c) \<rparr>)" by simp
  from c1 show ?thesis
  proof (cases rule: and_then_cases)
    case (stop e)
    then show ?thesis using in_queue_books[OF _ stop(1)] bj unfolding books_of_def by blast
  next
    case (go x s1)
    then show ?thesis using in_queue_books[OF _ go(1)] bj unfolding books_of_def by auto
  qed
qed

lemma ctl_destroy_job_books:
  "books_of off fx c \<Longrightarrow> ctl_destroy_job w i reason c = (out, c') \<Longrightarrow> books_of off fx c'"
  by (auto simp: ctl_destroy_job_def split: option.splits intro: in_queue_books)

lemma destroy_timed_out_books:
  assumes "books_of off fx c" "destroy_timed_out_jobs w c = (out, c')"
  shows "books_of off fx c'"
proof -
  obtain now c1 where t: "timestamp w c = (now, c1)" by (cases "timestamp w c")
  then have b1: "books_of off fx c1" using assms(1) by (auto simp: timestamp_def)
  have step: "books_of off fx s'" if "books_of off fx s"
    "(if timed_out now (the_cjob s r) then ctl_destroy_job w (cj_id (the_cjob s r)) (Some ''Job timed out.'') s
      else (Inr (), s)) = (out, s')" for r s out s'
    using that ctl_destroy_job_books by (auto split: if_splits)
  have "for_each (map snd (c_jobs c1))
      (\<lambda>r s. if timed_out now (the_cjob s r) then ctl_destroy_job w (cj_id (the_cjob s r)) (Some ''Job timed out.'') s
             else (Inr (), s)) c1 = (out, c')"
    using assms(2) t by (simp add: destroy_timed_out_jobs_def)
  then show ?thesis by (rule for_each_invar[where P = "books_of off fx", OF step b1, rotated 2])
qed

lemma check_free_books: "books_of off fx c \<Longrightarrow> ctl_check_free w c = (out, c') \<Longrightarrow> books_of off fx c'"
  unfolding ctl_check_free_def by (rule in_queue_books)

section \<open>Machines\<close>

lemma bmps_runningI:
  assumes "\<And>name d k. od_get (c_bmp_controllers c) name = Some d \<Longrightarrow> k \<in> snd ` set d \<Longrightarrow>
      k < length (c_bmp_store c) \<and> \<not> map bc_stop (c_bmp_store c) ! k"
    and "\<And>name name' d d'. od_get (c_bmp_controllers c) name = Some d \<Longrightarrow>
      od_get (c_bmp_controllers c) name' = Some d' \<Longrightarrow> name \<noteq> name' \<Longrightarrow> snd ` set d \<inter> snd ` set d' = {}"
  shows "bmps_running c"
  using assms unfolding bmps_running_def by blast

lemma bmps_runningD:
  assumes "bmps_running c" "od_get (c_bmp_controllers c) name = Some d"
  shows "k \<in> snd ` set d \<Longrightarrow> k < length (c_bmp_store c)" "k \<in> snd ` set d \<Longrightarrow> \<not> map bc_stop (c_bmp_store c) ! k"
    "od_get (c_bmp_controllers c) name' = Some d' \<Longrightarrow> name \<noteq> name' \<Longrightarrow> snd ` set d \<inter> snd ` set d' = {}"
  using assms unfolding bmps_running_def by blast+

lemma with_machines_books [simp]: "cbooks off (c\<lparr>c_machines := ms\<rparr>) = cbooks off c"
  by (simp add: cbooks_def jobs_known_def retired_known_def bmps_running_def)

lemma in_queue_fixed:
  assumes "cbooks off c" "in_queue w call c = (out, c')"
  shows "cbooks off c' \<and> c_bmp_controllers c' = c_bmp_controllers c \<and> c_machines c' = c_machines c"
proof -
  have "books_of off (fixed_of c) c'" using in_queue_books[OF _ assms(2)] assms(1) by (simp add: books_of_def)
  then show ?thesis by (simp add: books_of_def fixed_of_def)
qed

lemma remove_one_books:
  assumes "cbooks off c" "remove_one w name c = (out, c')"
  shows "cbooks off c' \<and> (\<forall>n. od_get (c_bmp_controllers c') n =
    (if n = name \<and> is_ok out then None else od_get (c_bmp_controllers c) n))"
  using assms(2) unfolding remove_one_def
proof (cases rule: and_then_cases)
  case (stop e)
  with in_queue_fixed[OF assms(1) stop(1)] show ?thesis by simp
next
  case (go x c1)
  note b = in_queue_fixed[OF assms(1) go(1)]
  let ?c2 = "c1\<lparr>c_machines := od_del name (c_machines c1)\<rparr>"
  have "cbooks off (?c2\<lparr>c_bmp_controllers := od_del name (c_bmp_controllers ?c2)\<rparr>)"
  proof -
    have "bmps_running (?c2\<lparr>c_bmp_controllers := od_del name (c_bmp_controllers ?c2)\<rparr>)"
      using booksD(3)[OF conjunct1[OF b]] unfolding bmps_running_def by simp
    moreover have "jobs_known c1" "retired_known c1" "counted off c1" using booksD[OF conjunct1[OF b]] by simp_all
    ultimately show ?thesis
      by (simp add: cbooks_def jobs_known_def retired_known_def counted_def counter_ok_def unanswered_def in_flight_def the_cjob_def)
  qed
  with go(2) b show ?thesis by (auto simp: Let_def split: if_splits)
qed

lemma remove_all_books:
  assumes "cbooks off c" "for_each names (remove_one w) c = (out, c')"
  shows "cbooks off c' \<and> (is_ok out \<longrightarrow> (\<forall>n\<in>set names. od_get (c_bmp_controllers c') n = None)) \<and>
    (\<forall>n d. od_get (c_bmp_controllers c') n = Some d \<longrightarrow> od_get (c_bmp_controllers c) n = Some d)"
  using assms
proof (induction names arbitrary: c)
  case (Cons name names)
  from Cons.prems(2) show ?case unfolding for_each.simps
  proof (cases rule: and_then_cases)
    case (stop e)
    with remove_one_books[OF Cons.prems(1) stop(1)] show ?thesis by simp
  next
    case (go x c1)
    note r = remove_one_books[OF Cons.prems(1) go(1)]
    note i = Cons.IH[OF conjunct1[OF r] go(2)]
    have n: "od_get (c_bmp_controllers c1) n = (if n = name then None else od_get (c_bmp_controllers c) n)" for n
      using r by simp
    have "od_get (c_bmp_controllers c') name = None"
      using i n by (metis not_Some_eq)
    moreover have "od_get (c_bmp_controllers c) n' = Some d" if "od_get (c_bmp_controllers c') n' = Some d" for n' d
      using i n[of n'] that by (metis option.distinct(1))
    ultimately show ?thesis using i by simp
  qed
qed simp

lemma stop_bmp_books:
  assumes "cbooks off c" "\<And>name d. od_get (c_bmp_controllers c) name = Some d \<Longrightarrow> k \<notin> snd ` set d"
  shows "cbooks off (stop_bmp k c) \<and> c_bmp_controllers (stop_bmp k c) = c_bmp_controllers c"
proof (cases "k < length (c_bmp_store c)")
  case True
  let ?b = "c_bmp_store c ! k"
  have o: "outstanding (stop_controller ?b) = outstanding ?b"
    by (simp add: outstanding_def stop_controller_def split: thread_pc.splits)
  have "unanswered (stop_bmp k c) = unanswered c"
  proof
    fix r show "unanswered (stop_bmp k c) r = unanswered c r"
      using unanswered_update[OF True, of "stop_controller ?b" r] by (simp add: stop_bmp_def waiting_for_def o)
  qed
  moreover have "in_flight (stop_bmp k c) \<subseteq> in_flight c"
    using set_update_subset_insert[of "c_bmp_store c" k "stop_controller ?b"] nth_mem[OF True] o
    by (fastforce simp: in_flight_def stop_bmp_def)
  ultimately have "counted off (stop_bmp k c)"
    using booksD(4)[OF assms(1)] by (auto simp: counted_def counter_ok_def the_cjob_def stop_bmp_def)
  moreover have "bmps_running (stop_bmp k c)"
  proof -
    have c: "c_bmp_controllers (stop_bmp k c) = c_bmp_controllers c" by (simp add: stop_bmp_def)
    note old = bmps_runningD[OF booksD(3)[OF assms(1)]]
    show ?thesis
    proof (rule bmps_runningI; unfold c)
      fix name d k'
      assume d: "od_get (c_bmp_controllers c) name = Some d" and k: "k' \<in> snd ` set d"
      then have "k' \<noteq> k" using assms(2) by blast
      then show "k' < length (c_bmp_store (stop_bmp k c)) \<and> \<not> map bc_stop (c_bmp_store (stop_bmp k c)) ! k'"
        using old(1,2)[OF d k] by (simp add: stop_bmp_def map_update)
    qed (rule old(3))
  qed
  ultimately show ?thesis
    using booksD(1,2)[OF assms(1)] by (simp add: cbooks_def jobs_known_def retired_known_def stop_bmp_def)
qed (use assms(1) in \<open>simp add: stop_bmp_def list_update_beyond\<close>)

lemma stop_all_books:
  assumes "cbooks off c" "\<And>name d k. od_get (c_bmp_controllers c) name = Some d \<Longrightarrow> k \<in> set ks \<Longrightarrow> k \<notin> snd ` set d"
  shows "cbooks off (fold stop_bmp ks c) \<and> c_bmp_controllers (fold stop_bmp ks c) = c_bmp_controllers c"
  using assms
proof (induction ks arbitrary: c)
  case (Cons k ks)
  have s: "cbooks off (stop_bmp k c)" "c_bmp_controllers (stop_bmp k c) = c_bmp_controllers c"
    using stop_bmp_books[OF Cons.prems(1), of k] Cons.prems(2) by simp_all
  from Cons.IH[OF s(1)] Cons.prems(2) s(2) show ?case by simp
qed simp

lemma modify_one_books:
  assumes "cbooks off c" "modify_one w new name c = (out, c')"
  shows "cbooks off c'"
proof (cases "od_get new name")
  case (Some m)
  with assms(2) show ?thesis unfolding modify_one_def Some option.case
  proof (cases rule: and_then_cases)
    case (stop e)
    with in_queue_fixed[OF assms(1) stop(1)] show ?thesis by simp
  next
    case (go x c1)
    with in_queue_fixed[OF assms(1) go(1)] show ?thesis by auto
  qed
qed (use assms in \<open>simp add: modify_one_def\<close>)

lemma new_bmps_books:
  assumes "cbooks off c"
  shows "cbooks off (create_machine_bmp_controllers start m c)"
proof -
  let ?n = "length (c_bmp_store c)" and ?c = "create_machine_bmp_controllers start m c"
  let ?new = "map (\<lambda>(cf, host). new_bmp_controller host start) (mc_bmp_ips m) :: nat bmp_controller list"
  let ?d = "zip (map fst (mc_bmp_ips m)) [?n..<?n + length (mc_bmp_ips m)]"
  have c: "c_bmp_store ?c = c_bmp_store c @ ?new" "c_bmp_controllers ?c = od_set (mc_name m) ?d (c_bmp_controllers c)"
    "c_jobs ?c = c_jobs c" "c_retired_jobs ?c = c_retired_jobs c" "c_job_store ?c = c_job_store c"
    "c_next_id ?c = c_next_id c" "c_max_retired_jobs ?c = c_max_retired_jobs c"
    by (simp_all add: create_machine_bmp_controllers_def Let_def)
  have new: "outstanding b = [] \<and> \<not> bc_stop b" if "b \<in> set ?new" for b
    using that by (auto simp: new_bmp_controller_def outstanding_def)
  have "unanswered ?c r = unanswered c r" for r
    using new by (simp add: unanswered_def c(1) waiting_for_def sum_list_eq_0_iff)
  moreover have "in_flight ?c = in_flight c" using new by (auto simp: in_flight_def c(1))
  ultimately have "counted off ?c" using booksD(4)[OF assms] by (simp add: counted_def counter_ok_def the_cjob_def c(5))
  moreover have "bmps_running ?c"
  proof -
    have k: "?n \<le> k" "k < length (c_bmp_store ?c)" "\<not> map bc_stop (c_bmp_store ?c) ! k" if "k \<in> snd ` set ?d" for k
    proof -
      from that show n: "?n \<le> k" by (auto dest: set_zip_rightD)
      from that have l: "k < ?n + length (mc_bmp_ips m)" by (auto dest: set_zip_rightD)
      then show "k < length (c_bmp_store ?c)" unfolding c(1) by simp
      have "?new ! (k - ?n) \<in> set ?new" using n l by (intro nth_mem) auto
      from new[OF this] show "\<not> map bc_stop (c_bmp_store ?c) ! k"
        using n l unfolding c(1) by (simp add: nth_append nth_map)
    qed
    have old: "k < ?n" "k < length (c_bmp_store ?c)" "\<not> map bc_stop (c_bmp_store ?c) ! k"
      if "od_get (c_bmp_controllers c) name = Some d" "k \<in> snd ` set d" for name d k
    proof -
      from that booksD(3)[OF assms] show "k < ?n" unfolding bmps_running_def by blast
      then show "k < length (c_bmp_store ?c)" unfolding c(1) by simp
      from that booksD(3)[OF assms] have "\<not> map bc_stop (c_bmp_store c) ! k" unfolding bmps_running_def by blast
      then show "\<not> map bc_stop (c_bmp_store ?c) ! k" using \<open>k < ?n\<close> unfolding c(1) by (simp add: nth_append nth_map)
    qed
    have get: "od_get (c_bmp_controllers ?c) name = (if name = mc_name m then Some ?d else od_get (c_bmp_controllers c) name)" for name
      unfolding c(2) by simp
    have new_old: "snd ` set d \<inter> snd ` set ?d = {}" if "od_get (c_bmp_controllers c) name = Some d" for name d
      using old(1)[OF that] k(1) by (meson disjoint_iff linorder_not_le)
    show ?thesis
    proof (rule bmps_runningI; unfold get)
      fix name d k'
      assume d: "(if name = mc_name m then Some ?d else od_get (c_bmp_controllers c) name) = Some d" and k': "k' \<in> snd ` set d"
      show "k' < length (c_bmp_store ?c) \<and> \<not> map bc_stop (c_bmp_store ?c) ! k'"
      proof (cases "name = mc_name m")
        case True
        then have "k' \<in> snd ` set ?d" using d k' by simp
        from k(2,3)[OF this] show ?thesis ..
      next
        case False
        then have "od_get (c_bmp_controllers c) name = Some d" using d by simp
        from old(2,3)[OF this k'] show ?thesis ..
      qed
    next
      fix name name' d d'
      assume d: "(if name = mc_name m then Some ?d else od_get (c_bmp_controllers c) name) = Some d"
        "(if name' = mc_name m then Some ?d else od_get (c_bmp_controllers c) name') = Some d'" "name \<noteq> name'"
      show "snd ` set d \<inter> snd ` set d' = {}"
      proof (cases "name = mc_name m")
        case True
        then have "d = ?d" "od_get (c_bmp_controllers c) name' = Some d'" using d by simp_all
        with new_old[OF this(2)] show ?thesis by (simp only: Int_commute)
      next
        case False
        then have n: "od_get (c_bmp_controllers c) name = Some d" using d(1) by simp
        show ?thesis
        proof (cases "name' = mc_name m")
          case True
          then have "d' = ?d" using d by simp
          with new_old[OF n] show ?thesis by (simp only:)
        next
          case False
          then have "od_get (c_bmp_controllers c) name' = Some d'" using d(2) by simp
          then show ?thesis using bmps_runningD(3)[OF booksD(3)[OF assms] n] d(3) by blast
        qed
      qed
    qed
  qed
  ultimately show ?thesis using booksD(1,2)[OF assms] by (simp add: cbooks_def jobs_known_def retired_known_def c)
qed

lemma add_one_books:
  assumes "cbooks off c" "add_one w new name c = (out, c')"
  shows "cbooks off c'"
proof (cases "od_get new name")
  case (Some m)
  have "cbooks off (create_machine_bmp_controllers True m (c\<lparr>c_machines := od_set name m (c_machines c)\<rparr>))"
    using new_bmps_books assms(1) with_machines_books by blast
  with in_queue_fixed assms(2) Some show ?thesis unfolding add_one_def Some option.case by blast
qed (use assms in \<open>simp add: add_one_def\<close>)

lemma reorder_one_books:
  assumes "cbooks off c" "reorder_one w name c = (out, c')"
  shows "cbooks off c'"
proof (cases "od_move_to_end name (c_machines c)")
  case (Inr d)
  have "cbooks off (c\<lparr>c_machines := d\<rparr>)" using assms(1) by simp
  with in_queue_fixed assms(2) Inr show ?thesis unfolding reorder_one_def Inr sum.case by blast
qed (use assms in \<open>simp add: reorder_one_def\<close>)

end
