(* ===== verification/ControllerHistory.thy ===== *)
theory ControllerHistory
  imports ControllerBooks
begin

text \<open>
  The controller over time: its operations in any order, interleaved with the answers of the
  BMPs, keep the invariant.
\<close>

section \<open>Changing the machines\<close>

lemma bmps_of_machine_mem:
  "k \<in> set (bmps_of_machine c name) \<Longrightarrow> \<exists>d. od_get (c_bmp_controllers c) name = Some d \<and> k \<in> snd ` set d"
  by (cases "od_get (c_bmp_controllers c) name") (auto simp: bmps_of_machine_def)

lemma for_each_books:
  assumes "cbooks off c" "for_each xs f c = (out, c')"
    and "\<And>x c out c'. cbooks off c \<Longrightarrow> f x c = (out, c') \<Longrightarrow> cbooks off c'"
  shows "cbooks off c'"
  using assms(1,2) by (induction xs arbitrary: c) (auto elim!: and_then_cases dest: assms(3))

text \<open>The BMP controllers of the removed machines are stopped, which no machine in service notices.\<close>

lemma removed_stopped_books:
  assumes "cbooks off c" "\<forall>k\<in>set ks. \<exists>name\<in>set removed. k \<in> set (bmps_of_machine c0 name)"
    "c_bmp_controllers c = c_bmp_controllers c0" "for_each removed (remove_one w) c = (Inr x, c1)"
  shows "cbooks off (fold stop_bmp ks c1)"
proof -
  note r = remove_all_books[OF assms(1,4)]
  have "k \<notin> snd ` set d" if d: "od_get (c_bmp_controllers c1) name = Some d" and kk: "k \<in> set ks" for name d k
  proof
    assume k: "k \<in> snd ` set d"
    obtain name0 d0 where n0: "name0 \<in> set removed" "od_get (c_bmp_controllers c) name0 = Some d0" "k \<in> snd ` set d0"
      using assms(2,3) bmps_of_machine_mem kk by metis
    have "od_get (c_bmp_controllers c1) name0 = None" using r n0(1) by simp
    then have "name \<noteq> name0" using d by auto
    moreover have "od_get (c_bmp_controllers c) name = Some d" using r d by blast
    ultimately have "snd ` set d \<inter> snd ` set d0 = {}" using bmps_runningD(3)[OF booksD(3)[OF assms(1)]] n0(2) by blast
    with k n0(3) show False by blast
  qed
  then show ?thesis using stop_all_books[OF conjunct1[OF r]] by blast
qed

text \<open>The body of the change: remove, stop, modify, add, reorder.\<close>

lemma change_body_books:
  assumes "cbooks off c" "\<forall>k\<in>set ks. \<exists>name\<in>set removed. k \<in> set (bmps_of_machine c0 name)"
    "c_bmp_controllers c = c_bmp_controllers c0"
    "and_then (for_each removed (remove_one w))
       (\<lambda>_. and_then (\<lambda>c. (Inr (), fold stop_bmp ks c))
       (\<lambda>_. and_then (for_each changed (modify_one w new))
       (\<lambda>_. and_then (for_each added (add_one w new))
       (\<lambda>_. for_each order (reorder_one w))))) c = (out, c')"
  shows "cbooks off c'"
  using assms(4)
proof (cases rule: and_then_cases)
  case (stop e)
  with remove_all_books[OF assms(1) stop(1)] show ?thesis by simp
next
  case (go x c1)
  let ?c2 = "fold stop_bmp ks c1"
  have s: "cbooks off ?c2" by (rule removed_stopped_books[OF assms(1-3) go(1)])
  from go(2) have "and_then (for_each changed (modify_one w new))
       (\<lambda>_. and_then (for_each added (add_one w new)) (\<lambda>_. for_each order (reorder_one w))) ?c2 = (out, c')"
    by (simp add: and_then_def)
  then show ?thesis
  proof (cases rule: and_then_cases)
    case (stop e)
    show ?thesis by (rule for_each_books[OF s stop(1)]) (rule modify_one_books)
  next
    case (go x c3)
    have b3: "cbooks off c3" by (rule for_each_books[OF s go(1)]) (rule modify_one_books)
    from go(2) show ?thesis
    proof (cases rule: and_then_cases)
      case (stop e)
      show ?thesis by (rule for_each_books[OF b3 stop(1)]) (rule add_one_books)
    next
      case (go x c4)
      have b4: "cbooks off c4" by (rule for_each_books[OF b3 go(1)]) (rule add_one_books)
      show ?thesis by (rule for_each_books[OF b4 go(2)]) (rule reorder_one_books)
    qed
  qed
qed

lemma with_queue_books:
  assumes "with_queue w body c = (out, c')"
    and "\<And>out c1. body (c\<lparr>c_queue := enter (c_queue c)\<rparr>) = (out, c1) \<Longrightarrow> cbooks off c1"
  shows "cbooks off c'"
proof -
  obtain o1 c1 where b: "body (c\<lparr>c_queue := enter (c_queue c)\<rparr>) = (o1, c1)"
    by (cases "body (c\<lparr>c_queue := enter (c_queue c)\<rparr>)")
  obtain o2 c2 where l: "in_queue w (leave (cw_queue w)) c1 = (o2, c2)" by (cases "in_queue w (leave (cw_queue w)) c1")
  have "c' = c2" using assms(1) b l by (auto simp: with_queue_def split: sum.splits)
  then show ?thesis using in_queue_fixed[OF assms(2)[OF b] l] by simp
qed

lemma set_machines_books:
  assumes "cbooks off c" "set_machines w new c = (out, c')"
  shows "cbooks off c'"
proof -
  let ?rm = "cw_names w (removed_machines (c_machines c) new)"
  let ?body = "and_then (for_each ?rm (remove_one w))
     (\<lambda>_. and_then (\<lambda>s. (Inr (), fold stop_bmp (concat (map (bmps_of_machine c) ?rm)) s))
     (\<lambda>_. and_then (for_each (cw_names w (modified_machines (c_machines c) new)) (modify_one w new))
     (\<lambda>_. and_then (for_each (cw_names w (added_machines (c_machines c) new)) (add_one w new))
     (\<lambda>_. for_each (map fst new) (reorder_one w)))))"
  have body: "cbooks off c1" if "?body (c\<lparr>c_queue := enter (c_queue c)\<rparr>) = (o1, c1)" for o1 c1
  proof -
    have "cbooks off (c\<lparr>c_queue := enter (c_queue c)\<rparr>)" using assms(1) by simp
    moreover have "\<forall>k\<in>set (concat (map (bmps_of_machine c) ?rm)). \<exists>name\<in>set ?rm. k \<in> set (bmps_of_machine c name)"
      by simp
    moreover have "c_bmp_controllers (c\<lparr>c_queue := enter (c_queue c)\<rparr>) = c_bmp_controllers c" by simp
    ultimately show ?thesis using that by (rule change_body_books)
  qed
  have "and_then (with_queue w ?body)
      (\<lambda>_ s. (Inr (), s\<lparr>c_changed_machines := c_changed_machines s \<union> added_machines (c_machines c) new \<union>
         modified_machines (c_machines c) new \<union> removed_machines (c_machines c) new\<rparr>)) c = (out, c')"
    using assms(2) unfolding set_machines_def Let_def .
  then show ?thesis
  proof (cases rule: and_then_cases)
    case (stop e)
    show ?thesis by (rule with_queue_books[OF stop(1)]) (rule body)
  next
    case (go x c1)
    have "cbooks off c1" by (rule with_queue_books[OF go(1)]) (rule body)
    with go(2) show ?thesis by auto
  qed
qed

lemma od_get_drop: "od_get (drop n d) i \<noteq> None \<Longrightarrow> od_get d i \<noteq> None"
  unfolding od_get_None_iff by (auto dest: in_set_dropD)

lemma set_max_retired_books:
  assumes "cbooks off c" "set_max_retired_jobs n c = (out, c')"
  shows "cbooks off c'"
proof -
  let ?ret = "if n < 0 then [] else drop (length (c_retired_jobs c) - nat n) (c_retired_jobs c)"
  have c': "c' = c\<lparr> c_max_retired_jobs := n, c_retired_jobs := ?ret \<rparr>"
    using assms(2) by (auto simp: set_max_retired_jobs_def split: if_splits)
  note rt = booksD(2)[OF assms(1), unfolded retired_known_def]
  have "distinct (od_keys ?ret)" using rt by (simp add: drop_map[symmetric])
  moreover have "int (length ?ret) \<le> max 0 n" by auto
  moreover have "\<forall>j. od_get ?ret j \<noteq> None \<longrightarrow> j \<in> set (map cj_id (c_job_store c)) \<and> od_get (c_jobs c) j = None"
    using rt od_get_drop[of _ "c_retired_jobs c"] by (metis map_of.simps(1))
  ultimately have "retired_known c'" unfolding retired_known_def c' by simp
  moreover have "jobs_known c'" "bmps_running c'" "counted off c'" using booksD[OF assms(1)] unfolding c'
    by (simp_all add: jobs_known_def bmps_running_def counted_def counter_ok_def unanswered_def in_flight_def the_cjob_def)
  ultimately show ?thesis by (simp only: cbooks_def)
qed

section \<open>Answers\<close>

text \<open>
  The thread of a BMP that has carried out a request calls the callback. Here the request is
  taken off first, which the callback does not see.
\<close>

definition take_answer :: "bmp_ref \<Rightarrow> controller \<Rightarrow> controller" where
  "take_answer k c = c\<lparr>c_bmp_store := (c_bmp_store c)[k := (c_bmp_store c ! k)\<lparr>bc_pc := Testing\<rparr>]\<rparr>"

definition bmp_answer :: "cworld \<Rightarrow> bmp_ref \<Rightarrow> bool \<Rightarrow> string option \<Rightarrow> unit ctl" where
  "bmp_answer w k success reason c =
     (case bc_pc (c_bmp_store c ! k) of
        Busy q \<Rightarrow> bmp_on_request_complete w (on_done q) success reason (take_answer k c)
      | _ \<Rightarrow> (Inr (), c))"

text \<open>The other steps of the thread.\<close>

definition bmp_idle :: "bmp_ref \<Rightarrow> controller \<Rightarrow> controller" where
  "bmp_idle k c =
     (case bc_pc (c_bmp_store c ! k) of
        Busy q \<Rightarrow> c
      | _ \<Rightarrow> (case thread_step (\<lambda>_. Some 0) (c_bmp_store c ! k) of
               None \<Rightarrow> c | Some b \<Rightarrow> c\<lparr>c_bmp_store := (c_bmp_store c)[k := b]\<rparr>))"

lemma replace_bmp_books:
  assumes b: "cbooks off c" and k: "k < length (c_bmp_store c)"
    and stop: "bc_stop b = bc_stop (c_bmp_store c ! k)"
    and out: "set (outstanding b) \<subseteq> set (outstanding (c_bmp_store c ! k))"
    and w: "\<And>r. int (waiting_for r (c_bmp_store c ! k)) + off r = int (waiting_for r b) + off' r"
  shows "cbooks off' (c\<lparr>c_bmp_store := (c_bmp_store c)[k := b]\<rparr>)" (is "cbooks off' ?c")
proof -
  have f: "frame_of ?c = frame_of c"
    using k stop by (simp add: frame_of_def map_update list_update_same_conv nth_map)
  have "in_flight ?c \<subseteq> in_flight c"
    using set_update_subset_insert[of "c_bmp_store c" k b] nth_mem[OF k] out by (fastforce simp: in_flight_def)
  moreover have "int (unanswered ?c r) + off' r = int (unanswered c r) + off r" for r
    using unanswered_update[OF k, of b r] w[of r] by linarith
  ultimately have "counted off' ?c"
    using booksD(4)[OF b] by (auto simp: counted_def counter_ok_def the_cjob_def)
  moreover have "jobs_known ?c = jobs_known c" "retired_known ?c = retired_known c" "bmps_running ?c = bmps_running c"
    by (simp_all only: jobs_known_def retired_known_def bmps_running_def frame_ofD[OF f])
  ultimately show ?thesis using booksD(1-3)[OF b] by (simp only: cbooks_def)
qed

lemma bmp_idle_books:
  assumes "cbooks off c" "k < length (c_bmp_store c)"
  shows "cbooks off (bmp_idle k c)"
proof (cases "thread_step (\<lambda>_. Some 0) (c_bmp_store c ! k)")
  case (Some b)
  let ?b = "c_bmp_store c ! k"
  have "outstanding b = outstanding ?b \<and> bc_stop b = bc_stop ?b" if "\<And>q. bc_pc ?b \<noteq> Busy q"
    using Some that by (cases "bc_pc ?b")
      (auto simp: thread_step_def outstanding_def make_call_def ask_def and_then_def return_def split: if_splits list.splits)
  then have "cbooks off (c\<lparr>c_bmp_store := (c_bmp_store c)[k := b]\<rparr>)" if "\<And>q. bc_pc ?b \<noteq> Busy q"
    using replace_bmp_books[OF assms, of b] that by (simp add: waiting_for_def)
  with assms(1) Some show ?thesis by (cases "bc_pc ?b") (simp_all add: bmp_idle_def)
qed (use assms(1) in \<open>auto simp: bmp_idle_def split: thread_pc.splits\<close>)

lemma take_answer_books:
  assumes "cbooks (\<lambda>_. 0) c" "k < length (c_bmp_store c)" "bc_pc (c_bmp_store c ! k) = Busy q"
  shows "cbooks (\<lambda>r. if r = on_done q then 1 else 0) (take_answer k c) \<and> on_done q < length (c_job_store c) \<and>
    fixed_of (take_answer k c) = fixed_of c \<and>
    unanswered c r = unanswered (take_answer k c) r + (if r = on_done q then 1 else 0)"
proof -
  let ?b = "c_bmp_store c ! k" and ?b' = "(c_bmp_store c ! k)\<lparr>bc_pc := Testing\<rparr>"
  have o: "outstanding ?b = q # bc_requests ?b" "outstanding ?b' = bc_requests ?b"
    using assms(3) by (simp_all add: outstanding_def)
  have "cbooks (\<lambda>r. if r = on_done q then 1 else 0) (take_answer k c)"
    unfolding take_answer_def by (rule replace_bmp_books[OF assms(1,2)]) (auto simp: o waiting_for_def)
  moreover have "q \<in> in_flight c" using nth_mem[OF assms(2)] o(1) by (force simp: in_flight_def)
  then have "on_done q < length (c_job_store c)" using booksD(4)[OF assms(1)] by (simp add: counted_def)
  moreover have "unanswered c r = unanswered (take_answer k c) r + (if r = on_done q then 1 else 0)"
    using unanswered_update[OF assms(2), of ?b' r]
    by (cases "r = on_done q") (auto simp: take_answer_def waiting_for_def o)
  ultimately show ?thesis by (simp add: fixed_of_def take_answer_def)
qed

text \<open>The counter is put right when the answer is counted.\<close>

lemma count_answer:
  assumes b: "cbooks (\<lambda>x. if x = r then 1 else 0) c" and r: "r < length (c_job_store c)"
  shows "cbooks (\<lambda>_. 0) (add_outstanding r (- 1) c)"
    and "cj_requests_until_ready (the_cjob (add_outstanding r (- 1) c) r) = int (unanswered c r)"
proof -
  let ?j = "(the_cjob c r)\<lparr>cj_requests_until_ready := cj_requests_until_ready (the_cjob c r) + - 1\<rparr>"
  have a: "add_outstanding r (- 1) c = set_cjob r ?j c" by (simp add: add_outstanding_def Let_def)
  have ok: "counter_ok c (if x = r then 1 else 0) x" if "x < length (c_job_store c)" for x
    using booksD(4)[OF b] that by (simp add: counted_def)
  have "counter_ok (set_cjob r ?j c) 0 x" if "x < length (c_job_store c)" for x
    using ok[OF that] ok[OF r] by (auto simp: counter_ok_def the_cjob_set[OF r])
  then have "counted (\<lambda>_. 0) (set_cjob r ?j c)" using booksD(4)[OF b] by (simp add: counted_def)
  moreover have f: "frame_of (set_cjob r ?j c) = frame_of c" by (rule set_cjob_frame) simp
  moreover have "jobs_known (set_cjob r ?j c) = jobs_known c" "retired_known (set_cjob r ?j c) = retired_known c"
    "bmps_running (set_cjob r ?j c) = bmps_running c"
    by (simp_all only: jobs_known_def retired_known_def bmps_running_def frame_ofD[OF f])
  ultimately show "cbooks (\<lambda>_. 0) (add_outstanding r (- 1) c)"
    unfolding a using booksD(1-3)[OF b] by (simp only: cbooks_def)
  show "cj_requests_until_ready (the_cjob (add_outstanding r (- 1) c) r) = int (unanswered c r)"
    unfolding a using ok[OF r] by (simp add: the_cjob_set[OF r] counter_ok_def)
qed

text \<open>What happens when an answer has been counted.\<close>

definition answer_counted :: "cworld \<Rightarrow> cjob_ref \<Rightarrow> unit ctl" where
  "answer_counted w r c =
     (let j = the_cjob c r
      in and_then (if cj_id j \<in> fst ` set (c_retired_jobs c) then in_queue w (jq_free (cw_queue w) (cj_id j)) else return ())
           (\<lambda>_ c. if cj_id j \<in> fst ` set (c_jobs c)
                  then (Inr (), (job_changed (cj_id j) c)\<lparr>c_wakes := c_wakes c + (if c_on_background c then 1 else 0)\<rparr>)
                  else (Inr (), c))
           (set_cjob r (j\<lparr>cj_state := Ready\<rparr>) c))"

lemma answer_counted_books:
  assumes b: "cbooks (\<lambda>_. 0) c" and r: "r < length (c_job_store c)" and n: "cj_requests_until_ready (the_cjob c r) = 0"
    and out: "answer_counted w r c = (out, c')"
  shows "cbooks (\<lambda>_. 0) c'"
proof -
  let ?j = "the_cjob c r"
  let ?c = "set_cjob r (?j\<lparr>cj_state := Ready\<rparr>) c"
  have f: "frame_of ?c = frame_of c" by (rule set_cjob_frame) simp
  have "counter_ok c 0 r" using booksD(4)[OF b] r by (simp add: counted_def)
  then have "counted (\<lambda>_. 0) ?c" using set_cjob_counted[OF booksD(4)[OF b] r, of "?j\<lparr>cj_state := Ready\<rparr>"] n
    by (simp add: counter_ok_def)
  then have bc: "cbooks (\<lambda>_. 0) ?c" by (rule frame_books[OF f b])
  from out show ?thesis unfolding answer_counted_def Let_def
  proof (cases rule: and_then_cases)
    case (stop e)
    then show ?thesis using in_queue_fixed[OF bc] bc by (auto simp: return_def split: if_splits)
  next
    case (go x c1)
    have "cbooks (\<lambda>_. 0) c1" using go(1) in_queue_fixed[OF bc] bc by (auto simp: return_def split: if_splits)
    with go(2) show ?thesis by (auto split: if_splits)
  qed
qed

lemma complete_eq:
  "bmp_on_request_complete w r success reason =
     and_then (\<lambda>c. if success then (Inr (), c)
                  else ctl_destroy_job w (cj_id (the_cjob c r))
                         (Some (''Machine configuration failed.'' @
                            (case reason of None \<Rightarrow> [] | Some s \<Rightarrow> '' Error: '' @ s))) c)
       (\<lambda>_ c. let c = add_outstanding r (- 1) c
              in if cj_requests_until_ready (the_cjob c r) < 0 then (Inl AssertionError, c)
                 else if cj_requests_until_ready (the_cjob c r) \<noteq> 0 then (Inr (), c)
                 else answer_counted w r c)"
  unfolding bmp_on_request_complete_def answer_counted_def Let_def by (rule refl)

lemma complete_books:
  assumes b: "cbooks (\<lambda>x. if x = r then 1 else 0) c" and r: "r < length (c_job_store c)"
    and out: "bmp_on_request_complete w r success reason c = (out, c')" and ok: "is_ok out"
  shows "cbooks (\<lambda>_. 0) c'"
  using out unfolding complete_eq
proof (cases rule: and_then_cases)
  case (stop e)
  with ok show ?thesis by simp
next
  case (go x c1)
  have bc: "books_of (\<lambda>x. if x = r then 1 else 0) (fixed_of c) c" using b by (simp add: books_of_def)
  have "books_of (\<lambda>x. if x = r then 1 else 0) (fixed_of c) c1"
  proof (cases success)
    case True
    with go(1) bc show ?thesis by simp
  next
    case False
    with go(1) have "ctl_destroy_job w (cj_id (the_cjob c r)) (Some (''Machine configuration failed.'' @
        (case reason of None \<Rightarrow> [] | Some s \<Rightarrow> '' Error: '' @ s))) c = (Inr x, c1)" by simp
    then show ?thesis by (rule ctl_destroy_job_books[OF bc])
  qed
  then have b1: "cbooks (\<lambda>x. if x = r then 1 else 0) c1" and r1: "r < length (c_job_store c1)"
    using r fixed_length unfolding books_of_def by metis+
  note c2 = count_answer[OF b1 r1]
  have r2: "r < length (c_job_store (add_outstanding r (- 1) c1))" using r1 by (simp add: add_outstanding_def Let_def)
  show ?thesis
  proof (cases "unanswered c1 r = 0")
    case True
    with go(2) c2(2) have "answer_counted w r (add_outstanding r (- 1) c1) = (out, c')" by (simp add: Let_def)
    with answer_counted_books[OF c2(1) r2] c2(2) True show ?thesis by simp
  next
    case False
    with go(2) c2 show ?thesis by (simp add: Let_def)
  qed
qed

section \<open>Restarting\<close>

text \<open>A controller may be saved once its BMPs have answered everything.\<close>

definition drained :: "controller \<Rightarrow> bool" where
  "drained c \<longleftrightarrow> (\<forall>b\<in>set (c_bmp_store c). outstanding b = [])"

lemma drained_unanswered: "drained c \<Longrightarrow> unanswered c r = 0"
  by (auto simp: drained_def unanswered_def waiting_for_def)

lemma pickled_books:
  assumes b: "cbooks (\<lambda>_. 0) c" and d: "drained c"
  shows "cbooks (\<lambda>_. 0) (pickled c)"
proof -
  have "jobs_known (pickled c)" "retired_known (pickled c)"
    using booksD(1,2)[OF b] by (simp_all add: pickled_def jobs_known_def retired_known_def)
  moreover have "bmps_running (pickled c)" by (simp add: pickled_def bmps_running_def)
  moreover have "unanswered (pickled c) r = 0" "in_flight (pickled c) = {}" for r
    by (simp_all add: pickled_def unanswered_def in_flight_def)
  then have "counted (\<lambda>_. 0) (pickled c)"
    using booksD(4)[OF b] drained_unanswered[OF d]
    by (simp add: counted_def counter_ok_def the_cjob_def) (simp add: pickled_def)
  ultimately show ?thesis by (simp only: cbooks_def)
qed

lemma fold_books:
  "cbooks off c \<Longrightarrow> (\<And>x c. x \<in> set xs \<Longrightarrow> cbooks off c \<Longrightarrow> cbooks off (f x c)) \<Longrightarrow> cbooks off (fold f xs c)"
  by (induction xs arbitrary: c) auto

lemma unpickled_books:
  assumes "cbooks (\<lambda>_. 0) c" "drained c"
  shows "cbooks (\<lambda>_. 0) (unpickled w c)"
  unfolding unpickled_def init_dynamic_state_def
proof (rule fold_books[OF fold_books[OF pickled_books[OF assms]]])
  show "cbooks (\<lambda>_. 0) (create_machine_bmp_controllers False m s)" if "cbooks (\<lambda>_. 0) s" for m s
    using that by (rule new_bmps_books)
  show "cbooks (\<lambda>_. 0) (job_keepalive w None i s)" if "cbooks (\<lambda>_. 0) s" for i s
    using job_keepalive_books[OF that] by blast
qed

section \<open>Histories\<close>

datatype ctl_op =
    Create_job "string option" "string option" "rat option option" "string option" "string set option" alloc_args alloc_kwargs
  | Keep_alive "string option" int
  | Power_on_job "string option" int
  | Power_off_job "string option" int
  | Destroy_job int "string option"
  | Time_out
  | Check_free
  | Set_machines machines
  | Set_max_retired int
  | Set_seconds rat
  | Read_jobs
  | Read_machines
  | Restart
  | Bmp_step bmp_ref
  | Bmp_answer bmp_ref bool "string option"

fun perform :: "cworld \<Rightarrow> ctl_op \<Rightarrow> controller \<Rightarrow> bool \<times> controller" where
  "perform w (Create_job host owner ka name tags args kwargs) c =
     map_prod is_ok id (ctl_create_job w host owner ka name tags args kwargs c)"
| "perform w (Keep_alive host i) c = (True, job_keepalive w host i c)"
| "perform w (Power_on_job host i) c = map_prod is_ok id (power_on_job_boards w host i c)"
| "perform w (Power_off_job host i) c = map_prod is_ok id (power_off_job_boards w host i c)"
| "perform w (Destroy_job i reason) c = map_prod is_ok id (ctl_destroy_job w i reason c)"
| "perform w Time_out c = map_prod is_ok id (destroy_timed_out_jobs w c)"
| "perform w Check_free c = map_prod is_ok id (ctl_check_free w c)"
| "perform w (Set_machines new) c = map_prod is_ok id (set_machines w new c)"
| "perform w (Set_max_retired n) c = map_prod is_ok id (set_max_retired_jobs n c)"
| "perform w (Set_seconds s) c = (True, set_seconds_before_free s c)"
| "perform w Read_jobs c = (True, snd (read_changed_jobs c))"
| "perform w Read_machines c = (True, snd (read_changed_machines c))"
| "perform w Restart c = (True, if drained c then unpickled w c else c)"
| "perform w (Bmp_step k) c = (True, if k < length (c_bmp_store c) then bmp_idle k c else c)"
| "perform w (Bmp_answer k success reason) c =
     (if k < length (c_bmp_store c) then map_prod is_ok id (bmp_answer w k success reason c) else (True, c))"

fun is_answer :: "ctl_op \<Rightarrow> bool" where
  "is_answer (Bmp_answer k success reason) = True"
| "is_answer _ = False"

text \<open>
  An operation may raise. Only the callback for an answer must not: the BMP would then try the
  request again. A callback that raises cuts a method of the queue short, so nothing is
  said of the queue then: at any moment it may be replaced by any other.
\<close>

inductive ctl_reachable :: "cworld \<Rightarrow> controller \<Rightarrow> bool" for w where
  created: "ctl_reachable w (new_controller next_id max_retired background seconds)"
| performed: "ctl_reachable w c \<Longrightarrow> perform w op c = (ok, c') \<Longrightarrow> (is_answer op \<Longrightarrow> ok) \<Longrightarrow> ctl_reachable w c'"
| cut_short: "ctl_reachable w c \<Longrightarrow> ctl_reachable w (c\<lparr>c_queue := q\<rparr>)"

lemma new_controller_books: "cbooks (\<lambda>_. 0) (new_controller next_id max_retired background seconds)"
  by (simp add: cbooks_def jobs_known_def retired_known_def bmps_running_def counted_def in_flight_def new_controller_def)

lemma map_prod_okD: "map_prod is_ok id p = (ok, c') \<Longrightarrow> \<exists>out. p = (out, c') \<and> ok = is_ok out"
  by (cases p) simp

lemma perform_books:
  assumes b: "cbooks (\<lambda>_. 0) c" and p: "perform w op c = (ok, c')" and ok: "is_answer op \<Longrightarrow> ok"
  shows "cbooks (\<lambda>_. 0) c'"
proof -
  have bo: "books_of (\<lambda>_. 0) (fixed_of c) c" using b by (simp add: books_of_def)
  have un: "cbooks (\<lambda>_. 0) s" if "books_of (\<lambda>_. 0) fx s" for fx s using that by (simp add: books_of_def)
  show ?thesis
  proof (cases op)
    case (Create_job host owner ka name tags args kwargs)
    with p obtain out where "ctl_create_job w host owner ka name tags args kwargs c = (out, c')" by (auto dest: map_prod_okD)
    with ctl_create_job_books[OF b] show ?thesis by blast
  next
    case (Keep_alive host i)
    with p job_keepalive_books[OF b] show ?thesis by auto
  next
    case (Power_on_job host i)
    with p obtain out where "power_job_boards w True (Some False) host i c = (out, c')"
      by (auto simp: power_on_job_boards_def dest: map_prod_okD)
    with power_job_books[OF b] show ?thesis by blast
  next
    case (Power_off_job host i)
    with p obtain out where "power_job_boards w False None host i c = (out, c')"
      by (auto simp: power_off_job_boards_def dest: map_prod_okD)
    with power_job_books[OF b] show ?thesis by blast
  next
    case (Destroy_job i reason)
    with p obtain out where "ctl_destroy_job w i reason c = (out, c')" by (auto dest: map_prod_okD)
    with ctl_destroy_job_books[OF bo] un show ?thesis by blast
  next
    case Time_out
    with p obtain out where "destroy_timed_out_jobs w c = (out, c')" by (auto dest: map_prod_okD)
    with destroy_timed_out_books[OF bo] un show ?thesis by blast
  next
    case Check_free
    with p obtain out where "ctl_check_free w c = (out, c')" by (auto dest: map_prod_okD)
    with check_free_books[OF bo] un show ?thesis by blast
  next
    case (Set_machines new)
    with p obtain out where "set_machines w new c = (out, c')" by (auto dest: map_prod_okD)
    with set_machines_books[OF b] show ?thesis by blast
  next
    case (Set_max_retired n)
    with p obtain out where "set_max_retired_jobs n c = (out, c')" by (auto dest: map_prod_okD)
    with set_max_retired_books[OF b] show ?thesis by blast
  next
    case Restart
    with p b unpickled_books[OF b, of w] show ?thesis by (auto split: if_splits)
  next
    case (Bmp_step k)
    with p bmp_idle_books[OF b, of k] b show ?thesis by (auto split: if_splits)
  next
    case (Bmp_answer k success reason)
    show ?thesis
    proof (cases "k < length (c_bmp_store c) \<and> (\<exists>q. bc_pc (c_bmp_store c ! k) = Busy q)")
      case True
      then obtain q where k: "k < length (c_bmp_store c)" and q: "bc_pc (c_bmp_store c ! k) = Busy q" by blast
      with p Bmp_answer obtain out where "bmp_on_request_complete w (on_done q) success reason (take_answer k c) = (out, c')" "ok = is_ok out"
        by (auto simp: bmp_answer_def dest: map_prod_okD)
      moreover have "on_done q < length (c_job_store (take_answer k c))"
        using take_answer_books[OF b k q] by (simp add: take_answer_def)
      ultimately show ?thesis
        using complete_books[OF conjunct1[OF take_answer_books[OF b k q]]] ok Bmp_answer by simp
    next
      case False
      with p Bmp_answer have "c' = c" by (auto simp: bmp_answer_def split: if_splits thread_pc.splits)
      with b show ?thesis by simp
    qed
  qed (use p b in \<open>auto simp: set_seconds_before_free_def read_changed_jobs_def read_changed_machines_def\<close>)
qed

lemma reachable_books: "ctl_reachable w c \<Longrightarrow> cbooks (\<lambda>_. 0) c"
proof (induction rule: ctl_reachable.induct)
  case (cut_short c q)
  then show ?case by simp
qed (blast intro: new_controller_books perform_books)+

end
