(* ===== verification/QueueProtocol.thy ===== *)
theory QueueProtocol
  imports JobQueueCorrect
begin

text \<open>
  What the job queue tells its client: the life of a job as a protocol on the reports. A job is
  pending, then running until the queue forgets it; the reports say when it changes from one to
  the other. Every operation follows the protocol, whatever state it is called in and whether or
  not it raises.
\<close>

section \<open>The protocol\<close>

text \<open>The phase of a job: None if the queue does not know it, and otherwise whether it is pending.\<close>

type_synonym phases = "int \<Rightarrow> bool option"

inductive follows :: "bool \<Rightarrow> phases \<Rightarrow> jq_event list \<Rightarrow> phases \<Rightarrow> bool" for g S where
  silent: "follows g S [] S"
| started: "follows g S evs T \<Longrightarrow> T i = Some True \<Longrightarrow> follows g S (evs @ [On_allocate i n B p t]) (T(i := Some False))"
| cancelled: "follows g S evs T \<Longrightarrow> T i = Some True \<Longrightarrow> follows g S (evs @ [On_cancel i reason]) (T(i := None))"
| freed: "follows g S evs T \<Longrightarrow> T i = Some False \<Longrightarrow> follows g S (evs @ [On_free i reason]) T"
| gone: "g \<Longrightarrow> follows g S evs T \<Longrightarrow> T i = Some False \<Longrightarrow> On_free i reason \<in> set evs \<Longrightarrow> follows g S evs (T(i := None))"

lemma follows_trans:
  assumes "follows g S e T" "follows g T e' U"
  shows "follows g S (e @ e') U"
  using assms(2,1)
proof induction
  case (gone evs U i reason)
  then show ?case by (intro follows.gone[where reason = reason]) auto
qed (simp_all add: follows.intros append_assoc[symmetric] del: append_assoc)

definition status :: "job_queue \<Rightarrow> phases" where
  "status q i = map_option (\<lambda>r. j_pending (the_job q r)) (od_get (jq_jobs q) i)"

text \<open>What the protocol needs of a queue: the keys are the ids of the jobs, and only known jobs are pending.\<close>

definition tidy :: "job_queue \<Rightarrow> bool" where
  "tidy q \<longleftrightarrow>
     distinct (od_keys (jq_jobs q)) \<and>
     (\<forall>i r. (i, r) \<in> set (jq_jobs q) \<longrightarrow> r < length (jq_job_store q) \<and> j_id (the_job q r) = i) \<and>
     (\<forall>r. j_pending (the_job q r) \<longrightarrow> r \<in> job_refs q)"

lemma od_get_ref: "od_get d i = Some r \<Longrightarrow> r \<in> snd ` set d"
  by (force dest: map_of_SomeD)

lemma od_del_member: "(k, r) \<in> set (od_del i d) \<Longrightarrow> (k, r) \<in> set d"
  by (simp add: od_del_def)

lemma tidy_get: "tidy q \<Longrightarrow> od_get (jq_jobs q) i = Some r \<Longrightarrow> r < length (jq_job_store q) \<and> j_id (the_job q r) = i"
  unfolding tidy_def by (blast dest: map_of_SomeD)

lemma tidy_pending:
  assumes "tidy q" "j_pending (the_job q r)"
  shows "od_get (jq_jobs q) (j_id (the_job q r)) = Some r"
proof -
  obtain i where i: "(i, r) \<in> set (jq_jobs q)" using assms unfolding tidy_def by force
  with assms(1) have "j_id (the_job q r) = i" unfolding tidy_def by blast
  with i assms(1) show ?thesis unfolding tidy_def by (simp add: map_of_is_SomeI)
qed

lemma jobs_ok_tidy: "jobs_ok q \<Longrightarrow> tidy q"
  unfolding jobs_ok_def tidy_def by blast

definition traced :: "bool \<Rightarrow> job_queue \<Rightarrow> job_queue \<Rightarrow> bool" where
  "traced g q q' \<longleftrightarrow> jq_postpone q' = jq_postpone q \<and>
     (tidy q \<longrightarrow> tidy q' \<and> (\<exists>evs. jq_events q' = jq_events q @ evs \<and> follows g (status q) evs (status q')))"

lemma traced_trans [trans]:
  assumes "traced g q q1" "traced g q1 q2" shows "traced g q q2"
proof -
  have "\<exists>evs. jq_events q2 = jq_events q @ evs \<and> follows g (status q) evs (status q2)" if "tidy q"
  proof -
    have "\<exists>e. jq_events q1 = jq_events q @ e \<and> follows g (status q) e (status q1)" and t: "tidy q1"
      using assms(1) that unfolding traced_def by simp_all
    then obtain e where e: "jq_events q1 = jq_events q @ e" "follows g (status q) e (status q1)" by (elim exE conjE)
    have "\<exists>e. jq_events q2 = jq_events q1 @ e \<and> follows g (status q1) e (status q2)"
      using assms(2) t unfolding traced_def by simp
    then obtain e' where "jq_events q2 = jq_events q1 @ e'" "follows g (status q1) e' (status q2)" by (elim exE conjE)
    with e show ?thesis using follows_trans by (intro exI[of _ "e @ e'"]) simp
  qed
  then show ?thesis using assms unfolding traced_def by simp
qed

text \<open>Steps the protocol does not see.\<close>

lemma traced_same:
  assumes "jq_jobs q' = jq_jobs q" "jq_job_store q' = jq_job_store q" "jq_events q' = jq_events q"
    "jq_postpone q' = jq_postpone q"
  shows "traced g q q'"
proof -
  have J: "the_job q' = the_job q" using assms(2) by (simp add: the_job_def fun_eq_iff)
  have "tidy q' = tidy q" by (simp only: tidy_def assms J)
  moreover have "status q' = status q" by (simp add: status_def assms J fun_eq_iff)
  ultimately show ?thesis using assms(3,4) follows.silent unfolding traced_def by simp
qed

lemma traced_refl [simp]: "traced g q q"
  by (rule traced_same) simp_all

lemma traced_simps [simp]:
  "traced g q (set_machine m x q')  = traced g q q'" "traced g q (call_done q') = traced g q q'"
  "traced g q (pop_queue m q') = traced g q q'"
  "traced g q (q'\<lparr>jq_machines := ms\<rparr>) = traced g q q'"
  "traced g q (q'\<lparr>jq_machine_store := xs\<rparr>) = traced g q q'"
proof -
  have s: "traced g q a = traced g q b" if "jq_jobs a = jq_jobs b" "jq_job_store a = jq_job_store b" "jq_events a = jq_events b"
      "jq_postpone a = jq_postpone b" for a b
    using that traced_same[of a b] traced_same[of b a] traced_trans[of g q] by metis
  show "traced g q (set_machine m x q')  = traced g q q'" "traced g q (call_done q') = traced g q q'"
    "traced g q (pop_queue m q') = traced g q q'"
    "traced g q (q'\<lparr>jq_machines := ms\<rparr>) = traced g q q'"
    "traced g q (q'\<lparr>jq_machine_store := xs\<rparr>) = traced g q q'" by (rule s; simp)+
qed

lemma traced_and_then:
  assumes "and_then f h q = (out, q')" "\<And>out q1. f q = (out, q1) \<Longrightarrow> traced g q q1"
    "\<And>x q1 out q2. h x q1 = (out, q2) \<Longrightarrow> traced g q1 q2"
  shows "traced g q q'"
  using assms(1) unfolding and_then_def
  by (auto split: prod.splits sum.splits dest: assms(2,3) intro: traced_trans)

lemma traced_for_each:
  assumes "\<And>x q out q'. f x q = (out, q') \<Longrightarrow> traced g q q'"
  shows "for_each xs f q = (out, q') \<Longrightarrow> traced g q q'"
proof (induction xs arbitrary: q out q')
  case (Cons x xs)
  show ?case
    by (rule traced_and_then[OF Cons.prems[unfolded for_each.simps]]) (erule assms | erule Cons.IH)+
qed simp

section \<open>Starting, cancelling, freeing\<close>

lemma traced_start:
  assumes p: "j_pending (the_job q r)"
  shows "traced g q (callback (On_allocate (j_id (the_job q r)) n B pp tor)
    (set_job r ((the_job q r)\<lparr> j_pending := False, j_machine := Some m, j_allocation_id := Some a \<rparr>) q))" (is "traced g q ?q")
proof -
  have "tidy ?q \<and> follows g (status q) ([] @ [On_allocate (j_id (the_job q r)) n B pp tor]) (status ?q)" if t: "tidy q"
  proof -
    let ?i = "j_id (the_job q r)"
    have i: "od_get (jq_jobs q) ?i = Some r" and rl: "r < length (jq_job_store q)"
      using tidy_pending[OF t p] tidy_get[OF t] by blast+
    have J: "the_job ?q s = (if s = r then (the_job q r)\<lparr> j_pending := False, j_machine := Some m, j_allocation_id := Some a \<rparr>
        else the_job q s)" for s using rl by simp
    have other: "k = ?i" if "od_get (jq_jobs q) k = Some r" for k
      using tidy_get[OF t that] by blast
    have "od_get (jq_jobs ?q) = od_get (jq_jobs q)" by simp
    then have "status ?q k = ((status q)(?i := Some False)) k" for k
      using i other[of k] by (cases "od_get (jq_jobs q) k") (auto simp: status_def J simp del: the_job_simps)
    then have st: "status ?q = (status q)(?i := Some False)" ..
    have pe: "status q ?i = Some True" using i p by (simp add: status_def)
    have "j_id (the_job ?q s) = j_id (the_job q s)" for s by (simp add: J)
    moreover have "j_pending (the_job ?q s) \<Longrightarrow> j_pending (the_job q s)" for s by (simp add: J split: if_splits)
    moreover have "jq_jobs ?q = jq_jobs q" "length (jq_job_store ?q) = length (jq_job_store q)" by simp_all
    ultimately have "tidy ?q" using t unfolding tidy_def by metis
    with st follows.started[OF follows.silent, of "status q" ?i g n B pp tor] pe show ?thesis by simp
  qed
  then show ?thesis unfolding traced_def by fastforce
qed

lemma try_job_traced:
  assumes "try_job w r m q = (out, q')" "j_pending (the_job q r)"
  shows "traced g q q'"
proof -
  have q1: "traced g q (call_done (set_machine m x q))" "the_job (call_done (set_machine m x q)) r = the_job q r" for x by simp_all
  have go: "traced g q (callback (On_allocate (j_id (the_job q r)) n B pp tor)
      (set_job r ((the_job q r)\<lparr> j_pending := False, j_machine := Some m, j_allocation_id := Some a \<rparr>)
        (call_done (set_machine m x q))))" for n B pp tor a x
    using traced_trans[OF q1(1) traced_start[of "call_done (set_machine m x q)" r]] assms(2) by (simp only: q1(2))
  show ?thesis using assms(1) go q1(1)
    by (auto simp: try_job_def Let_def split: prod.splits sum.splits option.splits)
qed

lemma serve_queue_traced: "serve_queue w m rs q = (out, q') \<Longrightarrow> traced g q q'"
proof (induction w m rs q arbitrary: out q' rule: serve_queue.induct)
  case (2 w m r rs q)
  show ?case
  proof (cases "j_pending (the_job q r)")
    case True
    obtain o1 q1 where t: "try_job w r m q = (o1, q1)" by (cases "try_job w r m q")
    with 2(2) True try_job_traced[OF t True] show ?thesis by (auto split: sum.splits bool.splits)
  next
    case False
    with 2 have "traced g (pop_queue m q) q'" by simp
    moreover have "traced g q (pop_queue m q)" by simp
    ultimately show ?thesis by (rule traced_trans[rotated])
  qed
qed auto

lemma serve_machines_traced: "serve_machines w ms c q = (out, q') \<Longrightarrow> traced g q q'"
proof (induction w ms c q rule: serve_machines.induct)
  case (2 w m ms c q)
  obtain o1 q1 where s: "serve_queue w m (m_queue (the_machine q m)) q = (o1, q1)"
    by (cases "serve_queue w m (m_queue (the_machine q m)) q")
  show ?case
  proof (cases o1)
    case (Inl e)
    with 2(2) s serve_queue_traced[OF s] show ?thesis by simp
  next
    case (Inr c1)
    with 2(1)[OF s[symmetric] Inr] 2(2) s have "traced g q1 q'" by simp
    with serve_queue_traced[OF s] show ?thesis by (rule traced_trans)
  qed
qed auto

lemma process_rounds_traced: "process_rounds w q = (out, q') \<Longrightarrow> traced g q q'"
proof (induction w q rule: process_rounds.induct)
  case (1 w q)
  obtain o1 q1 where s: "serve_machines w (map snd (jq_machines q)) False q = (o1, q1)"
    by (cases "serve_machines w (map snd (jq_machines q)) False q")
  note t = serve_machines_traced[OF s] and eq = 1(2)[unfolded process_rounds.simps[of w q] s prod.case]
  show ?case
  proof (cases o1)
    case (Inl e)
    with eq t show ?thesis by simp
  next
    case (Inr c1)
    show ?thesis
    proof (cases c1)
      case True
      with Inr eq have "process_rounds w q1 = (out, q')" by simp
      with 1(1)[OF s[symmetric] Inr] True have "traced g q1 q'" by simp
      with t show ?thesis by (rule traced_trans)
    next
      case False
      with Inr eq t show ?thesis by simp
    qed
  qed
qed

lemma process_queue_traced: "process_queue w q = (out, q') \<Longrightarrow> traced g q q'"
  by (auto simp: process_queue_def split: if_splits dest: process_rounds_traced)

lemma traced_cancel:
  assumes i: "od_get (jq_jobs q) i = Some r" and p: "j_pending (the_job q r)"
  shows "traced g q ((callback (On_cancel (j_id (the_job q r)) reason) (set_job r ((the_job q r)\<lparr>j_pending := False\<rparr>) q))
    \<lparr>jq_jobs := od_del i (jq_jobs q)\<rparr>)" (is "traced g q ?q")
proof -
  have "tidy ?q \<and> follows g (status q) ([] @ [On_cancel (j_id (the_job q r)) reason]) (status ?q)" if t: "tidy q"
  proof -
    have rl: "r < length (jq_job_store q)" "j_id (the_job q r) = i" using tidy_get[OF t i] by blast+
    have J: "the_job ?q s = (if s = r then (the_job q r)\<lparr>j_pending := False\<rparr> else the_job q s)" for s using rl by simp
    have other: "k = i" if "od_get (jq_jobs q) k = Some r" for k using tidy_get[OF t that] rl(2) by blast
    have "od_get (jq_jobs ?q) = (od_get (jq_jobs q))(i := None)" by simp
    then have "status ?q k = ((status q)(i := None)) k" for k
      using other[of k] by (cases "od_get (jq_jobs q) k") (auto simp: status_def J simp del: the_job_simps)
    then have "status ?q = (status q)(i := None)" ..
    moreover have "status q i = Some True" using i p by (simp add: status_def)
    moreover have "tidy ?q"
    proof -
      have "j_id (the_job ?q s) = j_id (the_job q s)" for s by (simp add: J)
      moreover have "s \<in> job_refs ?q" if "j_pending (the_job ?q s)" for s
      proof -
        have "s \<noteq> r" "j_pending (the_job q s)" using that rl by (auto simp: J split: if_splits)
        then have "od_get (jq_jobs q) (j_id (the_job q s)) = Some s" "j_id (the_job q s) \<noteq> i"
          using tidy_pending[OF t] i by fastforce+
        then have "od_get (jq_jobs ?q) (j_id (the_job q s)) = Some s" by simp
        then show ?thesis by (rule od_get_ref)
      qed
      moreover have "jq_jobs ?q = od_del i (jq_jobs q)" "length (jq_job_store ?q) = length (jq_job_store q)" by simp_all
      moreover have "distinct (od_keys (od_del i (jq_jobs q)))" using t by (simp add: tidy_def)
      ultimately show ?thesis using t od_del_member unfolding tidy_def by metis
    qed
    ultimately show ?thesis using follows.cancelled[OF follows.silent, of "status q" i g reason] rl(2) by simp
  qed
  then show ?thesis unfolding traced_def by fastforce
qed

lemma traced_free:
  assumes i: "od_get (jq_jobs q) i = Some r" and p: "\<not> j_pending (the_job q r)"
  shows "traced g q (callback (On_free (j_id (the_job q r)) reason) q)" (is "traced g q ?q")
proof -
  have "tidy ?q \<and> follows g (status q) ([] @ [On_free (j_id (the_job q r)) reason]) (status ?q)" if t: "tidy q"
  proof -
    have "j_id (the_job q r) = i" using tidy_get[OF t i] by blast
    moreover have "status q i = Some False" using i p by (simp add: status_def)
    moreover have "status ?q = status q" by (simp add: status_def fun_eq_iff)
    ultimately show ?thesis using t follows.freed[OF follows.silent, of "status q" i g reason] by (simp add: tidy_def)
  qed
  then show ?thesis unfolding traced_def by fastforce
qed

lemma destroy_job_traced: "destroy_job w i reason q = (out, q') \<Longrightarrow> traced g q q'"
  using traced_cancel[of q i _ g reason] traced_free[of q i _ g reason]
  by (auto simp: destroy_job_def Let_def split: option.splits if_splits
      intro: traced_trans[OF _ process_queue_traced])


section \<open>The other operations\<close>

lemma queue_on_traced: "queue_on r j ms found q = (out, q') \<Longrightarrow> traced g q q'"
proof (induction r j ms found q arbitrary: out q' rule: queue_on.induct)
  case (2 r j m ms found q)
  let ?q = "set_machine m ((the_machine q m)\<lparr>m_queue := m_queue (the_machine q m) @ [r]\<rparr>) q"
  show ?case
  proof (cases "alloc_possible (j_args j) (j_kwargs j) (m_allocator (the_machine q m))")
    case (Inl e)
    with 2(3) show ?thesis by (simp add: Let_def)
  next
    case (Inr b)
    show ?thesis
    proof (cases b)
      case True
      have "traced g ?q q'" using 2(1)[OF refl Inr] 2(3) Inr True by (simp add: Let_def)
      moreover have "traced g q ?q" by simp
      ultimately show ?thesis by (rule traced_trans[rotated])
    next
      case False
      with 2(2)[OF refl Inr] 2(3) Inr False show ?thesis by (simp add: Let_def)
    qed
  qed
qed simp

lemma enqueue_job_traced:
  assumes "enqueue_job w r q = (out, q')"
  shows "traced g q q'"
proof (cases "jq_postpone q = 0")
  case True
  let ?j = "the_job q r"
  have "and_then (queue_on r ?j (candidate_machines q ?j) False)
      (\<lambda>found. and_then (if found then return () else destroy_job w (j_id ?j) (Some ''No suitable machines available.''))
        (\<lambda>_. process_queue w)) q = (out, q')"
    using assms True by (simp add: enqueue_job_def Let_def)
  then show ?thesis
  proof (rule traced_and_then)
    show "traced g a b" if "queue_on r ?j (candidate_machines q ?j) False a = (out', b)" for a b out'
      using that by (rule queue_on_traced)
    fix found a b out'
    assume "and_then (if found then return () else destroy_job w (j_id ?j) (Some ''No suitable machines available.''))
        (\<lambda>_. process_queue w) a = (out', b)"
    then show "traced g a b"
      by (rule traced_and_then) (auto simp: return_def split: if_splits intro: destroy_job_traced process_queue_traced)
  qed
qed (use assms in \<open>simp add: enqueue_job_def\<close>)

lemma clear_queues_traced: "traced g q (clear_queues q)"
proof -
  have f: "traced g q (fold (\<lambda>m q. set_machine m ((the_machine q m)\<lparr>m_queue := []\<rparr>) q) ms s)" if "traced g q s" for ms s
    using that by (induction ms arbitrary: s) simp_all
  show ?thesis unfolding clear_queues_def by (rule f) simp
qed

lemma requeue_traced: "requeue w n rs q = (out, q') \<Longrightarrow> traced g q q'"
proof (induction rs arbitrary: q out q')
  case (Cons r rs)
  show ?case
  proof (cases "length (jq_jobs q) = n \<and> j_pending (the_job q r)")
    case True
    then have "and_then (enqueue_job w r) (\<lambda>_. requeue w n rs) q = (out, q')" using Cons.prems by simp
    then show ?thesis by (rule traced_and_then) (erule enqueue_job_traced, erule Cons.IH)
  next
    case False
    with Cons show ?thesis by (auto split: if_splits)
  qed
qed simp

lemma regenerate_traced: "regenerate_queues w q = (out, q') \<Longrightarrow> traced g q q'"
  using traced_trans[OF clear_queues_traced requeue_traced] by (auto simp: regenerate_queues_def split: if_splits)

lemma check_machines_traced: "check_machines w ms c q = (out, q') \<Longrightarrow> traced g q q'"
proof (induction w ms c q rule: check_machines.induct)
  case (2 w m ms c q)
  let ?x = "the_machine q m"
  obtain o1 a where a: "check_free (w_clock w (jq_calls q)) (m_allocator ?x) = (o1, a)"
    by (cases "check_free (w_clock w (jq_calls q)) (m_allocator ?x)")
  let ?q = "call_done (set_machine m (?x\<lparr>m_allocator := a\<rparr>) q)"
  have t: "traced g q ?q" by simp
  show ?case
  proof (cases o1)
    case (Inl e)
    with 2(2) a t show ?thesis by (simp add: Let_def)
  next
    case (Inr c1)
    with 2(2) a have "check_machines w ms (c \<or> c1) ?q = (out, q')" by (simp add: Let_def)
    with 2(1)[OF refl a[symmetric] refl refl Inr] have "traced g ?q q'" by simp
    with t show ?thesis by (rule traced_trans)
  qed
qed simp

lemma jq_check_free_traced:
  assumes "jq_check_free w q = (out, q')" shows "traced g q q'"
proof (cases "jq_postpone q = 0")
  case True
  then have "and_then (check_machines w (map snd (jq_machines q)) False)
      (\<lambda>changed. if changed then process_queue w else return ()) q = (out, q')"
    using assms by (simp add: jq_check_free_def)
  then show ?thesis
    by (rule traced_and_then) (auto simp: return_def split: if_splits intro: check_machines_traced process_queue_traced)
qed (use assms in \<open>simp add: jq_check_free_def\<close>)

lemma add_machine_traced:
  assumes "add_machine w name width height tags db dl q = (out, q')" shows "traced g q q'"
proof (cases "name \<in> fst ` set (jq_machines q)")
  case False
  have "\<exists>x. regenerate_queues w (q\<lparr> jq_machine_store := jq_machine_store q @ [x],
      jq_machines := od_set name (length (jq_machine_store q)) (jq_machines q) \<rparr>) = (out, q')"
    using assms False unfolding add_machine_def Let_def by (simp only: if_False) (rule exI)
  then obtain x where "regenerate_queues w (q\<lparr> jq_machine_store := jq_machine_store q @ [x],
      jq_machines := od_set name (length (jq_machine_store q)) (jq_machines q) \<rparr>) = (out, q')" ..
  from regenerate_traced[OF this] show ?thesis by (rule traced_trans[rotated]) simp
qed (use assms in \<open>simp add: add_machine_def\<close>)

lemma modify_machine_traced:
  assumes "modify_machine w name tags db dl q = (out, q')" shows "traced g q q'"
proof (cases "od_get (jq_machines q) name")
  case (Some m)
  have "\<exists>x. regenerate_queues w (set_machine m x q) = (out, q')"
    using assms unfolding modify_machine_def Let_def Some option.case by (rule exI)
  then obtain x where "regenerate_queues w (set_machine m x q) = (out, q')" ..
  from regenerate_traced[OF this] show ?thesis by (rule traced_trans[rotated]) simp
qed (use assms in \<open>simp add: modify_machine_def\<close>)

lemma move_machine_traced: "move_machine_to_end name q = (out, q') \<Longrightarrow> traced g q q'"
  by (auto simp: move_machine_to_end_def split: sum.splits)

text \<open>Entering and leaving the context manager change nothing but the count of its uses.\<close>

lemma postpone_unseen:
  "tidy (q\<lparr>jq_postpone := p\<rparr>) = tidy q" "status (q\<lparr>jq_postpone := p\<rparr>) = status q"
  by (simp_all add: tidy_def status_def fun_eq_iff)

lemma enter_unseen: "tidy (enter q) = tidy q" "status (enter q) = status q" "jq_events (enter q) = jq_events q"
  by (simp_all add: enter_def postpone_unseen)

lemma leave_traced:
  assumes "leave w q = (out, q')" shows "traced g (q\<lparr>jq_postpone := jq_postpone q - 1\<rparr>) q'"
  using assms unfolding leave_def by (rule regenerate_traced)

lemma leave_tells:
  assumes "leave w q = (out, q')" "tidy q"
  shows "tidy q' \<and> (\<exists>evs. jq_events q' = jq_events q @ evs \<and> follows g (status q) evs (status q'))"
  using leave_traced[OF assms(1), of g] assms(2) by (simp add: traced_def postpone_unseen)

text \<open>A job reported freed may be forgotten, as it is when its machine is removed.\<close>

lemma follows_unknown: "follows g S evs T \<Longrightarrow> S i = None \<Longrightarrow> T i = None"
  by (induction rule: follows.induct) (auto split: if_splits)

lemma follows_not_pending: "follows g S evs T \<Longrightarrow> S i \<noteq> Some True \<Longrightarrow> T i \<noteq> Some True"
  by (induction rule: follows.induct) auto

lemma follows_forget:
  assumes "follows True S evs T" "On_free i reason \<in> set evs" "T i \<noteq> Some True"
  shows "follows True S evs (T(i := None))"
proof (cases "T i")
  case None
  with assms(1) show ?thesis by (simp add: fun_upd_idem)
next
  case (Some p)
  with assms(3) have "T i = Some False" by (cases p) auto
  with assms(1,2) show ?thesis by (blast intro: follows.gone[OF TrueI])
qed

text \<open>The state of a queue with one job less.\<close>

lemma tidy_forget:
  assumes t: "tidy q" and i: "status q i \<noteq> Some True" and eq: "jq_jobs q' = od_del i (jq_jobs q)" "jq_job_store q' = jq_job_store q"
  shows "tidy q'" "status q' = (status q)(i := None)"
proof -
  have J: "the_job q' = the_job q" using eq(2) by (simp add: the_job_def fun_eq_iff)
  show "status q' = (status q)(i := None)" by (simp add: status_def J eq fun_eq_iff)
  have "r \<in> job_refs q'" if p: "j_pending (the_job q r)" for r
  proof -
    have g: "od_get (jq_jobs q) (j_id (the_job q r)) = Some r" by (rule tidy_pending[OF t p])
    with p i have "j_id (the_job q r) \<noteq> i" by (auto simp: status_def)
    with g have "od_get (jq_jobs q') (j_id (the_job q r)) = Some r" by (simp add: eq)
    then show ?thesis by (rule od_get_ref)
  qed
  moreover have "distinct (od_keys (od_del i (jq_jobs q)))" using t by (simp add: tidy_def)
  ultimately show "tidy q'" using t od_del_member unfolding tidy_def J eq by metis
qed

text \<open>Giving boards back forgets the job and goes on with the queues.\<close>

lemma jq_free_split:
  assumes free: "jq_free w i q = (out, q')" and i: "od_get (jq_jobs q) i = Some r"
  shows "\<exists>q2. jq_jobs q2 = od_del i (jq_jobs q) \<and> jq_postpone q2 = jq_postpone q \<and> jq_job_store q2 = jq_job_store q \<and> jq_events q2 = jq_events q \<and> traced g q2 q'"
proof (cases "j_machine (the_job q r) = None \<or> j_allocation_id (the_job q r) = None")
  case False
  then obtain m aid where m: "j_machine (the_job q r) = Some m \<and> j_allocation_id (the_job q r) = Some aid" by auto
  let ?d = "q\<lparr>jq_jobs := od_del i (jq_jobs q)\<rparr>"
  let ?x = "the_machine q m"
  obtain o2 a where a: "allocator_free (w_clock w (jq_calls ?d) 0) aid (m_allocator ?x) = (o2, a)"
    by (cases "allocator_free (w_clock w (jq_calls ?d) 0) aid (m_allocator ?x)")
  let ?q2 = "call_done (set_machine m (?x\<lparr>m_allocator := a\<rparr>) ?d)"
  have "(case o2 of Inl e \<Rightarrow> (Inl e, ?q2) | Inr u \<Rightarrow> process_queue w ?q2) = (out, q')"
    using free i m a by (simp add: jq_free_def Let_def)
  then consider "q' = ?q2" | "process_queue w ?q2 = (out, q')" by (cases o2) auto
  then have "traced g ?q2 q'"
  proof cases
    case 1
    show ?thesis unfolding 1 by (rule traced_refl)
  next
    case 2
    then show ?thesis by (rule process_queue_traced)
  qed
  then show ?thesis by (intro exI[of _ ?q2] conjI) simp_all
next
  case True
  with free i have "q' = q\<lparr>jq_jobs := od_del i (jq_jobs q)\<rparr>"
    by (auto simp: jq_free_def Let_def split: option.splits)
  then show ?thesis by (intro exI[of _ q'] conjI) simp_all
qed

lemma jq_free_status:
  assumes t: "tidy q" and i: "status q i \<noteq> Some True" and free: "jq_free w i q = (out, q')"
  shows "\<exists>q2. jq_postpone q2 = jq_postpone q \<and> tidy q2 \<and> status q2 = (status q)(i := None) \<and> jq_events q2 = jq_events q \<and> traced g q2 q'"
proof (cases "od_get (jq_jobs q) i")
  case None
  then have "q' = q" "(status q)(i := None) = status q" using free by (simp_all add: jq_free_def status_def fun_eq_iff)
  with t show ?thesis by (intro exI[of _ q]) simp
next
  case (Some r)
  obtain q2 where q2: "jq_jobs q2 = od_del i (jq_jobs q)" "jq_job_store q2 = jq_job_store q" "jq_postpone q2 = jq_postpone q"
      "jq_events q2 = jq_events q" "traced g q2 q'"
    using jq_free_split[OF free Some] by blast
  with tidy_forget[OF t i q2(1,2)] show ?thesis by blast
qed

text \<open>A new job is pending before the queues are looked at.\<close>

lemma create_job_status:
  assumes t: "tidy q" and run: "create_job w (Some i) machine_name tags args kwargs q = (out, q')"
  shows "q' = q \<and> (\<exists>e. out = Inl e) \<or> status q i = None \<and>
    (\<exists>q2. jq_postpone q2 = jq_postpone q \<and> tidy q2 \<and> status q2 = (status q)(i := Some True) \<and> jq_events q2 = jq_events q \<and> traced g q2 q')"
proof (cases "create_refused (Some i) machine_name tags q")
  case (Some e)
  with run have "q' = q" "out = Inl e" by (simp_all add: create_job_alt)
  then show ?thesis by simp
next
  case None
  let ?j = "created_job i machine_name tags args kwargs" and ?r = "length (jq_job_store q)"
  let ?q = "with_job ?j q"
  have new: "i \<notin> fst ` set (jq_jobs q)" using None by (auto simp: create_refused_def split: if_splits)
  have j: "j_pending ?j" "j_id ?j = i" by (simp_all add: created_job_def Let_def)
  have q: "jq_jobs ?q = jq_jobs q @ [(i, ?r)]" "jq_job_store ?q = jq_job_store q @ [?j]" "jq_events ?q = jq_events q"
    "jq_postpone ?q = jq_postpone q" using od_set_fresh[OF new] j(2) by (simp_all add: with_job_def)
  have J: "the_job ?q s = (if s = ?r then ?j else the_job q s)" for s
    by (simp add: the_job_def q nth_append)
  have known: "r < ?r \<and> j_id (the_job q r) = k" if "(k, r) \<in> set (jq_jobs q)" for k r
    using t that unfolding tidy_def by blast
  have "status ?q k = ((status q)(i := Some True)) k" for k
  proof (cases "k = i")
    case True
    have "od_get (jq_jobs q) i = None" using new by (simp add: od_get_None_iff)
    with True show ?thesis by (simp add: status_def q J j map_add_def)
  next
    case False
    have "s \<noteq> ?r" if "od_get (jq_jobs q) k = Some s" for s using known[OF map_of_SomeD[OF that]] by simp
    with False show ?thesis by (cases "od_get (jq_jobs q) k") (simp_all add: status_def q J map_add_def)
  qed
  then have st: "status ?q = (status q)(i := Some True)" ..
  have "tidy ?q"
    unfolding tidy_def
  proof (intro conjI allI impI)
    show "distinct (od_keys (jq_jobs ?q))" using t new by (simp add: tidy_def q)
    show "r < length (jq_job_store ?q)" "j_id (the_job ?q r) = k" if "(k, r) \<in> set (jq_jobs ?q)" for k r
      using that known[of k r] j(2) by (auto simp: q J)
    show "r \<in> job_refs ?q" if "j_pending (the_job ?q r)" for r
      using that t unfolding tidy_def by (auto simp: q J split: if_splits)
  qed
  moreover have "traced g ?q q'" using run None by (simp add: create_job_alt enqueue_job_traced)
  moreover have "status q i = None" using new by (simp add: status_def od_get_None_iff)
  ultimately show ?thesis using st q(3,4) by blast
qed

lemma evict_free_traced:
  assumes run: "destroy_job w i reason q = (Inr (), q1)" and free: "jq_free w i q1 = (out, q')"
  shows "traced True q q'"
proof -
  have "traced True q q'" if t: "tidy q"
  proof -
    obtain r where r: "od_get (jq_jobs q) i = Some r" using run by (auto simp: destroy_job_def split: option.splits)
    have id: "j_id (the_job q r) = i" using tidy_get[OF t r] by blast
    show ?thesis
    proof (cases "od_get (jq_jobs q1) i")
      case None
      with free have "q' = q1" by (simp add: jq_free_def)
      with destroy_job_traced[OF run] t show ?thesis by (simp add: traced_def)
    next
      case (Some r1)
      let ?c = "(callback (On_cancel i reason) (set_job r ((the_job q r)\<lparr>j_pending := False\<rparr>) q))\<lparr>jq_jobs := od_del i (jq_jobs q)\<rparr>"
      have np: "\<not> j_pending (the_job q r)"
      proof
        assume p: "j_pending (the_job q r)"
        with run r id have "process_queue w ?c = (Inr (), q1)" by (simp add: destroy_job_def Let_def)
        from process_queue_traced[OF this] traced_cancel[OF r p, where reason = reason] t id
        have "\<exists>evs. follows True (status ?c) evs (status q1)" by (auto simp: traced_def)
        moreover have "status ?c i = None" by (simp add: status_def)
        ultimately have "status q1 i = None" using follows_unknown by blast
        with Some show False by (simp add: status_def)
      qed
      let ?f = "callback (On_free i reason) q"
      have p: "process_queue w ?f = (Inr (), q1)" using run r np id by (simp add: destroy_job_def Let_def)
      have tf: "tidy ?f" "status ?f = status q" using t by (simp_all add: tidy_def status_def fun_eq_iff)
      have "\<exists>evs. jq_events q1 = jq_events ?f @ evs \<and> follows True (status ?f) evs (status q1)" and t1: "tidy q1"
        and p1: "jq_postpone q1 = jq_postpone q"
        using process_queue_traced[OF p] tf(1) by (simp_all add: traced_def)
      then obtain evs where e: "jq_events q1 = jq_events ?f @ evs" "follows True (status ?f) evs (status q1)" by (elim exE conjE)
      have s: "status q i = Some False" using r np by (simp add: status_def)
      have "follows True (status q) ([] @ [On_free i reason]) (status q)"
        using follows.freed[of True "status q" "[]" "status q" i reason] follows.silent s by simp
      with e(2) have fo: "follows True (status q) ([On_free i reason] @ evs) (status q1)"
        unfolding tf(2) using follows_trans by fastforce
      have n1: "status q1 i \<noteq> Some True" using follows_not_pending[OF fo] s by simp
      obtain q2 where q2: "jq_jobs q2 = od_del i (jq_jobs q1)" "jq_job_store q2 = jq_job_store q1"
          "jq_postpone q2 = jq_postpone q1" "jq_events q2 = jq_events q1" "traced True q2 q'"
        using jq_free_split[OF free Some] by blast
      have t2: "tidy q2" "status q2 = (status q1)(i := None)" using tidy_forget[OF t1 n1 q2(1,2)] .
      have "follows True (status q) ([On_free i reason] @ evs) (status q2)"
        unfolding t2(2) by (rule follows_forget[OF fo _ n1, of reason]) simp
      moreover have "jq_events q2 = jq_events q @ ([On_free i reason] @ evs)" by (simp add: q2(4) e(1))
      ultimately have "traced True q q2" using t2(1) q2(3) p1 unfolding traced_def by (intro impI conjI exI) simp_all
      then show ?thesis using q2(5) by (rule traced_trans)
    qed
  qed
  moreover have "jq_postpone q' = jq_postpone q1"
  proof (cases "od_get (jq_jobs q1) i")
    case (Some r)
    from jq_free_split[OF free Some, of True] show ?thesis by (auto simp: traced_def)
  qed (use free in \<open>simp add: jq_free_def\<close>)
  moreover have "jq_postpone q1 = jq_postpone q" using destroy_job_traced[OF run, of True] by (simp add: traced_def)
  ultimately show ?thesis by (simp add: traced_def)
qed

lemma evict_traced:
  assumes "evict w m r q = (out, q')"
  shows "traced True q q'"
proof (cases "j_machine (the_job q r) = Some m")
  case True
  let ?i = "j_id (the_job q r)"
  obtain o1 q1 where d: "destroy_job w ?i (Some ''Machine removed.'') q = (o1, q1)"
    by (cases "destroy_job w ?i (Some ''Machine removed.'') q")
  show ?thesis
  proof (cases o1)
    case (Inl e)
    with assms True d destroy_job_traced[OF d] show ?thesis by (simp add: evict_def and_then_def)
  next
    case (Inr u)
    with assms True d have "jq_free w ?i q1 = (out, q')" by (simp add: evict_def and_then_def)
    with d Inr show ?thesis by (simp add: evict_free_traced)
  qed
qed (use assms in \<open>simp add: evict_def\<close>)

lemma remove_machine_traced:
  assumes "remove_machine w name q = (out, q')"
  shows "traced True q q'"
proof (cases "od_get (jq_machines q) name")
  case None
  with assms show ?thesis by (simp add: remove_machine_def)
next
  case (Some m)
  let ?body = "\<lambda>q. and_then (for_each (map snd (jq_jobs q)) (evict w m))
     (\<lambda>_ q. (Inr (), q\<lparr>jq_machines := od_del name (jq_machines q)\<rparr>)) q"
  obtain o1 q1 where b: "?body (enter q) = (o1, q1)" by (cases "?body (enter q)")
  obtain o2 q2 where l: "leave w q1 = (o2, q2)" by (cases "leave w q1")
  have q2: "q' = q2" using assms Some b l by (auto simp: remove_machine_def with_postponed_def split: sum.splits)
  have t: "traced True (enter q) q1"
    by (rule traced_and_then[OF b]) (erule traced_for_each[rotated], erule evict_traced, simp)
  show ?thesis
    unfolding traced_def q2
  proof (intro conjI impI)
    show "jq_postpone q2 = jq_postpone q"
      using t leave_traced[OF l, of True] by (simp add: traced_def enter_def)
    assume q: "tidy q"
    have t1: "tidy q1" and "\<exists>evs. jq_events q1 = jq_events q @ evs \<and> follows True (status q) evs (status q1)"
      using t q by (simp_all add: traced_def enter_unseen)
    then obtain e where e: "jq_events q1 = jq_events q @ e" "follows True (status q) e (status q1)" by (elim exE conjE)
    note tl = leave_tells[OF l t1, of True]
    then show "tidy q2" by blast
    obtain e' where "jq_events q2 = jq_events q1 @ e'" "follows True (status q1) e' (status q2)"
      using conjunct2[OF tl] by (elim exE conjE)
    with e follows_trans[OF e(2)] show "\<exists>evs. jq_events q2 = jq_events q @ evs \<and> follows True (status q) evs (status q2)"
      by (intro exI[of _ "e @ e'"]) simp
  qed
qed

section \<open>The contract\<close>

lemma history_tidy: "jq_history w b q \<Longrightarrow> fair_world w \<Longrightarrow> tidy q"
  using history_state_ok jobs_ok_tidy by (auto simp: state_ok_def queue_ok_def)

definition tells :: "bool \<Rightarrow> job_queue \<Rightarrow> job_queue \<Rightarrow> bool" where
  "tells g q q' \<longleftrightarrow> (\<exists>evs. jq_events q' = jq_events q @ evs \<and> follows g (status q) evs (status q'))"

lemma traced_tells: "tidy q \<Longrightarrow> traced g q q' \<Longrightarrow> tells g q q'"
  by (simp add: traced_def tells_def)

text \<open>The same when a job enters the queue, or leaves it without a report: the phases then start elsewhere.\<close>

definition tells_from :: "bool \<Rightarrow> phases \<Rightarrow> job_queue \<Rightarrow> job_queue \<Rightarrow> bool" where
  "tells_from g S q q' \<longleftrightarrow> (\<exists>evs. jq_events q' = jq_events q @ evs \<and> follows g S evs (status q'))"

lemma traced_tells_from:
  assumes "tidy q2" "jq_events q2 = jq_events q" "traced g q2 q'"
  shows "tells_from g (status q2) q q'"
  using traced_tells[OF assms(1,3)] assms(2) by (simp add: tells_from_def tells_def)

text \<open>
  C5. The reports are the truth about every job. Whatever state the queue is in, and whether the
  operation returns or raises, the reports it makes are a run of the protocol from the old
  phases of all jobs to the new ones: a job is reported started or cancelled only while it
  is pending, reported freed only while it runs, and never becomes pending again. Only the
  removal of a machine forgets running jobs, and reports them freed before. A request that
  is not refused at once adds its job as pending and then follows the protocol, and giving
  back the boards of a job that ran forgets it without a report and then follows the protocol.
\<close>

theorem reports_follow_protocol:
  assumes "jq_history w b q" "fair_world w"
  shows "(snd (create_job w job_id machine_name jtags args kwargs q) = q \<or>
      (\<exists>k. job_id = Some k \<and> status q k = None \<and>
         tells_from False ((status q)(k := Some True)) q (snd (create_job w job_id machine_name jtags args kwargs q)))) \<and>
    tells False q (snd (destroy_job w i reason q)) \<and>
    (status q i \<noteq> Some True \<longrightarrow> tells_from False ((status q)(i := None)) q (snd (jq_free w i q))) \<and>
    tells False q (snd (process_queue w q)) \<and> tells False q (snd (jq_check_free w q)) \<and>
    tells False q (snd (add_machine w name width height tags boards links q)) \<and>
    tells False q (snd (modify_machine w name tags dead_boards dead_links q)) \<and>
    tells False q (snd (move_machine_to_end name q)) \<and>
    tells True q (snd (remove_machine w name q)) \<and>
    tells False q (enter q) \<and> tells False q (snd (leave w q))"
proof (intro conjI impI)
  note tidy = history_tidy[OF assms]
  note t = traced_tells[OF tidy]
  show "tells False q (snd (destroy_job w i reason q))" by (rule t[OF destroy_job_traced[OF prod.collapse[symmetric]]])
  show "tells False q (snd (process_queue w q))" by (rule t[OF process_queue_traced[OF prod.collapse[symmetric]]])
  show "tells False q (snd (modify_machine w name tags dead_boards dead_links q))"
    by (rule t[OF modify_machine_traced[OF prod.collapse[symmetric]]])
  show "tells False q (snd (move_machine_to_end name q))" by (rule t[OF move_machine_traced[OF prod.collapse[symmetric]]])
  show "tells False q (snd (add_machine w name width height tags boards links q))"
    by (rule t[OF add_machine_traced[OF prod.collapse[symmetric]]])
  show "tells False q (snd (jq_check_free w q))" by (rule t[OF jq_check_free_traced[OF prod.collapse[symmetric]]])
  show "tells True q (snd (remove_machine w name q))" by (rule t[OF remove_machine_traced[OF prod.collapse[symmetric]]])
  show "tells False q (snd (leave w q))"
    using leave_tells[OF prod.collapse[symmetric] tidy, of w False] by (simp add: tells_def)
  show "tells False q (enter q)" using follows.silent[of False "status q"] by (simp add: tells_def enter_unseen)
  show "tells_from False ((status q)(i := None)) q (snd (jq_free w i q))" if "status q i \<noteq> Some True"
    using jq_free_status[OF tidy that prod.collapse[symmetric]] traced_tells_from by metis
  show "snd (create_job w job_id machine_name jtags args kwargs q) = q \<or> (\<exists>k. job_id = Some k \<and> status q k = None \<and>
      tells_from False ((status q)(k := Some True)) q (snd (create_job w job_id machine_name jtags args kwargs q)))"
  proof (cases job_id)
    case (Some k)
    from create_job_status[OF tidy, of w k machine_name jtags args kwargs, OF prod.collapse[symmetric]] show ?thesis
      unfolding Some using traced_tells_from by (metis option.inject)
  qed (simp add: create_job_def)
qed
theorem reports_follow_protocol_witness:
  "tells False demo3 (snd (destroy_job calm 3 None demo3)) \<and> tells True demo3 (snd (remove_machine calm ''m'' demo3))"
  using reports_follow_protocol[OF demo_history(4) calm_fair, of None None None Any_board plain 3] by blast

end
