(* ===== verification/ControllerJobs.thy ===== *)
theory ControllerJobs
  imports ControllerHistory QueueProtocol
begin

text \<open>
  The controller and its job queue agree on the jobs: what clients see of a job is what the queue
  reported, the job runs in the queue, and so the boards clients were told are theirs alone.
\<close>

section \<open>What the controller knows about jobs\<close>

type_synonym job_details = "int \<Rightarrow> (board set option \<times> machine_config option) option"

definition details :: "controller \<Rightarrow> job_details" where
  "details c i =
     map_option (\<lambda>r. (cj_boards (the_cjob c r), cj_allocated_machine (the_cjob c r))) (od_get (c_jobs c) i)"

lemma details_cong: "c_jobs c' = c_jobs c \<Longrightarrow> c_job_store c' = c_job_store c \<Longrightarrow> details c' = details c"
  by (simp add: details_def the_cjob_def fun_eq_iff)

lemma details_simps [simp]:
  "details (job_changed i c) = details c" "details (machine_changed name c) = details c"
  "details (c\<lparr>c_ticks := n\<rparr>) = details c" "details (c\<lparr>c_wakes := n\<rparr>) = details c"
  "details (c\<lparr>c_queue := q\<rparr>) = details c" "details (c\<lparr>c_machines := ms\<rparr>) = details c"
  "details (c\<lparr>c_bmp_store := bs\<rparr>) = details c" "details (c\<lparr>c_bmp_controllers := bc\<rparr>) = details c"
  "details (c\<lparr>c_changed_machines := S\<rparr>) = details c" "details (c\<lparr>c_changed_jobs := J\<rparr>) = details c"
  "details (c\<lparr>c_retired_jobs := rj\<rparr>) = details c" "details (c\<lparr>c_max_retired_jobs := n'\<rparr>) = details c"
  by (simp_all add: details_def the_cjob_def job_changed_def machine_changed_def fun_eq_iff)

text \<open>Writing to a job without touching its boards.\<close>

lemma details_set_other:
  assumes "cj_boards j = cj_boards (the_cjob c r)" "cj_allocated_machine j = cj_allocated_machine (the_cjob c r)"
  shows "details (set_cjob r j c) = details c"
proof -
  have "cj_boards (the_cjob (set_cjob r j c) s) = cj_boards (the_cjob c s) \<and>
      cj_allocated_machine (the_cjob (set_cjob r j c) s) = cj_allocated_machine (the_cjob c s)" for s
  proof (cases "r < length (c_job_store c)")
    case True
    with assms show ?thesis by (simp add: the_cjob_set)
  next
    case False
    then have "set_cjob r j c = c" by (simp add: set_cjob_def list_update_beyond)
    then show ?thesis by simp
  qed
  then show ?thesis unfolding details_def by simp
qed

lemma known_unique:
  assumes "jobs_known c" "od_get (c_jobs c) i = Some r" "od_get (c_jobs c) k = Some r"
  shows "i = k"
  using assms unfolding jobs_known_def by metis

lemma details_set:
  assumes k: "jobs_known c" "od_get (c_jobs c) i = Some r"
  shows "details (set_cjob r j c) = (details c)(i \<mapsto> (cj_boards j, cj_allocated_machine j))"
proof
  fix k
  have r: "r < length (c_job_store c)" using known_ref[OF k] .
  show "details (set_cjob r j c) k = ((details c)(i \<mapsto> (cj_boards j, cj_allocated_machine j))) k"
  proof (cases "od_get (c_jobs c) k")
    case None
    with k(2) have "k \<noteq> i" by auto
    with None show ?thesis by (simp add: details_def)
  next
    case (Some s)
    show ?thesis
    proof (cases "k = i")
      case True
      with k(2) show ?thesis by (simp add: details_def the_cjob_set[OF r])
    next
      case False
      with known_unique[OF k, of k] Some have "s \<noteq> r" by blast
      with Some False show ?thesis by (simp add: details_def the_cjob_set[OF r])
    qed
  qed
qed

text \<open>Two things no report changes: the queue, and the machines.\<close>

definition fixed_parts :: "controller \<Rightarrow> job_queue \<times> machines \<times> int" where
  "fixed_parts c = (c_queue c, c_machines c, c_next_id c)"

lemma fixed_parts_simps [simp]:
  "fixed_parts (set_cjob r j c) = fixed_parts c" "fixed_parts (job_changed i c) = fixed_parts c"
  "fixed_parts (machine_changed name c) = fixed_parts c" "fixed_parts (c\<lparr>c_bmp_store := bs\<rparr>) = fixed_parts c"
  "fixed_parts (c\<lparr>c_jobs := js, c_retired_jobs := rj\<rparr>) = fixed_parts c" "fixed_parts (c\<lparr>c_ticks := n\<rparr>) = fixed_parts c"
  by (simp_all add: fixed_parts_def set_cjob_def job_changed_def machine_changed_def)

lemma changed_parts [simp]:
  "c_queue (job_changed i c) = c_queue c" "c_machines (job_changed i c) = c_machines c"
  "c_next_id (job_changed i c) = c_next_id c"
  by (simp_all add: job_changed_def)

text \<open>Powering leaves both as they are.\<close>

definition unseen :: "controller \<Rightarrow> controller \<Rightarrow> bool" where
  "unseen c c' \<longleftrightarrow> details c' = details c \<and> fixed_parts c' = fixed_parts c"

lemma unseen_refl [simp]: "unseen c c"
  by (simp add: unseen_def)

lemma unseen_trans: "unseen c c1 \<Longrightarrow> unseen c1 c2 \<Longrightarrow> unseen c c2"
  by (simp add: unseen_def)

lemma send_commands_unseen: "send_commands kc c = (out, c') \<Longrightarrow> unseen c c'"
  by (auto simp: send_commands_def unseen_def split: prod.splits sum.splits)

lemma send_all_unseen: "for_each d send_commands c = (out, c') \<Longrightarrow> unseen c c'"
  using for_each_invar[of d "unseen c" send_commands c out c'] unseen_trans send_commands_unseen unseen_refl by blast

lemma add_outstanding_unseen: "unseen c (add_outstanding r n c)"
  by (simp add: unseen_def add_outstanding_def Let_def details_set_other)

lemma set_power_unseen:
  assumes "set_job_power_and_links w r on e c = (out, c')"
  shows "unseen c c'"
proof -
  have go: "unseen c c'" if "and_then (for_each d send_commands)
      (\<lambda>_ c. (Inr (), job_changed i (set_cjob r ((the_cjob c r)\<lparr> cj_state := Power, cj_power := Some on \<rparr>) c)))
      (add_outstanding r n c) = (out, c')" for d i n
    using that
  proof (cases rule: and_then_cases)
    case (stop e)
    show ?thesis by (rule unseen_trans[OF add_outstanding_unseen send_all_unseen[OF stop(1)]])
  next
    case (go x c1)
    have "unseen c c1" by (rule unseen_trans[OF add_outstanding_unseen send_all_unseen[OF go(1)]])
    with go(2) show ?thesis by (auto simp: unseen_def details_set_other)
  qed
  with assms show ?thesis
    by (auto simp: set_job_power_and_links_def Let_def split: option.splits sum.splits)
qed

lemma update_keepalive_unseen: "unseen c (update_keepalive w host r c)"
proof -
  have "details (set_cjob r (j\<lparr>cj_keepalive_until := u\<rparr>) (c\<lparr>c_ticks := n\<rparr>)) = details c"
    if "cj_boards j = cj_boards (the_cjob c r)" "cj_allocated_machine j = cj_allocated_machine (the_cjob c r)" for j u n
    using details_set_other[of "j\<lparr>cj_keepalive_until := u\<rparr>" "c\<lparr>c_ticks := n\<rparr>" r] that by (simp add: the_cjob_def)
  then show ?thesis
    by (auto simp: unseen_def update_keepalive_def Let_def timestamp_def details_set_other split: option.splits)
qed

lemma job_keepalive_unseen: "unseen c (job_keepalive w host i c)"
  by (auto simp: job_keepalive_def update_keepalive_unseen split: option.splits)

lemma power_job_unseen:
  assumes "power_job_boards w on e host i c = (out, c')"
  shows "unseen c c'"
  using assms unseen_trans[OF job_keepalive_unseen set_power_unseen] job_keepalive_unseen[of c w host i]
  by (auto simp: power_job_boards_def Let_def split: option.splits if_splits)

section \<open>Reports\<close>

lemma on_allocate_details:
  assumes k: "jobs_known c" and run: "job_queue_on_allocate w i name B p tor c = (out, c')"
  shows "fixed_parts c' = fixed_parts c \<and> (details c' = details c \<or>
    details c i \<noteq> None \<and> (\<exists>m. od_get (c_machines c) name = Some m \<and> details c' = (details c)(i \<mapsto> (Some B, Some m))))"
proof (cases "\<exists>r m. od_get (c_jobs c) i = Some r \<and> od_get (c_machines c) name = Some m")
  case False
  with run have "c' = c" by (auto simp: job_queue_on_allocate_def split: option.splits)
  then show ?thesis by simp
next
  case True
  then obtain r m where r: "od_get (c_jobs c) i = Some r" and m: "od_get (c_machines c) name = Some m" by blast
  have rl: "r < length (c_job_store c)" by (rule known_ref[OF k r])
  let ?j = "(the_cjob c r)\<lparr> cj_allocated_machine := Some m, cj_boards := Some B, cj_periphery := Some p, cj_torus := Some tor \<rparr>"
  define c1 where "c1 = machine_changed name (job_changed (cj_id (the_cjob (set_cjob r ?j c) r)) (set_cjob r ?j c))"
  have d1: "details c1 = (details c)(i \<mapsto> (Some B, Some m))" "fixed_parts c1 = fixed_parts c"
    using details_set[OF k r, of ?j] by (simp_all add: c1_def)
  define wh where "wh = job_dimensions B tor"
  define c2 where "c2 = set_cjob r ((the_cjob c1 r)\<lparr> cj_width := Some (fst wh), cj_height := Some (snd wh) \<rparr>) c1"
  have d2: "unseen c1 c2" by (simp add: c2_def unseen_def details_set_other)
  have eq: "job_queue_on_allocate w i name B p tor c =
      (if B = {} then (Inl ValueError, c1)
       else case fold_res (add_connection m (Min B)) (cw_boards w B) [] of
              Inl e \<Rightarrow> (Inl e, c2)
            | Inr d \<Rightarrow> (let c = set_cjob r ((the_cjob c2 r)\<lparr>cj_connections := Some d\<rparr>) c2
                       in power_on_job_boards w (cj_lasthost (the_cjob c r)) i c))"
    unfolding job_queue_on_allocate_def r m option.case Let_def c1_def[symmetric] wh_def[symmetric] c2_def
    by (simp add: split_def)
  have "unseen c1 c'"
  proof (cases "B = {}")
    case True
    with run eq show ?thesis by simp
  next
    case False
    show ?thesis
    proof (cases "fold_res (add_connection m (Min B)) (cw_boards w B) []")
      case (Inl e)
      with run eq False d2 show ?thesis by simp
    next
      case (Inr d)
      define c3 where "c3 = set_cjob r ((the_cjob c2 r)\<lparr>cj_connections := Some d\<rparr>) c2"
      have "power_job_boards w True (Some False) (cj_lasthost (the_cjob c3 r)) i c3 = (out, c')"
        using run eq False Inr by (simp add: Let_def c3_def power_on_job_boards_def)
      then have "unseen c3 c'" by (rule power_job_unseen)
      moreover have "unseen c2 c3" by (simp add: c3_def unseen_def details_set_other)
      ultimately show ?thesis using d2 unseen_trans by blast
    qed
  qed
  moreover have "details c i \<noteq> None" using r by (simp add: details_def)
  ultimately show ?thesis using d1 m unfolding unseen_def by auto
qed

lemma teardown_details:
  assumes run: "teardown_job w i reason c = (out, c')"
  shows "fixed_parts c' = fixed_parts c \<and> (details c' = (details c)(i := None)) \<and> (is_ok out \<longrightarrow> details c i \<noteq> None)"
proof (cases "od_get (c_jobs c) i")
  case None
  then have "(details c)(i := None) = details c" by (simp add: details_def fun_eq_iff)
  moreover have "c' = c" "out = Inl KeyError" using run None by (simp_all add: teardown_job_def)
  ultimately show ?thesis by simp
next
  case (Some r)
  obtain ret where eq: "teardown_job w i reason c =
      (let c1 = job_changed (cj_id (the_cjob c r)) (c\<lparr> c_jobs := od_del i (c_jobs c), c_retired_jobs := ret \<rparr>)
       in if cj_boards (the_cjob c r) = None then (Inr (), c1) else set_job_power_and_links w r False None c1)"
    using Some by (simp add: teardown_job_def Let_def the_cjob_def)
  define c1 where "c1 = job_changed (cj_id (the_cjob c r)) (c\<lparr> c_jobs := od_del i (c_jobs c), c_retired_jobs := ret \<rparr>)"
  have "details c1 = (details c)(i := None)"
    by (simp add: c1_def details_def the_cjob_def fun_eq_iff)
  moreover have "fixed_parts c1 = fixed_parts c" by (simp add: c1_def)
  moreover have "unseen c1 c'"
    using run set_power_unseen[of w r False None c1 out c'] unfolding eq Let_def c1_def[symmetric] by (auto split: if_splits)
  moreover have "details c i \<noteq> None" using Some by (simp add: details_def)
  ultimately show ?thesis by (simp add: unseen_def)
qed


lemma on_free_details:
  assumes run: "job_queue_on_free w i reason c = (out, c')"
  shows "fixed_parts c' = fixed_parts c \<and>
    (details c' = (details c)(i := None) \<or> details c' = details c \<and> \<not> is_ok out)"
proof (cases "\<exists>r m. od_get (c_jobs c) i = Some r \<and> cj_allocated_machine (the_cjob c r) = Some m")
  case True
  then obtain r m where "od_get (c_jobs c) i = Some r" "cj_allocated_machine (the_cjob c r) = Some m" by blast
  with run have "teardown_job w i reason (machine_changed (mc_name m) c) = (out, c')" by (simp add: job_queue_on_free_def)
  from teardown_details[OF this] show ?thesis by simp
next
  case False
  with run show ?thesis by (auto simp: job_queue_on_free_def split: option.splits)
qed

text \<open>
  Agreement between the phases of the jobs in the queue, what the queue granted, and what the
  controller knows.
\<close>

definition agree :: "phases \<Rightarrow> (int \<rightharpoonup> string \<times> board set) \<Rightarrow> job_details \<Rightarrow> bool" where
  "agree S G D \<longleftrightarrow>
     (\<forall>i. S i = Some True \<longrightarrow> (\<exists>m. D i = Some (None, m))) \<and>
     (\<forall>i B am. D i = Some (Some B, am) \<longrightarrow>
        S i = Some False \<and> (\<exists>m. am = Some m \<and> G i = Some (mc_name m, B))) \<and>
     (\<forall>i m. D i \<noteq> Some (None, Some m))"

lemma agreeD1: "agree S G D \<Longrightarrow> S i = Some True \<Longrightarrow> \<exists>m. D i = Some (None, m)"
  unfolding agree_def by blast

lemma agreeD2: "agree S G D \<Longrightarrow> D i = Some (Some B, am) \<Longrightarrow> S i = Some False \<and> (\<exists>m. am = Some m \<and> G i = Some (mc_name m, B))"
  unfolding agree_def by blast

lemma agreeD3: "agree S G D \<Longrightarrow> D i \<noteq> Some (None, Some m)"
  unfolding agree_def by blast

lemma agreeI:
  assumes "\<And>i. S i = Some True \<Longrightarrow> \<exists>m. D i = Some (None, m)"
    "\<And>i B am. D i = Some (Some B, am) \<Longrightarrow> S i = Some False \<and> (\<exists>m. am = Some m \<and> G i = Some (mc_name m, B))"
    "\<And>i m. D i \<noteq> Some (None, Some m)"
  shows "agree S G D"
  unfolding agree_def using assms by blast

lemma agree_start:
  assumes a: "agree S G D" and i: "S i = Some True"
  shows "agree (S(i := Some False)) (G(i \<mapsto> (n, B))) D"
    and "mc_name m = n \<Longrightarrow> agree (S(i := Some False)) (G(i \<mapsto> (n, B))) (D(i \<mapsto> (Some B, Some m)))"
proof -
  obtain am where am: "D i = Some (None, am)" using agreeD1[OF a i] by blast
  show "agree (S(i := Some False)) (G(i \<mapsto> (n, B))) D"
  proof (rule agreeI)
    show "\<exists>m. D k = Some (None, m)" if "(S(i := Some False)) k = Some True" for k
      using agreeD1[OF a, of k] that by (simp split: if_splits)
    fix k C bm assume d: "D k = Some (Some C, bm)"
    with am have "k \<noteq> i" by auto
    with agreeD2[OF a d] show "(S(i := Some False)) k = Some False \<and>
        (\<exists>m. bm = Some m \<and> (G(i \<mapsto> (n, B))) k = Some (mc_name m, C))" by simp
  qed (rule agreeD3[OF a])
  show "agree (S(i := Some False)) (G(i \<mapsto> (n, B))) (D(i \<mapsto> (Some B, Some m)))" if m: "mc_name m = n"
  proof (rule agreeI)
    show "\<exists>am. (D(i \<mapsto> (Some B, Some m))) k = Some (None, am)" if "(S(i := Some False)) k = Some True" for k
      using agreeD1[OF a, of k] that by (simp split: if_splits)
    fix k C bm assume d: "(D(i \<mapsto> (Some B, Some m))) k = Some (Some C, bm)"
    show "(S(i := Some False)) k = Some False \<and>
        (\<exists>m. bm = Some m \<and> (G(i \<mapsto> (n, B))) k = Some (mc_name m, C))"
      using d m agreeD2[OF a, of k C bm] by (auto split: if_splits)
  qed (use agreeD3[OF a] in simp)
qed

lemma agree_less:
  assumes a: "agree S G D"
  shows "S i = Some True \<Longrightarrow> agree (S(i := None)) G D" "agree (S(i := None)) G (D(i := None))"
    "S i \<noteq> Some True \<Longrightarrow> agree S G (D(i := None))" "D i = None \<Longrightarrow> agree (S(i := None)) G D"
proof -
  have one: "\<exists>m. D k = Some (None, m)" if "(S(i := None)) k = Some True" for k
    using agreeD1[OF a, of k] that by (simp split: if_splits)
  have drop: "agree (S(i := None)) G D" if "\<And>B am. D i \<noteq> Some (Some B, am)"
  proof (rule agreeI)
    fix k B am assume d: "D k = Some (Some B, am)"
    with that have "k \<noteq> i" by auto
    with agreeD2[OF a d] show "(S(i := None)) k = Some False \<and> (\<exists>m. am = Some m \<and> G k = Some (mc_name m, B))" by simp
  qed (rule one, assumption, rule agreeD3[OF a])
  show "agree (S(i := None)) G D" if "S i = Some True"
    using agreeD1[OF a that] by (intro drop) auto
  show "agree (S(i := None)) G D" if "D i = None" using that by (intro drop) simp
  show "agree (S(i := None)) G (D(i := None))"
    by (rule agreeI) (use agreeD1[OF a] agreeD2[OF a] agreeD3[OF a] in \<open>simp split: if_splits\<close>)+
  show "agree S G (D(i := None))" if "S i \<noteq> Some True"
    by (rule agreeI) (use agreeD1[OF a] agreeD2[OF a] agreeD3[OF a] that in \<open>auto split: if_splits\<close>)
qed

definition named :: "machines \<Rightarrow> bool" where
  "named ms \<longleftrightarrow> (\<forall>n m. od_get ms n = Some m \<longrightarrow> mc_name m = n)"

lemma for_each_snoc: "for_each (xs @ [x]) f c = and_then (for_each xs f) (\<lambda>_. f x) c"
proof (induction xs arbitrary: c)
  case Nil
  show ?case by (cases "f x c"; cases "fst (f x c)") (auto simp: and_then_def)
next
  case (Cons y ys)
  show ?case
    by (cases "f y c"; cases "fst (f y c)") (auto simp: and_then_def Cons[unfolded and_then_def] split: prod.splits sum.splits)
qed

text \<open>
  Delivering the reports keeps the agreement, whether they all arrive or one of them raises. Only
  where jobs are forgotten must all of them arrive.
\<close>

definition delivered :: "bool \<Rightarrow> controller \<Rightarrow> phases \<Rightarrow> jq_event list \<Rightarrow> jq_event list \<Rightarrow> controller \<Rightarrow> bool" where
  "delivered ok c T E evs c' \<longleftrightarrow>
     agree T (grants (E @ evs)) (details c') \<and> fixed_parts c' = fixed_parts c \<and>
     (ok \<longrightarrow> (\<forall>i reason. On_free i reason \<in> set evs \<longrightarrow> details c' i = None))"

lemma grants_later [simp]:
  "grants (E @ evs @ [On_allocate i n B p tor]) = (grants (E @ evs))(i \<mapsto> (n, B))"
  "grants (E @ evs @ [On_free i reason]) = grants (E @ evs)" "grants (E @ evs @ [On_cancel i reason]) = grants (E @ evs)"
  unfolding append_assoc[symmetric] by (rule grants_simps)+

lemma deliver:
  assumes f: "follows g S evs T" and b: "books_of off fx c" and n: "named (c_machines c)"
    and a: "agree S (grants E) (details c)" and run: "for_each evs (on_event w) c = (out, c')" and ok: "g \<Longrightarrow> is_ok out"
  shows "delivered (is_ok out) c T E evs c'"
  using f run ok
proof (induction arbitrary: out c')
  case silent
  with a show ?case by (simp add: delivered_def)
next
  case (gone evs T i reason)
  have d: "delivered (is_ok out) c T E evs c'" "is_ok out" using gone by blast+
  then have "details c' i = None" using gone(4) unfolding delivered_def by blast
  with d agree_less(4) show ?case unfolding delivered_def by blast
next
  case (started evs T i name B p tor)
  from started.prems(1)[unfolded for_each_snoc]
  show ?case
  proof (cases rule: and_then_cases)
    case (stop e)
    with started.IH[OF stop(1)] started.prems(2) have "delivered False c T E evs c'" "\<not> is_ok out" by auto
    moreover have "agree (T(i := Some False)) (grants ((E @ evs) @ [On_allocate i name B p tor])) (details c')"
      unfolding grants_simps by (rule agree_start(1)[where S = T and i = i, OF _ started.hyps(2)]) (use calculation(1) in \<open>simp add: delivered_def\<close>)
    ultimately show ?thesis unfolding delivered_def append_assoc by blast
  next
    case (go x c1)
    have d: "delivered True c T E evs c1" using started.IH[OF go(1)] by simp
    have b1: "books_of off fx c1" by (rule for_each_invar[where P = "books_of off fx", OF _ b go(1)]) (rule on_event_books)
    then have jk: "jobs_known c1" using booksD(1) by (auto simp: books_of_def)
    have al: "job_queue_on_allocate w i name B p tor c1 = (out, c')" using go(2) by (simp add: on_event_def)
    note e = on_allocate_details[OF jk al]
    have ms: "c_machines c1 = c_machines c" using d by (simp add: delivered_def fixed_parts_def)
    have ag: "agree T (grants (E @ evs)) (details c1)" using d by (simp add: delivered_def)
    have "agree (T(i := Some False)) ((grants (E @ evs))(i \<mapsto> (name, B))) (details c')"
    proof (cases "details c' = details c1")
      case True
      with agree_start(1)[OF ag started.hyps(2)] show ?thesis by simp
    next
      case False
      with e obtain m where m: "od_get (c_machines c1) name = Some m" "details c' = (details c1)(i \<mapsto> (Some B, Some m))" by blast
      have "mc_name m = name" using n m(1) ms unfolding named_def by simp
      with agree_start(2)[OF ag started.hyps(2)] m(2) show ?thesis by simp
    qed
    moreover have "details c' k = None" if "On_free k reason \<in> set evs" for k reason
    proof -
      have "details c1 k = None" using d that unfolding delivered_def by blast
      with e show ?thesis by (cases "k = i") auto
    qed
    moreover have "fixed_parts c' = fixed_parts c" using d e by (simp add: delivered_def)
    ultimately show ?thesis unfolding delivered_def by auto
  qed
next
  case (cancelled evs T i reason)
  from cancelled.prems(1)[unfolded for_each_snoc]
  show ?case
  proof (cases rule: and_then_cases)
    case (stop e)
    with cancelled.IH[OF stop(1)] cancelled.prems(2) have "delivered False c T E evs c'" "\<not> is_ok out" by auto
    with cancelled.hyps(2) agree_less(1)[of T "grants (E @ evs)" "details c'" i] show ?thesis unfolding delivered_def by auto
  next
    case (go x c1)
    have d: "delivered True c T E evs c1" using cancelled.IH[OF go(1)] by simp
    have "\<exists>reason'. teardown_job w i reason' c1 = (out, c')" using go(2) by (auto simp: on_event_def job_queue_on_cancel_def)
    then have e: "fixed_parts c' = fixed_parts c1" "details c' = (details c1)(i := None)" using teardown_details by blast+
    then show ?thesis using d agree_less(2)[of T _ "details c1" i] unfolding delivered_def by auto
  qed
next
  case (freed evs T i reason)
  from freed.prems(1)[unfolded for_each_snoc]
  show ?case
  proof (cases rule: and_then_cases)
    case (stop e)
    with freed.IH[OF stop(1)] freed.prems(2) have "delivered False c T E evs c'" "\<not> is_ok out" by auto
    then show ?thesis unfolding delivered_def by auto
  next
    case (go x c1)
    have d: "delivered True c T E evs c1" using freed.IH[OF go(1)] by simp
    have "job_queue_on_free w i reason c1 = (out, c')" using go(2) by (simp add: on_event_def)
    note e = on_free_details[OF this]
    have ag: "agree T (grants (E @ evs)) (details c1)" using d by (simp add: delivered_def)
    from e show ?thesis
    proof (elim conjE disjE)
      assume "details c' = (details c1)(i := None)" "fixed_parts c' = fixed_parts c1"
      then show ?thesis using d agree_less(3)[OF ag, of i] freed.hyps(2) unfolding delivered_def by auto
    next
      assume "details c' = details c1" "\<not> is_ok out" "fixed_parts c' = fixed_parts c1"
      then show ?thesis using d unfolding delivered_def by auto
    qed
  qed
qed


section \<open>The invariant\<close>

definition knows :: "controller \<Rightarrow> bool" where
  "knows c \<longleftrightarrow>
     agree (status (c_queue c)) (grants (jq_events (c_queue c))) (details c) \<and> named (c_machines c) \<and>
     (\<forall>i. status (c_queue c) i \<noteq> None \<longrightarrow> i < c_next_id c)"

definition in_step :: "(cjob_ref \<Rightarrow> int) \<Rightarrow> int \<Rightarrow> controller \<Rightarrow> bool" where
  "in_step off p c \<longleftrightarrow>
     cbooks off c \<and> knows c \<and> (\<exists>b. state_ok b (c_queue c)) \<and> jq_postpone (c_queue c) = p"

lemma in_stepD:
  assumes "in_step off p c"
  shows "cbooks off c" "knows c" "tidy (c_queue c)" "jq_postpone (c_queue c) = p" "\<exists>b. state_ok b (c_queue c)"
  using assms jobs_ok_tidy by (auto simp: in_step_def state_ok_def queue_ok_def)

lemma fixed_partsD:
  assumes "fixed_parts c' = fixed_parts c"
  shows "c_queue c' = c_queue c" "c_machines c' = c_machines c" "c_next_id c' = c_next_id c"
  using assms by (simp_all add: fixed_parts_def)

lemma unseen_knows: "unseen c c' \<Longrightarrow> knows c \<Longrightarrow> knows c'"
  by (auto simp: unseen_def knows_def fixed_parts_def)

lemma unseen_in_step: "unseen c c' \<Longrightarrow> cbooks off c' \<Longrightarrow> in_step off p c \<Longrightarrow> in_step off p c'"
  using unseen_knows by (auto simp: in_step_def unseen_def fixed_parts_def)

text \<open>
  A method of the queue, from a state of the phases in which controller and queue agree.
\<close>

lemma in_queue_knows:
  assumes c: "cbooks off c" "named (c_machines c)" and call: "call (c_queue c) = (o1, q')"
    and evs: "jq_events q' = jq_events (c_queue c) @ evs" "follows g S evs (status q')"
    and a: "agree S (grants (jq_events (c_queue c))) (details c)" "\<forall>i. S i \<noteq> None \<longrightarrow> i < c_next_id c"
    and run: "in_queue w call c = (out, c')" and ok: "g \<Longrightarrow> is_ok out"
  shows "knows c' \<and> c_queue c' = q' \<and> cbooks off c'"
proof -
  obtain o2 c2 where d: "for_each evs (on_event w) (c\<lparr>c_queue := q'\<rparr>) = (o2, c2)"
    by (cases "for_each evs (on_event w) (c\<lparr>c_queue := q'\<rparr>)")
  have c2: "c' = c2" "is_ok out \<Longrightarrow> is_ok o2"
    using run call d by (auto simp: in_queue_def evs(1) split: sum.splits)
  have b: "books_of off (fixed_of c) (c\<lparr>c_queue := q'\<rparr>)" using c(1) by (simp add: books_of_def)
  have "delivered (is_ok o2) (c\<lparr>c_queue := q'\<rparr>) (status q') (jq_events (c_queue c)) evs c2"
  proof (rule deliver[OF evs(2) b _ _ d])
    show "named (c_machines (c\<lparr>c_queue := q'\<rparr>))" using c(2) by simp
    show "agree S (grants (jq_events (c_queue c))) (details (c\<lparr>c_queue := q'\<rparr>))" using a(1) by simp
    show "is_ok o2" if g using ok[OF that] c2(2) by blast
  qed
  then have a2: "agree (status q') (grants (jq_events q')) (details c2)" "fixed_parts c2 = fixed_parts (c\<lparr>c_queue := q'\<rparr>)"
    unfolding delivered_def evs(1) by blast+
  have q: "c_queue c2 = q'" "c_machines c2 = c_machines c" "c_next_id c2 = c_next_id c"
    using fixed_partsD[OF a2(2)] by simp_all
  have "i < c_next_id c2" if "status q' i \<noteq> None" for i
    using follows_unknown[OF evs(2), of i] a(2) that q(3) by auto
  then have "knows c2" using a2(1) c(2) by (simp add: knows_def q)
  moreover have "cbooks off c'" using in_queue_fixed[OF c(1) run] by blast
  ultimately show ?thesis using c2(1) q(1) by simp
qed

lemma in_queue_in_step:
  assumes s: "in_step off p c" and t: "\<And>o1 q'. call (c_queue c) = (o1, q') \<Longrightarrow> traced g (c_queue c) q'"
    and ok: "\<And>o1 q' b. state_ok b (c_queue c) \<Longrightarrow> call (c_queue c) = (o1, q') \<Longrightarrow> \<exists>b. state_ok b q'"
    and run: "in_queue w call c = (out, c')" and g: "g \<Longrightarrow> is_ok out"
  shows "in_step off p c'"
proof -
  obtain o1 q' where call: "call (c_queue c) = (o1, q')" by (cases "call (c_queue c)")
  note k = in_stepD[OF s]
  have "jq_postpone q' = p" and "\<exists>evs. jq_events q' = jq_events (c_queue c) @ evs \<and> follows g (status (c_queue c)) evs (status q')"
    using t[OF call] k(3,4) by (simp_all add: traced_def)
  then obtain evs where e: "jq_events q' = jq_events (c_queue c) @ evs" "follows g (status (c_queue c)) evs (status q')"
    and p: "jq_postpone q' = p" by blast
  have "knows c' \<and> c_queue c' = q' \<and> cbooks off c'"
    by (rule in_queue_knows[OF k(1) _ call e _ _ run g]) (use k(2) in \<open>simp_all add: knows_def\<close>)
  moreover have "\<exists>b. state_ok b q'" using k(5) ok[OF _ call] by blast
  ultimately show ?thesis using p by (simp add: in_step_def)
qed

section \<open>Every operation keeps in step\<close>

lemma destroy_in_step:
  assumes w: "fair_world (cw_queue w)" and s: "in_step off p c" and run: "ctl_destroy_job w i reason c = (out, c')"
  shows "in_step off p c'"
proof (cases "od_get (c_jobs c) i")
  case (Some r)
  with run have rq: "in_queue w (destroy_job (cw_queue w) i reason) c = (out, c')" by (simp add: ctl_destroy_job_def)
  show ?thesis
    by (rule in_queue_in_step[where g = False, OF s _ _ rq])
      (erule destroy_job_traced, rule exI, erule destroy_job_ok[OF w], assumption, simp)
qed (use run s in \<open>simp add: ctl_destroy_job_def\<close>)

lemma check_free_in_step:
  assumes w: "fair_world (cw_queue w)" and s: "in_step off p c" and run: "ctl_check_free w c = (out, c')"
  shows "in_step off p c'"
  by (rule in_queue_in_step[where g = False, OF s _ _ run[unfolded ctl_check_free_def]])
    (erule jq_check_free_traced, rule exI, erule jq_check_free_ok[OF w], assumption, simp)


lemma for_each_in_step:
  assumes "in_step off p c" "for_each xs f c = (out, c')"
    and "\<And>x c out c'. x \<in> set xs \<Longrightarrow> in_step off p c \<Longrightarrow> f x c = (out, c') \<Longrightarrow> in_step off p c'"
  shows "in_step off p c'"
  by (rule for_each_invar[where P = "in_step off p", OF _ assms(1,2)]) (rule assms(3))

lemma in_step_frame:
  assumes "in_step off p c" "cbooks off c'" "c_queue c' = c_queue c" "details c' = details c" "named (c_machines c')"
    "c_next_id c' = c_next_id c"
  shows "in_step off p c'"
  using assms by (simp add: in_step_def knows_def)

lemma ticks_in_step: "in_step off p c \<Longrightarrow> in_step off p (c\<lparr>c_ticks := n\<rparr>)"
  by (rule in_step_frame, assumption) (simp_all add: in_step_def knows_def)

lemma timed_out_in_step:
  assumes w: "fair_world (cw_queue w)" and s: "in_step off p c" and run: "destroy_timed_out_jobs w c = (out, c')"
  shows "in_step off p c'"
proof -
  have "for_each (map snd (c_jobs c)) (\<lambda>r s. if timed_out (cw_time w (c_ticks c)) (the_cjob s r)
      then ctl_destroy_job w (cj_id (the_cjob s r)) (Some ''Job timed out.'') s else (Inr (), s))
      (c\<lparr>c_ticks := Suc (c_ticks c)\<rparr>) = (out, c')"
    using run by (simp add: destroy_timed_out_jobs_def timestamp_def)
  then show ?thesis
    by (rule for_each_in_step[OF ticks_in_step[OF s]]) (use destroy_in_step[OF w] in \<open>auto split: if_splits\<close>)
qed

lemma keepalive_in_step: "in_step off p c \<Longrightarrow> in_step off p (job_keepalive w host i c)"
  using unseen_in_step[OF job_keepalive_unseen] job_keepalive_books in_stepD(1) by blast

lemma power_in_step:
  assumes "in_step off p c" "power_job_boards w on e host i c = (out, c')" shows "in_step off p c'"
  using unseen_in_step[OF power_job_unseen[OF assms(2)]] power_job_books[OF in_stepD(1)[OF assms(1)] assms(2)] assms(1) by blast

lemma jobs_fresh:
  assumes "jobs_known c"
  shows "od_get (c_jobs c) (c_next_id c) = None"
proof (cases "od_get (c_jobs c) (c_next_id c)")
  case (Some r)
  then have "c_next_id c \<in> set (map cj_id (c_job_store c))"
    using assms nth_mem unfolding jobs_known_def by (metis length_map)
  with assms show ?thesis unfolding jobs_known_def by fastforce
qed simp

text \<open>A new job is known to the controller before the queue hears of it.\<close>

lemma create_in_step:
  assumes w: "fair_world (cw_queue w)" and s: "in_step (\<lambda>_. 0) p c" and rq: "request_ok args kwargs"
    and run: "ctl_create_job w host owner keepalive machine_name tags args kwargs c = (out, c')"
  shows "in_step (\<lambda>_. 0) p c'"
proof (cases "owner = None \<or> keepalive = None")
  case True
  with s run show ?thesis by (auto simp: ctl_create_job_def split: option.splits)
next
  case False
  then obtain ow ka where o: "owner = Some ow" "keepalive = Some ka" by auto
  let ?i = "c_next_id c" and ?r = "length (c_job_store c)"
  obtain n j where c1: "and_then (in_queue w (create_job (cw_queue w) (Some ?i) machine_name tags args kwargs))
       (\<lambda>_ c'. (Inr ?i, job_changed ?i c'))
       (c\<lparr> c_ticks := n, c_next_id := ?i + 1, c_job_store := c_job_store c @ [j],
           c_jobs := od_set ?i ?r (c_jobs c) \<rparr>) = (out, c')"
    and j: "cj_id j = ?i" "cj_requests_until_ready j = 0" "cj_boards j = None" "cj_allocated_machine j = None"
    using create_split[OF run[unfolded o]] by metis
  define c1 where "c1 = c\<lparr> c_ticks := n, c_next_id := ?i + 1, c_job_store := c_job_store c @ [j],
           c_jobs := od_set ?i ?r (c_jobs c) \<rparr>"
  note k = in_stepD[OF s]
  have jk: "jobs_known c" using booksD(1)[OF k(1)] .
  have q1: "c_queue c1 = c_queue c" "c_machines c1 = c_machines c" "c_next_id c1 = ?i + 1" by (simp_all add: c1_def)
  have b1: "cbooks (\<lambda>_. 0) c1"
    using new_job_books[of "\<lambda>_. 0" "c\<lparr>c_ticks := n\<rparr>" j] k(1) j by (simp add: c1_def)
  have d1: "details c1 = (details c)(?i \<mapsto> (None, None))"
  proof
    fix x
    have "r < ?r" if "od_get (c_jobs c) x = Some r" for r by (rule known_ref[OF jk that])
    then show "details c1 x = ((details c)(?i \<mapsto> (None, None))) x"
      by (cases "od_get (c_jobs c) x") (auto simp: details_def c1_def the_cjob_def nth_append j)
  qed
  have ag: "agree (status (c_queue c)) (grants (jq_events (c_queue c))) (details c)" "named (c_machines c)"
    and ids: "\<And>x. status (c_queue c) x \<noteq> None \<Longrightarrow> x < ?i"
    using k(2) by (simp_all add: knows_def)
  have new: "status (c_queue c) ?i = None" using ids[of ?i] by fastforce
  have "in_step (\<lambda>_. 0) p c2" if rq1: "in_queue w (create_job (cw_queue w) (Some ?i) machine_name tags args kwargs) c1 = (o2, c2)" for o2 c2
  proof -
    obtain o1 q' where call: "create_job (cw_queue w) (Some ?i) machine_name tags args kwargs (c_queue c1) = (o1, q')"
      by (cases "create_job (cw_queue w) (Some ?i) machine_name tags args kwargs (c_queue c1)")
    have ok: "\<exists>b. state_ok b q'" using k(5) create_job_ok[OF w _ rq call[unfolded q1]] by blast
    have d0: "agree (status (c_queue c)) (grants (jq_events (c_queue c))) (details c1)"
      unfolding d1 by (rule agreeI) (use agreeD1[OF ag(1)] agreeD2[OF ag(1)] agreeD3[OF ag(1)] new in \<open>auto split: if_splits\<close>)
    have dT: "agree ((status (c_queue c))(?i := Some True)) (grants (jq_events (c_queue c))) (details c1)"
      unfolding d1 by (rule agreeI) (use agreeD1[OF ag(1)] agreeD2[OF ag(1)] agreeD3[OF ag(1)] in \<open>auto split: if_splits\<close>)
    have n1: "named (c_machines c1)" using ag(2) q1 by simp
    have idsT: "\<forall>x. ((status (c_queue c))(?i := Some True)) x \<noteq> None \<longrightarrow> x < c_next_id c1"
      and ids0: "\<forall>x. status (c_queue c) x \<noteq> None \<longrightarrow> x < c_next_id c1"
      using ids q1(3) by (force split: if_splits)+
    have "knows c2 \<and> c_queue c2 = q' \<and> cbooks (\<lambda>_. 0) c2 \<and> jq_postpone q' = p"
      using create_job_status[OF k(3) call[unfolded q1], of False]
    proof
      assume "q' = c_queue c \<and> (\<exists>e. o1 = Inl e)"
      then have e: "jq_events q' = jq_events (c_queue c1) @ []" "follows False (status (c_queue c1)) [] (status q')" "jq_postpone q' = p"
        using q1(1) k(4) follows.silent by simp_all
      show ?thesis using in_queue_knows[OF b1 n1 call e(1,2) d0[folded q1(1)] ids0[folded q1(1)] rq1] e(3) by simp
    next
      assume "status (c_queue c) ?i = None \<and> (\<exists>q2. jq_postpone q2 = jq_postpone (c_queue c) \<and> tidy q2 \<and>
        status q2 = (status (c_queue c))(?i := Some True) \<and> jq_events q2 = jq_events (c_queue c) \<and> traced False q2 q')"
      then obtain q2 where q2: "jq_postpone q2 = jq_postpone (c_queue c)" "tidy q2"
        "status q2 = (status (c_queue c))(?i := Some True)" "jq_events q2 = jq_events (c_queue c)" "traced False q2 q'" by blast
      have "jq_postpone q' = p" and "\<exists>evs. jq_events q' = jq_events q2 @ evs \<and> follows False (status q2) evs (status q')"
        using q2(1,2,5) k(4) by (simp_all add: traced_def)
      then obtain evs where e: "jq_events q' = jq_events (c_queue c1) @ evs"
        "follows False ((status (c_queue c1))(?i := Some True)) evs (status q')" "jq_postpone q' = p"
        unfolding q2(3,4) q1(1) by blast
      show ?thesis using in_queue_knows[OF b1 n1 call e(1,2) dT[folded q1(1)] idsT[folded q1(1)] rq1] e(3) by simp
    qed
    with ok show ?thesis by (simp add: in_step_def)
  qed
  with c1[folded c1_def] show ?thesis
    by (cases rule: and_then_cases) (auto intro: in_step_frame simp: in_step_def knows_def)
qed


text \<open>An answer is taken, counted, and may free the boards of a job that has left.\<close>

lemma free_in_step:
  assumes w: "fair_world (cw_queue w)" and s: "in_step off p c" and i: "details c i = None"
    and run: "in_queue w (jq_free (cw_queue w) i) c = (out, c')"
  shows "in_step off p c'"
proof -
  obtain o1 q' where call: "jq_free (cw_queue w) i (c_queue c) = (o1, q')" by (cases "jq_free (cw_queue w) i (c_queue c)")
  note k = in_stepD[OF s]
  have ag: "agree (status (c_queue c)) (grants (jq_events (c_queue c))) (details c)" "named (c_machines c)"
    and ids: "\<forall>x. status (c_queue c) x \<noteq> None \<longrightarrow> x < c_next_id c"
    using k(2) by (simp_all add: knows_def)
  have np: "status (c_queue c) i \<noteq> Some True" using agreeD1[OF ag(1), of i] i by auto
  obtain q2 where q2: "jq_postpone q2 = jq_postpone (c_queue c)" "tidy q2"
    "status q2 = (status (c_queue c))(i := None)" "jq_events q2 = jq_events (c_queue c)" "traced False q2 q'"
    using jq_free_status[OF k(3) np call, of False] by blast
  have "jq_postpone q' = p" and "\<exists>evs. jq_events q' = jq_events q2 @ evs \<and> follows False (status q2) evs (status q')"
    using q2(1,2,5) k(4) by (simp_all add: traced_def)
  then obtain evs where e: "jq_events q' = jq_events (c_queue c) @ evs"
    "follows False ((status (c_queue c))(i := None)) evs (status q')" "jq_postpone q' = p"
    unfolding q2(3,4) by blast
  have a: "agree ((status (c_queue c))(i := None)) (grants (jq_events (c_queue c))) (details c)"
    by (rule agree_less(4)[OF ag(1) i])
  have known: "\<forall>x. ((status (c_queue c))(i := None)) x \<noteq> None \<longrightarrow> x < c_next_id c" using ids by simp
  have "\<forall>r. od_get (jq_jobs (c_queue c)) i = Some r \<longrightarrow> \<not> j_pending (the_job (c_queue c) r)"
    using np by (auto simp: status_def)
  then have "\<exists>b. state_ok b q'" using k(5) jq_free_ok[OF w _ call] by blast
  with in_queue_knows[OF k(1) ag(2) call e(1,2) a known run] e(3) show ?thesis by (simp add: in_step_def)
qed

lemma set_state_in_step:
  assumes "in_step off p c" "cbooks off' c'" "unseen c c'"
  shows "in_step off' p c'"
  using assms unseen_knows by (auto simp: in_step_def unseen_def fixed_parts_def)

lemma answered_in_step:
  assumes w: "fair_world (cw_queue w)" and s: "in_step (\<lambda>_. 0) p c" and r: "r < length (c_job_store c)"
    and n: "cj_requests_until_ready (the_cjob c r) = 0" and run: "answer_counted w r c = (out, c')"
  shows "in_step (\<lambda>_. 0) p c'"
proof -
  let ?j = "the_cjob c r"
  let ?c = "set_cjob r (?j\<lparr>cj_state := Ready\<rparr>) c"
  note k = in_stepD[OF s]
  have f: "frame_of ?c = frame_of c" by (rule set_cjob_frame) simp
  have "counter_ok c 0 r" using booksD(4)[OF k(1)] r by (simp add: counted_def)
  then have "counted (\<lambda>_. 0) ?c" using set_cjob_counted[OF booksD(4)[OF k(1)] r, of "?j\<lparr>cj_state := Ready\<rparr>"] n
    by (simp add: counter_ok_def)
  then have bc: "cbooks (\<lambda>_. 0) ?c" by (rule frame_books[OF f k(1)])
  have sc: "in_step (\<lambda>_. 0) p ?c"
    by (rule set_state_in_step[OF s bc]) (simp add: unseen_def details_set_other)
  have step: "in_step (\<lambda>_. 0) p c1" if "(if cj_id ?j \<in> fst ` set (c_retired_jobs c)
      then in_queue w (jq_free (cw_queue w) (cj_id ?j)) else return ()) ?c = (o1, c1)" for o1 c1
  proof (cases "cj_id ?j \<in> fst ` set (c_retired_jobs c)")
    case True
    then have "od_get (c_retired_jobs c) (cj_id ?j) \<noteq> None" by (simp add: od_get_None_iff)
    then have "od_get (c_jobs c) (cj_id ?j) = None"
      using booksD(2)[OF k(1)] unfolding retired_known_def by blast
    then have "details ?c (cj_id ?j) = None" by (simp add: details_def)
    with True that show ?thesis using free_in_step[OF w sc] by simp
  next
    case False
    with that sc show ?thesis by (simp add: return_def)
  qed
  from run show ?thesis unfolding answer_counted_def Let_def
  proof (cases rule: and_then_cases)
    case (stop e)
    then show ?thesis using step by simp
  next
    case (go x c1)
    have s1: "in_step (\<lambda>_. 0) p c1" by (rule step[OF go(1)])
    have "in_step (\<lambda>_. 0) p ((job_changed i c1)\<lparr>c_wakes := m\<rparr>)" for i m
      by (rule in_step_frame[OF s1]) (use in_stepD(1,2)[OF s1] in \<open>simp_all add: knows_def\<close>)
    with go(2) s1 show ?thesis by (auto split: if_splits)
  qed
qed

lemma answer_in_step:
  assumes w: "fair_world (cw_queue w)" and s: "in_step (\<lambda>x. if x = r then 1 else 0) p c" and r: "r < length (c_job_store c)"
    and run: "bmp_on_request_complete w r success reason c = (out, c')" and ok: "is_ok out"
  shows "in_step (\<lambda>_. 0) p c'"
  using run unfolding complete_eq
proof (cases rule: and_then_cases)
  case (stop e)
  with ok show ?thesis by simp
next
  case (go x c1)
  have "in_step (\<lambda>x. if x = r then 1 else 0) p c1"
  proof (cases success)
    case True
    with go(1) s show ?thesis by simp
  next
    case False
    with go(1) have "ctl_destroy_job w (cj_id (the_cjob c r)) (Some (''Machine configuration failed.'' @
        (case reason of None \<Rightarrow> [] | Some s \<Rightarrow> '' Error: '' @ s))) c = (Inr x, c1)" by simp
    then show ?thesis by (rule destroy_in_step[OF w s])
  qed
  note s1 = this
  have r1: "r < length (c_job_store c1)"
  proof (cases success)
    case True
    with go(1) r show ?thesis by simp
  next
    case False
    have "books_of (\<lambda>x. if x = r then 1 else 0) (fixed_of c) c" using in_stepD(1)[OF s] by (simp add: books_of_def)
    then have "books_of (\<lambda>x. if x = r then 1 else 0) (fixed_of c) c1"
      by (rule ctl_destroy_job_books) (use go(1) False in simp)
    then show ?thesis using r fixed_length unfolding books_of_def by metis
  qed
  note c2 = count_answer[OF in_stepD(1)[OF s1] r1]
  have s2: "in_step (\<lambda>_. 0) p (add_outstanding r (- 1) c1)"
    by (rule set_state_in_step[OF s1 c2(1) add_outstanding_unseen])
  have r2: "r < length (c_job_store (add_outstanding r (- 1) c1))" using r1 by (simp add: add_outstanding_def Let_def)
  show ?thesis
  proof (cases "unanswered c1 r = 0")
    case True
    with go(2) c2(2) have "answer_counted w r (add_outstanding r (- 1) c1) = (out, c')" by (simp add: Let_def)
    with answered_in_step[OF w s2 r2] c2(2) True show ?thesis by simp
  next
    case False
    with go(2) c2(2) s2 show ?thesis by (simp add: Let_def)
  qed
qed


section \<open>Changing the machines keeps in step\<close>

lemma remove_one_in_step:
  assumes w: "fair_world (cw_queue w)" and s: "in_step off p c" and run: "remove_one w name c = (Inr x, c')"
  shows "in_step off p c'"
  using run unfolding remove_one_def
proof (cases rule: and_then_cases)
  case (go y c1)
  have s1: "in_step off p c1"
    by (rule in_queue_in_step[where g = True, OF s _ _ go(1)])
      (erule remove_machine_traced, rule exI, erule remove_machine_ok[OF w], assumption, simp)
  have c': "c' = c1\<lparr>c_machines := od_del name (c_machines c1), c_bmp_controllers := od_del name (c_bmp_controllers c1)\<rparr>"
    using go(2) by (simp add: Let_def split: if_splits)
  have "named (c_machines c')" using in_stepD(2)[OF s1] by (simp add: knows_def named_def c')
  moreover have "cbooks off c'" using remove_one_books[OF in_stepD(1)[OF s] run] by blast
  ultimately show ?thesis by (intro in_step_frame[OF s1]) (simp_all add: c')
qed simp

lemma add_one_in_step:
  assumes w: "fair_world (cw_queue w)" and s: "in_step off p c" and run: "add_one w new name c = (out, c')"
    and n: "named new" and size: "\<And>m. od_get new name = Some m \<Longrightarrow> 0 < mc_width m \<and> 0 < mc_height m"
  shows "in_step off p c'"
proof (cases "od_get new name")
  case None
  with s run show ?thesis by (simp add: add_one_def)
next
  case (Some m)
  let ?c = "create_machine_bmp_controllers True m (c\<lparr>c_machines := od_set name m (c_machines c)\<rparr>)"
  have rq: "in_queue w (add_machine (cw_queue w) name (mc_width m) (mc_height m) (Some (mc_tags m))
      (mc_dead_boards m) (mc_dead_links m)) ?c = (out, c')"
    using run Some by (simp add: add_one_def)
  have "cbooks off ?c" using in_stepD(1)[OF s] by (intro new_bmps_books) simp
  moreover have "c_queue ?c = c_queue c" "details ?c = details c" "c_next_id ?c = c_next_id c"
    "c_machines ?c = od_set name m (c_machines c)"
    by (simp_all add: create_machine_bmp_controllers_def Let_def details_def the_cjob_def fun_eq_iff)
  moreover have "mc_name m = name" using n Some by (simp add: named_def)
  then have "named (od_set name m (c_machines c))"
    using in_stepD(2)[OF s] by (simp add: knows_def named_def)
  ultimately have s1: "in_step off p ?c" by (intro in_step_frame[OF s]) simp_all
  show ?thesis
    by (rule in_queue_in_step[where g = False, OF s1 _ _ rq])
      (erule add_machine_traced, rule exI, erule add_machine_ok[OF w], use size[OF Some] in simp_all)
qed

lemma reorder_one_in_step:
  assumes s: "in_step off p c" and run: "reorder_one w name c = (out, c')"
  shows "in_step off p c'"
proof (cases "od_move_to_end name (c_machines c)")
  case (Inl e)
  with s run show ?thesis by (simp add: reorder_one_def)
next
  case (Inr d)
  have "named d" using in_stepD(2)[OF s] od_move_to_end_get[OF Inr] by (simp add: knows_def named_def)
  then have s1: "in_step off p (c\<lparr>c_machines := d\<rparr>)"
    using in_stepD(1)[OF s] by (intro in_step_frame[OF s]) simp_all
  have rq: "in_queue w (move_machine_to_end name) (c\<lparr>c_machines := d\<rparr>) = (out, c')"
    using run Inr by (simp add: reorder_one_def)
  show ?thesis
    by (rule in_queue_in_step[where g = False, OF s1 _ _ rq])
      (erule move_machine_traced, rule exI, erule move_machine_ok, assumption, simp)
qed

lemma stop_all_unseen: "unseen c (fold stop_bmp ks c)"
proof (induction ks arbitrary: c)
  case (Cons k ks)
  have "unseen c (stop_bmp k c)" by (simp add: unseen_def stop_bmp_def)
  then show ?case using Cons unseen_trans by simp
qed simp

lemma enter_in_step:
  assumes s: "in_step off p c"
  shows "in_step off (p + 1) (c\<lparr>c_queue := enter (c_queue c)\<rparr>)"
proof -
  have "\<exists>b. state_ok b (enter (c_queue c))" using in_stepD(5)[OF s] enter_ok by blast
  moreover have "jq_postpone (enter (c_queue c)) = p + 1" using in_stepD(4)[OF s] by (simp add: enter_def)
  ultimately show ?thesis using in_stepD(1,2)[OF s] by (simp add: in_step_def knows_def enter_unseen)
qed

lemma leave_in_step:
  assumes w: "fair_world (cw_queue w)" and s: "in_step off (p + 1) c" and p: "0 \<le> p"
    and run: "in_queue w (leave (cw_queue w)) c = (out, c')"
  shows "in_step off p c'"
proof -
  obtain o1 q' where call: "leave (cw_queue w) (c_queue c) = (o1, q')" by (cases "leave (cw_queue w) (c_queue c)")
  note k = in_stepD[OF s]
  obtain evs where e: "jq_events q' = jq_events (c_queue c) @ evs" "follows False (status (c_queue c)) evs (status q')"
    using leave_tells[OF call k(3), of False] by blast
  have kn: "knows c' \<and> c_queue c' = q' \<and> cbooks off c'"
    by (rule in_queue_knows[OF k(1) _ call e _ _ run]) (use k(2) in \<open>simp_all add: knows_def\<close>)
  obtain b where b: "state_ok b (c_queue c)" using k(5) by blast
  have "0 < jq_postpone (c_queue c)" using k(4) p by simp
  note l = leave_ok[OF w b this call]
  show ?thesis using kn l k(4) unfolding in_step_def by auto
qed

lemma with_queue_in_step:
  assumes w: "fair_world (cw_queue w)" and s: "in_step off p c" and p: "0 \<le> p"
    and run: "with_queue w body c = (Inr x, c')"
    and body: "\<And>y c1. body (c\<lparr>c_queue := enter (c_queue c)\<rparr>) = (Inr y, c1) \<Longrightarrow> in_step off (p + 1) c1"
  shows "in_step off p c'"
proof -
  obtain o1 c1 where b: "body (c\<lparr>c_queue := enter (c_queue c)\<rparr>) = (o1, c1)"
    by (cases "body (c\<lparr>c_queue := enter (c_queue c)\<rparr>)")
  obtain o2 c2 where l: "in_queue w (leave (cw_queue w)) c1 = (o2, c2)" by (cases "in_queue w (leave (cw_queue w)) c1")
  have "c' = c2" "o1 = Inr x" using run b l by (auto simp: with_queue_def split: sum.splits)
  then show ?thesis using leave_in_step[OF w body p l] b by simp
qed

text \<open>New machines may be put into service and old ones removed; the others stay as they are.\<close>

definition only_adds_and_removes :: "controller \<Rightarrow> machines \<Rightarrow> bool" where
  "only_adds_and_removes c new \<longleftrightarrow>
     modified_machines (c_machines c) new = {} \<and> named new \<and>
     (\<forall>(name, m) \<in> set new. 0 < mc_width m \<and> 0 < mc_height m)"

lemma set_machines_in_step:
  assumes w: "fair_world (cw_queue w)" "cw_names w {} = []" and s: "in_step off p c" and p: "0 \<le> p"
    and new: "only_adds_and_removes c new" and run: "set_machines w new c = (Inr x, c')"
  shows "in_step off p c'"
proof -
  let ?rm = "cw_names w (removed_machines (c_machines c) new)" and ?ad = "cw_names w (added_machines (c_machines c) new)"
  let ?ks = "concat (map (bmps_of_machine c) ?rm)" and ?c0 = "c\<lparr>c_queue := enter (c_queue c)\<rparr>"
  let ?rest = "and_then (for_each ?ad (add_one w new)) (\<lambda>_. for_each (map fst new) (reorder_one w))"
  let ?body = "and_then (for_each ?rm (remove_one w))
     (\<lambda>_. and_then (\<lambda>s. (Inr (), fold stop_bmp ?ks s))
     (\<lambda>_. and_then (for_each (cw_names w (modified_machines (c_machines c) new)) (modify_one w new))
     (\<lambda>_. ?rest)))"
  have size: "0 < mc_width m \<and> 0 < mc_height m" if "od_get new name = Some m" for name m
    using new map_of_SomeD[OF that] unfolding only_adds_and_removes_def by blast
  have nn: "named new" using new by (simp add: only_adds_and_removes_def)
  have s0: "in_step off (p + 1) ?c0" by (rule enter_in_step[OF s])
  have body: "in_step off (p + 1) c1" if "?body ?c0 = (Inr y, c1)" for y c1
    using that
  proof (cases rule: and_then_cases)
    case (go x1 d1)
    have s1: "in_step off (p + 1) d1"
    proof -
      have P: "is_ok o1 \<longrightarrow> in_step off (p + 1) d" if "for_each ns (remove_one w) s = (o1, d)" "in_step off (p + 1) s" for ns s o1 d
        using that
      proof (induction ns arbitrary: s)
        case (Cons n ns)
        from Cons.prems(1) have "and_then (remove_one w n) (\<lambda>_. for_each ns (remove_one w)) s = (o1, d)" by simp
        then show ?case
        proof (cases rule: and_then_cases)
          case (go y e)
          show ?thesis by (rule Cons.IH[OF go(2) remove_one_in_step[OF w(1) Cons.prems(2) go(1)]])
        qed simp
      qed simp
      from P[OF go(1) s0] show ?thesis by simp
    qed
    have ks: "\<forall>k\<in>set ?ks. \<exists>name\<in>set ?rm. k \<in> set (bmps_of_machine c name)" by simp
    have "cbooks off (fold stop_bmp ?ks d1)"
      by (rule removed_stopped_books[OF in_stepD(1)[OF s0] ks _ go(1)]) simp
    then have s2: "in_step off (p + 1) (fold stop_bmp ?ks d1)" by (rule unseen_in_step[OF stop_all_unseen _ s1])
    have "cw_names w (modified_machines (c_machines c) new) = []"
      using new w(2) by (simp add: only_adds_and_removes_def)
    with go(2) have "?rest (fold stop_bmp ?ks d1) = (Inr y, c1)" by (simp add: and_then_def)
    then show ?thesis
    proof (cases rule: and_then_cases)
      case (go x2 d2)
      have s3: "in_step off (p + 1) d2"
        by (rule for_each_in_step[OF s2 go(1)]) (rule add_one_in_step[OF w(1) _ _ nn size])
      show ?thesis by (rule for_each_in_step[OF s3 go(2)]) (rule reorder_one_in_step)
    qed simp
  qed simp
  have "and_then (with_queue w ?body)
      (\<lambda>_ s. (Inr (), s\<lparr>c_changed_machines := c_changed_machines s \<union> added_machines (c_machines c) new \<union>
         modified_machines (c_machines c) new \<union> removed_machines (c_machines c) new\<rparr>)) c = (Inr x, c')"
    using run unfolding set_machines_def Let_def .
  then show ?thesis
  proof (cases rule: and_then_cases)
    case (go y c1)
    have s1: "in_step off p c1" by (rule with_queue_in_step[OF w(1) s p go(1) body])
    show ?thesis using go(2) in_stepD(1,2)[OF s1] by (intro in_step_frame[OF s1]) (auto simp: knows_def)
  qed simp
qed


section \<open>Histories\<close>

text \<open>
  Requests of clients may fail, but no callback of the queue raises: when an operation raises,
  the queue has reported nothing. Handling an answer and changing the machines must return,
  and the machines that stay in service are not modified.
\<close>

fun allowed :: "ctl_op \<Rightarrow> controller \<Rightarrow> bool" where
  "allowed (Create_job host owner ka name tags args kwargs) c = request_ok args kwargs"
| "allowed (Set_machines new) c = only_adds_and_removes c new"
| "allowed _ c = True"

fun must_return :: "ctl_op \<Rightarrow> bool" where
  "must_return (Bmp_answer k success reason) = True"
| "must_return (Set_machines new) = True"
| "must_return _ = False"

inductive served :: "cworld \<Rightarrow> controller \<Rightarrow> bool" for w where
  created: "served w (new_controller next_id max_retired background seconds)"
| performed: "served w c \<Longrightarrow> allowed op c \<Longrightarrow> perform w op c = (ok, c') \<Longrightarrow> (must_return op \<Longrightarrow> ok) \<Longrightarrow>
    ok \<or> jq_events (c_queue c') = jq_events (c_queue c) \<Longrightarrow> served w c'"

lemma new_in_step: "in_step (\<lambda>_. 0) 0 (new_controller next_id max_retired background seconds)"
proof -
  have "state_ok True (new_job_queue seconds)" by (rule new_job_queue_ok)
  moreover have "status (new_job_queue seconds) = Map.empty" by (simp add: status_def new_job_queue_def fun_eq_iff)
  ultimately show ?thesis using new_controller_books
    by (auto simp: in_step_def knows_def agree_def named_def details_def new_controller_def new_job_queue_def)
qed

lemma seconds_in_step:
  assumes s: "in_step off p c"
  shows "in_step off p (set_seconds_before_free secs c)"
proof -
  let ?q = "(c_queue c)\<lparr>jq_seconds_before_free := secs\<rparr>"
  have J: "the_job ?q = the_job (c_queue c)" "the_machine ?q = the_machine (c_queue c)" "allocators ?q = allocators (c_queue c)"
    by (simp_all add: the_job_def the_machine_def allocators_def fun_eq_iff)
  have E: "jq_jobs ?q = jq_jobs (c_queue c)" "jq_events ?q = jq_events (c_queue c)" by simp_all
  have T: "tenancies ?q = tenancies (c_queue c)" unfolding tenancies_def J E by (rule refl)
  have "state_ok b ?q = state_ok b (c_queue c)" for b
    unfolding state_ok_def queue_ok_def jobs_ok_def machines_ok_def lines_ok_def running_ok_def runs_def
      named_ok_def machines_valid_def lines_suit_def waiting_ok_def waits_def J T by simp
  moreover have "status ?q = status (c_queue c)" by (simp add: status_def J fun_eq_iff)
  ultimately show ?thesis using s by (simp add: in_step_def knows_def set_seconds_before_free_def)
qed

lemma fold_unseen:
  assumes "\<And>x d. unseen d (f x d)"
  shows "unseen c d \<Longrightarrow> unseen c (fold f xs d)"
proof (induction xs arbitrary: d)
  case (Cons x xs)
  have "unseen c (f x d)" by (rule unseen_trans[OF Cons.prems assms])
  from Cons.IH[OF this] show ?case by simp
qed simp

lemma unpickled_unseen: "unseen c (unpickled w c)"
proof -
  have "unseen c (pickled c)" by (simp add: unseen_def pickled_def details_def the_cjob_def fixed_parts_def fun_eq_iff)
  then show ?thesis unfolding unpickled_def init_dynamic_state_def
    by (intro fold_unseen job_keepalive_unseen)
      (simp_all add: unseen_def create_machine_bmp_controllers_def Let_def details_def the_cjob_def fixed_parts_def fun_eq_iff)
qed

lemma quiet_in_step:
  assumes "in_step off p c" "cbooks off c'" "unseen c c'" shows "in_step off p c'"
  using unseen_in_step[OF assms(3,2,1)] .

lemma perform_in_step:
  assumes w: "fair_world (cw_queue w)" "cw_names w {} = []" and s: "in_step (\<lambda>_. 0) 0 c"
    and p: "perform w op c = (ok, c')" and al: "allowed op c" and ok: "must_return op \<Longrightarrow> ok"
  shows "in_step (\<lambda>_. 0) 0 c'"
proof -
  have b': "cbooks (\<lambda>_. 0) c'"
    using perform_books[OF in_stepD(1)[OF s] p] ok by (cases op) auto
  show ?thesis
  proof (cases op)
    case (Create_job host owner ka name tags args kwargs)
    with p obtain out where "ctl_create_job w host owner ka name tags args kwargs c = (out, c')" by (auto dest: map_prod_okD)
    with create_in_step[OF w(1) s] al Create_job show ?thesis by simp
  next
    case (Keep_alive host i)
    with p keepalive_in_step[OF s] show ?thesis by auto
  next
    case (Power_on_job host i)
    with p obtain out where "power_job_boards w True (Some False) host i c = (out, c')"
      by (auto simp: power_on_job_boards_def dest: map_prod_okD)
    with power_in_step[OF s] show ?thesis by blast
  next
    case (Power_off_job host i)
    with p obtain out where "power_job_boards w False None host i c = (out, c')"
      by (auto simp: power_off_job_boards_def dest: map_prod_okD)
    with power_in_step[OF s] show ?thesis by blast
  next
    case (Destroy_job i reason)
    with p obtain out where "ctl_destroy_job w i reason c = (out, c')" by (auto dest: map_prod_okD)
    with destroy_in_step[OF w(1) s] show ?thesis by blast
  next
    case Time_out
    with p obtain out where "destroy_timed_out_jobs w c = (out, c')" by (auto dest: map_prod_okD)
    with timed_out_in_step[OF w(1) s] show ?thesis by blast
  next
    case Check_free
    with p obtain out where "ctl_check_free w c = (out, c')" by (auto dest: map_prod_okD)
    with check_free_in_step[OF w(1) s] show ?thesis by blast
  next
    case (Set_machines new)
    with p obtain out where out: "set_machines w new c = (out, c')" "ok = is_ok out" by (auto dest: map_prod_okD)
    then have "out = Inr ()" using ok Set_machines by (cases out) auto
    with out set_machines_in_step[OF w s order_refl] al Set_machines show ?thesis by simp
  next
    case (Set_max_retired n)
    with p obtain out where "set_max_retired_jobs n c = (out, c')" by (auto dest: map_prod_okD)
    then have "unseen c c'" by (auto simp: set_max_retired_jobs_def unseen_def details_def the_cjob_def fixed_parts_def split: if_splits)
    then show ?thesis by (rule quiet_in_step[OF s b'])
  next
    case (Set_seconds secs)
    with p seconds_in_step[OF s] show ?thesis by auto
  next
    case Restart
    with p have "unseen c c'" using unpickled_unseen[of c w] by (auto split: if_splits)
    then show ?thesis by (rule quiet_in_step[OF s b'])
  next
    case (Bmp_step k)
    with p have "unseen c c'" by (auto simp: bmp_idle_def unseen_def split: if_splits thread_pc.splits option.splits)
    then show ?thesis by (rule quiet_in_step[OF s b'])
  next
    case (Bmp_answer k success reason)
    show ?thesis
    proof (cases "k < length (c_bmp_store c) \<and> (\<exists>q. bc_pc (c_bmp_store c ! k) = Busy q)")
      case True
      then obtain q where k: "k < length (c_bmp_store c)" and q: "bc_pc (c_bmp_store c ! k) = Busy q" by blast
      with p Bmp_answer obtain out where out: "bmp_on_request_complete w (on_done q) success reason (take_answer k c) = (out, c')" "ok = is_ok out"
        by (auto simp: bmp_answer_def dest: map_prod_okD)
      note t = take_answer_books[OF in_stepD(1)[OF s] k q]
      have r: "on_done q < length (c_job_store (take_answer k c))" using t by (simp add: take_answer_def)
      have "unseen c (take_answer k c)" by (simp add: unseen_def take_answer_def)
      from set_state_in_step[OF s conjunct1[OF t] this]
      have "in_step (\<lambda>r. if r = on_done q then 1 else 0) 0 (take_answer k c)" .
      from answer_in_step[OF w(1) this r out(1)] out(2) ok Bmp_answer show ?thesis by simp
    next
      case False
      with p Bmp_answer have "c' = c" by (auto simp: bmp_answer_def split: if_splits thread_pc.splits)
      with s show ?thesis by simp
    qed
  qed (use p b' s in \<open>auto intro!: quiet_in_step[OF s] simp: read_changed_jobs_def read_changed_machines_def unseen_def fixed_parts_def\<close>)
qed

lemma served_in_step:
  assumes "fair_world (cw_queue w)" "cw_names w {} = []"
  shows "served w c \<Longrightarrow> in_step (\<lambda>_. 0) 0 c"
  by (induction rule: served.induct) (blast intro: new_in_step perform_in_step[OF assms])+


section \<open>What clients were told\<close>

lemma told_runs:
  assumes s: "in_step off p c" and i: "od_get (c_jobs c) i = Some r" "cj_boards (the_cjob c r) = Some B"
  shows "\<exists>m x aid. cj_allocated_machine (the_cjob c r) = Some m \<and> runs_on (c_queue c) i x aid B \<and>
    x \<in> machine_refs (c_queue c) \<and> m_name (the_machine (c_queue c) x) = mc_name m"
proof -
  let ?q = "c_queue c"
  have d: "details c i = Some (Some B, cj_allocated_machine (the_cjob c r))" using i by (simp add: details_def)
  have "agree (status ?q) (grants (jq_events ?q)) (details c)" using in_stepD(2)[OF s] by (simp add: knows_def)
  from agreeD2[OF this d] obtain m where m: "status ?q i = Some False" "cj_allocated_machine (the_cjob c r) = Some m"
    "grants (jq_events ?q) i = Some (mc_name m, B)"
    by blast
  obtain b where b: "state_ok b ?q" using in_stepD(5)[OF s] by blast
  then have jo: "jobs_ok ?q" and ro: "running_ok ?q" by (simp_all add: state_ok_def queue_ok_def)
  obtain rj where rj: "od_get (jq_jobs ?q) i = Some rj" "\<not> j_pending (the_job ?q rj)" using m(1) by (auto simp: status_def)
  then have id: "rj \<in> job_refs ?q" "j_id (the_job ?q rj) = i" using od_ref_iff[OF jo] by blast+
  then have "runs ?q rj" using ro rj(2) unfolding running_ok_def by blast
  then obtain x aid where x: "j_machine (the_job ?q rj) = Some x" "j_allocation_id (the_job ?q rj) = Some aid"
    "x \<in> machine_refs ?q" "m_name (the_machine ?q x) = mc_name m"
    unfolding runs_def id(2) m(3) by (elim exE conjE) (simp add: that)
  then have "runs_on ?q i x aid B" unfolding runs_on_def using rj m(3) by simp
  with m(2) x show ?thesis by blast
qed

lemma told_exclusive:
  assumes s: "in_step off p c" and i: "od_get (c_jobs c) i = Some r" "cj_boards (the_cjob c r) = Some B"
    "cj_allocated_machine (the_cjob c r) = Some m"
    and k: "od_get (c_jobs c) k = Some t" "cj_boards (the_cjob c t) = Some C" "cj_allocated_machine (the_cjob c t) = Some n"
    and ne: "i \<noteq> k" "mc_name m = mc_name n"
  shows "B \<inter> C = {}"
proof -
  let ?q = "c_queue c"
  obtain x aid where x: "runs_on ?q i x aid B" "x \<in> machine_refs ?q" "m_name (the_machine ?q x) = mc_name m"
    using told_runs[OF s i(1,2)] i(3) by auto
  obtain y aid' where y: "runs_on ?q k y aid' C" "y \<in> machine_refs ?q" "m_name (the_machine ?q y) = mc_name n"
    using told_runs[OF s k(1,2)] k(3) by auto
  obtain b where b: "state_ok b ?q" using in_stepD(5)[OF s] by blast
  then have jo: "jobs_ok ?q" and mo: "machines_ok ?q"
    and L: "ledger_ok allocator_ok live_ids allots (allocators ?q) (tenancies ?q)"
    by (simp_all add: state_ok_def queue_ok_def ledger_def)
  have at: "(mc_name m, x) \<in> set (jq_machines ?q)" "(mc_name m, y) \<in> set (jq_machines ?q)"
    using x(2,3) y(2,3) ne(2) mo unfolding machines_ok_def by auto
  have "distinct (od_keys (jq_machines ?q))" using mo by (simp add: machines_ok_def)
  from map_of_is_SomeI[OF this at(1)] map_of_is_SomeI[OF this at(2)] have "x = y" by simp
  moreover obtain r' t' where "tenancies ?q r' = Some (x, aid, B)" "tenancies ?q t' = Some (y, aid', C)"
    "j_id (the_job ?q r') = i" "j_id (the_job ?q t') = k"
    using x(1) y(1) runs_on_tenancy[OF jo] by blast
  ultimately show ?thesis using ba.ledger_exclusive[OF L, of r' x aid B t' aid' C] ne(1) by blast
qed

text \<open>
  C2. Clients never share boards. Over any history of the controller, with clients' requests that
  may fail, time-outs, answers of the BMPs, restarts, machines added and removed, the boards
  that two jobs were told on one machine are disjoint; each job that was told boards runs in
  the queue with exactly these boards, on the machine of that name.
\<close>

theorem clients_exclusive:
  assumes "served w c" "fair_world (cw_queue w)" "cw_names w {} = []"
    "od_get (c_jobs c) i = Some r" "cj_boards (the_cjob c r) = Some B" "cj_allocated_machine (the_cjob c r) = Some m"
  shows "(\<exists>x aid. runs_on (c_queue c) i x aid B \<and> m_name (the_machine (c_queue c) x) = mc_name m) \<and>
    (\<forall>k t C n. od_get (c_jobs c) k = Some t \<and> cj_boards (the_cjob c t) = Some C \<and>
       cj_allocated_machine (the_cjob c t) = Some n \<and> k \<noteq> i \<and> mc_name n = mc_name m \<longrightarrow> B \<inter> C = {})"
proof -
  note s = served_in_step[OF assms(2,3,1)]
  show ?thesis
  proof (intro conjI allI impI)
    show "\<exists>x aid. runs_on (c_queue c) i x aid B \<and> m_name (the_machine (c_queue c) x) = mc_name m"
      using told_runs[OF s assms(4,5)] assms(6) by auto
    fix k t C n
    assume k: "od_get (c_jobs c) k = Some t \<and> cj_boards (the_cjob c t) = Some C \<and>
      cj_allocated_machine (the_cjob c t) = Some n \<and> k \<noteq> i \<and> mc_name n = mc_name m"
    show "B \<inter> C = {}" by (rule told_exclusive[OF s assms(4-6), of k t C n]) (use k in auto)
  qed
qed

end
