(* ===== verification/ControllerDemo.thy ===== *)
theory ControllerDemo
  imports ControllerJobs
begin

text \<open>
  A small run of the controller, at which the properties are checked: one machine of two triads,
  each in a frame of its own, with a job on each.
\<close>

definition steady :: cworld where
  "steady = \<lparr> cw_queue = calm, cw_time = (\<lambda>n. rat_of_nat n), cw_boards = sorted_list_of_set,
     cw_links = sorted_list_of_set, cw_names = (\<lambda>S. filter (\<lambda>n. n \<in> S) [''m'', ''n'']) \<rparr>"

lemma steady_fair: "fair_world (cw_queue steady)" "cw_names steady {} = []"
  by (simp_all add: steady_def calm_fair)

definition two_triads :: machine_config where
  "two_triads = \<lparr> mc_name = ''m'', mc_tags = {''default''}, mc_width = 2, mc_height = 1,
     mc_dead_boards = {}, mc_dead_links = {},
     mc_board_locations = map (\<lambda>(x, z). ((x, 0, z), (0, x, z))) [(0, 0), (0, 1), (0, 2), (1, 0), (1, 1), (1, 2)],
     mc_bmp_ips = [((0, 0), ''bmp0''), ((0, 1), ''bmp1'')],
     mc_spinnaker_ips = [((0, 0, 0), ''a''), ((0, 0, 1), ''b''), ((0, 0, 2), ''c''),
       ((1, 0, 0), ''d''), ((1, 0, 1), ''e''), ((1, 0, 2), ''f'')] \<rparr>"

text \<open>The machine in service; one triad given away; both.\<close>

definition ask_triad :: ctl_op where
  "ask_triad = Create_job (Some ''h'') (Some ''me'') (Some (Some 60)) None None (Block 1 1) plain"

definition run0 :: controller where
  "run0 = snd (perform steady (Set_machines [(''m'', two_triads)]) (new_controller 1 10 True 0))"

definition run1 :: controller where "run1 = snd (perform steady ask_triad run0)"

definition run2 :: controller where "run2 = snd (perform steady ask_triad run1)"

lemma run0_ok: "fst (perform steady (Set_machines [(''m'', two_triads)]) (new_controller 1 10 True 0))"
  by code_simp

lemma runs_ok: "fst (perform steady ask_triad run0)" "fst (perform steady ask_triad run1)"
  by code_simp+

lemma run_allowed: "only_adds_and_removes (new_controller 1 10 True 0) [(''m'', two_triads)]"
  by (simp add: only_adds_and_removes_def named_def new_controller_def modified_machines_def two_triads_def)

lemma ask_allowed: "allowed ask_triad c"
  by (simp add: ask_triad_def request_ok_def plain_def)

lemma run_served: "served steady run0" "served steady run1" "served steady run2"
proof -
  show 0: "served steady run0"
    by (rule served.performed[OF served.created[of steady 1 10 True 0], of "Set_machines [(''m'', two_triads)]" True])
      (use run_allowed run0_ok in \<open>simp_all add: run0_def prod_eq_iff\<close>)
  have again: "served steady (snd (perform steady ask_triad c))" if "served steady c" "fst (perform steady ask_triad c)" for c
    by (rule served.performed[OF that(1) ask_allowed prod.collapse[symmetric]]) (use that(2) in simp_all)
  show 1: "served steady run1" using again[OF 0 runs_ok(1)] by (simp add: run1_def)
  show "served steady run2" using again[OF 1 runs_ok(2)] by (simp add: run2_def)
qed

lemma run2_facts:
  "c_jobs run2 = [(1, 0), (2, 1)] \<and> length (c_bmp_store run2) = 2 \<and>
   map cj_boards (c_job_store run2) = [Some {(0, 0, 0), (0, 0, 1), (0, 0, 2)}, Some {(1, 0, 0), (1, 0, 1), (1, 0, 2)}] \<and>
   map (map_option mc_name \<circ> cj_allocated_machine) (c_job_store run2) = [Some ''m'', Some ''m''] \<and>
   map cj_keepalive_until (c_job_store run2) = [Some 62, Some 65] \<and> map cj_keepalive (c_job_store run2) = [Some 60, Some 60] \<and>
   c_ticks run2 = 6 \<and> map (unanswered run2) [0, 1] = [1, 1] \<and> map cj_state (c_job_store run2) = [Power, Power]"
  by code_simp

end
