(* ===== verification/ControllerCorrect.thy ===== *)
theory ControllerCorrect
  imports ControllerDemo
begin

text \<open>
  What the controller does for its clients, over all its histories: who waits for what, when a
  job is ready and its boards are given back, which jobs time out, what is sent to the BMPs.
\<close>

section \<open>Who waits for what\<close>

lemma served_reachable: "served w c \<Longrightarrow> ctl_reachable w c"
proof (induction rule: served.induct)
  case (performed c op ok c')
  show ?case
    by (rule ctl_reachable.performed[OF performed.IH performed.hyps(3)]) (use performed.hyps(4) in \<open>cases op; simp\<close>)
qed (rule ctl_reachable.created)

lemma retired_not_live: "cbooks off c \<Longrightarrow> od_get (c_retired_jobs c) i \<noteq> None \<Longrightarrow> od_get (c_jobs c) i = None"
  using booksD(2) unfolding retired_known_def by blast

text \<open>
  C3. The books of the controller. In every state it can reach, whatever the queue reports and
  whatever operations raise: a live job has its own id, smaller than the next one, and is
  not retired; the counter of the job is the number of requests made for it that the BMPs
  have not answered, and while there are any its state is Power; and no more jobs are
  remembered as retired than the limit says.
\<close>

theorem counters_agree:
  assumes "ctl_reachable w c"
  shows "(\<forall>i r. od_get (c_jobs c) i = Some r \<longrightarrow>
      cj_id (the_cjob c r) = i \<and> i < c_next_id c \<and> od_get (c_retired_jobs c) i = None \<and>
      cj_requests_until_ready (the_cjob c r) = int (unanswered c r) \<and>
      (cj_state (the_cjob c r) \<noteq> Power \<longrightarrow> unanswered c r = 0)) \<and>
    int (length (c_retired_jobs c)) \<le> max 0 (c_max_retired_jobs c)"
proof -
  note b = booksD[OF reachable_books[OF assms]]
  have "cj_id (the_cjob c r) = i \<and> i < c_next_id c \<and> od_get (c_retired_jobs c) i = None \<and>
      cj_requests_until_ready (the_cjob c r) = int (unanswered c r) \<and>
      (cj_state (the_cjob c r) \<noteq> Power \<longrightarrow> unanswered c r = 0)" if i: "od_get (c_jobs c) i = Some r" for i r
  proof -
    have r: "r < length (c_job_store c)" "map cj_id (c_job_store c) ! r = i"
      using b(1) i unfolding jobs_known_def by blast+
    then have id: "cj_id (the_cjob c r) = i" "i \<in> set (map cj_id (c_job_store c))"
      using the_cjob_id[OF r(1)] nth_mem[of r "map cj_id (c_job_store c)"] by simp_all
    then have "i < c_next_id c" using b(1) unfolding jobs_known_def by blast
    moreover have "od_get (c_retired_jobs c) i = None"
    proof (rule ccontr)
      assume "od_get (c_retired_jobs c) i \<noteq> None"
      then have "od_get (c_jobs c) i = None" using b(2) unfolding retired_known_def by blast
      with i show False by simp
    qed
    moreover have "counter_ok c 0 r" using b(4) r(1) by (simp add: counted_def)
    ultimately show ?thesis using id(1) by (simp add: counter_ok_def) fastforce
  qed
  then show ?thesis using b(2) by (simp add: retired_known_def)
qed

theorem counters_agree_witness:
  "cj_requests_until_ready (the_cjob run2 1) = int (unanswered run2 1) \<and> unanswered run2 1 = 1"
proof -
  have "od_get (c_jobs run2) 2 = Some 1" "unanswered run2 1 = 1" using run2_facts by simp_all
  with counters_agree[OF served_reachable[OF run_served(3)]] show ?thesis by blast
qed

section \<open>Answers\<close>

lemma on_event_unknown:
  assumes "jobs_known c" "details c i = None" "on_event w ev c = (out, c')"
  shows "details c' i = None"
proof (cases ev)
  case (On_allocate k name B p tor)
  with assms(3) have "job_queue_on_allocate w k name B p tor c = (out, c')" by (simp add: on_event_def)
  from on_allocate_details[OF assms(1) this] assms(2) show ?thesis by (cases "i = k") auto
next
  case (On_free k reason)
  with assms(3) have "job_queue_on_free w k reason c = (out, c')" by (simp add: on_event_def)
  from on_free_details[OF this] assms(2) show ?thesis by (cases "i = k") auto
next
  case (On_cancel k reason)
  with assms(3) have "\<exists>reason'. teardown_job w k reason' c = (out, c')" by (auto simp: on_event_def job_queue_on_cancel_def)
  then have "details c' = (details c)(k := None)" using teardown_details by blast
  with assms(2) show ?thesis by simp
qed

lemma in_queue_unknown:
  assumes b: "cbooks off c" and i: "details c i = None" and run: "in_queue w call c = (out, c')"
  shows "details c' i = None"
proof -
  obtain o1 q where call: "call (c_queue c) = (o1, q)" by (cases "call (c_queue c)")
  let ?evs = "drop (length (jq_events (c_queue c))) (jq_events q)"
  obtain o2 c2 where ev: "for_each ?evs (on_event w) (c\<lparr>c_queue := q\<rparr>) = (o2, c2)"
    by (cases "for_each ?evs (on_event w) (c\<lparr>c_queue := q\<rparr>)")
  have "books_of off (fixed_of c) c2 \<and> details c2 i = None"
  proof (rule for_each_invar[where P = "\<lambda>s. books_of off (fixed_of c) s \<and> details s i = None", OF _ _ ev])
    show "books_of off (fixed_of c) (c\<lparr>c_queue := q\<rparr>) \<and> details (c\<lparr>c_queue := q\<rparr>) i = None"
      using b i by (simp add: books_of_def)
    fix x s r s' assume s: "books_of off (fixed_of c) s \<and> details s i = None" and e: "on_event w x s = (r, s')"
    have "jobs_known s" using s booksD(1) unfolding books_of_def by blast
    then show "books_of off (fixed_of c) s' \<and> details s' i = None"
      using on_event_books[OF conjunct1[OF s] e] on_event_unknown[OF _ conjunct2[OF s] e] by blast
  qed
  moreover have "c' = c2" using run call ev by (auto simp: in_queue_def split: sum.splits)
  ultimately show ?thesis by simp
qed

text \<open>
  Destroying a job that is live, when that returns, retires it: the queue reports it freed or cancelled first.
\<close>

lemma in_queue_first:
  assumes b: "cbooks off c" and q: "call (c_queue c) = (o1, q)" and evs: "jq_events q = jq_events (c_queue c) @ ev # evs"
    and first: "\<And>out c'. on_event w ev (c\<lparr>c_queue := q\<rparr>) = (out, c') \<Longrightarrow> is_ok out \<Longrightarrow> details c' i = None"
    and run: "in_queue w call c = (Inr u, c')"
  shows "details c' i = None"
proof -
  obtain o2 c2 where ev: "on_event w ev (c\<lparr>c_queue := q\<rparr>) = (o2, c2)" by (cases "on_event w ev (c\<lparr>c_queue := q\<rparr>)")
  have bq: "books_of off (fixed_of c) (c\<lparr>c_queue := q\<rparr>)" using b by (simp add: books_of_def)
  obtain x o3 where o2: "o2 = Inr x" and rest: "for_each evs (on_event w) c2 = (o3, c')"
    using run q evs ev by (auto simp: in_queue_def and_then_def split: sum.splits prod.splits)
  have "books_of off (fixed_of c) c2 \<and> details c2 i = None"
    using on_event_books[OF bq ev] first[OF ev] o2 by simp
  then have "books_of off (fixed_of c) c' \<and> details c' i = None"
  proof (rule for_each_invar[where P = "\<lambda>s. books_of off (fixed_of c) s \<and> details s i = None", OF _ _ rest, rotated])
    fix x s r s' assume s: "books_of off (fixed_of c) s \<and> details s i = None" and e: "on_event w x s = (r, s')"
    have "jobs_known s" using s booksD(1) unfolding books_of_def by blast
    then show "books_of off (fixed_of c) s' \<and> details s' i = None"
      using on_event_books[OF conjunct1[OF s] e] on_event_unknown[OF _ conjunct2[OF s] e] by blast
  qed
  then show ?thesis ..
qed

lemma destroy_job_events:
  assumes t: "tidy q" and i: "od_get (jq_jobs q) i = Some r" and run: "destroy_job w i reason q = (out, q')"
  shows "\<exists>ev evs. jq_events q' = jq_events q @ ev # evs \<and> (ev = On_cancel i reason \<or> ev = On_free i reason)"
proof -
  have id: "j_id (the_job q r) = i" using tidy_get[OF t i] by blast
  have more: "\<exists>evs. jq_events q' = jq_events q1 @ evs" if "tidy q1" "process_queue w q1 = (out, q')" for q1
    using process_queue_traced[OF that(2), of False] that(1) by (auto simp: traced_def)
  show ?thesis
  proof (cases "j_pending (the_job q r)")
    case True
    let ?q = "(callback (On_cancel i reason) (set_job r ((the_job q r)\<lparr>j_pending := False\<rparr>) q))\<lparr>jq_jobs := od_del i (jq_jobs q)\<rparr>"
    have "tidy ?q" using traced_cancel[OF i True, of False reason] t by (simp add: traced_def id)
    moreover have "process_queue w ?q = (out, q')" using run i True id by (simp add: destroy_job_def Let_def)
    ultimately obtain evs where "jq_events q' = jq_events ?q @ evs" using more by blast
    then show ?thesis by (simp add: callback_def)
  next
    case False
    let ?q = "callback (On_free i reason) q"
    have "tidy ?q" using traced_free[OF i False, of False reason] t by (simp add: traced_def id)
    moreover have "process_queue w ?q = (out, q')" using run i False id by (simp add: destroy_job_def Let_def)
    ultimately obtain evs where "jq_events q' = jq_events ?q @ evs" using more by blast
    then show ?thesis by (simp add: callback_def)
  qed
qed

lemma destroy_retires:
  assumes b: "cbooks off c" and t: "tidy (c_queue c)" and run: "ctl_destroy_job w i reason c = (Inr u, c')"
  shows "od_get (c_jobs c') i = None"
proof (cases "od_get (c_jobs c) i")
  case None
  with run show ?thesis by (simp add: ctl_destroy_job_def)
next
  case (Some r)
  with run have q: "in_queue w (destroy_job (cw_queue w) i reason) c = (Inr u, c')" by (simp add: ctl_destroy_job_def)
  obtain o1 q' where d: "destroy_job (cw_queue w) i reason (c_queue c) = (o1, q')" by (cases "destroy_job (cw_queue w) i reason (c_queue c)")
  have "od_get (jq_jobs (c_queue c)) i \<noteq> None"
  proof
    assume "od_get (jq_jobs (c_queue c)) i = None"
    with q show False by (simp add: destroy_job_def in_queue_def)
  qed
  then obtain s where "od_get (jq_jobs (c_queue c)) i = Some s" by blast
  from destroy_job_events[OF t this d] obtain ev evs where
    ev: "jq_events q' = jq_events (c_queue c) @ ev # evs" "ev = On_cancel i reason \<or> ev = On_free i reason" by blast
  have "details c' i = None"
  proof (rule in_queue_first[OF b d ev(1) _ q])
    fix out c1 assume e: "on_event w ev (c\<lparr>c_queue := q'\<rparr>) = (out, c1)" "is_ok out"
    from ev(2) show "details c1 i = None"
    proof
      assume "ev = On_cancel i reason"
      with e(1) have "\<exists>reason'. teardown_job w i reason' (c\<lparr>c_queue := q'\<rparr>) = (out, c1)" by (auto simp: on_event_def job_queue_on_cancel_def)
      then show ?thesis using teardown_details by fastforce
    next
      assume "ev = On_free i reason"
      with e(1) have "job_queue_on_free w i reason (c\<lparr>c_queue := q'\<rparr>) = (out, c1)" by (simp add: on_event_def)
      from on_free_details[OF this] e(2) show ?thesis by auto
    qed
  qed
  then show ?thesis by (simp add: details_def)
qed

text \<open>The state after an answer was counted, and after the last one.\<close>

definition counted_down :: "cjob_ref \<Rightarrow> controller \<Rightarrow> controller" where
  "counted_down r c = add_outstanding r (- 1) c"

definition all_answered :: "cjob_ref \<Rightarrow> controller \<Rightarrow> controller" where
  "all_answered r c = (let c = counted_down r c in set_cjob r ((the_cjob c r)\<lparr>cj_state := Ready\<rparr>) c)"

lemma count_last:
  assumes b: "cbooks (\<lambda>x. if x = r then 1 else 0) c" and r: "r < length (c_job_store c)" and i: "cj_id (the_cjob c r) = i"
  shows "(let c = counted_down r c
      in if cj_requests_until_ready (the_cjob c r) < 0 then (Inl AssertionError, c)
         else if cj_requests_until_ready (the_cjob c r) \<noteq> 0 then (Inr (), c) else answer_counted w r c) =
    (if 0 < unanswered c r then (Inr (), counted_down r c)
     else if od_get (c_jobs c) i \<noteq> None
       then (Inr (), (job_changed i (all_answered r c))\<lparr>c_wakes := c_wakes c + (if c_on_background c then 1 else 0)\<rparr>)
     else if od_get (c_retired_jobs c) i \<noteq> None then in_queue w (jq_free (cw_queue w) i) (all_answered r c)
     else (Inr (), all_answered r c))" (is "?run = _")
proof -
  note n = count_answer[OF b r, folded counted_down_def]
  have s: "c_jobs (counted_down r c) = c_jobs c" "c_retired_jobs (counted_down r c) = c_retired_jobs c"
    "c_wakes (counted_down r c) = c_wakes c" "c_on_background (counted_down r c) = c_on_background c"
    "cj_id (the_cjob (counted_down r c) r) = i"
    using r by (simp_all add: counted_down_def add_outstanding_def Let_def i[symmetric] the_cjob_def set_cjob_def)
  have s2: "c_jobs (all_answered r c) = c_jobs c" "c_retired_jobs (all_answered r c) = c_retired_jobs c"
    "c_wakes (all_answered r c) = c_wakes c" "c_on_background (all_answered r c) = c_on_background c"
    using s by (simp_all add: all_answered_def Let_def) (simp_all add: set_cjob_def)
  show ?thesis
  proof (cases "unanswered c r = 0")
    case False
    with n(2) show ?thesis by (simp add: Let_def)
  next
    case True
    have ans: "?run = answer_counted w r (counted_down r c)" using n(2) True by (simp add: Let_def)
    have aa: "all_answered r c = set_cjob r ((the_cjob (counted_down r c) r)\<lparr>cj_state := Ready\<rparr>) (counted_down r c)"
      by (simp add: all_answered_def Let_def)
    have key: "(x \<in> fst ` set d) = (od_get d x \<noteq> None)" for x and d :: "(int, 'v) odict" unfolding od_get_None_iff by simp
    have ba: "cbooks (\<lambda>_. 0) (all_answered r c)"
    proof -
      have f: "frame_of (all_answered r c) = frame_of (counted_down r c)" unfolding aa by (rule set_cjob_frame) simp
      have r2: "r < length (c_job_store (counted_down r c))" using r by (simp add: counted_down_def add_outstanding_def Let_def)
      have "counter_ok (counted_down r c) 0 r" using booksD(4)[OF n(1)] r2 by (simp add: counted_def)
      then have "counted (\<lambda>_. 0) (all_answered r c)" unfolding aa
        using set_cjob_counted[OF booksD(4)[OF n(1)] r2] n(2) True by (simp add: counter_ok_def)
      then show ?thesis by (rule frame_books[OF f n(1)])
    qed
    consider (live) "od_get (c_jobs c) i \<noteq> None" | (retired) "od_get (c_jobs c) i = None" "od_get (c_retired_jobs c) i \<noteq> None"
      | (gone) "od_get (c_jobs c) i = None" "od_get (c_retired_jobs c) i = None" by blast
    then show ?thesis
    proof cases
      case live
      have "od_get (c_retired_jobs c) i = None"
      proof (rule ccontr)
        assume "od_get (c_retired_jobs c) i \<noteq> None"
        from retired_not_live[OF n(1) this[folded s(2)]] live s(1) show False by simp
      qed
      with live True show ?thesis unfolding ans unfolding answer_counted_def Let_def aa[symmetric] s
        by (simp add: key s2 and_then_def return_def)
    next
      case gone
      with True show ?thesis unfolding ans unfolding answer_counted_def Let_def aa[symmetric] s
        by (simp add: key s2 and_then_def return_def)
    next
      case retired
      obtain o1 c1 where f: "in_queue w (jq_free (cw_queue w) i) (all_answered r c) = (o1, c1)"
        by (cases "in_queue w (jq_free (cw_queue w) i) (all_answered r c)")
      have "details (all_answered r c) i = None" using retired(1) by (simp add: details_def s2)
      then have "details c1 i = None" by (rule in_queue_unknown[OF ba _ f])
      then have "od_get (c_jobs c1) i = None" by (simp add: details_def)
      with retired True f show ?thesis unfolding ans unfolding answer_counted_def Let_def aa[symmetric] s
        by (cases o1) (simp_all add: key and_then_def)
    qed
  qed
qed

text \<open>
  C4. Counting answers. When a BMP answers a request, that answer was outstanding. If the request
  failed, the job is destroyed first and is then no longer live (whenever the books of the queue
  are tidy, as they are after every history of the queue); if destroying it raises, nothing is counted. Then, if more answers are outstanding for the job (those of requests
  made meanwhile included), only the counter goes down. If this was the last one, the job becomes
  Ready; if the job is live, clients are told and nothing else happens; if it is retired,
  exactly now the queue gets its boards back, and the outcome is that of the queue; if the job
  has even been forgotten, nothing happens, and the boards stay with it.
\<close>

theorem answer_counts_down:
  fixes c k q
  defines "r \<equiv> on_done q"
  defines "i \<equiv> cj_id (the_cjob c r)"
  assumes c: "ctl_reachable w c" and k: "k < length (c_bmp_store c)" and q: "bc_pc (c_bmp_store c ! k) = Busy q"
  shows "0 < unanswered c r \<and>
    (case if success then (Inr (), take_answer k c)
          else ctl_destroy_job w i (Some (''Machine configuration failed.'' @
                 (case reason of None \<Rightarrow> '''' | Some s \<Rightarrow> '' Error: '' @ s))) (take_answer k c) of
       (Inl e, d) \<Rightarrow> bmp_answer w k success reason c = (Inl e, d)
     | (Inr u, d) \<Rightarrow>
         (success \<or> \<not> tidy (c_queue c) \<or> od_get (c_jobs d) i = None) \<and>
         bmp_answer w k success reason c =
           (if 0 < unanswered d r then (Inr (), counted_down r d)
            else if od_get (c_jobs d) i \<noteq> None
              then (Inr (), (job_changed i (all_answered r d))
                      \<lparr>c_wakes := c_wakes d + (if c_on_background d then 1 else 0)\<rparr>)
            else if od_get (c_retired_jobs d) i \<noteq> None
              then in_queue w (jq_free (cw_queue w) i) (all_answered r d)
            else (Inr (), all_answered r d)))"
proof -
  note t = take_answer_books[OF reachable_books[OF c] k q, folded r_def]
  define off where "off = (\<lambda>x. if x = r then 1 else 0 :: int)"
  define p where "p = (if success then (Inr (), take_answer k c)
    else ctl_destroy_job w i (Some (''Machine configuration failed.'' @ (case reason of None \<Rightarrow> '''' | Some s \<Rightarrow> '' Error: '' @ s))) (take_answer k c))"
  obtain out d where d: "p = (out, d)" by (cases p)
  have i: "cj_id (the_cjob (take_answer k c) r) = i" by (simp add: i_def take_answer_def the_cjob_def)
  have eq: "bmp_answer w k success reason c = (case out of Inl e \<Rightarrow> (Inl e, d) | Inr u \<Rightarrow>
      (let c = counted_down r d
       in if cj_requests_until_ready (the_cjob c r) < 0 then (Inl AssertionError, c)
          else if cj_requests_until_ready (the_cjob c r) \<noteq> 0 then (Inr (), c) else answer_counted w r c))"
    unfolding bmp_answer_def q thread_pc.case complete_eq and_then_def counted_down_def r_def[symmetric] i p_def[symmetric] d
    by simp
  have bt: "books_of off (fixed_of c) (take_answer k c)" using t by (simp add: books_of_def off_def)
  have bd: "books_of off (fixed_of c) d"
    using d bt ctl_destroy_job_books[OF bt] unfolding p_def by (cases success) auto
  have rd: "r < length (c_job_store d)" using bd t fixed_length unfolding books_of_def by metis
  have "map cj_id (c_job_store d) = map cj_id (c_job_store c)" using bd by (simp add: books_of_def fixed_of_def)
  then have "map cj_id (c_job_store d) ! r = map cj_id (c_job_store c) ! r" by simp
  then have id: "cj_id (the_cjob d r) = i" using rd t by (simp add: i_def the_cjob_def)
  have u: "0 < unanswered c r" using t by auto
  have gone: "success \<or> \<not> tidy (c_queue c) \<or> od_get (c_jobs d) i = None" if "out = Inr ()"
  proof (cases "success \<or> \<not> tidy (c_queue c)")
    case False
    then have "tidy (c_queue (take_answer k c))" by (simp add: take_answer_def)
    from destroy_retires[OF conjunct1[OF bt[unfolded books_of_def]] this] d that False show ?thesis unfolding p_def by simp
  qed blast
  have cb: "cbooks (\<lambda>x. if x = r then 1 else 0) d" using bd by (simp add: books_of_def off_def)
  show ?thesis unfolding p_def[symmetric] d using u gone eq count_last[OF cb rd id, of w] by (cases out) simp_all
qed

text \<open>The BMP of the second triad takes its request.\<close>

definition run_busy :: controller where
  "run_busy = snd (perform steady (Bmp_step 1) (snd (perform steady (Bmp_step 1) run2)))"

lemma run_busy_served: "served steady run_busy"
proof -
  have again: "served steady (snd (perform steady (Bmp_step 1) c))" if "served steady c" for c
    by (rule served.performed[OF that _ prod.collapse[symmetric]]) simp_all
  show ?thesis unfolding run_busy_def by (intro again run_served)
qed

lemma run_busy_facts:
  "length (c_bmp_store run_busy) = 2 \<and> (case bc_pc (c_bmp_store run_busy ! 1) of Busy q \<Rightarrow> on_done q = 1 | _ \<Rightarrow> False) \<and>
   cj_id (the_cjob run_busy 1) = 2 \<and> od_get (c_jobs run_busy) 2 = Some 1 \<and> unanswered run_busy 1 = 1"
  by code_simp

lemma run_failed_facts:
  "is_ok (fst (ctl_destroy_job steady 2 (Some ''Machine configuration failed.'') (take_answer 1 run_busy))) \<and>
   0 < unanswered (snd (ctl_destroy_job steady 2 (Some ''Machine configuration failed.'') (take_answer 1 run_busy))) 1"
  by code_simp

theorem answer_counts_down_witness:
  "(\<exists>c'. bmp_answer steady 1 True None run_busy = (Inr (), c') \<and> 2 \<in> c_changed_jobs c') \<and>
   (\<exists>c'. bmp_answer steady 1 False None run_busy = (Inr (), c') \<and> od_get (c_jobs c') 2 = None)"
proof
  obtain q where q: "bc_pc (c_bmp_store run_busy ! 1) = Busy q" "on_done q = 1"
    using run_busy_facts by (auto split: thread_pc.splits)
  have f: "od_get (c_jobs run_busy) 2 = Some 1" "unanswered run_busy 1 = 1" "1 < length (c_bmp_store run_busy)"
    and id: "cj_id (the_cjob run_busy 1) = 2"
    using run_busy_facts by simp_all
  note b = reachable_books[OF served_reachable[OF run_busy_served]]
  note a = answer_counts_down[OF served_reachable[OF run_busy_served] f(3) q(1), where reason = None, unfolded q(2) id]
  have "unanswered (take_answer 1 run_busy) 1 = 0"
    using take_answer_books[OF b f(3) q(1), of 1] f(2) q(2) by simp
  moreover have "c_jobs (take_answer 1 run_busy) = c_jobs run_busy" by (simp add: take_answer_def)
  ultimately show "\<exists>c'. bmp_answer steady 1 True None run_busy = (Inr (), c') \<and> 2 \<in> c_changed_jobs c'"
    using a[of True] f(1) by (simp add: job_changed_def)
  obtain d where d: "ctl_destroy_job steady 2 (Some ''Machine configuration failed.'') (take_answer 1 run_busy) = (Inr (), d)" "0 < unanswered d 1"
    using run_failed_facts by (cases "ctl_destroy_job steady 2 (Some ''Machine configuration failed.'') (take_answer 1 run_busy)") auto
  have "tidy (c_queue run_busy)" using served_in_step[OF steady_fair run_busy_served] by (rule in_stepD(3))
  with a[of False] d have "bmp_answer steady 1 False None run_busy = (Inr (), counted_down 1 d)" "od_get (c_jobs d) 2 = None" by simp_all
  then show "\<exists>c'. bmp_answer steady 1 False None run_busy = (Inr (), c') \<and> od_get (c_jobs c') 2 = None"
    by (simp add: counted_down_def add_outstanding_def Let_def set_cjob_def)
qed

section \<open>Who has which boards\<close>

theorem clients_exclusive_witness:
  "(\<exists>x aid. runs_on (c_queue run2) 1 x aid {(0, 0, 0), (0, 0, 1), (0, 0, 2)} \<and>
     m_name (the_machine (c_queue run2) x) = ''m'') \<and>
   {(0, 0, 0), (0, 0, 1), (0, 0, 2)} \<inter> {(1, 0, 0), (1, 0, 1), (1, 0, 2)} = ({} :: board set)"
proof -
  have j: "od_get (c_jobs run2) 1 = Some 0" "od_get (c_jobs run2) 2 = Some 1" using run2_facts by simp_all
  have B: "cj_boards (the_cjob run2 0) = Some {(0, 0, 0), (0, 0, 1), (0, 0, 2)}"
    "cj_boards (the_cjob run2 1) = Some {(1, 0, 0), (1, 0, 1), (1, 0, 2)}"
    using run2_facts unfolding the_cjob_def by (auto simp: map_eq_Cons_conv)
  obtain m n where m: "cj_allocated_machine (the_cjob run2 0) = Some m" "mc_name m = ''m''"
    and n: "cj_allocated_machine (the_cjob run2 1) = Some n" "mc_name n = ''m''"
    using run2_facts unfolding the_cjob_def by (auto simp: map_eq_Cons_conv)
  note c = clients_exclusive[OF run_served(3) steady_fair j(1) B(1) m(1)]
  have "{(0, 0, 0), (0, 0, 1), (0, 0, 2)} \<inter> {(1, 0, 0), (1, 0, 1), (1, 0, 2)} = ({} :: board set)"
    by (rule conjunct2[OF c, rule_format, of 2 1 _ n]) (simp add: j(2) B(2) n m(2) del: One_nat_def)
  then show ?thesis by (rule conjI[OF conjunct1[OF c, unfolded m(2)]])
qed

end
