(* ===== verification/LocationsCorrect.thy ===== *)
theory LocationsCorrect
  imports Locations ControllerCorrect
begin

text \<open>
  Jobs and places: the dimensions in chips of a job, the place of a chip within its job, and which
  job is found on a board.
\<close>

section \<open>The geometry of SpiNN-5 boards\<close>

text \<open>The 48 chips of a board, the three boards of a triad, and where a chip is among them.\<close>

definition on_spinn5 :: "int \<times> int \<Rightarrow> bool" where
  "on_spinn5 p = (case p of (x, y) \<Rightarrow> 0 \<le> y \<and> y \<le> 7 \<and> max 0 (y - 3) \<le> x \<and> x \<le> min 7 (y + 4))"

definition spinn5 :: geometry where
  "spinn5 =
     (let local = \<lambda>x y. hd (filter on_spinn5 (map (\<lambda>(ox, oy). ((x - ox) mod 12, (y - oy) mod 12)) [(0, 0), (8, 4), (4, 8)]))
      in \<lparr> g_eth = \<lambda>x y w h. case local x y of (lx, ly) \<Rightarrow> ((x - lx) mod w, (y - ly) mod h), g_local = local \<rparr>)"

lemma spinn5_table:
  "\<forall>x\<in>set [0..11]. \<forall>y\<in>set [0..11].
     case g_local spinn5 x y of (lx, ly) \<Rightarrow>
       0 \<le> lx \<and> lx < 8 \<and> 0 \<le> ly \<and> ly < 8 \<and> ((x - lx) mod 12, (y - ly) mod 12) \<in> set [(0, 0), (8, 4), (4, 8)]"
  by code_simp

lemma spinn5_ok: "geometry_ok spinn5"
proof -
  have r: "g_local spinn5 (x mod 12) (y mod 12) = g_local spinn5 x y" for x y
    by (simp add: spinn5_def Let_def mod_diff_left_eq)
  have e: "g_eth spinn5 x y w h = (case g_local spinn5 x y of (lx, ly) \<Rightarrow> ((x - lx) mod w, (y - ly) mod h))" for x y w h
    by (simp add: spinn5_def Let_def)
  have t: "case g_local spinn5 x y of (lx, ly) \<Rightarrow>
       0 \<le> lx \<and> lx < 8 \<and> 0 \<le> ly \<and> ly < 8 \<and> ((x - lx) mod 12, (y - ly) mod 12) \<in> ethernet_residues" for x y
  proof -
    have i: "x mod 12 \<in> set [0..11]" "y mod 12 \<in> set [0..11]" by simp_all
    note bspec[OF bspec[OF spinn5_table i(1)] i(2)]
    then show ?thesis unfolding r by (simp add: mod_diff_left_eq ethernet_residues_def split: prod.splits)
  qed
  have z: "\<forall>(x, y)\<in>ethernet_residues. g_local spinn5 x y = (0, 0)" unfolding ethernet_residues_def by code_simp
  show ?thesis unfolding geometry_ok_def
  proof (intro conjI allI, goal_cases)
    case (1 x y)
    show ?case using t[of x y] by (cases "g_local spinn5 x y") (simp add: r e)
  qed (rule z)
qed

section \<open>Dimensions\<close>

text \<open>
  What the queue allocates: a block of triads of which the first board and some board of the last
  triad work, and which wraps around only where it is as large as the machine; or a board.
\<close>

definition triad_block :: "machine_config \<Rightarrow> wrap_around \<Rightarrow> board set \<Rightarrow> int \<Rightarrow> int \<Rightarrow> int \<Rightarrow> int \<Rightarrow> bool" where
  "triad_block m torus B ox oy w h \<longleftrightarrow>
     finite B \<and> 1 < card B \<and> (ox, oy, 0) \<in> B \<and> (\<exists>z. (ox + w - 1, oy + h - 1, z) \<in> B) \<and>
     (\<forall>(x, y, z)\<in>B. ox \<le> x \<and> x < ox + w \<and> oy \<le> y \<and> y < oy + h \<and> 0 \<le> z) \<and>
     (has_x torus \<longrightarrow> w = mc_width m) \<and> (has_y torus \<longrightarrow> h = mc_height m)"

lemma block_corners:
  assumes "triad_block m torus B ox oy w h"
  shows "Min B = (ox, oy, 0)" "min_corner B = (ox, oy, 0)" "\<exists>z. Max B = (ox + w - 1, oy + h - 1, z)"
proof -
  have f: "finite B" and o: "(ox, oy, 0) \<in> B" and b: "\<And>x y z. (x, y, z) \<in> B \<Longrightarrow> ox \<le> x \<and> x < ox + w \<and> oy \<le> y \<and> y < oy + h \<and> 0 \<le> z"
    using assms by (auto simp: triad_block_def)
  show "Min B = (ox, oy, 0)"
  proof (rule Min_eqI[OF f _ o])
    fix p assume "p \<in> B" with b show "(ox, oy, 0) \<le> p" by (cases p) (fastforce simp: less_eq_prod_def)
  qed
  have "Min (fst ` B) = ox" "Min ((fst \<circ> snd) ` B) = oy" "Min ((snd \<circ> snd) ` B) = 0"
    using f o b by (auto intro!: Min_eqI image_eqI[OF _ o])
  then show "min_corner B = (ox, oy, 0)" by (simp add: min_corner_def)
  obtain z where t: "(ox + w - 1, oy + h - 1, z) \<in> B" using assms by (auto simp: triad_block_def)
  obtain mx my mz where M: "Max B = (mx, my, mz)" by (cases "Max B")
  have "Max B \<in> B" using f o by (intro Max_in) auto
  then have "mx < ox + w" "my < oy + h" using b M by auto
  moreover have "(ox + w - 1, oy + h - 1, z) \<le> (mx, my, mz)" using Max_ge[OF f t] M by simp
  ultimately show "\<exists>z. Max B = (ox + w - 1, oy + h - 1, z)" unfolding M by (auto simp: less_eq_prod_def)
qed

lemma block_dimensions:
  assumes "triad_block m torus B ox oy w h"
  shows "job_dimensions B torus = triad_dimensions_to_chips w h torus"
proof -
  have "1 < card B" using assms by (simp add: triad_block_def)
  with block_corners[OF assms] show ?thesis by (auto simp: job_dimensions_def)
qed


section \<open>Chips within a job\<close>

lemma job_among_found:
  assumes "job_among c jobs m b = Inr (Some (i, r))"
  shows "(i, r) \<in> set jobs" "\<exists>n B. cj_allocated_machine (the_cjob c r) = Some n \<and> same_machine n m \<and>
    cj_boards (the_cjob c r) = Some B \<and> b \<in> B"
  using assms by (induction c jobs m b rule: job_among.induct) (auto split: option.splits if_splits)

text \<open>Going to the job's coordinates and back, in one direction.\<close>

lemma wrap_back:
  fixes s k W dx cx lx X :: int
  assumes "X = (cx - lx) mod W" "0 \<le> X - dx + lx" "X - dx + lx < k \<or> k = W"
  shows "((X - dx + lx) mod k + dx) mod W = cx mod W"
proof -
  have "(X + lx) mod W = cx mod W" using assms(1) by (simp add: mod_add_left_eq)
  moreover have "((X - dx + lx) mod k + dx) mod W = (X + lx) mod W"
  proof (cases "k = W")
    case True
    then have "((X - dx + lx) mod k + dx) mod W = (X - dx + lx + dx) mod W" by (simp add: mod_add_left_eq)
    then show ?thesis by (simp add: algebra_simps)
  next
    case False
    with assms(2,3) show ?thesis by (simp add: algebra_simps)
  qed
  ultimately show ?thesis by simp
qed

text \<open>What jobs have: a block of triads, or one board.\<close>

definition job_shape :: "machine_config \<Rightarrow> wrap_around \<Rightarrow> board set \<Rightarrow> bool" where
  "job_shape m torus B \<longleftrightarrow>
     (\<exists>ox oy w h. triad_block m torus B ox oy w h) \<or> (\<exists>x y z. B = {(x, y, z)} \<and> z \<in> {0, 1, 2})"

lemma job_extent:
  assumes "job_shape m torus B" "(x, y, z) \<in> B" "z \<in> {0, 1, 2}" "0 \<le> lx" "lx < 8" "0 \<le> ly" "ly < 8"
    and "job_dimensions B torus = (W, H)" "0 < mc_width m" "0 < mc_height m"
  obtains ox oy oz bx b_y dx dy where "min_corner B = (ox, oy, oz)" "board_to_chip ox oy oz = (dx, dy)"
    "board_to_chip (x - ox) (y - oy) (z - oz) = (bx, b_y)" "board_to_chip x y z = (bx + dx, b_y + dy)" "B \<noteq> {}"
    "0 < W" "0 \<le> bx + lx" "bx + lx < W \<or> W = 12 * mc_width m" "0 < H" "0 \<le> b_y + ly" "b_y + ly < H \<or> H = 12 * mc_height m"
  using assms(1) unfolding job_shape_def
proof (elim disjE exE conjE)
  fix ox oy w h assume b: "triad_block m torus B ox oy w h"
  have r: "ox \<le> x" "x < ox + w" "oy \<le> y" "y < oy + h" and t: "has_x torus \<Longrightarrow> w = mc_width m" "has_y torus \<Longrightarrow> h = mc_height m"
    using b assms(2) by (auto simp: triad_block_def)
  obtain bx b_y where c: "board_to_chip (x - ox) (y - oy) z = (bx, b_y)" by (cases "board_to_chip (x - ox) (y - oy) z")
  have d: "triad_dimensions_to_chips w h torus = (W, H)" using assms(8) block_dimensions[OF b] by simp
  have "0 \<le> bx + lx \<and> (bx + lx < W \<or> W = 12 * mc_width m) \<and> 0 \<le> b_y + ly \<and> (b_y + ly < H \<or> H = 12 * mc_height m) \<and> 0 < W \<and> 0 < H"
    using r t assms(3-7) c d
    by (cases torus) (auto simp: board_to_chip_def triad_dimensions_to_chips_def Let_def has_x_def has_y_def)
  moreover have "board_to_chip x y z = (bx + 12 * ox, b_y + 12 * oy)" using board_to_chip_shift[of "x - ox" ox "y - oy" oy z] c by simp
  ultimately show thesis
    using block_corners(2)[OF b] assms(2) c by (intro that[of ox oy 0 "12 * ox" "12 * oy" bx b_y]) (auto simp: board_to_chip_def)
next
  fix x' y' z' assume b: "B = {(x', y', z')}" "z' \<in> {0, 1, 2}"
  then have "x' = x" "y' = y" "z' = z" using assms(2) by simp_all
  obtain dx dy where d: "board_to_chip x y z = (dx, dy)" by (cases "board_to_chip x y z")
  have "W = 8" "H = 8" using assms(8) b(1) by (simp_all add: job_dimensions_def)
  with assms(4-7) b d \<open>x' = x\<close> \<open>y' = y\<close> \<open>z' = z\<close> show thesis
    by (intro that[of x y z dx dy 0 0]) (auto simp: min_corner_def board_to_chip_def)
qed

lemma job_found:
  assumes "distinct (od_keys (c_jobs c))" "od_get (c_jobs c) i = Some r" "job_for_location c m b = Inr (Some (i, t))"
  shows "t = r"
proof -
  have "(i, t) \<in> set (c_jobs c)" using job_among_found(1)[OF assms(3)[unfolded job_for_location_def]] .
  from map_of_is_SomeI[OF assms(1) this] assms(2) show ?thesis by simp
qed

text \<open>
  C14. Chips within a job. Take a job that has one board, or a block of triads of which the first board
  and some board of the last triad work. When \<open>where_is\<close> finds a chip of the machine in
  that job, the place within the job that it reports lies inside the dimensions of the job, and
  asking for that place of the job leads back to the same answer. (When all boards of the
  last triad are dead the dimensions may be too small, and the way back then fails:
  \<open>short_dimensions\<close> below has a run.)
\<close>

theorem job_chip_roundtrip:
  assumes g: "geometry_ok g" and c: "ctl_reachable w c" and i: "od_get (c_jobs c) i = Some r"
    and j: "cj_boards (the_cjob c r) = Some B" "cj_allocated_machine (the_cjob c r) = Some n"
    and dim: "job_dimensions B torus = (W, H)" "cj_width (the_cjob c r) = Some W" "cj_height (the_cjob c r) = Some H"
    and m: "od_get (c_machines c) (mc_name n) = Some m" "0 < mc_width m" "0 < mc_height m" "job_shape m torus B"
    and q: "where_is g (By_chip (mc_name n) cx cy) c = Inr (Some l)" "at_job_id l = Some i"
  shows "\<exists>jx jy. at_job_chip l = Some (jx, jy) \<and> 0 \<le> jx \<and> jx < W \<and> 0 \<le> jy \<and> jy < H \<and>
    where_is g (By_job_chip i jx jy) c = Inr (Some l)"
proof -
  let ?W = "12 * mc_width m" and ?H = "12 * mc_height m"
  have dj: "distinct (od_keys (c_jobs c))" using booksD(1)[OF reachable_books[OF c]] by (simp add: jobs_known_def)
  obtain lx ly where l: "g_local g cx cy = (lx, ly)" by (cases "g_local g cx cy")
  note lr = geometryD(1-4)[OF g l]
  obtain x y z where b: "in_system (mc_width m) (mc_height m) (x, y, z)"
    "board_to_chip x y z = ((cx - lx) mod ?W, (cy - ly) mod ?H)"
    by (rule chip_to_board_at[OF g m(2,3) l])
  have z: "z \<in> {0, 1, 2}" using b(1) by (auto simp: in_system_def)
  have loc: "locate g c (mc_name n) m only cx cy = seen_at c (mc_name n) m only (x, y, z) (cx mod ?W, cy mod ?H) (lx, ly)" for only
    by (rule locate_at[OF g l b])
  with q(1) m(1) have "seen_at c (mc_name n) m None (x, y, z) (cx mod ?W, cy mod ?H) (lx, ly) = Inr (Some l)"
    by (simp add: where_is_by_chip_coordinate_def)
  then obtain cfb found where s: "od_get (mc_board_locations m) (x, y, z) = Some cfb" "job_for_location c m (x, y, z) = Inr found"
    and d: "describe c (place_without_job (mc_name n) (x, y, z) cfb (cx mod ?W, cy mod ?H) (lx, ly)) None found = Inr (Some l)"
    by (auto simp: seen_at_def split: option.splits sum.splits)
  from d q(2) obtain t jc where f: "found = Some (i, t)" "get_job_chip (the_cjob c t) (x, y, z) (lx, ly) = Inr jc"
    and l': "at_job_chip l = Some jc"
    by (auto simp: describe_def place_without_job_def split: option.splits sum.splits)
  have t: "t = r" using job_found[OF dj i] s(2) f(1) by simp
  have only: "seen_at c (mc_name n) m (Some i) (x, y, z) (cx mod ?W, cy mod ?H) (lx, ly) = Inr (Some l)"
    using s d f(1) by (simp add: seen_at_def describe_def)
  have "(x, y, z) \<in> B"
    using job_among_found(2)[of c "c_jobs c" m "(x, y, z)" i r] s(2) f(1) t j(1) by (auto simp: job_for_location_def)
  from job_extent[OF m(4) this z lr dim(1) m(2,3)]
  obtain ox oy oz bx b_y dx dy where e: "min_corner B = (ox, oy, oz)" "board_to_chip ox oy oz = (dx, dy)"
    "board_to_chip (x - ox) (y - oy) (z - oz) = (bx, b_y)" "board_to_chip x y z = (bx + dx, b_y + dy)" "B \<noteq> {}"
    and w: "0 < W" "0 \<le> bx + lx" "bx + lx < W \<or> W = ?W" and h: "0 < H" "0 \<le> b_y + ly" "b_y + ly < H \<or> H = ?H"
    .
  have jc: "jc = ((bx + lx) mod W, (b_y + ly) mod H)" using f(2) j(1) dim(2,3) e w(1) h(1) t by (simp add: get_job_chip_def)
  have X: "bx + dx = (cx - lx) mod ?W" and Y: "b_y + dy = (cy - ly) mod ?H" using b(2) e(4) by simp_all
  have x: "((bx + lx) mod W + dx) mod ?W = cx mod ?W" using wrap_back[OF X, of dx W] w by simp
  have y: "((b_y + ly) mod H + dy) mod ?H = cy mod ?H" using wrap_back[OF Y, of dy H] h by simp
  have "locate g c (mc_name n) m (Some i) ((bx + lx) mod W + dx) ((b_y + ly) mod H + dy) = Inr (Some l)"
  proof -
    have "g_local g ((bx + lx) mod W + dx) ((b_y + ly) mod H + dy) = (lx, ly)"
      using local_wraps[OF g] x y l by metis
    moreover have "((bx + lx) mod W + dx - lx) mod ?W = (cx - lx) mod ?W" "((b_y + ly) mod H + dy - ly) mod ?H = (cy - ly) mod ?H"
      using x y by (metis mod_diff_left_eq)+
    ultimately show ?thesis using locate_at[OF g _ b(1), of "(bx + lx) mod W + dx" "(b_y + ly) mod H + dy" lx ly c "mc_name n" "Some i"]
        b(2) only x y by simp
  qed
  then have "where_is g (By_job_chip i ((bx + lx) mod W) ((b_y + ly) mod H)) c = Inr (Some l)"
    using i j m(1) e by (simp add: where_is_by_job_chip_coordinate_def)
  with l' jc w(1) h(1) show ?thesis by simp
qed


section \<open>Which job is on a board\<close>

lemma job_among_cases:
  assumes "\<forall>(i, r)\<in>set jobs. cj_allocated_machine (the_cjob c r) \<noteq> None \<longrightarrow> cj_boards (the_cjob c r) \<noteq> None"
  shows "job_among c jobs m b = Inr None \<and>
      (\<forall>(i, r)\<in>set jobs. \<forall>n B. cj_allocated_machine (the_cjob c r) = Some n \<and> same_machine n m \<and>
         cj_boards (the_cjob c r) = Some B \<longrightarrow> b \<notin> B) \<or>
    (\<exists>i r. job_among c jobs m b = Inr (Some (i, r)))"
  using assms by (induction c jobs m b rule: job_among.induct) (auto split: option.splits)

lemma told_both:
  assumes "in_step off p c" "(i, r) \<in> set (c_jobs c)" "cj_allocated_machine (the_cjob c r) \<noteq> None"
  shows "cj_boards (the_cjob c r) \<noteq> None"
proof -
  have dj: "distinct (od_keys (c_jobs c))" using booksD(1)[OF in_stepD(1)[OF assms(1)]] by (simp add: jobs_known_def)
  have "od_get (c_jobs c) i = Some r" by (rule map_of_is_SomeI[OF dj assms(2)])
  then have d: "details c i = Some (cj_boards (the_cjob c r), cj_allocated_machine (the_cjob c r))" by (simp add: details_def)
  have "agree (status (c_queue c)) (grants (jq_events (c_queue c))) (details c)"
    using in_stepD(2)[OF assms(1)] by (simp add: knows_def)
  from agreeD3[OF this, of i] d assms(3) show ?thesis by auto
qed

text \<open>
  C15. Which job is on a board. While machines in service are not modified, the search of \<open>where_is\<close>
  never raises, and it finds a job on exactly the boards that job was told on this machine.
\<close>

theorem finds_job_on_its_boards:
  assumes c: "served w c" and w: "fair_world (cw_queue w)" "cw_names w {} = []"
    and i: "od_get (c_jobs c) i = Some r" "cj_boards (the_cjob c r) = Some B"
    and m: "cj_allocated_machine (the_cjob c r) = Some n" "same_machine n m"
  shows "(job_for_location c m b = Inr (Some (i, r)) \<longleftrightarrow> b \<in> B) \<and> job_for_location c m b \<noteq> Inl e"
proof -
  note s = served_in_step[OF w c]
  have dj: "distinct (od_keys (c_jobs c))" using booksD(1)[OF in_stepD(1)[OF s]] by (simp add: jobs_known_def)
  have "\<forall>(i, r)\<in>set (c_jobs c). cj_allocated_machine (the_cjob c r) \<noteq> None \<longrightarrow> cj_boards (the_cjob c r) \<noteq> None"
    using told_both[OF s] by blast
  note cases = job_among_cases[OF this, of m b, folded job_for_location_def]
  have "job_for_location c m b = Inr (Some (i, r))" if "b \<in> B"
  proof -
    have "(i, r) \<in> set (c_jobs c)" using i(1) by (rule map_of_SomeD)
    with cases i(2) m that obtain k t where k: "job_for_location c m b = Inr (Some (k, t))" by fastforce
    note f = job_among_found[OF k[unfolded job_for_location_def]]
    from f(2) obtain n' C where C: "cj_allocated_machine (the_cjob c t) = Some n'" "same_machine n' m"
      "cj_boards (the_cjob c t) = Some C" "b \<in> C" by blast
    have kt: "od_get (c_jobs c) k = Some t" by (rule map_of_is_SomeI[OF dj f(1)])
    have "mc_name n = mc_name n'" using m(2) C(2) by (simp add: same_machine_def same_hardware_def)
    with told_exclusive[OF s i m(1) kt C(3,1)] that C(4) have "i = k" by blast
    with kt i(1) k show ?thesis by simp
  qed
  moreover have "b \<in> B" if "job_for_location c m b = Inr (Some (i, r))"
    using job_among_found(2)[OF that[unfolded job_for_location_def]] i(2) by auto
  moreover have "job_for_location c m b \<noteq> Inl e" using cases by auto
  ultimately show ?thesis by blast
qed


section \<open>Examples\<close>

lemma two_triads_ok: "machine_ok two_triads" "distinct (od_keys (mc_board_locations two_triads))"
proof -
  have "live_boards 2 1 {} \<subseteq> fst ` set (mc_board_locations two_triads) \<inter> fst ` set (mc_spinnaker_ips two_triads)"
    by code_simp
  then have "\<forall>b. in_system 2 1 b \<longrightarrow> b \<in> fst ` set (mc_board_locations two_triads) \<and> b \<in> fst ` set (mc_spinnaker_ips two_triads)"
    using live_boards_iff by blast
  then show "machine_ok two_triads" by (simp add: machine_ok_def two_triads_def in_system_def)
qed (simp add: two_triads_def)

definition one_machine :: controller where
  "one_machine = (new_controller 1 10 True 0)\<lparr>c_machines := [(''m'', two_triads)]\<rparr>"

theorem where_is_agrees_witness:
  "where_is spinn5 (By_chip ''m'' 47 (- 6)) one_machine = seen_at one_machine ''m'' two_triads None (1, 0, 1) (23, 6) (3, 2) \<and>
   where_is spinn5 (By_logical ''m'' 3 (- 1) 1) one_machine = seen_at one_machine ''m'' two_triads None (1, 0, 1) (20, 4) (0, 0) \<and>
   where_is spinn5 (By_physical ''m'' 0 1 1) one_machine = seen_at one_machine ''m'' two_triads None (1, 0, 1) (20, 4) (0, 0)"
proof -
  have m: "od_get (c_machines one_machine) ''m'' = Some two_triads" by (simp add: one_machine_def)
  have wh: "mc_width two_triads = 2" "mc_height two_triads = 1" by (simp_all add: two_triads_def)
  have b: "in_system (mc_width two_triads) (mc_height two_triads) (1, 0, 1)" "board_to_chip 1 0 1 = (20, 4)"
    by (simp_all add: wh in_system_def board_to_chip_def)
  have l: "g_local spinn5 (20 + 3) (4 + 2) = (3, 2)" by code_simp
  have p: "get_board_position ''m'' 1 0 1 one_machine = Some (0, 1, 1)"
    by (simp add: get_board_position_def m) (simp add: two_triads_def)
  note w = where_is_agrees[OF spinn5_ok m two_triads_ok b, of 3 2 1 "- 1" 0 1 1]
  show ?thesis using w l p by (simp add: wh)
qed

lemma run1_place:
  "c_jobs run1 = [(1, 0)] \<and> od_get (c_machines run1) ''m'' = Some two_triads \<and>
   map cj_boards (c_job_store run1) = [Some {(0, 0, 0), (0, 0, 1), (0, 0, 2)}] \<and>
   map (map_option (\<lambda>n. (mc_name n, same_machine n two_triads)) \<circ> cj_allocated_machine) (c_job_store run1) = [Some (''m'', True)] \<and>
   map (\<lambda>j. (cj_width j, cj_height j)) (c_job_store run1) = [(Some 16, Some 12)] \<and>
   where_is spinn5 (By_chip ''m'' 9 5) run1 = Inr (Some \<lparr> at_machine = ''m'', at_logical = (0, 0, 1), at_physical = (0, 0, 1),
     at_chip = (9, 5), at_board_chip = (1, 1), at_job_id = Some 1, at_job_chip = Some (9, 5) \<rparr>)"
  by code_simp

lemma run1_shape: "job_shape two_triads Wrap_y {(0, 0, 0), (0, 0, 1), (0, 0, 2)}"
  unfolding job_shape_def triad_block_def
  by (intro disjI1 exI[of _ 0] exI[of _ 1]) (auto simp: has_x_def has_y_def two_triads_def intro: exI[of _ 0])

lemma run1_job:
  obtains n where "od_get (c_jobs run1) 1 = Some 0" "cj_boards (the_cjob run1 0) = Some {(0, 0, 0), (0, 0, 1), (0, 0, 2)}"
    "cj_allocated_machine (the_cjob run1 0) = Some n" "mc_name n = ''m''" "same_machine n two_triads"
    "cj_width (the_cjob run1 0) = Some 16" "cj_height (the_cjob run1 0) = Some 12"
    "od_get (c_machines run1) ''m'' = Some two_triads"
  using run1_place unfolding the_cjob_def by (auto simp: map_eq_Cons_conv)

theorem job_chip_roundtrip_witness:
  "where_is spinn5 (By_job_chip 1 9 5) run1 = Inr (Some \<lparr> at_machine = ''m'', at_logical = (0, 0, 1), at_physical = (0, 0, 1),
     at_chip = (9, 5), at_board_chip = (1, 1), at_job_id = Some 1, at_job_chip = Some (9, 5) \<rparr>)"
proof -
  let ?l = "\<lparr> at_machine = ''m'', at_logical = (0, 0, 1), at_physical = (0, 0, 1),
     at_chip = (9, 5), at_board_chip = (1, 1), at_job_id = Some 1, at_job_chip = Some (9, 5) \<rparr> :: location"
  obtain n where n: "od_get (c_jobs run1) 1 = Some 0" "cj_boards (the_cjob run1 0) = Some {(0, 0, 0), (0, 0, 1), (0, 0, 2)}"
    "cj_allocated_machine (the_cjob run1 0) = Some n" "mc_name n = ''m''" "same_machine n two_triads"
    "cj_width (the_cjob run1 0) = Some 16" "cj_height (the_cjob run1 0) = Some 12" "od_get (c_machines run1) ''m'' = Some two_triads"
    by (rule run1_job)
  have d: "job_dimensions {(0, 0, 0), (0, 0, 1), (0, 0, 2)} Wrap_y = (16, 12)" by code_simp
  have wh: "0 < mc_width two_triads" "0 < mc_height two_triads" by (simp_all add: two_triads_def)
  have q: "where_is spinn5 (By_chip (mc_name n) 9 5) run1 = Inr (Some ?l)" using run1_place n(4) by (simp only:)
  have "\<exists>jx jy. at_job_chip ?l = Some (jx, jy) \<and> 0 \<le> jx \<and> jx < 16 \<and> 0 \<le> jy \<and> jy < 12 \<and>
      where_is spinn5 (By_job_chip 1 jx jy) run1 = Inr (Some ?l)"
    by (rule job_chip_roundtrip[OF spinn5_ok served_reachable[OF run_served(2)] n(1-3) d n(6,7) n(8)[folded n(4)] wh run1_shape q]) simp
  then show ?thesis by (elim exE conjE) (simp only: location.select_convs option.inject prod.inject)
qed

theorem finds_job_on_its_boards_witness:
  "job_for_location run1 two_triads (0, 0, 2) = Inr (Some (1, 0)) \<and>
   job_for_location run1 two_triads (1, 0, 0) \<noteq> Inr (Some (1, 0))"
proof -
  obtain n where n: "od_get (c_jobs run1) 1 = Some 0" "cj_boards (the_cjob run1 0) = Some {(0, 0, 0), (0, 0, 1), (0, 0, 2)}"
    "cj_allocated_machine (the_cjob run1 0) = Some n" "mc_name n = ''m''" "same_machine n two_triads"
    "cj_width (the_cjob run1 0) = Some 16" "cj_height (the_cjob run1 0) = Some 12" "od_get (c_machines run1) ''m'' = Some two_triads"
    by (rule run1_job)
  note f = finds_job_on_its_boards[OF run_served(2) steady_fair n(1-3,5)]
  show ?thesis using f[of "(0, 0, 2)"] f[of "(1, 0, 0)"] by simp
qed

section \<open>What goes wrong\<close>

definition retagged :: machine_config where
  "retagged = two_triads\<lparr>mc_tags := {''default'', ''x''}\<rparr>"

definition run1_retagged :: controller where
  "run1_retagged = snd (perform steady (Set_machines [(''m'', retagged)]) run1)"

text \<open>The job in an answer was found on a board, and a query within a job is only answered for that job.\<close>

lemma described_job:
  assumes "describe c (place_without_job name b cfb chip board_chip) only found = Inr (Some l)"
  shows "at_job_id l = map_option fst found" "only \<noteq> None \<Longrightarrow> at_job_id l = only"
  using assms by (auto simp: describe_def place_without_job_def split: if_splits option.splits sum.splits)

lemma located_job:
  assumes "locate g c name m only x y = Inr (Some l)"
  shows "at_job_id l = Some i \<Longrightarrow> \<exists>b r. job_for_location c m b = Inr (Some (i, r))" "only \<noteq> None \<Longrightarrow> at_job_id l = only"
proof -
  obtain b cfb chip board_chip found where f: "job_for_location c m b = Inr found"
    and d: "describe c (place_without_job name b cfb chip board_chip) only found = Inr (Some l)"
    using assms by (auto simp: locate_def Let_def split: prod.splits if_splits sum.splits option.splits)
  show "at_job_id l = Some i \<Longrightarrow> \<exists>b r. job_for_location c m b = Inr (Some (i, r))"
  proof -
    assume "at_job_id l = Some i"
    then obtain t where "found = Some (i, t)" using described_job(1)[OF d] by (cases found) auto
    with f show ?thesis by blast
  qed
  show "only \<noteq> None \<Longrightarrow> at_job_id l = only" by (rule described_job(2)[OF d])
qed

lemma query_located:
  assumes "where_is g qu c = Inr (Some l)"
  obtains name m only x y where "od_get (c_machines c) name = Some m" "locate g c name m only x y = Inr (Some l)"
    "\<And>k jx jy. qu = By_job_chip k jx jy \<Longrightarrow> only = Some k"
  using assms
  by (cases qu)
    (auto simp: where_is_by_logical_triple_def where_is_by_physical_triple_def where_is_by_chip_coordinate_def
      where_is_by_job_chip_coordinate_def split: option.splits prod.splits if_splits)

text \<open>
  C16. Jobs that are not found any more. Once the machine in service under the name of a job's
  machine differs from the one the job was started on in anything, be it a tag or a dead
  board (a reload of the configuration replaces it while the job keeps running), no query
  of any kind answers with that job, and queries for places within the job are never answered.
\<close>

theorem stale_location:
  assumes c: "ctl_reachable w c" and i: "od_get (c_jobs c) i = Some r" "cj_allocated_machine (the_cjob c r) = Some n"
    and names: "\<forall>(name, m)\<in>set (c_machines c). mc_name m = name"
    and m: "od_get (c_machines c) (mc_name n) = Some m" "\<not> same_machine n m"
  shows "(where_is g qu c = Inr (Some l) \<longrightarrow> at_job_id l \<noteq> Some i) \<and> where_is g (By_job_chip i x y) c \<noteq> Inr (Some l)"
proof -
  have dj: "distinct (od_keys (c_jobs c))" using booksD(1)[OF reachable_books[OF c]] by (simp add: jobs_known_def)
  have never: "at_job_id l \<noteq> Some i" if w: "where_is g qu c = Inr (Some l)" for qu
  proof
    assume l: "at_job_id l = Some i"
    obtain name m' only x y where m': "od_get (c_machines c) name = Some m'" and lo: "locate g c name m' only x y = Inr (Some l)"
      by (rule query_located[OF w])
    obtain b t where b: "job_for_location c m' b = Inr (Some (i, t))" using located_job(1)[OF lo l] by blast
    have t: "t = r" by (rule job_found[OF dj i(1) b])
    have s: "same_machine n m'" using job_among_found(2)[OF b[unfolded job_for_location_def]] i(2) t by auto
    have "mc_name m' = name" using names map_of_SomeD[OF m'] by auto
    moreover have "mc_name n = mc_name m'" using s by (simp add: same_machine_def same_hardware_def)
    ultimately have "m' = m" using m' m(1) by simp
    with s m(2) show False by simp
  qed
  moreover have "where_is g (By_job_chip i x y) c \<noteq> Inr (Some l)"
  proof
    assume w: "where_is g (By_job_chip i x y) c = Inr (Some l)"
    obtain name m' only x' y' where lo: "locate g c name m' only x' y' = Inr (Some l)" and o: "only = Some i"
      by (rule query_located[OF w]) blast
    have "at_job_id l = Some i" using located_job(2)[OF lo] o by simp
    with never[OF w] show False by simp
  qed
  ultimately show ?thesis by blast
qed

lemma run1_retagged_facts:
  "od_get (c_jobs run1_retagged) 1 = Some 0 \<and> map cj_boards (c_job_store run1_retagged) = [Some {(0, 0, 0), (0, 0, 1), (0, 0, 2)}] \<and>
   map (\<lambda>(name, m). (name, mc_name m,
       map (map_option (\<lambda>n. (mc_name n, same_machine n m)) \<circ> cj_allocated_machine) (c_job_store run1_retagged))) (c_machines run1_retagged) =
     [(''m'', ''m'', [Some (''m'', False)])]"
  by code_simp

theorem stale_location_witness:
  "od_get (c_jobs run1_retagged) 1 = Some 0 \<and> cj_boards (the_cjob run1_retagged 0) = Some {(0, 0, 0), (0, 0, 1), (0, 0, 2)} \<and>
   (\<forall>l. where_is spinn5 (By_job_chip 1 0 0) run1_retagged \<noteq> Inr (Some l))"
proof -
  have c: "ctl_reachable steady run1_retagged"
    unfolding run1_retagged_def by (rule ctl_reachable.performed[OF served_reachable[OF run_served(2)] prod.collapse[symmetric]]) simp
  have i: "od_get (c_jobs run1_retagged) 1 = Some 0" and B: "cj_boards (the_cjob run1_retagged 0) = Some {(0, 0, 0), (0, 0, 1), (0, 0, 2)}"
    using run1_retagged_facts by (auto simp: the_cjob_def map_eq_Cons_conv)
  obtain m where m: "c_machines run1_retagged = [(''m'', m)]" "mc_name m = ''m''"
    and nm: "map (map_option (\<lambda>n. (mc_name n, same_machine n m)) \<circ> cj_allocated_machine) (c_job_store run1_retagged) = [Some (''m'', False)]"
    using run1_retagged_facts by (auto simp: map_eq_Cons_conv)
  obtain n where n: "cj_allocated_machine (the_cjob run1_retagged 0) = Some n" "mc_name n = ''m''" "\<not> same_machine n m"
    using nm by (auto simp: the_cjob_def map_eq_Cons_conv)
  have "where_is spinn5 (By_job_chip 1 0 0) run1_retagged \<noteq> Inr (Some l)" for l
    by (rule conjunct2[OF stale_location[OF c i n(1) _ _ n(3)]]) (simp_all add: m n(2))
  with i B show ?thesis by blast
qed

definition dead_corner :: machine_config where
  "dead_corner =
     (let live = [(0, 0, 0), (0, 0, 1), (0, 0, 2), (1, 0, 0), (1, 0, 1), (1, 0, 2), (0, 1, 0), (0, 1, 1), (0, 1, 2)]
      in \<lparr> mc_name = ''m'', mc_tags = {''default''}, mc_width = 2, mc_height = 2,
           mc_dead_boards = {(1, 1, 0), (1, 1, 1), (1, 1, 2)}, mc_dead_links = {},
           mc_board_locations = map (\<lambda>b. (b, b)) live,
           mc_bmp_ips = [((0, 0), ''bmp0''), ((1, 0), ''bmp1''), ((0, 1), ''bmp2'')],
           mc_spinnaker_ips = map (\<lambda>b. (b, ''host'')) live \<rparr>)"

definition run_dead_corner :: controller where
  "run_dead_corner =
     snd (perform steady (Create_job (Some ''h'') (Some ''me'') (Some (Some 60)) None None (Block 2 2) plain)
       (snd (perform steady (Set_machines [(''m'', dead_corner)]) (new_controller 1 10 True 0))))"

text \<open>
  Dimensions that are too small. On a machine of 2 x 2 triads whose last triad is dead, a job that
  gets the whole machine, wrapped around, is told that it is 24 chips wide and 12 high,
  although it is 24 high and has an Ethernet chip at (0, 12).
\<close>

theorem short_dimensions:
  "map (\<lambda>j. (cj_torus j, cj_width j, cj_height j)) (c_job_store run_dead_corner) = [(Some Wrap_both, Some 24, Some 12)] \<and>
   map (map_option (\<lambda>d. od_get d (0, 12)) \<circ> cj_connections) (c_job_store run_dead_corner) = [Some (Some ''host'')]"
  by code_simp

end
