(* ===== verification/Server.thy ===== *)
theory Server
  imports Locations "HOL-Library.Word" "HOL-Library.Sublist"
begin

text \<open>
  The server (\<open>server.py\<close>, with \<open>polling_server_core.py\<close> and \<open>configuration_reloader.py\<close>): connections
  and what was read from them, the commands of clients, who is told about changes, and the
  loading of the configuration. Sockets are named by the order in which they were made.
\<close>

section \<open>Values and messages\<close>

datatype json =
    JNull
  | JBool bool
  | JInt int
  | JFloat rat
  | JString string
  | JArray "json list"
  | JObject "(string \<times> json) list"

text \<open>
  A value as an element of a set: numbers are equal by value, lists and dictionaries cannot be
  hashed.
\<close>

fun hash_key :: "json \<Rightarrow> json res" where
  "hash_key (JBool b) = Inr (JInt (if b then 1 else 0))"
| "hash_key (JFloat q) = Inr (if of_int \<lfloor>q\<rfloor> = q then JInt \<lfloor>q\<rfloor> else JFloat q)"
| "hash_key (JArray xs) = Inl TypeError"
| "hash_key (JObject d) = Inl TypeError"
| "hash_key v = Inr v"

text \<open>What commands return, before it is written as JSON; and the messages to clients.\<close>

datatype result =
    R_none
  | R_version
  | R_job int
  | R_state job_state_tuple
  | R_machine_info job_machine_info
  | R_jobs "job_tuple list"
  | R_machines "machine_tuple list"
  | R_position "board option"
  | R_location "location option"

datatype message =
    Return result
  | Exception_text py_error
  | Jobs_changed "json set"
  | Machines_changed "json set"

section \<open>The state\<close>

type_synonym sock = nat
type_synonym bytes = "8 word list"
type_synonym watches = "(sock, json set option) odict"

text \<open>
  \<open>sv_fds\<close> holds the descriptor of each socket made so far, -1 once it is closed; \<open>sv_poll\<close> the
  descriptors registered with the poll object. \<open>sv_sent\<close> records what was sent, and \<open>sv_sends\<close>
  counts the calls of \<open>send\<close>.
\<close>

record server =
  sv_controller :: controller
  sv_configuration :: configuration
  sv_fds :: "int list"
  sv_poll :: "int set"
  sv_fdmap :: "(int, sock) odict"
  sv_server_socket :: "sock option"
  sv_client_buffers :: "(sock, bytes) odict"
  sv_job_watches :: watches
  sv_machine_watches :: watches
  sv_reload_config :: bool
  sv_sent :: "(sock \<times> message) list"
  sv_sends :: nat

type_synonym 'a sv = "(server, 'a) py_call"

text \<open>
  What comes from outside: the world of the controller, the geometry of boards, whether the n-th
  call of \<open>send\<close> succeeds, the decoding of a line (\<open>utf-8\<close> and \<open>json.loads\<close>), the name of a
  client. \<open>sw_other\<close> answers requests to the controller with arguments of other types than it
  is modelled for.
\<close>

record sworld =
  sw_controller :: cworld
  sw_geometry :: geometry
  sw_send :: "nat \<Rightarrow> bool"
  sw_decode :: "bytes \<Rightarrow> json res"
  sw_name :: "sock \<Rightarrow> string option"
  sw_other :: "string \<Rightarrow> json list \<Rightarrow> (string, json) odict \<Rightarrow> result ctl"

definition on_controller :: "'a ctl \<Rightarrow> 'a sv" where
  "on_controller f s = (case f (sv_controller s) of (out, c) \<Rightarrow> (out, s\<lparr>sv_controller := c\<rparr>))"

definition with_controller :: "(controller \<Rightarrow> controller) \<Rightarrow> server \<Rightarrow> server" where
  "with_controller f s = s\<lparr>sv_controller := f (sv_controller s)\<rparr>"

section \<open>Channels\<close>

definition fileno :: "server \<Rightarrow> sock \<Rightarrow> int" where
  "fileno s k = sv_fds s ! k"

definition register_channel :: "sock \<Rightarrow> server \<Rightarrow> server" where
  "register_channel k s =
     s\<lparr> sv_poll := insert (fileno s k) (sv_poll s), sv_fdmap := od_set (fileno s k) k (sv_fdmap s) \<rparr>"

text \<open>
  The poll object takes the descriptor of the channel: a closed one is a ValueError, one that is
  not registered a KeyError.
\<close>

definition unregister_channel :: "sock \<Rightarrow> unit sv" where
  "unregister_channel k s =
     (let fd = fileno s k
      in if fd < 0 then (Inl ValueError, s)
         else if fd \<notin> sv_poll s then (Inl KeyError, s)
         else (Inr (), s\<lparr> sv_poll := sv_poll s - {fd}, sv_fdmap := od_del fd (sv_fdmap s) \<rparr>))"

text \<open>A new socket, with the descriptor the system gives it.\<close>

definition new_socket :: "int \<Rightarrow> server \<Rightarrow> sock \<times> server" where
  "new_socket fd s = (length (sv_fds s), s\<lparr>sv_fds := sv_fds s @ [fd]\<rparr>)"

definition close_socket :: "sock \<Rightarrow> server \<Rightarrow> server" where
  "close_socket k s = s\<lparr>sv_fds := (sv_fds s)[k := - 1]\<rparr>"

section \<open>Watches\<close>

definition register_for_notifications :: "sock \<Rightarrow> json \<Rightarrow> watches \<Rightarrow> watches res" where
  "register_for_notifications k v W =
     (if v = JNull then Inr (od_set k None W)
      else case od_get W k of
        None \<Rightarrow> (case hash_key v of Inl e \<Rightarrow> Inl e | Inr x \<Rightarrow> Inr (od_set k (Some {x}) W))
      | Some (Some items) \<Rightarrow>
          (case hash_key v of Inl e \<Rightarrow> Inl e | Inr x \<Rightarrow> Inr (od_set k (Some (insert x items)) W))
      | Some None \<Rightarrow> Inr W)"

definition unregister_for_notifications :: "sock \<Rightarrow> json \<Rightarrow> watches \<Rightarrow> watches res" where
  "unregister_for_notifications k v W =
     (case od_get W k of
        None \<Rightarrow> Inr W
      | Some watched \<Rightarrow>
          if v = JNull then Inr (od_del k W)
          else case watched of
            None \<Rightarrow> Inr W
          | Some items \<Rightarrow>
              (case hash_key v of
                 Inl e \<Rightarrow> Inl e
               | Inr x \<Rightarrow>
                   if items - {x} = {} then Inr (od_del k W) else Inr (od_set k (Some (items - {x})) W)))"

definition clear_watches :: "sock \<Rightarrow> server \<Rightarrow> server" where
  "clear_watches k s =
     s\<lparr> sv_job_watches := od_del k (sv_job_watches s), sv_machine_watches := od_del k (sv_machine_watches s) \<rparr>"

definition on_job_watches :: "(watches \<Rightarrow> watches res) \<Rightarrow> unit sv" where
  "on_job_watches f s =
     (case f (sv_job_watches s) of Inl e \<Rightarrow> (Inl e, s) | Inr W \<Rightarrow> (Inr (), s\<lparr>sv_job_watches := W\<rparr>))"

definition on_machine_watches :: "(watches \<Rightarrow> watches res) \<Rightarrow> unit sv" where
  "on_machine_watches f s =
     (case f (sv_machine_watches s) of Inl e \<Rightarrow> (Inl e, s) | Inr W \<Rightarrow> (Inr (), s\<lparr>sv_machine_watches := W\<rparr>))"

section \<open>Connections\<close>

definition disconnect_client :: "sock \<Rightarrow> unit sv" where
  "disconnect_client k s =
     (let s = clear_watches k (s\<lparr>sv_client_buffers := od_del k (sv_client_buffers s)\<rparr>)
      in case unregister_channel k s of
           (Inl e, s) \<Rightarrow> if e = KeyError then (Inr (), close_socket k s) else (Inl e, s)
         | (Inr u, s) \<Rightarrow> (Inr (), close_socket k s))"

text \<open>The descriptor of the new connection; None when accepting it failed.\<close>

definition accept_client :: "int option \<Rightarrow> server \<Rightarrow> server" where
  "accept_client connection s =
     (case connection of
        None \<Rightarrow> s
      | Some fd \<Rightarrow>
          (case new_socket fd s of
             (k, s) \<Rightarrow> (let s = register_channel k s
                        in s\<lparr>sv_client_buffers := od_set k [] (sv_client_buffers s)\<rparr>)))"

text \<open>Sending succeeds with the whole message, or fails.\<close>

definition msg_client :: "sworld \<Rightarrow> sock \<Rightarrow> message \<Rightarrow> unit sv" where
  "msg_client w k m s =
     (let ok = sw_send w (sv_sends s) \<and> 0 \<le> fileno s k; s = s\<lparr>sv_sends := Suc (sv_sends s)\<rparr>
      in if ok then (Inr (), s\<lparr>sv_sent := sv_sent s @ [(k, m)]\<rparr>)
         else and_then (disconnect_client k) (\<lambda>_. raise OSError) s)"


section \<open>Commands\<close>

text \<open>
  Calling a function with positional and keyword arguments: its parameters, of which the first
  \<open>n\<close> have no default; the others default to None.
\<close>

definition bind_args :: "string list \<Rightarrow> nat \<Rightarrow> json list \<Rightarrow> (string, json) odict \<Rightarrow> json list res" where
  "bind_args params n args kwargs =
     (let given = take (length args) params; names = map fst kwargs
      in if length params < length args \<or> (\<exists>x\<in>set names. x \<notin> set params \<or> x \<in> set given) \<or>
            (\<exists>x\<in>set (take n params). x \<notin> set given \<and> x \<notin> set names)
         then Inl TypeError
         else Inr (args @ map (\<lambda>x. case od_get kwargs x of None \<Rightarrow> JNull | Some v \<Rightarrow> v) (drop (length args) params)))"

text \<open>The shapes of arguments for which the controller is modelled.\<close>

fun int_of_json :: "json \<Rightarrow> int option" where
  "int_of_json (JInt i) = Some i"
| "int_of_json _ = None"

fun string_of_json :: "json \<Rightarrow> string option" where
  "string_of_json (JString x) = Some x"
| "string_of_json _ = None"

fun number_of_json :: "json \<Rightarrow> rat option" where
  "number_of_json (JInt i) = Some (of_int i)"
| "number_of_json (JFloat q) = Some q"
| "number_of_json _ = None"

text \<open>An argument that may be left out or be None.\<close>

definition optional :: "(json \<Rightarrow> 'a option) \<Rightarrow> json option \<Rightarrow> 'a option option" where
  "optional f v = (case v of None \<Rightarrow> Some None | Some JNull \<Rightarrow> Some None | Some x \<Rightarrow> map_option Some (f x))"

fun all_some :: "'a option list \<Rightarrow> 'a list option" where
  "all_some [] = Some []"
| "all_some (x # xs) = (case (x, all_some xs) of (Some y, Some ys) \<Rightarrow> Some (y # ys) | _ \<Rightarrow> None)"

fun alloc_args_of :: "json list \<Rightarrow> alloc_args option" where
  "alloc_args_of [] = Some Any_board"
| "alloc_args_of [JInt n] = Some (Num n)"
| "alloc_args_of [JInt w, JInt h] = Some (Block w h)"
| "alloc_args_of [JInt x, JInt y, JInt z] = Some (One_board x y z)"
| "alloc_args_of _ = None"

fun strings_of_json :: "json \<Rightarrow> string set option" where
  "strings_of_json (JArray xs) = map_option set (all_some (map string_of_json xs))"
| "strings_of_json _ = None"

fun bool_of_json :: "json \<Rightarrow> bool option" where
  "bool_of_json (JBool b) = Some b"
| "bool_of_json _ = None"

definition alloc_kwargs_of :: "(string, json) odict \<Rightarrow> alloc_kwargs option" where
  "alloc_kwargs_of d =
     (case (optional int_of_json (od_get d ''max_dead_boards''), optional int_of_json (od_get d ''max_dead_links''),
            optional bool_of_json (od_get d ''require_torus''), optional number_of_json (od_get d ''min_ratio'')) of
        (Some boards, Some links, Some torus, Some ratio) \<Rightarrow>
          if torus = None \<and> od_get d ''require_torus'' \<noteq> None \<or> ratio = None \<and> od_get d ''min_ratio'' \<noteq> None then None
          else Some \<lparr> kw_max_dead_boards = boards, kw_max_dead_links = links,
                      kw_require_torus = (case torus of None \<Rightarrow> False | Some b \<Rightarrow> b),
                      kw_min_ratio = (case ratio of None \<Rightarrow> 0 | Some q \<Rightarrow> q) \<rparr>
      | _ \<Rightarrow> None)"

definition create_job_keywords :: "string list" where
  "create_job_keywords =
     [''owner'', ''keepalive'', ''machine'', ''tags'', ''max_dead_boards'', ''max_dead_links'', ''require_torus'', ''min_ratio'']"

definition server_create_job :: "sworld \<Rightarrow> sock \<Rightarrow> json list \<Rightarrow> (string, json) odict \<Rightarrow> result ctl" where
  "server_create_job w k args kwargs c =
     (if od_get kwargs ''owner'' = None \<or> od_get kwargs ''owner'' = Some JNull then (Inl TypeError, c)
      else
        case (optional string_of_json (od_get kwargs ''owner''),
              case od_get kwargs ''keepalive'' of
                None \<Rightarrow> Some (Some 60) | Some v \<Rightarrow> optional number_of_json (Some v),
              optional string_of_json (od_get kwargs ''machine''), optional strings_of_json (od_get kwargs ''tags''),
              alloc_args_of args, alloc_kwargs_of kwargs) of
          (Some owner, Some keepalive, Some machine, Some tags, Some args', Some kw) \<Rightarrow>
            if set (map fst kwargs) \<subseteq> set create_job_keywords
            then (case ctl_create_job (sw_controller w) (sw_name w k) owner (Some keepalive) machine tags args' kw c of
                    (Inl e, c) \<Rightarrow> (Inl e, c) | (Inr i, c) \<Rightarrow> (Inr (R_job i), c))
            else sw_other w ''create_job'' args kwargs c
        | _ \<Rightarrow> sw_other w ''create_job'' args kwargs c)"

text \<open>The keyword arguments of a query for a place.\<close>

definition query_of :: "(string, json) odict \<Rightarrow> query option" where
  "query_of d =
     (let keys = set (map fst d); num = \<lambda>x. Option.bind (od_get d x) int_of_json; name = Option.bind (od_get d ''machine'') string_of_json
      in if keys = {''machine'', ''x'', ''y'', ''z''}
         then (case (name, num ''x'', num ''y'', num ''z'') of
                 (Some n, Some x, Some y, Some z) \<Rightarrow> Some (By_logical n x y z) | _ \<Rightarrow> None)
         else if keys = {''machine'', ''cabinet'', ''frame'', ''board''}
         then (case (name, num ''cabinet'', num ''frame'', num ''board'') of
                 (Some n, Some x, Some y, Some z) \<Rightarrow> Some (By_physical n x y z) | _ \<Rightarrow> None)
         else if keys = {''machine'', ''chip_x'', ''chip_y''}
         then (case (name, num ''chip_x'', num ''chip_y'') of (Some n, Some x, Some y) \<Rightarrow> Some (By_chip n x y) | _ \<Rightarrow> None)
         else if keys = {''job_id'', ''chip_x'', ''chip_y''}
         then (case (num ''job_id'', num ''chip_x'', num ''chip_y'') of (Some i, Some x, Some y) \<Rightarrow> Some (By_job_chip i x y) | _ \<Rightarrow> None)
         else Some Other_keywords)"


definition with_args ::
    "string list \<Rightarrow> nat \<Rightarrow> json list \<Rightarrow> (string, json) odict \<Rightarrow> (json list \<Rightarrow> result sv) \<Rightarrow> result sv"
where
  "with_args params n args kwargs f s =
     (case bind_args params n args kwargs of Inl e \<Rightarrow> (Inl e, s) | Inr vs \<Rightarrow> f vs s)"

definition returns :: "('a \<Rightarrow> result) \<Rightarrow> 'a ctl \<Rightarrow> result sv" where
  "returns g f = on_controller (\<lambda>c. case f c of (Inl e, c) \<Rightarrow> (Inl e, c) | (Inr v, c) \<Rightarrow> (Inr (g v), c))"

text \<open>A command whose only argument is a job, and one for a board of a machine.\<close>

definition job_command ::
    "sworld \<Rightarrow> string \<Rightarrow> json list \<Rightarrow> (string, json) odict \<Rightarrow> (int \<Rightarrow> result sv) \<Rightarrow> result sv"
where
  "job_command w name args kwargs f =
     with_args [''job_id''] 1 args kwargs
       (\<lambda>vs. case map int_of_json vs of
          [Some i] \<Rightarrow> f i | _ \<Rightarrow> on_controller (sw_other w name args kwargs))"

definition board_command ::
    "sworld \<Rightarrow> string \<Rightarrow> json list \<Rightarrow> (string, json) odict \<Rightarrow>
     (string \<Rightarrow> int \<Rightarrow> int \<Rightarrow> int \<Rightarrow> controller \<Rightarrow> board option) \<Rightarrow> result sv"
where
  "board_command w name args kwargs f =
     with_args [''machine_name'', ''x'', ''y'', ''z''] 4 args kwargs
       (\<lambda>vs. case vs of
          [JString m, JInt x, JInt y, JInt z] \<Rightarrow> returns R_position (\<lambda>c. (Inr (f m x y z c), c))
        | _ \<Rightarrow> on_controller (sw_other w name args kwargs))"

definition watch_command ::
    "string \<Rightarrow> json list \<Rightarrow> (string, json) odict \<Rightarrow> (json \<Rightarrow> unit sv) \<Rightarrow> result sv"
where
  "watch_command param args kwargs f =
     with_args [param] 0 args kwargs
       (\<lambda>vs. case vs of [v] \<Rightarrow> and_then (f v) (\<lambda>_. return R_none) | _ \<Rightarrow> raise TypeError)"

definition cmd_version :: "sworld \<Rightarrow> sock \<Rightarrow> json list \<Rightarrow> (string, json) odict \<Rightarrow> result sv" where
  "cmd_version w k args kwargs =
     with_args [] 0 args kwargs (\<lambda>_. return R_version)"

definition cmd_create_job :: "sworld \<Rightarrow> sock \<Rightarrow> json list \<Rightarrow> (string, json) odict \<Rightarrow> result sv" where
  "cmd_create_job w k args kwargs =
     (if ''self'' \<in> set (map fst kwargs) then raise TypeError else on_controller (server_create_job w k args kwargs))"

definition cmd_job_keepalive :: "sworld \<Rightarrow> sock \<Rightarrow> json list \<Rightarrow> (string, json) odict \<Rightarrow> result sv" where
  "cmd_job_keepalive w k args kwargs =
     job_command w ''job_keepalive'' args kwargs
       (\<lambda>i. returns (\<lambda>_. R_none) (\<lambda>c. (Inr (), job_keepalive (sw_controller w) (sw_name w k) i c)))"

definition cmd_get_job_state :: "sworld \<Rightarrow> sock \<Rightarrow> json list \<Rightarrow> (string, json) odict \<Rightarrow> result sv" where
  "cmd_get_job_state w k args kwargs =
     job_command w ''get_job_state'' args kwargs
       (\<lambda>i. returns R_state (\<lambda>c. case get_job_state (sw_controller w) (sw_name w k) i c of (t, c) \<Rightarrow> (Inr t, c)))"

definition cmd_get_job_machine_info :: "sworld \<Rightarrow> sock \<Rightarrow> json list \<Rightarrow> (string, json) odict \<Rightarrow> result sv" where
  "cmd_get_job_machine_info w k args kwargs =
     job_command w ''get_job_machine_info'' args kwargs
       (\<lambda>i. returns R_machine_info (get_job_machine_info (sw_controller w) (sw_name w k) i))"

definition cmd_power_on_job_boards :: "sworld \<Rightarrow> sock \<Rightarrow> json list \<Rightarrow> (string, json) odict \<Rightarrow> result sv" where
  "cmd_power_on_job_boards w k args kwargs =
     job_command w ''power_on_job_boards'' args kwargs
       (\<lambda>i. returns (\<lambda>_. R_none) (power_on_job_boards (sw_controller w) (sw_name w k) i))"

definition cmd_power_off_job_boards :: "sworld \<Rightarrow> sock \<Rightarrow> json list \<Rightarrow> (string, json) odict \<Rightarrow> result sv" where
  "cmd_power_off_job_boards w k args kwargs =
     job_command w ''power_off_job_boards'' args kwargs
       (\<lambda>i. returns (\<lambda>_. R_none) (power_off_job_boards (sw_controller w) (sw_name w k) i))"

definition cmd_destroy_job :: "sworld \<Rightarrow> sock \<Rightarrow> json list \<Rightarrow> (string, json) odict \<Rightarrow> result sv" where
  "cmd_destroy_job w k args kwargs =
     with_args [''job_id'', ''reason''] 1 args kwargs
       (\<lambda>vs. case vs of
          [JInt i, JNull] \<Rightarrow> returns (\<lambda>_. R_none) (ctl_destroy_job (sw_controller w) i None)
        | [JInt i, JString reason] \<Rightarrow> returns (\<lambda>_. R_none) (ctl_destroy_job (sw_controller w) i (Some reason))
        | _ \<Rightarrow> on_controller (sw_other w ''destroy_job'' args kwargs))"

definition cmd_notify_job :: "sworld \<Rightarrow> sock \<Rightarrow> json list \<Rightarrow> (string, json) odict \<Rightarrow> result sv" where
  "cmd_notify_job w k args kwargs =
     watch_command ''job_id'' args kwargs (\<lambda>v. on_job_watches (register_for_notifications k v))"

definition cmd_no_notify_job :: "sworld \<Rightarrow> sock \<Rightarrow> json list \<Rightarrow> (string, json) odict \<Rightarrow> result sv" where
  "cmd_no_notify_job w k args kwargs =
     watch_command ''job_id'' args kwargs (\<lambda>v. on_job_watches (unregister_for_notifications k v))"

definition cmd_notify_machine :: "sworld \<Rightarrow> sock \<Rightarrow> json list \<Rightarrow> (string, json) odict \<Rightarrow> result sv" where
  "cmd_notify_machine w k args kwargs =
     watch_command ''machine_name'' args kwargs (\<lambda>v. on_machine_watches (register_for_notifications k v))"

definition cmd_no_notify_machine :: "sworld \<Rightarrow> sock \<Rightarrow> json list \<Rightarrow> (string, json) odict \<Rightarrow> result sv" where
  "cmd_no_notify_machine w k args kwargs =
     watch_command ''machine_name'' args kwargs (\<lambda>v. on_machine_watches (unregister_for_notifications k v))"

definition cmd_list_jobs :: "sworld \<Rightarrow> sock \<Rightarrow> json list \<Rightarrow> (string, json) odict \<Rightarrow> result sv" where
  "cmd_list_jobs w k args kwargs =
     with_args [] 0 args kwargs (\<lambda>_. returns R_jobs (\<lambda>c. (Inr (list_jobs c), c)))"

definition cmd_list_machines :: "sworld \<Rightarrow> sock \<Rightarrow> json list \<Rightarrow> (string, json) odict \<Rightarrow> result sv" where
  "cmd_list_machines w k args kwargs =
     with_args [] 0 args kwargs (\<lambda>_. returns R_machines (\<lambda>c. (Inr (list_machines c), c)))"

definition cmd_get_board_position :: "sworld \<Rightarrow> sock \<Rightarrow> json list \<Rightarrow> (string, json) odict \<Rightarrow> result sv" where
  "cmd_get_board_position w k args kwargs =
     board_command w ''get_board_position'' args kwargs get_board_position"

definition cmd_get_board_at_position :: "sworld \<Rightarrow> sock \<Rightarrow> json list \<Rightarrow> (string, json) odict \<Rightarrow> result sv" where
  "cmd_get_board_at_position w k args kwargs =
     board_command w ''get_board_at_position'' args kwargs get_board_at_position"

definition cmd_where_is :: "sworld \<Rightarrow> sock \<Rightarrow> json list \<Rightarrow> (string, json) odict \<Rightarrow> result sv" where
  "cmd_where_is w k args kwargs =
     (if args \<noteq> [] \<or> ''self'' \<in> set (map fst kwargs) \<or> ''_client'' \<in> set (map fst kwargs) then raise TypeError
      else case query_of kwargs of
        None \<Rightarrow> on_controller (sw_other w ''where_is'' args kwargs)
      | Some q \<Rightarrow> returns R_location (\<lambda>c. (where_is (sw_geometry w) q c, c)))"

text \<open>The table of commands, from their names to the methods.\<close>

definition commands :: "(string, sworld \<Rightarrow> sock \<Rightarrow> json list \<Rightarrow> (string, json) odict \<Rightarrow> result sv) odict" where
  "commands =
     [(''version'', cmd_version),
      (''create_job'', cmd_create_job),
      (''job_keepalive'', cmd_job_keepalive),
      (''get_job_state'', cmd_get_job_state),
      (''get_job_machine_info'', cmd_get_job_machine_info),
      (''power_on_job_boards'', cmd_power_on_job_boards),
      (''power_off_job_boards'', cmd_power_off_job_boards),
      (''destroy_job'', cmd_destroy_job),
      (''notify_job'', cmd_notify_job),
      (''no_notify_job'', cmd_no_notify_job),
      (''notify_machine'', cmd_notify_machine),
      (''no_notify_machine'', cmd_no_notify_machine),
      (''list_jobs'', cmd_list_jobs),
      (''list_machines'', cmd_list_machines),
      (''get_board_position'', cmd_get_board_position),
      (''get_board_at_position'', cmd_get_board_at_position),
      (''where_is'', cmd_where_is)]"

lemmas command_defs =
  cmd_version_def cmd_create_job_def cmd_job_keepalive_def cmd_get_job_state_def
  cmd_get_job_machine_info_def cmd_power_on_job_boards_def cmd_power_off_job_boards_def cmd_destroy_job_def
  cmd_notify_job_def cmd_no_notify_job_def cmd_notify_machine_def cmd_no_notify_machine_def
  cmd_list_jobs_def cmd_list_machines_def cmd_get_board_position_def cmd_get_board_at_position_def
  cmd_where_is_def

section \<open>Lines\<close>

text \<open>The command and the arguments of a decoded line, or the error that ends the connection.\<close>

definition parse_command :: "json \<Rightarrow> ((sworld \<Rightarrow> sock \<Rightarrow> json list \<Rightarrow> (string, json) odict \<Rightarrow> result sv) \<times> json list \<times> (string, json) odict) res" where
  "parse_command v =
     (case v of
        JObject d \<Rightarrow>
          (case od_get d ''command'' of
             Some (JString name) \<Rightarrow>
               (case od_get commands name of
                  None \<Rightarrow> Inl OSError
                | Some method' \<Rightarrow>
                    (case (case od_get d ''args'' of None \<Rightarrow> JArray [] | Some a \<Rightarrow> a) of
                       JArray args \<Rightarrow>
                         (case (case od_get d ''kwargs'' of None \<Rightarrow> JObject [] | Some a \<Rightarrow> a) of
                            JObject kwargs \<Rightarrow> Inr (method', args, od_del ''client'' kwargs)
                          | _ \<Rightarrow> Inl OSError)
                     | _ \<Rightarrow> Inl OSError))
           | _ \<Rightarrow> Inl OSError)
      | JArray xs \<Rightarrow> Inl (if JString ''command'' \<in> set xs then TypeError else OSError)
      | JString x \<Rightarrow> Inl (if sublist ''command'' x then TypeError else OSError)
      | _ \<Rightarrow> Inl TypeError)"

definition handle_command :: "sworld \<Rightarrow> sock \<Rightarrow> bytes \<Rightarrow> message sv" where
  "handle_command w k line s =
     (case sw_decode w line of
        Inl e \<Rightarrow> (Inl e, s)
      | Inr v \<Rightarrow>
          (case parse_command v of
             Inl e \<Rightarrow> (Inl e, s)
           | Inr (command, args, kwargs) \<Rightarrow>
               (case command w k args kwargs s of
                  (Inl e, s) \<Rightarrow> (Inr (Exception_text e), s)
                | (Inr r, s) \<Rightarrow> (Inr (Return r), s))))"


text \<open>Commands neither look at nor change what clients have sent so far.\<close>

definition set_buffers :: "(sock, bytes) odict \<Rightarrow> server \<Rightarrow> server" where
  "set_buffers B s = s\<lparr>sv_client_buffers := B\<rparr>"

definition blind :: "'a sv \<Rightarrow> bool" where
  "blind f \<longleftrightarrow> (\<forall>B s. f (set_buffers B s) = map_prod id (set_buffers B) (f s))"

lemma blindD: "blind f \<Longrightarrow> f s = (out, s') \<Longrightarrow> f (set_buffers B s) = (out, set_buffers B s')"
  by (simp add: blind_def)

lemma blind_buffers:
  assumes "blind f" "f s = (out, s')"
  shows "sv_client_buffers s' = sv_client_buffers s"
proof -
  have "set_buffers (sv_client_buffers s) s = s" by (simp add: set_buffers_def)
  with blindD[OF assms, of "sv_client_buffers s"] assms(2) have "s' = set_buffers (sv_client_buffers s) s'" by simp
  then show ?thesis by (metis set_buffers_def server.select_convs(7) server.surjective server.update_convs(7))
qed

lemma blind_controller [intro!]: "blind (on_controller f)"
  by (auto simp: blind_def on_controller_def set_buffers_def split: prod.splits)

lemma blind_watches [intro!]: "blind (on_job_watches f)" "blind (on_machine_watches g)"
  by (auto simp: blind_def on_job_watches_def on_machine_watches_def set_buffers_def split: sum.splits)

lemma blind_pure [intro!]: "blind (return v)" "blind (raise e)"
  by (simp_all add: blind_def return_def raise_def)

lemma blind_and_then [intro!]: "blind f \<Longrightarrow> (\<And>v. blind (g v)) \<Longrightarrow> blind (and_then f g)"
  unfolding blind_def and_then_def by (auto split: prod.splits sum.splits)

lemma blind_with_args [intro!]: "(\<And>vs. blind (f vs)) \<Longrightarrow> blind (with_args params n args kwargs f)"
  unfolding blind_def with_args_def by (simp split: sum.splits)

lemma blind_returns [intro!]: "blind (returns g f)"
  unfolding returns_def by (rule blind_controller)

lemma blind_if [intro!]: "blind f \<Longrightarrow> blind g \<Longrightarrow> blind (if b then f else g)"
  by simp

lemma blind_kinds [intro!]:
  "(\<And>i. blind (f i)) \<Longrightarrow> blind (job_command w name args kwargs f)"
  "blind (board_command w name args kwargs h)"
  "(\<And>v. blind (g v)) \<Longrightarrow> blind (watch_command param args kwargs g)"
  unfolding job_command_def board_command_def watch_command_def
  by (intro blind_with_args; auto split: list.split option.split json.split)+

lemma command_blind:
  assumes "(name, command) \<in> set commands"
  shows "blind (command w k args kwargs)"
proof -
  have "blind (cmd_version w k args kwargs)" "blind (cmd_create_job w k args kwargs)" "blind (cmd_job_keepalive w k args kwargs)"
    "blind (cmd_get_job_state w k args kwargs)" "blind (cmd_get_job_machine_info w k args kwargs)"
    "blind (cmd_power_on_job_boards w k args kwargs)" "blind (cmd_power_off_job_boards w k args kwargs)"
    "blind (cmd_destroy_job w k args kwargs)" "blind (cmd_notify_job w k args kwargs)" "blind (cmd_no_notify_job w k args kwargs)"
    "blind (cmd_notify_machine w k args kwargs)" "blind (cmd_no_notify_machine w k args kwargs)"
    "blind (cmd_list_jobs w k args kwargs)" "blind (cmd_list_machines w k args kwargs)"
    "blind (cmd_get_board_position w k args kwargs)" "blind (cmd_get_board_at_position w k args kwargs)"
    "blind (cmd_where_is w k args kwargs)"
    unfolding command_defs
    by (intro blind_if blind_with_args blind_kinds blind_returns blind_pure blind_watches blind_controller;
        auto split: list.split option.split json.split)+
  with assms show ?thesis by (auto simp: commands_def)
qed

lemma parse_command_known: "parse_command v = Inr (command, args, kwargs) \<Longrightarrow> \<exists>name. (name, command) \<in> set commands"
  by (auto simp: parse_command_def dest!: map_of_SomeD split: json.splits option.splits)

lemma handle_command_blind: "blind (handle_command w k line)"
proof (unfold blind_def, intro allI)
  fix B s
  show "handle_command w k line (set_buffers B s) = map_prod id (set_buffers B) (handle_command w k line s)"
  proof (cases "sw_decode w line")
    case (Inr v)
    show ?thesis
    proof (cases "parse_command v")
      case (Inr p)
      obtain command args kwargs where p: "p = (command, args, kwargs)" by (cases p)
      then obtain name where "(name, command) \<in> set commands" using parse_command_known Inr by blast
      from command_blind[OF this] have b: "blind (command w k args kwargs)" .
      obtain out s' where r: "command w k args kwargs s = (out, s')" by (cases "command w k args kwargs s")
      with blindD[OF b r] \<open>sw_decode w line = Inr v\<close> Inr p show ?thesis
        by (simp add: handle_command_def split: sum.splits)
    qed (simp add: handle_command_def \<open>sw_decode w line = Inr v\<close>)
  qed (simp add: handle_command_def)
qed

text \<open>
  The loop over the complete lines. What is left of the line stays in the buffer; empty lines are
  skipped.
\<close>

definition newline :: "8 word" where
  "newline = 10"

definition buffer_length :: "server \<Rightarrow> sock \<Rightarrow> nat" where
  "buffer_length s k = (case od_get (sv_client_buffers s) k of None \<Rightarrow> 0 | Some buf \<Rightarrow> length buf)"

function process_lines :: "sworld \<Rightarrow> sock \<Rightarrow> unit sv" where
  "process_lines w k s =
     (case od_get (sv_client_buffers s) k of
        None \<Rightarrow> (Inl KeyError, s)
      | Some buf \<Rightarrow>
          if newline \<notin> set buf then (Inr (), s)
          else
            let line = takeWhile (\<lambda>x. x \<noteq> newline) buf;
                s' = set_buffers (od_set k (tl (dropWhile (\<lambda>x. x \<noteq> newline) buf)) (sv_client_buffers s)) s
            in if line = [] then process_lines w k s'
               else
                 (case handle_command w k line s' of
                    (Inl e, s1) \<Rightarrow> (Inl e, s1)
                  | (Inr m, s1) \<Rightarrow>
                      (case msg_client w k m s1 of
                         (Inl e, s2) \<Rightarrow> (Inl e, s2)
                       | (Inr u, s2) \<Rightarrow> process_lines w k s2)))"
  by pat_completeness auto

lemma msg_client_ok:
  assumes "msg_client w k m s = (Inr u, s')"
  shows "s' = s\<lparr> sv_sends := Suc (sv_sends s), sv_sent := sv_sent s @ [(k, m)] \<rparr>"
  using assms by (auto simp: msg_client_def Let_def and_then_def raise_def split: if_splits prod.splits sum.splits)

lemma rest_shorter: "newline \<in> set buf \<Longrightarrow> length (tl (dropWhile (\<lambda>x. x \<noteq> newline) buf)) < length buf"
  by (induction buf) auto

termination process_lines
proof (relation "measure (\<lambda>(w, k, s). buffer_length s k)", goal_cases)
  case (2 w k s buf line s')
  with rest_shorter[of buf] show ?case by (simp add: buffer_length_def set_buffers_def)
next
  case (3 w k s buf line s' out1 s1 m out2 s2 u)
  then have "sv_client_buffers s2 = sv_client_buffers s'"
    using blind_buffers[OF handle_command_blind, of w k line s' out1 s1] msg_client_ok[of w k m s1 u s2] by auto
  with 3 rest_shorter[of buf] show ?case by (simp add: buffer_length_def set_buffers_def)
qed simp

text \<open>
  What a client sent; nothing when it closed the connection or reading failed. The name of the peer,
  which is only logged, is taken to be known.
\<close>

definition handle_commands :: "sworld \<Rightarrow> sock \<Rightarrow> bytes \<Rightarrow> unit sv" where
  "handle_commands w k data s =
     (if data = [] then disconnect_client k s
      else
        case (case od_get (sv_client_buffers s) k of
                None \<Rightarrow> (Inl KeyError, s)
              | Some buf \<Rightarrow> process_lines w k (set_buffers (od_set k (buf @ data) (sv_client_buffers s)) s)) of
          (Inl e, s) \<Rightarrow> disconnect_client k s
        | (Inr u, s) \<Rightarrow> (Inr (), s))"

section \<open>Notifications\<close>

text \<open>A message that cannot be sent is logged; the client is disconnected by then.\<close>

definition notify_client :: "sworld \<Rightarrow> (json set \<Rightarrow> message) \<Rightarrow> json set \<Rightarrow> sock \<times> json set option \<Rightarrow> unit sv" where
  "notify_client w label changes watch s =
     (case watch of (k, items) \<Rightarrow>
        if items = None \<or> the items \<inter> changes \<noteq> {}
        then (case msg_client w k (label (case items of None \<Rightarrow> changes | Some S \<Rightarrow> changes \<inter> S)) s of
                (Inl e, s) \<Rightarrow> if e = OSError then (Inr (), s) else (Inl e, s)
              | (Inr u, s) \<Rightarrow> (Inr (), s))
        else (Inr (), s))"

definition send_notifications :: "sworld \<Rightarrow> (json set \<Rightarrow> message) \<Rightarrow> json set \<Rightarrow> watches \<Rightarrow> unit sv" where
  "send_notifications w label changes W =
     (if changes = {} then return () else for_each W (notify_client w label changes))"

definition send_change_notifications :: "sworld \<Rightarrow> unit sv" where
  "send_change_notifications w s =
     (case read_changed_jobs (sv_controller s) of (jobs, c) \<Rightarrow>
        and_then (\<lambda>s. send_notifications w Jobs_changed (JInt ` jobs) (sv_job_watches s) s)
          (\<lambda>_ s.
             case read_changed_machines (sv_controller s) of (machines, c) \<Rightarrow>
               send_notifications w Machines_changed (JString ` machines) (sv_machine_watches s)
                 (s\<lparr>sv_controller := c\<rparr>))
          (s\<lparr>sv_controller := c\<rparr>))"

section \<open>The configuration\<close>

definition close_all :: "unit sv" where
  "close_all =
     and_then
       (\<lambda>s. case sv_server_socket s of
          None \<Rightarrow> (Inr (), s)
        | Some k \<Rightarrow>
            and_then (unregister_channel k) (\<lambda>_ s. (Inr (), (close_socket k s)\<lparr>sv_server_socket := None\<rparr>)) s)
       (\<lambda>_ s. for_each (map fst (sv_client_buffers s)) disconnect_client s)"

text \<open>The descriptor of the listening socket; None when the address cannot be used.\<close>

definition open_server_socket :: "int option \<Rightarrow> unit sv" where
  "open_server_socket listening s =
     (case listening of
        None \<Rightarrow> (Inl OSError, s)
      | Some fd \<Rightarrow>
          (case new_socket fd s of (k, s) \<Rightarrow> (Inr (), (register_channel k s)\<lparr>sv_server_socket := Some k\<rparr>)))"

definition machines_of :: "configuration \<Rightarrow> machines" where
  "machines_of cfg = fold (\<lambda>m. od_set (mc_name m) m) (cf_machines cfg) []"

definition load_valid_config :: "sworld \<Rightarrow> configuration \<Rightarrow> int option \<Rightarrow> unit sv" where
  "load_valid_config w new listening s =
     (let old = sv_configuration s; s = s\<lparr>sv_configuration := new\<rparr>
      in and_then
           (if cf_ip new \<noteq> cf_ip old \<or> sv_server_socket s = None
            then and_then close_all (\<lambda>_. open_server_socket listening) else return ())
           (\<lambda>_. and_then (on_controller (set_max_retired_jobs (cf_max_retired_jobs new)))
           (\<lambda>_. and_then (\<lambda>s. (Inr (), with_controller (set_seconds_before_free (cf_seconds_before_free new)) s))
           (\<lambda>_. on_controller (set_machines (sw_controller w) (machines_of new))))) s)"

text \<open>
  What reading and running the configuration file gives: None when that fails or does not define a
  configuration.
\<close>

definition read_config_file :: "sworld \<Rightarrow> configuration option \<Rightarrow> int option \<Rightarrow> server \<Rightarrow> bool \<times> server" where
  "read_config_file w parsed listening s =
     (let s = s\<lparr>sv_reload_config := False\<rparr>
      in case parsed of
           None \<Rightarrow> (False, s)
         | Some new \<Rightarrow>
             (case load_valid_config w new listening s of (Inl e, s) \<Rightarrow> (False, s) | (Inr u, s) \<Rightarrow> (True, s)))"

definition sighup_handler :: "server \<Rightarrow> server" where
  "sighup_handler s = s\<lparr>sv_reload_config := True\<rparr>"

section \<open>The server thread\<close>

text \<open>
  A descriptor that is ready, with what can be read from it, or the connection that can be
  accepted. Socket 0 is the one that wakes the thread.
\<close>

record readiness =
  rd_fd :: int
  rd_data :: bytes
  rd_connection :: "int option"

definition handle_channel :: "sworld \<Rightarrow> readiness \<Rightarrow> unit sv" where
  "handle_channel w rd s =
     (if rd_fd rd = fileno s 0 then (Inr (), s)
      else case od_get (sv_fdmap s) (rd_fd rd) of
             None \<Rightarrow> (Inl KeyError, s)
           | Some k \<Rightarrow>
               if sv_server_socket s = Some k then (Inr (), accept_client (rd_connection rd) s)
               else handle_commands w k (rd_data rd) s)"

text \<open>One round of the loop; an exception ends the thread.\<close>

definition serve_round :: "sworld \<Rightarrow> readiness list \<Rightarrow> configuration option \<Rightarrow> int option \<Rightarrow> unit sv" where
  "serve_round w ready parsed listening =
     and_then (for_each ready (handle_channel w))
       (\<lambda>_. and_then (on_controller (destroy_timed_out_jobs (sw_controller w)))
       (\<lambda>_. and_then (on_controller (ctl_check_free (sw_controller w)))
       (\<lambda>_. and_then (send_change_notifications w)
       (\<lambda>_ s. if sv_reload_config s then (Inr (), snd (read_config_file w parsed listening s)) else (Inr (), s)))))"

section \<open>Starting and stopping\<close>

definition default_configuration :: configuration where
  "default_configuration =
     \<lparr> cf_machines = [], cf_port = 22244, cf_ip = '''', cf_timeout_check_interval = 5,
       cf_max_retired_jobs = 1200, cf_seconds_before_free = 30 \<rparr>"

text \<open>
  A saved controller is restored, otherwise there is a new one. Without a valid configuration the
  server does not start.
\<close>

definition start_server ::
    "sworld \<Rightarrow> controller option \<Rightarrow> int \<Rightarrow> configuration option \<Rightarrow> int option \<Rightarrow> unit res \<times> server"
where
  "start_server w saved notify_fd parsed listening =
     (let c = (case saved of None \<Rightarrow> new_controller 1 1200 False 30 | Some c \<Rightarrow> init_dynamic_state (sw_controller w) c);
          s = \<lparr> sv_controller = c\<lparr>c_on_background := True\<rparr>, sv_configuration = default_configuration, sv_fds = [notify_fd],
                sv_poll = {}, sv_fdmap = [], sv_server_socket = None, sv_client_buffers = [], sv_job_watches = [],
                sv_machine_watches = [], sv_reload_config = False, sv_sent = [], sv_sends = 0 \<rparr>
      in case read_config_file w parsed listening (register_channel 0 s) of
           (ok, s) \<Rightarrow> if ok then (Inr (), s) else (Inl Exception, with_controller ctl_stop s))"

text \<open>Stopping closes all connections and the threads of the BMPs, and saves the controller.\<close>

definition stop_and_join :: "controller sv" where
  "stop_and_join =
     and_then close_all (\<lambda>_ s. let s = with_controller ctl_stop s in (Inr (pickled (sv_controller s)), s))"

end
