(* ===== verification/ServerCorrect.thy ===== *)
theory ServerCorrect
  imports Server LocationsCorrect ControllerDemo
begin

text \<open>
  What the server promises: lines are put together from whatever pieces arrive, clients are told
  exactly what they asked for, and the tables of connections stay consistent; and what
  happens when a reply cannot be sent or a configuration cannot be loaded.
\<close>

section \<open>Lines\<close>

lemma od_set_set [simp]: "od_set k x (od_set k y d) = od_set k x d"
  by (induction k y d rule: od_set.induct) auto

lemma od_set_same: "od_get d k = Some x \<Longrightarrow> od_set k x d = d"
  by (induction d) (auto split: if_splits)

lemma od_del_set [simp]: "od_del k (od_set k x d) = od_del k d"
  by (induction k x d rule: od_set.induct) (auto simp: od_del_def)

text \<open>The complete lines of what was received, and the rest.\<close>

fun split_lines :: "bytes \<Rightarrow> bytes list \<times> bytes" where
  "split_lines [] = ([], [])"
| "split_lines (x # xs) =
     (case split_lines xs of (ls, r) \<Rightarrow>
        if x = newline then ([] # ls, r)
        else case ls of [] \<Rightarrow> ([], x # r) | l # ls \<Rightarrow> ((x # l) # ls, r))"

lemma split_lines_rest: "newline \<notin> set (snd (split_lines xs))"
  by (induction xs) (auto split: prod.splits list.splits)

lemma split_lines_none: "newline \<notin> set xs \<Longrightarrow> split_lines xs = ([], xs)"
  by (induction xs) auto

lemma split_lines_step:
  "newline \<in> set xs \<Longrightarrow> split_lines xs =
     (takeWhile (\<lambda>x. x \<noteq> newline) xs # fst (split_lines (tl (dropWhile (\<lambda>x. x \<noteq> newline) xs))),
      snd (split_lines (tl (dropWhile (\<lambda>x. x \<noteq> newline) xs))))"
  by (induction xs) (auto split: prod.splits)

lemma split_lines_append:
  "split_lines (xs @ ys) =
     (fst (split_lines xs) @ fst (split_lines (snd (split_lines xs) @ ys)), snd (split_lines (snd (split_lines xs) @ ys)))"
  by (induction xs) (auto simp: split_lines_none split: prod.splits list.splits)

lemma for_each_append: "for_each (xs @ ys) f = and_then (for_each xs f) (\<lambda>_. for_each ys f)"
  by (induction xs) (auto simp: fun_eq_iff and_then_def split: prod.splits sum.splits)

lemma for_each_invar_ok:
  assumes "\<And>x s u s'. f x s = (Inr u, s') \<Longrightarrow> g s' = g s" "for_each xs f s = (Inr v, s')"
  shows "g s' = g s"
  using assms(2)
proof (induction xs arbitrary: s)
  case (Cons x xs)
  then obtain u s1 where "f x s = (Inr u, s1)" "for_each xs f s1 = (Inr v, s')"
    by (auto simp: and_then_def split: prod.splits sum.splits)
  with Cons.IH assms(1) show ?case by metis
qed simp

definition answer :: "sworld \<Rightarrow> sock \<Rightarrow> bytes \<Rightarrow> unit sv" where
  "answer w k line = and_then (handle_command w k line) (msg_client w k)"

text \<open>
  Two states that differ in the buffer of a client only. Work for the client does not see the
  difference, and when the client goes, it goes.
\<close>

definition but_buffer :: "sock \<Rightarrow> server \<Rightarrow> server \<Rightarrow> bool" where
  "but_buffer k s t \<longleftrightarrow>
     k \<in> fst ` set (sv_client_buffers s) \<and> (\<exists>z. t = set_buffers (od_set k z (sv_client_buffers s)) s)"

lemma disconnect_but_buffer: "but_buffer k s t \<Longrightarrow> disconnect_client k t = disconnect_client k s"
  by (auto simp: but_buffer_def disconnect_client_def set_buffers_def)

definition alike :: "sock \<Rightarrow> 'a res \<times> server \<Rightarrow> 'a res \<times> server \<Rightarrow> bool" where
  "alike k p q \<longleftrightarrow> fst p = fst q \<and>
     (if is_ok (fst p) then but_buffer k (snd p) (snd q) else disconnect_client k (snd p) = disconnect_client k (snd q))"

lemma blind_alike: "blind f \<Longrightarrow> but_buffer k s t \<Longrightarrow> alike k (f s) (f t)"
proof -
  assume f: "blind f" and "but_buffer k s t"
  then obtain z where k: "k \<in> fst ` set (sv_client_buffers s)" and t: "t = set_buffers (od_set k z (sv_client_buffers s)) s"
    by (auto simp: but_buffer_def)
  obtain out s' where r: "f s = (out, s')" by (cases "f s")
  then have "f t = (out, set_buffers (od_set k z (sv_client_buffers s)) s')" unfolding t by (rule blindD[OF f])
  moreover have "but_buffer k s' (set_buffers (od_set k z (sv_client_buffers s)) s')"
    using k blind_buffers[OF f r] by (auto simp: but_buffer_def)
  ultimately show ?thesis using disconnect_but_buffer by (simp add: alike_def r)
qed

lemma msg_client_alike:
  assumes "but_buffer k s t"
  shows "alike k (msg_client w k m s) (msg_client w k m t)"
proof -
  obtain z where k: "k \<in> fst ` set (sv_client_buffers s)" and t: "t = set_buffers (od_set k z (sv_client_buffers s)) s"
    using assms by (auto simp: but_buffer_def)
  define sent where "sent x = x\<lparr> sv_sends := Suc (sv_sends s), sv_sent := sv_sent s @ [(k, m)] \<rparr>" for x :: server
  define failed :: "unit sv" where "failed = (\<lambda>x. and_then (disconnect_client k) (\<lambda>_. raise OSError) (x\<lparr>sv_sends := Suc (sv_sends s)\<rparr>))"
  let ?ok = "sw_send w (sv_sends s) \<and> 0 \<le> fileno s k"
  have e: "msg_client w k m s = (if ?ok then (Inr (), sent s) else failed s)"
    "msg_client w k m t = (if ?ok then (Inr (), sent t) else failed t)"
    by (simp_all add: msg_client_def Let_def sent_def failed_def fileno_def t set_buffers_def)
  have b: "but_buffer k (s\<lparr>sv_sends := n\<rparr>) (t\<lparr>sv_sends := n\<rparr>)" for n
    using k unfolding but_buffer_def by (auto simp: t set_buffers_def intro!: exI[of _ z])
  have f: "failed t = failed s" using disconnect_but_buffer[OF b] by (simp add: failed_def and_then_def)
  have n: "\<not> is_ok (fst (failed s))" by (auto simp: failed_def and_then_def raise_def split: prod.splits sum.splits)
  have g: "but_buffer k (sent s) (sent t)"
    using k unfolding but_buffer_def by (auto simp: t sent_def set_buffers_def intro!: exI[of _ z])
  show ?thesis
  proof (cases ?ok)
    case True
    show ?thesis using g unfolding e if_P[OF True] by (simp add: alike_def)
  next
    case False
    show ?thesis using n unfolding e f if_not_P[OF False] by (simp add: alike_def)
  qed
qed

lemma alike_and_then:
  assumes "alike k p q" "\<And>v s t. but_buffer k s t \<Longrightarrow> alike k (g v s) (g v t)"
  shows "alike k (case p of (Inl e, s) \<Rightarrow> (Inl e, s) | (Inr v, s) \<Rightarrow> g v s) (case q of (Inl e, s) \<Rightarrow> (Inl e, s) | (Inr v, s) \<Rightarrow> g v s)"
  using assms by (cases p; cases q) (auto simp: alike_def split: sum.splits)

lemma answer_alike: "but_buffer k s t \<Longrightarrow> alike k (answer w k line s) (answer w k line t)"
  unfolding answer_def and_then_def by (intro alike_and_then blind_alike handle_command_blind msg_client_alike)


text \<open>The loop over the lines, and what it leaves in the buffer.\<close>

lemma answer_buffers: "answer w k line s = (Inr u, s') \<Longrightarrow> sv_client_buffers s' = sv_client_buffers s"
  using blind_buffers[OF handle_command_blind, of w k line s] msg_client_ok
  by (fastforce simp: answer_def and_then_def split: prod.splits sum.splits)

definition filled :: "bytes \<Rightarrow> bool" where
  "filled line \<longleftrightarrow> line \<noteq> []"

lemma process_lines_alike:
  assumes "od_get (sv_client_buffers s) k = Some buf" "but_buffer k s t"
  shows "alike k (process_lines w k s) (for_each (filter filled (fst (split_lines buf))) (answer w k) t) \<and>
    (is_ok (fst (process_lines w k s)) \<longrightarrow> od_get (sv_client_buffers (snd (process_lines w k s))) k = Some (snd (split_lines buf)))"
  using assms
proof (induction w k s arbitrary: buf t rule: process_lines.induct)
  case (1 w k s)
  note eq = process_lines.simps[of w k s, unfolded 1(3) option.case]
  show ?case
  proof (cases "newline \<in> set buf")
    case False
    with 1(3,4) eq show ?thesis by (simp add: split_lines_none alike_def del: process_lines.simps)
  next
    case True
    let ?line = "takeWhile (\<lambda>x. x \<noteq> newline) buf" and ?rest = "tl (dropWhile (\<lambda>x. x \<noteq> newline) buf)"
    let ?s = "set_buffers (od_set k ?rest (sv_client_buffers s)) s"
    have sp: "split_lines buf = (?line # fst (split_lines ?rest), snd (split_lines ?rest))" by (rule split_lines_step[OF True])
    have bs: "but_buffer k ?s t"
    proof -
      obtain z where z: "k \<in> fst ` set (sv_client_buffers s)" "t = set_buffers (od_set k z (sv_client_buffers s)) s"
        using 1(4) by (auto simp: but_buffer_def)
      then show ?thesis unfolding but_buffer_def by (auto simp: set_buffers_def intro!: exI[of _ z])
    qed
    have gs: "od_get (sv_client_buffers ?s) k = Some ?rest" by (simp add: set_buffers_def)
    show ?thesis
    proof (cases "?line = []")
      case l: True
      from eq True l have p: "process_lines w k s = process_lines w k ?s" by (simp add: Let_def del: process_lines.simps)
      have f: "filter filled (fst (split_lines buf)) = filter filled (fst (split_lines ?rest))"
        "snd (split_lines buf) = snd (split_lines ?rest)" using l by (simp_all add: sp filled_def)
      show ?thesis unfolding p f by (rule 1(1)[OF 1(3) _ refl refl l gs bs]) (use True in simp)
    next
      case l: False
      have f: "filter filled (fst (split_lines buf)) = ?line # filter filled (fst (split_lines ?rest))"
        "snd (split_lines buf) = snd (split_lines ?rest)" using l by (simp_all add: sp filled_def)
      obtain o1 s1 where a: "answer w k ?line ?s = (o1, s1)" by (cases "answer w k ?line ?s")
      obtain o2 t1 where a': "answer w k ?line t = (o2, t1)" by (cases "answer w k ?line t")
      have al: "alike k (o1, s1) (o2, t1)" using answer_alike[OF bs, of w ?line] a a' by simp
      have p: "process_lines w k s = (case o1 of Inl e \<Rightarrow> (Inl e, s1) | Inr u \<Rightarrow> process_lines w k s1)"
        using eq True l a by (auto simp: Let_def answer_def and_then_def simp del: process_lines.simps split: prod.splits sum.splits)
      show ?thesis
      proof (cases o1)
        case (Inl e)
        with al have "o2 = Inl e" "disconnect_client k s1 = disconnect_client k t1" by (auto simp: alike_def)
        with Inl a' show ?thesis unfolding p f by (simp add: alike_def and_then_def)
      next
        case (Inr u)
        with al have o2: "o2 = Inr ()" and b1: "but_buffer k s1 t1" by (simp_all add: alike_def)
        have g1: "od_get (sv_client_buffers s1) k = Some ?rest" using answer_buffers[of w k ?line ?s u s1] a Inr gs by simp
        obtain r2 s2 m where h: "handle_command w k ?line ?s = (Inr m, s2)" "msg_client w k m s2 = (Inr u, s1)"
          using a Inr by (auto simp: answer_def and_then_def split: prod.splits sum.splits)
        have "\<not> newline \<notin> set buf" using True by simp
        from 1(2)[OF 1(3) this refl refl l h(1)[symmetric] refl h(2)[symmetric] refl g1 b1]
        show ?thesis unfolding p f Inr by (simp add: a' o2 and_then_def)
      qed
    qed
  qed
qed


lemma answers_alike:
  assumes "but_buffer k s t"
  shows "alike k (for_each ls (answer w k) s) (for_each ls (answer w k) t)"
  using assms
proof (induction ls arbitrary: s t)
  case (Cons l ls)
  have e: "for_each (l # ls) (answer w k) x =
      (case answer w k l x of (Inl e, s) \<Rightarrow> (Inl e, s) | (Inr v, s) \<Rightarrow> for_each ls (answer w k) s)" for x
    by (simp add: and_then_def)
  show ?case unfolding e by (rule alike_and_then[OF answer_alike[OF Cons.prems] Cons.IH])
qed (simp add: alike_def)

text \<open>Answering the lines and keeping the rest, or disconnecting at the first failure.\<close>

definition serve_lines :: "sworld \<Rightarrow> sock \<Rightarrow> bytes list \<Rightarrow> bytes \<Rightarrow> unit sv" where
  "serve_lines w k lines rest s =
     (case for_each (filter filled lines) (answer w k) s of
        (Inl e, s') \<Rightarrow> disconnect_client k s'
      | (Inr u, s') \<Rightarrow> (Inr (), set_buffers (od_set k rest (sv_client_buffers s')) s'))"

lemma but_buffer_self: "od_get (sv_client_buffers s) k = Some buf \<Longrightarrow> but_buffer k (set_buffers (od_set k x (sv_client_buffers s)) s) s"
  by (auto simp: but_buffer_def set_buffers_def od_set_same intro!: exI[of _ buf])

lemma alike_outcome:
  assumes "alike k p q" "is_ok (fst p) \<Longrightarrow> od_get (sv_client_buffers (snd p)) k = Some r"
  shows "(case p of (Inl e, s) \<Rightarrow> disconnect_client k s | (Inr u, s) \<Rightarrow> (Inr (), s)) =
    (case q of (Inl e, s) \<Rightarrow> disconnect_client k s | (Inr u, s) \<Rightarrow> (Inr (), set_buffers (od_set k r (sv_client_buffers s)) s))"
proof (cases p)
  case p: (Pair o1 s)
  obtain o2 t where q: "q = (o2, t)" by (cases q)
  show ?thesis
  proof (cases o1)
    case (Inl e)
    with assms(1) p q show ?thesis by (auto simp: alike_def)
  next
    case (Inr u)
    with assms(1) p q have o2: "o2 = Inr u" and "but_buffer k s t" by (auto simp: alike_def)
    then obtain z where "t = set_buffers (od_set k z (sv_client_buffers s)) s" by (auto simp: but_buffer_def)
    moreover have "od_set k r (sv_client_buffers s) = sv_client_buffers s" using assms(2) p Inr by (simp add: od_set_same)
    ultimately show ?thesis using p q Inr o2 by (simp add: set_buffers_def)
  qed
qed

lemma handle_commands_eq:
  assumes "od_get (sv_client_buffers s) k = Some buf" "data \<noteq> []"
  shows "handle_commands w k data s = serve_lines w k (fst (split_lines (buf @ data))) (snd (split_lines (buf @ data))) s"
proof -
  let ?s = "set_buffers (od_set k (buf @ data) (sv_client_buffers s)) s"
  have b: "od_get (sv_client_buffers ?s) k = Some (buf @ data)" by (simp add: set_buffers_def)
  note p = process_lines_alike[OF b but_buffer_self[OF assms(1)], of w]
  show ?thesis unfolding handle_commands_def serve_lines_def using alike_outcome[OF conjunct1[OF p]] p assms
    by (simp del: process_lines.simps)
qed

lemma disconnect_forgets: "disconnect_client k s = (out, s') \<Longrightarrow> od_get (sv_client_buffers s') k = None"
  by (auto simp: disconnect_client_def unregister_channel_def clear_watches_def close_socket_def Let_def split: if_splits prod.splits sum.splits)

text \<open>
  C9. Lines are put together. However the bytes of a client arrive, its commands are the lines of the
  whole stream: what arrives is answered line by line, without the empty ones, the unfinished
  line is kept, and receiving two pieces is the same as receiving both at once, as long as
  the client is still connected in between.
\<close>

theorem lines_reassembled:
  assumes "od_get (sv_client_buffers s) k = Some buf" "data \<noteq> []"
  shows "handle_commands w k data s = serve_lines w k (fst (split_lines (buf @ data))) (snd (split_lines (buf @ data))) s \<and>
    (\<forall>more s1. handle_commands w k data s = (Inr (), s1) \<and> od_get (sv_client_buffers s1) k \<noteq> None \<and> more \<noteq> [] \<longrightarrow>
       handle_commands w k more s1 = handle_commands w k (data @ more) s)"
proof (intro conjI allI impI)
  show e: "handle_commands w k data s = serve_lines w k (fst (split_lines (buf @ data))) (snd (split_lines (buf @ data))) s"
    by (rule handle_commands_eq[OF assms])
  fix more :: bytes and s1
  assume a: "handle_commands w k data s = (Inr (), s1) \<and> od_get (sv_client_buffers s1) k \<noteq> None \<and> more \<noteq> []"
  let ?ls = "fst (split_lines (buf @ data))" and ?r = "snd (split_lines (buf @ data))"
  let ?ls2 = "fst (split_lines (?r @ more))" and ?r2 = "snd (split_lines (?r @ more))"
  obtain o0 s0 where f: "for_each (filter filled ?ls) (answer w k) s = (o0, s0)" by (cases "for_each (filter filled ?ls) (answer w k) s")
  have "o0 = Inr ()"
  proof (cases o0)
    case (Inl x)
    with e a f disconnect_forgets[of k s0 "Inr ()" s1] show ?thesis by (auto simp: serve_lines_def)
  qed simp
  with e a f have s1: "s1 = set_buffers (od_set k ?r (sv_client_buffers s0)) s0" by (simp add: serve_lines_def)
  have g1: "od_get (sv_client_buffers s1) k = Some ?r" by (simp add: s1 set_buffers_def)
  have k0: "od_get (sv_client_buffers s0) k = Some buf"
  proof -
    have "sv_client_buffers s0 = sv_client_buffers s"
      by (rule for_each_invar_ok[OF _ f[unfolded \<open>o0 = Inr ()\<close>]]) (rule answer_buffers)
    then show ?thesis using assms(1) by simp
  qed
  have "handle_commands w k more s1 = serve_lines w k ?ls2 ?r2 s1" by (rule handle_commands_eq[OF g1]) (use a in simp)
  also have "\<dots> = serve_lines w k ?ls2 ?r2 s0"
  proof -
    note al = answers_alike[OF but_buffer_self[OF k0, of ?r], of "filter filled ?ls2" w, folded s1]
    show ?thesis using al unfolding serve_lines_def
      by (auto simp: alike_def but_buffer_def set_buffers_def split: prod.splits sum.splits if_splits)
  qed
  also have "\<dots> = serve_lines w k (fst (split_lines (buf @ data @ more))) (snd (split_lines (buf @ data @ more))) s"
    using split_lines_append[of "buf @ data" more] f \<open>o0 = Inr ()\<close> by (simp add: serve_lines_def for_each_append and_then_def)
  also have "\<dots> = handle_commands w k (data @ more) s" using handle_commands_eq[OF assms(1), of "data @ more" w] assms(2) by simp
  finally show "handle_commands w k more s1 = handle_commands w k (data @ more) s" .
qed


section \<open>Who watches what\<close>

text \<open>Abstractly, a client watches everything or a set of things.\<close>

definition watching :: "watches \<Rightarrow> sock \<Rightarrow> json \<Rightarrow> bool" where
  "watching W k x \<longleftrightarrow> (case od_get W k of None \<Rightarrow> False | Some None \<Rightarrow> True | Some (Some items) \<Rightarrow> x \<in> items)"

definition watching_all :: "watches \<Rightarrow> sock \<Rightarrow> bool" where
  "watching_all W k \<longleftrightarrow> od_get W k = Some None"

definition watches_ok :: "watches \<Rightarrow> bool" where
  "watches_ok W \<longleftrightarrow> distinct (od_keys W) \<and> (\<forall>k. od_get W k \<noteq> Some (Some {}))"

text \<open>
  C10. Subscriptions. Subscribing to a thing adds it, and subscribing to None adds everything;
  unsubscribing from a thing takes it away, unless everything is watched, and unsubscribing from
  None takes everything away. Other clients are not affected, no empty subscription is kept, and the
  only error is a value that cannot be hashed.
\<close>

theorem subscriptions_exact:
  assumes "watches_ok W"
  shows "(case register_for_notifications k v W of
      Inl e \<Rightarrow> e = TypeError \<and> hash_key v = Inl TypeError
    | Inr W' \<Rightarrow> watches_ok W' \<and>
        (\<forall>j x. watching W' j x \<longleftrightarrow> watching W j x \<or> j = k \<and> (v = JNull \<or> hash_key v = Inr x)) \<and>
        (\<forall>j. watching_all W' j \<longleftrightarrow> watching_all W j \<or> j = k \<and> v = JNull)) \<and>
    (case unregister_for_notifications k v W of
      Inl e \<Rightarrow> e = TypeError \<and> hash_key v = Inl TypeError
    | Inr W' \<Rightarrow> watches_ok W' \<and>
        (\<forall>j x. watching W' j x \<longleftrightarrow> watching W j x \<and> (j = k \<longrightarrow> v \<noteq> JNull \<and> (watching_all W k \<or> hash_key v \<noteq> Inr x))) \<and>
        (\<forall>j. watching_all W' j \<longleftrightarrow> watching_all W j \<and> (j = k \<longrightarrow> v \<noteq> JNull)))"
proof (intro conjI)
  have te: "hash_key v = Inl e \<Longrightarrow> e = TypeError" for e by (cases v) auto
  have n: "hash_key JNull = Inr JNull" by simp
  show "case register_for_notifications k v W of
      Inl e \<Rightarrow> e = TypeError \<and> hash_key v = Inl TypeError
    | Inr W' \<Rightarrow> watches_ok W' \<and>
        (\<forall>j x. watching W' j x \<longleftrightarrow> watching W j x \<or> j = k \<and> (v = JNull \<or> hash_key v = Inr x)) \<and>
        (\<forall>j. watching_all W' j \<longleftrightarrow> watching_all W j \<or> j = k \<and> v = JNull)"
    using assms te
    by (auto simp: register_for_notifications_def watching_def watching_all_def watches_ok_def simp del: map_of_eq_Some_iff
        split: sum.splits option.splits)
  show "case unregister_for_notifications k v W of
      Inl e \<Rightarrow> e = TypeError \<and> hash_key v = Inl TypeError
    | Inr W' \<Rightarrow> watches_ok W' \<and>
        (\<forall>j x. watching W' j x \<longleftrightarrow> watching W j x \<and> (j = k \<longrightarrow> v \<noteq> JNull \<and> (watching_all W k \<or> hash_key v \<noteq> Inr x))) \<and>
        (\<forall>j. watching_all W' j \<longleftrightarrow> watching_all W j \<and> (j = k \<longrightarrow> v \<noteq> JNull))"
  proof (cases "od_get W k")
    case None
    then show ?thesis using assms by (auto simp: unregister_for_notifications_def watching_def watching_all_def)
  next
    case (Some watched)
    show ?thesis
    proof (cases watched)
      case all: None
      then show ?thesis using Some assms
        by (auto simp: unregister_for_notifications_def watching_def watching_all_def watches_ok_def simp del: map_of_eq_Some_iff)
    next
      case items: (Some items)
      note at = Some[unfolded items]
      show ?thesis
      proof (cases "v = JNull \<or> (\<exists>e. hash_key v = Inl e)")
        case True
        then show ?thesis using at assms te
          by (auto simp: unregister_for_notifications_def watching_def watching_all_def watches_ok_def simp del: map_of_eq_Some_iff)
      next
        case False
        then obtain y where "v \<noteq> JNull" "hash_key v = Inr y" by (cases "hash_key v") auto
        then show ?thesis using at assms
          by (auto simp: unregister_for_notifications_def watching_def watching_all_def watches_ok_def simp del: map_of_eq_Some_iff)
      qed
    qed
  qed
qed

section \<open>Tables of connections\<close>

definition open_sockets :: "server \<Rightarrow> sock set" where
  "open_sockets s = {k. k < length (sv_fds s) \<and> 0 \<le> fileno s k}"

definition coherent :: "server \<Rightarrow> bool" where
  "coherent s \<longleftrightarrow>
     distinct (od_keys (sv_client_buffers s)) \<and> watches_ok (sv_job_watches s) \<and> watches_ok (sv_machine_watches s) \<and>
     fst ` set (sv_job_watches s) \<union> fst ` set (sv_machine_watches s) \<subseteq> fst ` set (sv_client_buffers s) \<and>
     open_sockets s = insert 0 (set_option (sv_server_socket s) \<union> fst ` set (sv_client_buffers s)) \<and>
     0 \<notin> set_option (sv_server_socket s) \<union> fst ` set (sv_client_buffers s) \<and>
     set_option (sv_server_socket s) \<inter> fst ` set (sv_client_buffers s) = {} \<and>
     inj_on (fileno s) (open_sockets s) \<and> sv_poll s = fileno s ` open_sockets s \<and>
     (\<forall>fd k. od_get (sv_fdmap s) fd = Some k \<longleftrightarrow> k \<in> open_sockets s \<and> fileno s k = fd)"


lemma coherentD:
  assumes "coherent s"
  shows "distinct (od_keys (sv_client_buffers s))" "watches_ok (sv_job_watches s)" "watches_ok (sv_machine_watches s)"
    "fst ` set (sv_job_watches s) \<subseteq> fst ` set (sv_client_buffers s)" "fst ` set (sv_machine_watches s) \<subseteq> fst ` set (sv_client_buffers s)"
    "open_sockets s = insert 0 (set_option (sv_server_socket s) \<union> fst ` set (sv_client_buffers s))"
    "0 \<notin> set_option (sv_server_socket s)" "0 \<notin> fst ` set (sv_client_buffers s)"
    "set_option (sv_server_socket s) \<inter> fst ` set (sv_client_buffers s) = {}"
    "inj_on (fileno s) (open_sockets s)" "sv_poll s = fileno s ` open_sockets s"
    "\<And>fd k. od_get (sv_fdmap s) fd = Some k \<longleftrightarrow> k \<in> open_sockets s \<and> fileno s k = fd"
proof -
  note d = assms[unfolded coherent_def Un_subset_iff Un_iff de_Morgan_disj]
  show "distinct (od_keys (sv_client_buffers s))" "watches_ok (sv_job_watches s)" "watches_ok (sv_machine_watches s)"
    "fst ` set (sv_job_watches s) \<subseteq> fst ` set (sv_client_buffers s)" "fst ` set (sv_machine_watches s) \<subseteq> fst ` set (sv_client_buffers s)"
    "open_sockets s = insert 0 (set_option (sv_server_socket s) \<union> fst ` set (sv_client_buffers s))"
    "0 \<notin> set_option (sv_server_socket s)" "0 \<notin> fst ` set (sv_client_buffers s)"
    "set_option (sv_server_socket s) \<inter> fst ` set (sv_client_buffers s) = {}"
    "inj_on (fileno s) (open_sockets s)" "sv_poll s = fileno s ` open_sockets s"
    using d by - (elim conjE, assumption)+
  show "od_get (sv_fdmap s) fd = Some k \<longleftrightarrow> k \<in> open_sockets s \<and> fileno s k = fd" for fd k
    using d by (elim conjE) (erule allE[of _ fd], erule allE[of _ k])
qed

lemma coherentI:
  assumes "distinct (od_keys (sv_client_buffers s))" "watches_ok (sv_job_watches s)" "watches_ok (sv_machine_watches s)"
    "fst ` set (sv_job_watches s) \<subseteq> fst ` set (sv_client_buffers s)" "fst ` set (sv_machine_watches s) \<subseteq> fst ` set (sv_client_buffers s)"
    "open_sockets s = insert 0 (set_option (sv_server_socket s) \<union> fst ` set (sv_client_buffers s))"
    "0 \<notin> set_option (sv_server_socket s)" "0 \<notin> fst ` set (sv_client_buffers s)"
    "set_option (sv_server_socket s) \<inter> fst ` set (sv_client_buffers s) = {}"
    "inj_on (fileno s) (open_sockets s)" "sv_poll s = fileno s ` open_sockets s"
    "\<And>fd k. od_get (sv_fdmap s) fd = Some k \<longleftrightarrow> k \<in> open_sockets s \<and> fileno s k = fd"
  shows "coherent s"
proof -
  have "0 \<notin> set_option (sv_server_socket s) \<union> fst ` set (sv_client_buffers s)" using assms(7,8) by blast
  then show ?thesis
    unfolding coherent_def by (intro conjI allI Un_least assms(1-6,9-12)) simp_all
qed

text \<open>Taking a socket out of the poll object and closing it.\<close>

definition dropped :: "sock \<Rightarrow> server \<Rightarrow> server" where
  "dropped k s =
     s\<lparr> sv_fds := (sv_fds s)[k := - 1], sv_poll := sv_poll s - {fileno s k}, sv_fdmap := od_del (fileno s k) (sv_fdmap s) \<rparr>"

lemma dropped_open:
  assumes "k \<in> open_sockets s"
  shows "open_sockets (dropped k s) = open_sockets s - {k}" "j \<noteq> k \<Longrightarrow> fileno (dropped k s) j = fileno s j"
  using assms by (auto simp: open_sockets_def dropped_def fileno_def nth_list_update)

lemma dropped_tables:
  assumes "k \<in> open_sockets s" "inj_on (fileno s) (open_sockets s)" "sv_poll s = fileno s ` open_sockets s"
    "\<And>fd j. od_get (sv_fdmap s) fd = Some j \<longleftrightarrow> j \<in> open_sockets s \<and> fileno s j = fd"
  shows "inj_on (fileno (dropped k s)) (open_sockets (dropped k s))"
    "sv_poll (dropped k s) = fileno (dropped k s) ` open_sockets (dropped k s)"
    "\<And>fd j. od_get (sv_fdmap (dropped k s)) fd = Some j \<longleftrightarrow> j \<in> open_sockets (dropped k s) \<and> fileno (dropped k s) j = fd"
proof -
  note o = dropped_open[OF assms(1)]
  have f: "fileno (dropped k s) j = fileno s j" if "j \<in> open_sockets s - {k}" for j using o(2) that by simp
  show "inj_on (fileno (dropped k s)) (open_sockets (dropped k s))"
    unfolding o(1) using assms(2) by (auto simp: inj_on_def f)
  have "sv_poll (dropped k s) = fileno s ` open_sockets s - {fileno s k}" using assms(3) by (simp add: dropped_def)
  also have "\<dots> = fileno s ` (open_sockets s - {k})" using assms(1,2) by (auto simp: inj_on_def)
  also have "\<dots> = fileno (dropped k s) ` (open_sockets s - {k})" by (rule image_cong) (simp_all add: f)
  finally show "sv_poll (dropped k s) = fileno (dropped k s) ` open_sockets (dropped k s)" unfolding o(1) .
  fix fd j
  have "od_get (sv_fdmap (dropped k s)) fd = (if fd = fileno s k then None else od_get (sv_fdmap s) fd)" by (simp add: dropped_def)
  then show "od_get (sv_fdmap (dropped k s)) fd = Some j \<longleftrightarrow> j \<in> open_sockets (dropped k s) \<and> fileno (dropped k s) j = fd"
    unfolding o(1) using assms(1,2) assms(4)[of fd j] f[of j] by (auto simp: inj_on_def)
qed

definition without :: "sock \<Rightarrow> server \<Rightarrow> server" where
  "without k s = clear_watches k (dropped k (s\<lparr>sv_client_buffers := od_del k (sv_client_buffers s)\<rparr>))"

lemma disconnect_open:
  assumes "k \<in> open_sockets s" "fileno s k \<in> sv_poll s"
  shows "disconnect_client k s = (Inr (), without k s)"
  using assms
  by (simp add: disconnect_client_def Let_def clear_watches_def unregister_channel_def fileno_def open_sockets_def
      close_socket_def without_def dropped_def)

lemma watches_ok_del: "watches_ok W \<Longrightarrow> watches_ok (od_del k W)"
  by (auto simp: watches_ok_def simp del: map_of_eq_Some_iff)

lemma coherent_without:
  assumes c: "coherent s" and k: "k \<in> fst ` set (sv_client_buffers s)"
  shows "disconnect_client k s = (Inr (), without k s)" "coherent (without k s)"
proof -
  note d = coherentD[OF c]
  have ko: "k \<in> open_sockets s" using d(6) k by blast
  then show "disconnect_client k s = (Inr (), without k s)" using d(11) by (intro disconnect_open) auto
  let ?t = "s\<lparr>sv_client_buffers := od_del k (sv_client_buffers s)\<rparr>"
  have same: "open_sockets ?t = open_sockets s" "fileno ?t = fileno s" "sv_poll ?t = sv_poll s" "sv_fdmap ?t = sv_fdmap s"
    by (simp_all add: open_sockets_def fileno_def fun_eq_iff)
  have ko': "k \<in> open_sockets ?t" using ko same by simp
  have t: "inj_on (fileno (dropped k ?t)) (open_sockets (dropped k ?t))"
    "sv_poll (dropped k ?t) = fileno (dropped k ?t) ` open_sockets (dropped k ?t)"
    "\<And>fd j. od_get (sv_fdmap (dropped k ?t)) fd = Some j \<longleftrightarrow> j \<in> open_sockets (dropped k ?t) \<and> fileno (dropped k ?t) j = fd"
    using dropped_tables[OF ko'] d(10-12) unfolding same by blast+
  have w: "open_sockets (without k s) = open_sockets (dropped k ?t)" "fileno (without k s) = fileno (dropped k ?t)"
    "sv_poll (without k s) = sv_poll (dropped k ?t)" "sv_fdmap (without k s) = sv_fdmap (dropped k ?t)"
    by (simp_all add: without_def clear_watches_def open_sockets_def fileno_def fun_eq_iff)
  have o: "open_sockets (without k s) = open_sockets s - {k}" unfolding w(1) dropped_open(1)[OF ko'] same ..
  have f: "sv_client_buffers (without k s) = od_del k (sv_client_buffers s)" "sv_server_socket (without k s) = sv_server_socket s"
    "sv_job_watches (without k s) = od_del k (sv_job_watches s)" "sv_machine_watches (without k s) = od_del k (sv_machine_watches s)"
    by (simp_all add: without_def clear_watches_def dropped_def)
  show "coherent (without k s)"
  proof (rule coherentI)
    show "open_sockets (without k s) =
        insert 0 (set_option (sv_server_socket (without k s)) \<union> fst ` set (sv_client_buffers (without k s)))"
      unfolding o f using d(6,8,9) k by auto
  qed (use d t in \<open>auto simp: f w watches_ok_del\<close>)
qed


definition tables :: "server \<Rightarrow> int list \<times> int set \<times> (int, sock) odict \<times> sock option \<times> sock list" where
  "tables s = (sv_fds s, sv_poll s, sv_fdmap s, sv_server_socket s, od_keys (sv_client_buffers s))"

lemma coherent_cong:
  assumes c: "coherent s" and t: "tables t = tables s" and w: "watches_ok (sv_job_watches t)" "watches_ok (sv_machine_watches t)"
    "fst ` set (sv_job_watches t) \<subseteq> fst ` set (sv_client_buffers s)" "fst ` set (sv_machine_watches t) \<subseteq> fst ` set (sv_client_buffers s)"
  shows "coherent t"
proof -
  have e: "sv_fds t = sv_fds s" "sv_poll t = sv_poll s" "sv_fdmap t = sv_fdmap s" "sv_server_socket t = sv_server_socket s"
    "od_keys (sv_client_buffers t) = od_keys (sv_client_buffers s)"
    using t by (simp_all add: tables_def)
  then have k: "fst ` set (sv_client_buffers t) = fst ` set (sv_client_buffers s)" by (metis list.set_map)
  have f: "open_sockets t = open_sockets s" "fileno t = fileno s" by (simp_all add: open_sockets_def fileno_def e fun_eq_iff)
  note d = coherentD[OF c]
  show ?thesis by (rule coherentI) (unfold e k f, (rule w d)+)
qed

text \<open>What a command may do for a connected client.\<close>

definition safe :: "sock \<Rightarrow> 'a sv \<Rightarrow> bool" where
  "safe k f \<longleftrightarrow>
     (\<forall>s out s'. coherent s \<and> k \<in> fst ` set (sv_client_buffers s) \<and> f s = (out, s') \<longrightarrow>
        coherent s' \<and> sv_client_buffers s' = sv_client_buffers s \<and> sv_sends s' = sv_sends s \<and> sv_sent s' = sv_sent s)"

lemma safeD:
  assumes "safe k f" "coherent s" "k \<in> fst ` set (sv_client_buffers s)" "f s = (out, s')"
  shows "coherent s'" "sv_client_buffers s' = sv_client_buffers s" "sv_sends s' = sv_sends s" "sv_sent s' = sv_sent s"
proof -
  note d = assms(1)[unfolded safe_def, rule_format, OF conjI[OF assms(2) conjI[OF assms(3,4)]]]
  show "coherent s'" "sv_client_buffers s' = sv_client_buffers s" "sv_sends s' = sv_sends s" "sv_sent s' = sv_sent s"
    using d by simp_all
qed

lemma coherent_controller:
  assumes "coherent s"
  shows "coherent (s\<lparr>sv_controller := c\<rparr>)"
  by (rule coherent_cong[OF assms]) (use coherentD(2-5)[OF assms] in \<open>simp_all add: tables_def\<close>)

lemma safe_controller [intro!]: "safe k (on_controller f)"
  using coherent_controller by (auto simp: safe_def on_controller_def split: prod.splits)

lemma od_set_memberD: "(a, b) \<in> set (od_set k x W) \<Longrightarrow> a = k \<or> a \<in> fst ` set W"
proof -
  assume "(a, b) \<in> set (od_set k x W)"
  then have "fst (a, b) \<in> fst ` set (od_set k x W)" by (rule imageI)
  then show ?thesis by simp
qed

lemma od_del_memberD: "(a, b) \<in> set (od_del k W) \<Longrightarrow> a \<in> fst ` set W"
  by (force simp: od_del_def)

lemma register_keys: "register_for_notifications k v W = Inr W' \<Longrightarrow> fst ` set W' \<subseteq> insert k (fst ` set W)"
  by (auto simp: register_for_notifications_def dest: od_set_memberD split: if_splits sum.splits option.splits)

lemma unregister_keys: "unregister_for_notifications k v W = Inr W' \<Longrightarrow> fst ` set W' \<subseteq> insert k (fst ` set W)"
  by (auto simp: unregister_for_notifications_def dest: od_set_memberD od_del_memberD split: if_splits sum.splits option.splits)

lemma register_ok:
  "watches_ok W \<Longrightarrow> register_for_notifications k v W = Inr W' \<Longrightarrow> watches_ok W'"
  "watches_ok W \<Longrightarrow> unregister_for_notifications k v W = Inr W' \<Longrightarrow> watches_ok W'"
  by (auto simp: register_for_notifications_def unregister_for_notifications_def watches_ok_def simp del: map_of_eq_Some_iff
      split: sum.splits option.splits if_splits)

lemma safe_watches:
  assumes "\<And>W W'. watches_ok W \<Longrightarrow> f W = Inr W' \<Longrightarrow> watches_ok W' \<and> fst ` set W' \<subseteq> insert k (fst ` set W)"
  shows "safe k (on_job_watches f)" "safe k (on_machine_watches f)"
proof -
  have "coherent (s\<lparr>sv_job_watches := W'\<rparr>)"
    if c: "coherent s" and k: "k \<in> fst ` set (sv_client_buffers s)" and f: "f (sv_job_watches s) = Inr W'" for s W'
  proof -
    note d = coherentD[OF c]
    have w: "watches_ok W'" "fst ` set W' \<subseteq> fst ` set (sv_client_buffers s)" using assms[OF d(2) f] subset_trans[OF _ insert_subsetI[OF k d(4)]] by blast+
    show ?thesis by (rule coherent_cong[OF c]) (use w d in \<open>simp_all add: tables_def\<close>)
  qed
  then show "safe k (on_job_watches f)" by (auto simp: safe_def on_job_watches_def split: sum.splits)
  have "coherent (s\<lparr>sv_machine_watches := W'\<rparr>)"
    if c: "coherent s" and k: "k \<in> fst ` set (sv_client_buffers s)" and f: "f (sv_machine_watches s) = Inr W'" for s W'
  proof -
    note d = coherentD[OF c]
    have w: "watches_ok W'" "fst ` set W' \<subseteq> fst ` set (sv_client_buffers s)" using assms[OF d(3) f] subset_trans[OF _ insert_subsetI[OF k d(5)]] by blast+
    show ?thesis by (rule coherent_cong[OF c]) (use w d in \<open>simp_all add: tables_def\<close>)
  qed
  then show "safe k (on_machine_watches f)" by (auto simp: safe_def on_machine_watches_def split: sum.splits)
qed

lemma safe_subscriptions [intro!]:
  "safe k (on_job_watches (register_for_notifications k v))" "safe k (on_machine_watches (register_for_notifications k v))"
  "safe k (on_job_watches (unregister_for_notifications k v))" "safe k (on_machine_watches (unregister_for_notifications k v))"
  by (rule safe_watches; rule conjI; (rule register_ok register_keys unregister_keys; assumption))+

lemma safe_pure [intro!]: "safe k (return v)" "safe k (raise e)"
  by (auto simp: safe_def return_def raise_def)

lemma safe_and_then [intro!]:
  assumes "safe k f" "\<And>v. safe k (g v)"
  shows "safe k (and_then f g)"
  unfolding safe_def
proof (intro allI impI)
  fix s out s' assume a: "coherent s \<and> k \<in> fst ` set (sv_client_buffers s) \<and> and_then f g s = (out, s')"
  obtain o1 s1 where f: "f s = (o1, s1)" by (cases "f s")
  note d = safeD[OF assms(1) conjunct1[OF a] conjunct1[OF conjunct2[OF a]] f]
  show "coherent s' \<and> sv_client_buffers s' = sv_client_buffers s \<and> sv_sends s' = sv_sends s \<and> sv_sent s' = sv_sent s"
  proof (cases o1)
    case (Inl e)
    with a f d show ?thesis by (simp add: and_then_def)
  next
    case (Inr v)
    with a f have g: "g v s1 = (out, s')" by (simp add: and_then_def)
    have "k \<in> fst ` set (sv_client_buffers s1)" using a d(2) by simp
    from safeD[OF assms(2) d(1) this g] d show ?thesis by simp
  qed
qed

lemma safe_with_args [intro!]:
  assumes "\<And>vs. safe k (f vs)"
  shows "safe k (with_args params n args kwargs f)"
proof (cases "bind_args params n args kwargs")
  case (Inl e)
  then have "with_args params n args kwargs f = raise e" by (simp add: fun_eq_iff with_args_def raise_def)
  then show ?thesis by (simp only: safe_pure)
next
  case (Inr vs)
  then have "with_args params n args kwargs f = f vs" by (simp add: fun_eq_iff with_args_def)
  then show ?thesis using assms by simp
qed

lemma safe_returns [intro!]: "safe k (returns g f)"
  unfolding returns_def by (rule safe_controller)

lemma safe_if [intro!]: "safe k f \<Longrightarrow> safe k g \<Longrightarrow> safe k (if b then f else g)"
  by simp

lemma safe_kinds [intro!]:
  "(\<And>i. safe k (f i)) \<Longrightarrow> safe k (job_command w name args kwargs f)"
  "safe k (board_command w name args kwargs h)"
  "(\<And>v. safe k (g v)) \<Longrightarrow> safe k (watch_command param args kwargs g)"
  unfolding job_command_def board_command_def watch_command_def
  by (intro safe_with_args; auto split: list.split option.split json.split)+

lemma command_safe:
  assumes "(name, command) \<in> set commands"
  shows "safe k (command w k args kwargs)"
proof -
  have "safe k (cmd_version w k args kwargs)" "safe k (cmd_create_job w k args kwargs)" "safe k (cmd_job_keepalive w k args kwargs)"
    "safe k (cmd_get_job_state w k args kwargs)" "safe k (cmd_get_job_machine_info w k args kwargs)"
    "safe k (cmd_power_on_job_boards w k args kwargs)" "safe k (cmd_power_off_job_boards w k args kwargs)"
    "safe k (cmd_destroy_job w k args kwargs)" "safe k (cmd_notify_job w k args kwargs)" "safe k (cmd_no_notify_job w k args kwargs)"
    "safe k (cmd_notify_machine w k args kwargs)" "safe k (cmd_no_notify_machine w k args kwargs)"
    "safe k (cmd_list_jobs w k args kwargs)" "safe k (cmd_list_machines w k args kwargs)"
    "safe k (cmd_get_board_position w k args kwargs)" "safe k (cmd_get_board_at_position w k args kwargs)"
    "safe k (cmd_where_is w k args kwargs)"
    unfolding command_defs
    by (intro safe_if safe_with_args safe_kinds safe_returns safe_pure safe_subscriptions safe_controller;
        auto split: list.split option.split json.split)+
  with assms show ?thesis by (auto simp: commands_def)
qed

lemma handle_command_safe: "safe k (handle_command w k line)"
  unfolding safe_def
proof (intro allI impI)
  fix s out s'
  assume a: "coherent s \<and> k \<in> fst ` set (sv_client_buffers s) \<and> handle_command w k line s = (out, s')"
  then consider "s' = s" | v command args kwargs o1 where "parse_command v = Inr (command, args, kwargs)" "command w k args kwargs s = (o1, s')"
    by (auto simp: handle_command_def split: sum.splits prod.splits)
  then show "coherent s' \<and> sv_client_buffers s' = sv_client_buffers s \<and> sv_sends s' = sv_sends s \<and> sv_sent s' = sv_sent s"
  proof cases
    case 2
    obtain name where "(name, command) \<in> set commands" using parse_command_known[OF 2(1)] by blast
    from safeD[OF command_safe[OF this] _ _ 2(2)] a show ?thesis by simp
  qed (use a in simp)
qed

text \<open>Sending: it succeeds, or the client is gone and the call of \<open>send\<close> did not succeed.\<close>

lemma coherent_sends: "coherent s \<Longrightarrow> coherent (s\<lparr>sv_sends := n\<rparr>)" "coherent s \<Longrightarrow> coherent (s\<lparr> sv_sends := n, sv_sent := l \<rparr>)"
proof -
  assume c: "coherent s"
  note d = coherentD(2-5)[OF c]
  show "coherent (s\<lparr>sv_sends := n\<rparr>)" "coherent (s\<lparr> sv_sends := n, sv_sent := l \<rparr>)"
    by (rule coherent_cong[OF c]; use d in \<open>simp add: tables_def\<close>)+
qed

lemma msg_client_cases:
  assumes c: "coherent s" and k: "k \<in> fst ` set (sv_client_buffers s)"
  obtains (sent) "sw_send w (sv_sends s)" "msg_client w k m s = (Inr (), s\<lparr> sv_sends := Suc (sv_sends s), sv_sent := sv_sent s @ [(k, m)] \<rparr>)"
  | (failed) "\<not> sw_send w (sv_sends s)" "msg_client w k m s = (Inl OSError, without k (s\<lparr>sv_sends := Suc (sv_sends s)\<rparr>))"
      "coherent (without k (s\<lparr>sv_sends := Suc (sv_sends s)\<rparr>))"
proof (cases "sw_send w (sv_sends s)")
  case True
  have "k \<in> open_sockets s" using coherentD(6)[OF c] k by blast
  then have "0 \<le> fileno s k" by (simp add: open_sockets_def)
  with True show thesis by (intro sent) (simp_all add: msg_client_def)
next
  case False
  let ?s = "s\<lparr>sv_sends := Suc (sv_sends s)\<rparr>"
  have c1: "coherent ?s" and k1: "k \<in> fst ` set (sv_client_buffers ?s)" using coherent_sends(1)[OF c] k by simp_all
  from False coherent_without[OF c1 k1] show thesis
    by (intro failed) (simp_all add: msg_client_def Let_def and_then_def raise_def)
qed

lemma without_simps [simp]:
  "sv_sends (without k s) = sv_sends s" "sv_sent (without k s) = sv_sent s" "sv_controller (without k s) = sv_controller s"
  "sv_client_buffers (without k s) = od_del k (sv_client_buffers s)" "sv_job_watches (without k s) = od_del k (sv_job_watches s)"
  "sv_machine_watches (without k s) = od_del k (sv_machine_watches s)" "sv_server_socket (without k s) = sv_server_socket s"
  by (simp_all add: without_def clear_watches_def dropped_def)

definition send_failed :: "sworld \<Rightarrow> server \<Rightarrow> server \<Rightarrow> bool" where
  "send_failed w s s' \<longleftrightarrow> (\<exists>n. sv_sends s \<le> n \<and> n < sv_sends s' \<and> \<not> sw_send w n)"

text \<open>
  An answer ends with the client connected, or without it, and then a call of \<open>send\<close> failed.
\<close>

definition served_client :: "sworld \<Rightarrow> sock \<Rightarrow> server \<Rightarrow> unit res \<times> server \<Rightarrow> bool" where
  "served_client w k s p \<longleftrightarrow>
     coherent (snd p) \<and> sv_sends s \<le> sv_sends (snd p) \<and>
     (k \<in> fst ` set (sv_client_buffers (snd p)) \<or>
      \<not> is_ok (fst p) \<and> send_failed w s (snd p) \<and> k < length (sv_fds (snd p)) \<and> fileno (snd p) k = - 1)"

lemma answer_served:
  assumes c: "coherent s" and k: "k \<in> fst ` set (sv_client_buffers s)"
  shows "served_client w k s (answer w k line s)"
proof -
  obtain o1 s1 where h: "handle_command w k line s = (o1, s1)" by (cases "handle_command w k line s")
  note d = safeD[OF handle_command_safe c k h]
  have k1: "k \<in> fst ` set (sv_client_buffers s1)" using k d(2) by simp
  show ?thesis
  proof (cases o1)
    case (Inl e)
    with h d k1 show ?thesis by (simp add: answer_def and_then_def served_client_def)
  next
    case (Inr m)
    then have a: "answer w k line s = msg_client w k m s1" using h by (simp add: answer_def and_then_def)
    show ?thesis
    proof (rule msg_client_cases[OF d(1) k1, of w m])
      assume "msg_client w k m s1 = (Inr (), s1\<lparr> sv_sends := Suc (sv_sends s1), sv_sent := sv_sent s1 @ [(k, m)] \<rparr>)"
      then show ?thesis using a k1 d coherent_sends(2)[OF d(1)] by (simp add: served_client_def)
    next
      let ?t = "without k (s1\<lparr>sv_sends := Suc (sv_sends s1)\<rparr>)"
      assume f: "\<not> sw_send w (sv_sends s1)" "msg_client w k m s1 = (Inl OSError, ?t)" "coherent ?t"
      have "k \<in> open_sockets s1" using coherentD(6)[OF d(1)] k1 by blast
      then have "k < length (sv_fds ?t) \<and> fileno ?t k = - 1"
        by (simp add: without_def clear_watches_def dropped_def fileno_def open_sockets_def)
      then show ?thesis using a f d by (auto simp: served_client_def send_failed_def)
    qed
  qed
qed

lemma answers_served:
  assumes "coherent s" "k \<in> fst ` set (sv_client_buffers s)"
  shows "served_client w k s (for_each ls (answer w k) s)"
  using assms
proof (induction ls arbitrary: s)
  case (Cons l ls)
  obtain o1 s1 where a: "answer w k l s = (o1, s1)" by (cases "answer w k l s")
  have s1: "served_client w k s (o1, s1)" using answer_served[OF Cons.prems, of w l] a by simp
  show ?case
  proof (cases o1)
    case (Inl e)
    with a s1 show ?thesis by (simp add: and_then_def)
  next
    case (Inr u)
    with s1 have "coherent s1" "k \<in> fst ` set (sv_client_buffers s1)" "sv_sends s \<le> sv_sends s1" by (simp_all add: served_client_def)
    from Cons.IH[OF this(1,2)] this(3) show ?thesis using a Inr by (auto simp: and_then_def served_client_def send_failed_def)
  qed
qed (simp add: served_client_def)

lemma disconnect_closed:
  assumes "fileno s k = - 1"
  shows "fst (disconnect_client k s) = Inl ValueError"
  using assms by (simp add: disconnect_client_def Let_def clear_watches_def unregister_channel_def fileno_def)

lemma coherent_set_buffer:
  assumes "coherent s" "k \<in> fst ` set (sv_client_buffers s)"
  shows "coherent (set_buffers (od_set k x (sv_client_buffers s)) s)"
proof -
  have "k \<in> set (od_keys (sv_client_buffers s))" using assms(2) by simp
  then have "od_keys (od_set k x (sv_client_buffers s)) = od_keys (sv_client_buffers s)" by (simp only: od_keys_set if_True)
  then show ?thesis using coherentD(2-5)[OF assms(1)] by (intro coherent_cong[OF assms(1)]) (simp_all add: tables_def set_buffers_def)
qed

text \<open>What a client sends either is handled, or a reply could not be sent and the thread is lost.\<close>

lemma handle_commands_cases:
  assumes c: "coherent s" and k: "k \<in> fst ` set (sv_client_buffers s)"
  shows "(\<exists>s'. handle_commands w k data s = (Inr (), s') \<and> coherent s') \<or>
    (\<exists>s'. handle_commands w k data s = (Inl ValueError, s') \<and> send_failed w s s')"
proof (cases "data = []")
  case True
  with coherent_without[OF c k] show ?thesis by (simp add: handle_commands_def)
next
  case False
  obtain buf where buf: "od_get (sv_client_buffers s) k = Some buf" using k od_get_None_iff[of "sv_client_buffers s" k] by auto
  let ?ls = "filter filled (fst (split_lines (buf @ data)))"
  obtain o1 s1 where f: "for_each ?ls (answer w k) s = (o1, s1)" by (cases "for_each ?ls (answer w k) s")
  have s1: "served_client w k s (o1, s1)" using answers_served[OF c k, of w ?ls] f by simp
  have e: "handle_commands w k data s =
      (case o1 of Inl e \<Rightarrow> disconnect_client k s1
       | Inr u \<Rightarrow> (Inr (), set_buffers (od_set k (snd (split_lines (buf @ data))) (sv_client_buffers s1)) s1))"
    using handle_commands_eq[OF buf False, of w] f by (simp add: serve_lines_def split: sum.splits)
  show ?thesis
  proof (cases "k \<in> fst ` set (sv_client_buffers s1)")
    case True
    then show ?thesis using e s1 coherent_without[OF _ True] coherent_set_buffer[OF _ True]
      by (cases o1) (simp_all add: served_client_def)
  next
    case False
    with s1 obtain x where x: "o1 = Inl x" "send_failed w s s1" "fileno s1 k = - 1" by (cases o1) (auto simp: served_client_def)
    obtain o2 s2 where d: "disconnect_client k s1 = (o2, s2)" by (cases "disconnect_client k s1")
    then have "o2 = Inl ValueError" using disconnect_closed[OF x(3)] by simp
    moreover have "sv_sends s2 = sv_sends s1"
      using d by (auto simp: disconnect_client_def Let_def clear_watches_def unregister_channel_def close_socket_def split: if_splits)
    ultimately show ?thesis using e x d by (simp add: send_failed_def)
  qed
qed

section \<open>Notifications\<close>

text \<open>A notification never raises. It is sent, or it is not and the client is gone.\<close>

lemma notify_client_cases:
  assumes c: "coherent s" and k: "k \<in> fst ` set (sv_client_buffers s)"
  shows "\<exists>s'. notify_client w label changes (k, items) s = (Inr (), s') \<and> coherent s' \<and> sv_controller s' = sv_controller s \<and>
    (fst ` set (sv_client_buffers s) - {k} \<subseteq> fst ` set (sv_client_buffers s')) \<and>
    ((\<forall>n. sw_send w n) \<longrightarrow> sv_client_buffers s' = sv_client_buffers s \<and>
       sv_job_watches s' = sv_job_watches s \<and> sv_machine_watches s' = sv_machine_watches s \<and>
       sv_sent s' = sv_sent s @ (if items = None \<or> the items \<inter> changes \<noteq> {}
         then [(k, label (case items of None \<Rightarrow> changes | Some S \<Rightarrow> changes \<inter> S))] else []))"
  by (rule msg_client_cases[OF c k, of w "label (case items of None \<Rightarrow> changes | Some S \<Rightarrow> changes \<inter> S)"])
    (use c coherent_sends(2)[OF c] in \<open>auto simp: notify_client_def\<close>)

lemma notify_all:
  assumes "coherent s" "distinct (od_keys W)" "fst ` set W \<subseteq> fst ` set (sv_client_buffers s)"
  shows "\<exists>s'. for_each W (notify_client w label changes) s = (Inr (), s') \<and> coherent s' \<and> sv_controller s' = sv_controller s \<and>
    ((\<forall>n. sw_send w n) \<longrightarrow> sv_client_buffers s' = sv_client_buffers s \<and>
       sv_job_watches s' = sv_job_watches s \<and> sv_machine_watches s' = sv_machine_watches s \<and>
       sv_sent s' = sv_sent s @ concat (map (\<lambda>(k, items). if items = None \<or> the items \<inter> changes \<noteq> {}
         then [(k, label (case items of None \<Rightarrow> changes | Some S \<Rightarrow> changes \<inter> S))] else []) W))"
  using assms
proof (induction W arbitrary: s)
  case (Cons x W)
  obtain k items where x: "x = (k, items)" by (cases x)
  have k: "k \<in> fst ` set (sv_client_buffers s)" using Cons.prems(3) x by simp
  obtain s1 where s1: "notify_client w label changes x s = (Inr (), s1)" "coherent s1" "sv_controller s1 = sv_controller s"
    and keep: "fst ` set (sv_client_buffers s) - {k} \<subseteq> fst ` set (sv_client_buffers s1)"
    and ok: "(\<forall>n. sw_send w n) \<longrightarrow> sv_client_buffers s1 = sv_client_buffers s \<and>
       sv_job_watches s1 = sv_job_watches s \<and> sv_machine_watches s1 = sv_machine_watches s \<and>
       sv_sent s1 = sv_sent s @ (if items = None \<or> the items \<inter> changes \<noteq> {}
         then [(k, label (case items of None \<Rightarrow> changes | Some S \<Rightarrow> changes \<inter> S))] else [])"
    using notify_client_cases[OF Cons.prems(1) k, of w label changes items, folded x] by (elim exE conjE)
  have "k \<notin> fst ` set W" using Cons.prems(2) x by simp
  then have "fst ` set W \<subseteq> fst ` set (sv_client_buffers s) - {k}" using Cons.prems(3) by auto
  then have sub: "fst ` set W \<subseteq> fst ` set (sv_client_buffers s1)" using keep by (rule subset_trans)
  have "distinct (od_keys W)" using Cons.prems(2) by simp
  from Cons.IH[OF s1(2) this sub] obtain s2 where s2: "for_each W (notify_client w label changes) s1 = (Inr (), s2)" "coherent s2"
    "sv_controller s2 = sv_controller s1"
    and ok2: "(\<forall>n. sw_send w n) \<longrightarrow> sv_client_buffers s2 = sv_client_buffers s1 \<and>
       sv_job_watches s2 = sv_job_watches s1 \<and> sv_machine_watches s2 = sv_machine_watches s1 \<and>
       sv_sent s2 = sv_sent s1 @ concat (map (\<lambda>(k, items). if items = None \<or> the items \<inter> changes \<noteq> {}
         then [(k, label (case items of None \<Rightarrow> changes | Some S \<Rightarrow> changes \<inter> S))] else []) W)"
    by (elim exE conjE)
  have "for_each (x # W) (notify_client w label changes) s = (Inr (), s2)" using s1(1) s2(1) by (simp add: and_then_def)
  then show ?case using s1(3) s2(2,3) ok ok2 by (intro exI[of _ s2]) (simp add: x)
qed simp

text \<open>The messages of one kind.\<close>

definition notices :: "(json set \<Rightarrow> message) \<Rightarrow> json set \<Rightarrow> watches \<Rightarrow> (sock \<times> message) list" where
  "notices label changes W =
     concat (map (\<lambda>(k, items). if items = None \<or> the items \<inter> changes \<noteq> {}
       then [(k, label (case items of None \<Rightarrow> changes | Some S \<Rightarrow> changes \<inter> S))] else []) W)"

lemma send_notifications_cases:
  assumes c: "coherent s" and W: "W = sv_job_watches s \<or> W = sv_machine_watches s"
  shows "\<exists>s'. send_notifications w label changes W s = (Inr (), s') \<and> coherent s' \<and> sv_controller s' = sv_controller s \<and>
    ((\<forall>n. sw_send w n) \<longrightarrow> sv_client_buffers s' = sv_client_buffers s \<and>
       sv_job_watches s' = sv_job_watches s \<and> sv_machine_watches s' = sv_machine_watches s \<and>
       sv_sent s' = sv_sent s @ (if changes = {} then [] else notices label changes W))"
proof (cases "changes = {}")
  case True
  with c show ?thesis by (simp add: send_notifications_def return_def)
next
  case False
  have "distinct (od_keys W)" "fst ` set W \<subseteq> fst ` set (sv_client_buffers s)"
    using W coherentD(2-5)[OF c] by (auto simp: watches_ok_def)
  from notify_all[OF c this, of w label changes] False show ?thesis by (simp add: send_notifications_def notices_def)
qed

lemma change_notifications_cases:
  assumes c: "coherent s"
  shows "\<exists>s'. send_change_notifications w s = (Inr (), s') \<and> coherent s' \<and>
    sv_controller s' = (sv_controller s)\<lparr> c_changed_jobs := {}, c_changed_machines := {} \<rparr> \<and>
    ((\<forall>n. sw_send w n) \<longrightarrow> sv_client_buffers s' = sv_client_buffers s \<and>
       sv_job_watches s' = sv_job_watches s \<and> sv_machine_watches s' = sv_machine_watches s \<and>
       sv_sent s' = sv_sent s @
         (if c_changed_jobs (sv_controller s) = {} then []
          else notices Jobs_changed (JInt ` c_changed_jobs (sv_controller s)) (sv_job_watches s)) @
         (if c_changed_machines (sv_controller s) = {} then []
          else notices Machines_changed (JString ` c_changed_machines (sv_controller s)) (sv_machine_watches s)))"
proof -
  let ?c = "sv_controller s"
  let ?s0 = "s\<lparr>sv_controller := ?c\<lparr>c_changed_jobs := {}\<rparr>\<rparr>"
  obtain s1 where s1: "send_notifications w Jobs_changed (JInt ` c_changed_jobs ?c) (sv_job_watches ?s0) ?s0 = (Inr (), s1)"
    "coherent s1" "sv_controller s1 = sv_controller ?s0"
    and ok1: "(\<forall>n. sw_send w n) \<longrightarrow> sv_client_buffers s1 = sv_client_buffers ?s0 \<and>
       sv_job_watches s1 = sv_job_watches ?s0 \<and> sv_machine_watches s1 = sv_machine_watches ?s0 \<and>
       sv_sent s1 = sv_sent ?s0 @ (if JInt ` c_changed_jobs ?c = {} then [] else notices Jobs_changed (JInt ` c_changed_jobs ?c) (sv_job_watches ?s0))"
    using send_notifications_cases[of ?s0 "sv_job_watches ?s0" w Jobs_changed "JInt ` c_changed_jobs ?c",
      OF coherent_controller[OF c] disjI1[OF refl]]
    by (elim exE conjE)
  let ?t0 = "s1\<lparr>sv_controller := (sv_controller s1)\<lparr>c_changed_machines := {}\<rparr>\<rparr>"
  have W: "sv_machine_watches s1 = sv_job_watches ?t0 \<or> sv_machine_watches s1 = sv_machine_watches ?t0" by simp
  obtain s2 where s2: "send_notifications w Machines_changed (JString ` c_changed_machines ?c) (sv_machine_watches s1) ?t0 = (Inr (), s2)"
    "coherent s2" "sv_controller s2 = sv_controller ?t0"
    and ok2: "(\<forall>n. sw_send w n) \<longrightarrow> sv_client_buffers s2 = sv_client_buffers ?t0 \<and>
       sv_job_watches s2 = sv_job_watches ?t0 \<and> sv_machine_watches s2 = sv_machine_watches ?t0 \<and>
       sv_sent s2 = sv_sent ?t0 @ (if JString ` c_changed_machines ?c = {} then []
         else notices Machines_changed (JString ` c_changed_machines ?c) (sv_machine_watches s1))"
    using send_notifications_cases[of ?t0 "sv_machine_watches s1" w Machines_changed "JString ` c_changed_machines ?c",
      OF coherent_controller[OF s1(2)] W]
    by (elim exE conjE)
  have "send_change_notifications w s = (Inr (), s2)"
    using s1 s2(1) by (simp add: send_change_notifications_def read_changed_jobs_def read_changed_machines_def and_then_def)
  then show ?thesis using s1(3) s2 ok1 ok2 by (intro exI[of _ s2]) simp
qed

section \<open>New sockets, and closing all\<close>

definition fresh :: "server \<Rightarrow> int \<Rightarrow> bool" where
  "fresh s fd \<longleftrightarrow> 0 \<le> fd \<and> fd \<notin> fileno s ` open_sockets s"

text \<open>A new socket that is registered.\<close>

definition added :: "int \<Rightarrow> server \<Rightarrow> server" where
  "added fd s = register_channel (length (sv_fds s)) (s\<lparr>sv_fds := sv_fds s @ [fd]\<rparr>)"

lemma added_simps:
  "sv_fds (added fd s) = sv_fds s @ [fd]" "sv_poll (added fd s) = insert fd (sv_poll s)"
  "sv_fdmap (added fd s) = od_set fd (length (sv_fds s)) (sv_fdmap s)" "sv_server_socket (added fd s) = sv_server_socket s"
  "sv_client_buffers (added fd s) = sv_client_buffers s" "sv_job_watches (added fd s) = sv_job_watches s"
  "sv_machine_watches (added fd s) = sv_machine_watches s"
  by (simp_all add: added_def register_channel_def fileno_def)

lemma added_open:
  assumes "0 \<le> fd"
  shows "open_sockets (added fd s) = insert (length (sv_fds s)) (open_sockets s)"
    "fileno (added fd s) (length (sv_fds s)) = fd" "j \<in> open_sockets s \<Longrightarrow> fileno (added fd s) j = fileno s j"
  using assms by (auto simp: open_sockets_def fileno_def added_simps nth_append)

lemma added_tables:
  assumes f: "fresh s fd" and d: "inj_on (fileno s) (open_sockets s)" "sv_poll s = fileno s ` open_sockets s"
    "\<And>fd k. od_get (sv_fdmap s) fd = Some k \<longleftrightarrow> k \<in> open_sockets s \<and> fileno s k = fd"
  shows "inj_on (fileno (added fd s)) (open_sockets (added fd s))"
    "sv_poll (added fd s) = fileno (added fd s) ` open_sockets (added fd s)"
    "\<And>fd' k. od_get (sv_fdmap (added fd s)) fd' = Some k \<longleftrightarrow> k \<in> open_sockets (added fd s) \<and> fileno (added fd s) k = fd'"
proof -
  have f0: "0 \<le> fd" and fn: "fd \<notin> fileno s ` open_sockets s" using f by (simp_all add: fresh_def)
  note o = added_open[OF f0]
  let ?k = "length (sv_fds s)"
  have k: "?k \<notin> open_sockets s" by (simp add: open_sockets_def)
  have im: "fileno (added fd s) ` open_sockets s = fileno s ` open_sockets s" by (rule image_cong) (simp_all add: o(3))
  have "inj_on (fileno (added fd s)) (open_sockets s)" using d(1) inj_on_cong[of "open_sockets s" "fileno (added fd s)" "fileno s"] o(3) by blast
  then show "inj_on (fileno (added fd s)) (open_sockets (added fd s))" using fn k im by (simp add: o(1,2))
  show "sv_poll (added fd s) = fileno (added fd s) ` open_sockets (added fd s)" using d(2) im by (simp add: o(1,2) added_simps)
  show "od_get (sv_fdmap (added fd s)) fd' = Some k \<longleftrightarrow> k \<in> open_sockets (added fd s) \<and> fileno (added fd s) k = fd'" for fd' k
  proof (cases "k = ?k")
    case True
    then show ?thesis using k d(3)[of fd' k] by (auto simp: o(1,2) added_simps)
  next
    case False
    then show ?thesis using d(3)[of fd' k] o(3)[of k s] fn by (auto simp: o(1) added_simps)
  qed
qed

lemma coherent_accept:
  assumes c: "coherent s" and f: "\<And>fd. connection = Some fd \<Longrightarrow> fresh s fd"
  shows "coherent (accept_client connection s)"
proof (cases connection)
  case (Some fd)
  let ?k = "length (sv_fds s)"
  have e: "accept_client connection s = set_buffers (od_set ?k [] (sv_client_buffers s)) (added fd s)"
    by (simp add: accept_client_def Some new_socket_def added_def set_buffers_def Let_def register_channel_def)
  note d = coherentD[OF c]
  have fr: "fresh s fd" by (rule f[OF Some])
  then have o: "open_sockets (added fd s) = insert ?k (open_sockets s)" by (intro added_open) (simp add: fresh_def)
  have k: "?k \<notin> open_sockets s" by (simp add: open_sockets_def)
  then have kn: "?k \<notin> fst ` set (sv_client_buffers s)" "?k \<notin> set_option (sv_server_socket s)" "?k \<noteq> 0" using d(6) by auto
  note t = added_tables[OF fr d(10-12)]
  let ?t = "set_buffers (od_set ?k [] (sv_client_buffers s)) (added fd s)"
  have same: "open_sockets ?t = open_sockets (added fd s)" "fileno ?t = fileno (added fd s)" "sv_poll ?t = sv_poll (added fd s)"
    "sv_fdmap ?t = sv_fdmap (added fd s)" "sv_server_socket ?t = sv_server_socket s" "sv_job_watches ?t = sv_job_watches s"
    "sv_machine_watches ?t = sv_machine_watches s" "sv_client_buffers ?t = od_set ?k [] (sv_client_buffers s)"
    by (simp_all add: open_sockets_def fileno_def fun_eq_iff set_buffers_def added_simps)
  have "coherent ?t"
  proof (rule coherentI)
    show "open_sockets ?t = insert 0 (set_option (sv_server_socket ?t) \<union> fst ` set (sv_client_buffers ?t))"
      unfolding same o d(6) by auto
    show "set_option (sv_server_socket ?t) \<inter> fst ` set (sv_client_buffers ?t) = {}"
      unfolding same od_keys_set_set using d(9) kn(2) by blast
    show "0 \<notin> fst ` set (sv_client_buffers ?t)" unfolding same od_keys_set_set using d(8) kn(3) by simp
    show "fst ` set (sv_job_watches ?t) \<subseteq> fst ` set (sv_client_buffers ?t)" "fst ` set (sv_machine_watches ?t) \<subseteq> fst ` set (sv_client_buffers ?t)"
      unfolding same od_keys_set_set using d(4,5) by blast+
  qed (unfold same, (rule t d od_distinct_set)+)
  then show ?thesis unfolding e .
qed (simp add: accept_client_def c)

lemma disconnect_all:
  assumes "coherent s" "distinct ks" "set ks \<subseteq> fst ` set (sv_client_buffers s)"
  shows "\<exists>s'. for_each ks disconnect_client s = (Inr (), s') \<and> coherent s' \<and> sv_server_socket s' = sv_server_socket s \<and>
    fst ` set (sv_client_buffers s') = fst ` set (sv_client_buffers s) - set ks \<and> fileno s' 0 = fileno s 0"
  using assms
proof (induction ks arbitrary: s)
  case (Cons k ks)
  have k: "k \<in> fst ` set (sv_client_buffers s)" using Cons.prems(3) by simp
  note w = coherent_without[OF Cons.prems(1) k]
  have "k \<noteq> 0" using coherentD(8)[OF Cons.prems(1)] k by metis
  then have z: "fileno (without k s) 0 = fileno s 0" by (simp add: without_def clear_watches_def dropped_def fileno_def)
  have "set ks \<subseteq> fst ` set (sv_client_buffers (without k s))" using Cons.prems(2,3) by auto
  from Cons.IH[OF w(2) _ this] Cons.prems(2) obtain s' where s': "for_each ks disconnect_client (without k s) = (Inr (), s')" "coherent s'"
    "sv_server_socket s' = sv_server_socket s" "fst ` set (sv_client_buffers s') = fst ` set (sv_client_buffers s) - {k} - set ks"
    "fileno s' 0 = fileno s 0"
    by (auto simp: z)
  then show ?case using w(1) by (intro exI[of _ s']) (auto simp: and_then_def)
qed simp

lemma close_all_cases:
  assumes c: "coherent s"
  shows "\<exists>s'. close_all s = (Inr (), s') \<and> coherent s' \<and> sv_server_socket s' = None \<and> sv_client_buffers s' = [] \<and>
    fileno s' 0 = fileno s 0"
proof -
  note d = coherentD[OF c]
  obtain s1 where s1: "(case sv_server_socket s of None \<Rightarrow> (Inr (), s) | Some k \<Rightarrow>
        and_then (unregister_channel k) (\<lambda>_ s. (Inr (), (close_socket k s)\<lparr>sv_server_socket := None\<rparr>)) s) = (Inr (), s1)"
    "coherent s1" "sv_server_socket s1 = None" "sv_client_buffers s1 = sv_client_buffers s" "fileno s1 0 = fileno s 0"
  proof (cases "sv_server_socket s")
    case None
    with c that show thesis by simp
  next
    case (Some k)
    let ?t = "(dropped k s)\<lparr>sv_server_socket := None\<rparr>"
    have ko: "k \<in> open_sockets s" and kb: "k \<notin> fst ` set (sv_client_buffers s)" "k \<noteq> 0" using d(6,7,9) Some by auto
    then have "0 \<le> fileno s k" "fileno s k \<in> sv_poll s" using d(11) by (auto simp: open_sockets_def)
    then have u: "and_then (unregister_channel k) (\<lambda>_ s. (Inr (), (close_socket k s)\<lparr>sv_server_socket := None\<rparr>)) s = (Inr (), ?t)"
      by (simp add: and_then_def unregister_channel_def fileno_def close_socket_def dropped_def Let_def)
    have same: "open_sockets ?t = open_sockets (dropped k s)" "fileno ?t = fileno (dropped k s)" "sv_poll ?t = sv_poll (dropped k s)"
      "sv_fdmap ?t = sv_fdmap (dropped k s)" "sv_server_socket ?t = None" "sv_job_watches ?t = sv_job_watches s"
      "sv_machine_watches ?t = sv_machine_watches s" "sv_client_buffers ?t = sv_client_buffers s"
      by (simp_all add: open_sockets_def fileno_def fun_eq_iff dropped_def)
    note t = dropped_tables[OF ko d(10-12)]
    have "coherent ?t"
    proof (rule coherentI)
      show "open_sockets ?t = insert 0 (set_option (sv_server_socket ?t) \<union> fst ` set (sv_client_buffers ?t))"
        unfolding same dropped_open(1)[OF ko] d(6) using kb Some by auto
      show "0 \<notin> set_option (sv_server_socket ?t)" "set_option (sv_server_socket ?t) \<inter> fst ` set (sv_client_buffers ?t) = {}"
        unfolding same by simp_all
    qed (unfold same, (rule t d)+)
    moreover have "fileno ?t 0 = fileno s 0" unfolding same using kb(2) dropped_open(2)[OF ko, of 0] by simp
    ultimately show thesis using u Some same by (intro that[of ?t]) simp_all
  qed
  have ks: "distinct (map fst (sv_client_buffers s1))" "set (map fst (sv_client_buffers s1)) \<subseteq> fst ` set (sv_client_buffers s1)"
    using coherentD(1)[OF s1(2)] by simp_all
  obtain s2 where s2: "for_each (map fst (sv_client_buffers s1)) disconnect_client s1 = (Inr (), s2)" "coherent s2"
    "sv_server_socket s2 = None" "fst ` set (sv_client_buffers s2) = {}" "fileno s2 0 = fileno s1 0"
    using disconnect_all[OF s1(2) ks] s1(3) by auto
  then have "close_all s = (Inr (), s2)" using s1(1) by (simp add: close_all_def and_then_def)
  with s2 s1(5) show ?thesis by simp
qed

lemma coherent_reload: "coherent s \<Longrightarrow> coherent (s\<lparr>sv_reload_config := b\<rparr>)" "coherent s \<Longrightarrow> coherent (s\<lparr>sv_configuration := cfg\<rparr>)"
proof -
  assume c: "coherent s"
  note d = coherentD(2-5)[OF c]
  show "coherent (s\<lparr>sv_reload_config := b\<rparr>)" "coherent (s\<lparr>sv_configuration := cfg\<rparr>)"
    by (rule coherent_cong[OF c]; use d in \<open>simp add: tables_def\<close>)+
qed

text \<open>Listening again: the descriptor is new, apart from those of sockets that were just closed.\<close>

lemma coherent_listen:
  assumes c: "coherent s" and e: "sv_server_socket s = None" "sv_client_buffers s = []" and f: "0 \<le> fd" "fd \<noteq> fileno s 0"
  shows "\<exists>s'. open_server_socket (Some fd) s = (Inr (), s') \<and> coherent s'"
proof -
  let ?k = "length (sv_fds s)"
  note d = coherentD[OF c]
  have o: "open_sockets s = {0}" using d(6) e by simp
  then have fr: "fresh s fd" using f by (simp add: fresh_def)
  let ?t = "(added fd s)\<lparr>sv_server_socket := Some ?k\<rparr>"
  have k: "?k \<noteq> 0" using o by (auto simp: open_sockets_def)
  have same: "open_sockets ?t = open_sockets (added fd s)" "fileno ?t = fileno (added fd s)" "sv_poll ?t = sv_poll (added fd s)"
    "sv_fdmap ?t = sv_fdmap (added fd s)" "sv_server_socket ?t = Some ?k" "sv_job_watches ?t = sv_job_watches s"
    "sv_machine_watches ?t = sv_machine_watches s" "sv_client_buffers ?t = sv_client_buffers s"
    by (simp_all add: open_sockets_def fileno_def fun_eq_iff added_simps)
  note t = added_tables[OF fr d(10-12)]
  have "coherent ?t"
  proof (rule coherentI)
    show "open_sockets ?t = insert 0 (set_option (sv_server_socket ?t) \<union> fst ` set (sv_client_buffers ?t))"
      unfolding same added_open(1)[OF f(1)] o e by auto
    show "0 \<notin> set_option (sv_server_socket ?t)" "set_option (sv_server_socket ?t) \<inter> fst ` set (sv_client_buffers ?t) = {}"
      unfolding same e using k by simp_all
  qed (unfold same, (rule t d)+)
  then show ?thesis by (simp add: open_server_socket_def new_socket_def added_def Let_def)
qed

lemma on_controller_coherent: "coherent s \<Longrightarrow> on_controller f s = (out, s') \<Longrightarrow> coherent s'"
  using coherent_controller by (auto simp: on_controller_def split: prod.splits)

lemma coherent_load:
  assumes c: "coherent s" and f: "\<And>fd. listening = Some fd \<Longrightarrow> 0 \<le> fd \<and> fd \<noteq> fileno s 0"
    and run: "load_valid_config w new listening s = (out, s')"
  shows "coherent s'"
proof -
  let ?s = "s\<lparr>sv_configuration := new\<rparr>"
  have c0: "coherent ?s" by (rule coherent_reload(2)[OF c])
  obtain s1 where s1: "close_all ?s = (Inr (), s1)" "coherent s1" "sv_server_socket s1 = None" "sv_client_buffers s1 = []"
    "fileno s1 0 = fileno ?s 0"
    using close_all_cases[OF c0] by (elim exE conjE)
  have opened: "coherent s2" if "and_then close_all (\<lambda>_. open_server_socket listening) ?s = (o2, s2)" for o2 s2
  proof (cases listening)
    case None
    with that s1(1,2) show ?thesis by (simp add: and_then_def open_server_socket_def)
  next
    case (Some fd)
    have "0 \<le> fd" "fd \<noteq> fileno s1 0" using f[OF Some] s1(5) by (simp_all add: fileno_def)
    from coherent_listen[OF s1(2-4) this] obtain t where "open_server_socket listening s1 = (Inr (), t)" "coherent t"
      unfolding Some by (elim exE conjE)
    with that s1(1) show ?thesis by (simp add: and_then_def)
  qed
  let ?first = "if cf_ip new \<noteq> cf_ip (sv_configuration s) \<or> sv_server_socket ?s = None
      then and_then close_all (\<lambda>_. open_server_socket listening) else return ()"
  obtain o1 t where t: "?first ?s = (o1, t)" by (cases "?first ?s")
  have ct: "coherent t" using t opened c0 by (auto simp: return_def split: if_splits)
  have rest: "coherent u'" if "coherent u" "and_then (on_controller g) (\<lambda>_. and_then (\<lambda>s. (Inr (), with_controller h s)) (\<lambda>_. on_controller j)) u = (o3, u')"
    for g :: "unit ctl" and h and j :: "unit ctl" and u o3 u'
  proof -
    obtain o4 v where v: "on_controller g u = (o4, v)" by (cases "on_controller g u")
    have cv: "coherent v" by (rule on_controller_coherent[OF that(1) v])
    have "coherent (with_controller h v)" using coherent_controller[OF cv] by (simp add: with_controller_def)
    then show ?thesis using that(2) v cv on_controller_coherent[of "with_controller h v" j]
      by (auto simp: and_then_def split: sum.splits)
  qed
  show ?thesis using run t ct rest[OF ct] by (auto simp: load_valid_config_def Let_def and_then_def split: sum.splits)
qed

section \<open>Histories of the server\<close>

text \<open>
  A server that started; then what one descriptor brings, notifications, a configuration, a signal;
  and between them anything may happen to the controller. New descriptors are not in use.
\<close>

inductive serving :: "sworld \<Rightarrow> server \<Rightarrow> bool" for w where
  started: "start_server w saved notify_fd parsed (Some fd) = (Inr (), s) \<Longrightarrow>
    0 \<le> notify_fd \<Longrightarrow> 0 \<le> fd \<Longrightarrow> fd \<noteq> notify_fd \<Longrightarrow> serving w s"
| channel: "serving w s \<Longrightarrow> handle_channel w rd s = (Inr (), s') \<Longrightarrow>
    (\<And>fd. rd_connection rd = Some fd \<Longrightarrow> fresh s fd) \<Longrightarrow> serving w s'"
| notified: "serving w s \<Longrightarrow> send_change_notifications w s = (Inr (), s') \<Longrightarrow> serving w s'"
| reloaded: "serving w s \<Longrightarrow> read_config_file w parsed listening s = (ok, s') \<Longrightarrow>
    (\<And>fd. listening = Some fd \<Longrightarrow> 0 \<le> fd \<and> fd \<noteq> fileno s 0) \<Longrightarrow> serving w s'"
| worked: "serving w s \<Longrightarrow> serving w (s\<lparr>sv_controller := c\<rparr>)"
| signalled: "serving w s \<Longrightarrow> serving w (sighup_handler s)"

text \<open>Every registered descriptor belongs to the server's socket or to a client.\<close>

lemma channel_cases:
  assumes c: "coherent s" and p: "rd_fd rd \<in> sv_poll s"
  shows "handle_channel w rd s = (Inr (), s) \<or> handle_channel w rd s = (Inr (), accept_client (rd_connection rd) s) \<or>
    (\<exists>k. k \<in> fst ` set (sv_client_buffers s) \<and> handle_channel w rd s = handle_commands w k (rd_data rd) s)"
proof -
  note d = coherentD[OF c]
  obtain k where k: "k \<in> open_sockets s" "fileno s k = rd_fd rd" using p d(11) by auto
  then have m: "od_get (sv_fdmap s) (rd_fd rd) = Some k" using d(12) by simp
  show ?thesis
  proof (cases "k = 0 \<or> sv_server_socket s = Some k")
    case True
    with k m show ?thesis by (auto simp: handle_channel_def)
  next
    case False
    then have "k \<in> fst ` set (sv_client_buffers s)" using k(1) d(6) by auto
    moreover have "rd_fd rd \<noteq> fileno s 0"
    proof
      assume "rd_fd rd = fileno s 0"
      moreover have "0 \<in> open_sockets s" using d(6) by simp
      ultimately have "k = 0" using k d(10) unfolding inj_on_def by metis
      with False show False by simp
    qed
    ultimately show ?thesis using m False by (intro disjI2 exI[of _ k]) (simp add: handle_channel_def)
  qed
qed

lemma coherent_channel:
  assumes c: "coherent s" and run: "handle_channel w rd s = (Inr (), s')" and f: "\<And>fd. rd_connection rd = Some fd \<Longrightarrow> fresh s fd"
  shows "coherent s'"
proof (cases "rd_fd rd \<in> sv_poll s")
  case True
  from channel_cases[OF c True, of w] run c coherent_accept[OF c f] handle_commands_cases[OF c, of _ w "rd_data rd"] show ?thesis
    by fastforce
next
  case False
  have "od_get (sv_fdmap s) (rd_fd rd) = None"
  proof (cases "od_get (sv_fdmap s) (rd_fd rd)")
    case (Some k)
    then have "k \<in> open_sockets s \<and> fileno s k = rd_fd rd" using coherentD(12)[OF c] by blast
    then have "rd_fd rd \<in> sv_poll s" unfolding coherentD(11)[OF c] by (elim conjE) (rule image_eqI[OF sym])
    with False show ?thesis by simp
  qed
  with run c show ?thesis by (auto simp: handle_channel_def split: if_splits)
qed

lemma coherent_reading:
  assumes c: "coherent s" and run: "read_config_file w parsed listening s = (ok, s')"
    and f: "\<And>fd. listening = Some fd \<Longrightarrow> 0 \<le> fd \<and> fd \<noteq> fileno s 0"
  shows "coherent s'"
proof (cases parsed)
  case (Some new)
  obtain out t where t: "load_valid_config w new listening (s\<lparr>sv_reload_config := False\<rparr>) = (out, t)"
    by (cases "load_valid_config w new listening (s\<lparr>sv_reload_config := False\<rparr>)")
  have "coherent t" by (rule coherent_load[OF coherent_reload(1)[OF c] _ t]) (use f in \<open>simp add: fileno_def\<close>)
  with run Some t show ?thesis by (auto simp: read_config_file_def Let_def split: sum.splits)
qed (use run coherent_reload(1)[OF c] in \<open>auto simp: read_config_file_def\<close>)

lemma serving_coherent: "serving w s \<Longrightarrow> coherent s"
proof (induction rule: serving.induct)
  case (started saved notify_fd parsed fd s)
  define c where "c = (case saved of None \<Rightarrow> new_controller 1 1200 False 30 | Some c \<Rightarrow> init_dynamic_state (sw_controller w) c)\<lparr>c_on_background := True\<rparr>"
  define s0 :: server where "s0 = register_channel 0
    \<lparr> sv_controller = c, sv_configuration = default_configuration, sv_fds = [notify_fd],
      sv_poll = {}, sv_fdmap = [], sv_server_socket = None, sv_client_buffers = [], sv_job_watches = [],
      sv_machine_watches = [], sv_reload_config = False, sv_sent = [], sv_sends = 0 \<rparr>"
  have z: "open_sockets s0 = {0}" "fileno s0 0 = notify_fd"
    using started(2) by (auto simp: s0_def open_sockets_def fileno_def register_channel_def)
  have "coherent s0"
    by (rule coherentI; (unfold z)?) (use z(2) in \<open>auto simp: s0_def register_channel_def watches_ok_def fileno_def\<close>)
  moreover have "\<exists>ok. read_config_file w parsed (Some fd) s0 = (ok, s)"
    using started(1) unfolding start_server_def Let_def c_def[symmetric] s0_def[symmetric] by (auto split: prod.splits if_splits)
  ultimately show ?case using coherent_reading[of s0 w parsed "Some fd" _ s] started(3,4) z(2) by auto
next
  case (notified s s')
  with change_notifications_cases[of s w] show ?case by auto
next
  case (worked s c)
  show ?case by (rule coherent_controller[OF worked.IH])
next
  case (signalled s)
  then show ?case using coherent_reload(1) by (simp add: sighup_handler_def)
next
  case (channel s rd s')
  show ?case by (rule coherent_channel[OF channel.IH channel.hyps(2)]) (rule channel.hyps(3))
next
  case (reloaded s parsed listening ok s')
  show ?case by (rule coherent_reading[OF reloaded.IH reloaded.hyps(2)]) (rule reloaded.hyps(3))
qed

text \<open>
  C6. The tables of connections. In every state of the server, through connections that come and go,
  commands, replies that fail, notifications, signals and configurations that do or do not load:
  the open sockets are the one that wakes the thread, the listening one and those of the clients;
  exactly their descriptors, all different, are registered with the poll object and mapped back to
  them; and only connected clients watch anything.
\<close>

theorem connections_consistent:
  assumes "serving w s"
  shows "coherent s"
  by (rule serving_coherent[OF assms])

text \<open>
  C7. The thread survives. Serving a descriptor that is ready returns, whatever the client sent,
  unless a call of \<open>send\<close> failed meanwhile; and telling clients about changes always returns.
\<close>

theorem thread_survives:
  assumes "serving w s" "rd_fd rd \<in> sv_poll s"
  shows "((\<exists>s'. handle_channel w rd s = (Inr (), s')) \<or>
     (\<exists>s'. handle_channel w rd s = (Inl ValueError, s') \<and> send_failed w s s')) \<and>
    fst (send_change_notifications w s) = Inr ()"
proof
  note c = serving_coherent[OF assms(1)]
  consider "handle_channel w rd s = (Inr (), s)" | "handle_channel w rd s = (Inr (), accept_client (rd_connection rd) s)"
    | k where "k \<in> fst ` set (sv_client_buffers s)" "handle_channel w rd s = handle_commands w k (rd_data rd) s"
    using channel_cases[OF c assms(2), of w] by blast
  then show "(\<exists>s'. handle_channel w rd s = (Inr (), s')) \<or>
     (\<exists>s'. handle_channel w rd s = (Inl ValueError, s') \<and> send_failed w s s')"
  proof cases
    case 3
    from handle_commands_cases[OF c 3(1), of w "rd_data rd"] show ?thesis unfolding 3(2) by blast
  qed blast+
  show "fst (send_change_notifications w s) = Inr ()" using change_notifications_cases[OF c, of w] by auto
qed

text \<open>
  C8. A reply that cannot be sent. If the reply to a request fails, because the client has gone
  meanwhile, the client is disconnected twice, the second time raises ValueError, and the round
  of the server thread ends with it.
\<close>

theorem failed_reply_ends_thread:
  assumes s: "serving w s" and k: "od_get (sv_client_buffers s) k = Some []"
    and l: "line \<noteq> []" "newline \<notin> set line" "sw_decode w line = Inr v" "parse_command v = Inr req"
    and f: "\<not> sw_send w (sv_sends s)" and rd: "rd_fd rd = fileno s k" "rd_data rd = line @ newline # tail_bytes"
  shows "fst (serve_round w (rd # ready) parsed listening s) = Inl ValueError"
proof -
  note c = serving_coherent[OF s]
  have kb: "k \<in> fst ` set (sv_client_buffers s)" using od_get_Some_key[OF k] .
  have ko: "k \<in> open_sockets s" "0 \<in> open_sockets s" using kb unfolding coherentD(6)[OF c] by (blast intro: insertI1)+
  have "k \<noteq> 0"
  proof
    assume "k = 0"
    with kb coherentD(8)[OF c] show False by (simp only: not_True_eq_False)
  qed
  moreover have "sv_server_socket s \<noteq> Some k" using kb coherentD(9)[OF c] by (cases "sv_server_socket s") auto
  ultimately have kn: "k \<noteq> 0" "sv_server_socket s \<noteq> Some k" .
  have m: "od_get (sv_fdmap s) (rd_fd rd) = Some k" using coherentD(12)[OF c] ko(1) rd(1) by simp
  have nz: "rd_fd rd \<noteq> fileno s 0" using coherentD(10)[OF c] ko kn(1) rd(1) unfolding inj_on_def by metis
  let ?data = "line @ newline # tail_bytes"
  have sp: "split_lines ?data = (line # fst (split_lines tail_bytes), snd (split_lines tail_bytes))"
  proof -
    have "\<And>x. x \<in> set line \<Longrightarrow> x \<noteq> newline" using l(2) by blast
    then have "takeWhile (\<lambda>x. x \<noteq> newline) ?data = line" "dropWhile (\<lambda>x. x \<noteq> newline) ?data = newline # tail_bytes"
      by (simp_all add: takeWhile_append2 dropWhile_append2)
    then show ?thesis using split_lines_step[of ?data] by simp
  qed
  obtain comm args kwargs where q: "req = (comm, args, kwargs)" by (cases req)
  obtain o1 s1 where o1: "comm w k args kwargs s = (o1, s1)" by (cases "comm w k args kwargs s")
  obtain msg where h: "handle_command w k line s = (Inr msg, s1)"
    using l(3,4) q o1 by (cases o1) (simp_all add: handle_command_def)
  note d = safeD[OF handle_command_safe c kb h]
  have k1: "k \<in> fst ` set (sv_client_buffers s1)" using kb d(2) by simp
  have "\<not> sw_send w (sv_sends s1)" using f d(3) by simp
  then obtain t where t: "msg_client w k msg s1 = (Inl OSError, t)" "fileno t k = - 1"
  proof (cases rule: msg_client_cases[OF d(1) k1, of w msg])
    case 2
    have "k \<in> open_sockets s1" using coherentD(6)[OF d(1)] k1 by blast
    then have "fileno (without k (s1\<lparr>sv_sends := Suc (sv_sends s1)\<rparr>)) k = - 1"
      by (simp add: without_def clear_watches_def dropped_def fileno_def open_sockets_def)
    with 2(2) that show thesis by blast
  qed simp
  have "answer w k line s = (Inl OSError, t)" using h t(1) by (simp add: answer_def and_then_def)
  then have "handle_commands w k ?data s = disconnect_client k t"
    using handle_commands_eq[OF k, of ?data w] l(1) by (simp add: sp serve_lines_def filled_def and_then_def)
  then have "fst (handle_channel w rd s) = Inl ValueError"
    using disconnect_closed[OF t(2)] m nz kn(2) rd(2) by (simp add: handle_channel_def)
  then show ?thesis by (cases "handle_channel w rd s") (simp add: serve_round_def and_then_def)
qed

lemma watching_entry:
  assumes "distinct (od_keys W)"
  shows "watching W k x \<longleftrightarrow> (\<exists>items. (k, items) \<in> set W \<and> (case items of None \<Rightarrow> True | Some S \<Rightarrow> x \<in> S))"
  unfolding map_of_eq_Some_iff[OF assms, symmetric] watching_def
  by (cases "od_get W k") (simp_all del: map_of_eq_Some_iff split: option.splits)

lemma notices_member:
  "(k, m) \<in> set (notices label changes W) \<longleftrightarrow> (\<exists>items. (k, items) \<in> set W \<and> (items = None \<or> the items \<inter> changes \<noteq> {}) \<and>
     m = label (case items of None \<Rightarrow> changes | Some S \<Rightarrow> changes \<inter> S))"
proof (induction W)
  case (Cons a W)
  have "notices label changes (a # W) = notices label changes [a] @ notices label changes W" by (simp add: notices_def)
  moreover have "(k, m) \<in> set (notices label changes [a]) \<longleftrightarrow> (\<exists>items. (k, items) = a \<and> (items = None \<or> the items \<inter> changes \<noteq> {}) \<and>
     m = label (case items of None \<Rightarrow> changes | Some S \<Rightarrow> changes \<inter> S))"
    by (cases a) (auto simp: notices_def)
  ultimately show ?case using Cons.IH by (simp only: set_append Un_iff list.set insert_iff) blast
qed (simp add: notices_def)

lemma notices_exact:
  assumes "distinct (od_keys W)" "inj label"
  shows "(\<exists>S. (k, label S) \<in> set (notices label changes W) \<and> x \<in> S) \<longleftrightarrow> x \<in> changes \<and> watching W k x"
proof -
  have "(\<exists>S. (k, label S) \<in> set (notices label changes W) \<and> x \<in> S) \<longleftrightarrow> (\<exists>items. (k, items) \<in> set W \<and>
      (items = None \<or> the items \<inter> changes \<noteq> {}) \<and> x \<in> (case items of None \<Rightarrow> changes | Some S \<Rightarrow> changes \<inter> S))"
    unfolding notices_member inj_eq[OF assms(2)] by metis
  also have "\<dots> \<longleftrightarrow> (\<exists>items. (k, items) \<in> set W \<and> x \<in> changes \<and> (case items of None \<Rightarrow> True | Some S \<Rightarrow> x \<in> S))"
    by (rule arg_cong[where f = Ex], rule ext) (auto split: option.splits)
  finally show ?thesis unfolding watching_entry[OF assms(1)] by blast
qed

lemma other_notices:
  "(k, Jobs_changed S) \<notin> set (notices Machines_changed changes W)" "(k, Machines_changed S) \<notin> set (notices Jobs_changed changes W)"
  by (auto simp: notices_def split: if_splits)

text \<open>
  C11. Notifications are exact. While messages can be sent, each client is told of exactly those changed
  jobs and machines that it watches, and the changes are used up.
\<close>

theorem notifications_exact:
  assumes s: "serving w s" and ok: "\<forall>n. sw_send w n"
  shows "\<exists>s' new. send_change_notifications w s = (Inr (), s') \<and> sv_sent s' = sv_sent s @ new \<and>
    c_changed_jobs (sv_controller s') = {} \<and> c_changed_machines (sv_controller s') = {} \<and>
    (\<forall>k x. (\<exists>S. (k, Jobs_changed S) \<in> set new \<and> x \<in> S) \<longleftrightarrow>
       x \<in> JInt ` c_changed_jobs (sv_controller s) \<and> watching (sv_job_watches s) k x) \<and>
    (\<forall>k x. (\<exists>S. (k, Machines_changed S) \<in> set new \<and> x \<in> S) \<longleftrightarrow>
       x \<in> JString ` c_changed_machines (sv_controller s) \<and> watching (sv_machine_watches s) k x)"
proof -
  note c = serving_coherent[OF s]
  let ?J = "JInt ` c_changed_jobs (sv_controller s)" and ?M = "JString ` c_changed_machines (sv_controller s)"
  let ?j = "if c_changed_jobs (sv_controller s) = {} then [] else notices Jobs_changed ?J (sv_job_watches s)"
  let ?m = "if c_changed_machines (sv_controller s) = {} then [] else notices Machines_changed ?M (sv_machine_watches s)"
  obtain s' where s': "send_change_notifications w s = (Inr (), s')"
    "sv_controller s' = (sv_controller s)\<lparr> c_changed_jobs := {}, c_changed_machines := {} \<rparr>" "sv_sent s' = sv_sent s @ ?j @ ?m"
    using change_notifications_cases[OF c, of w] ok by (elim exE conjE) blast
  have inj: "inj Jobs_changed" "inj Machines_changed" by (auto intro: injI)
  have W: "distinct (od_keys (sv_job_watches s))" "distinct (od_keys (sv_machine_watches s))"
    using coherentD(2,3)[OF c] by (simp_all add: watches_ok_def)
  have j: "(\<exists>S. (k, Jobs_changed S) \<in> set (?j @ ?m) \<and> x \<in> S) \<longleftrightarrow> x \<in> ?J \<and> watching (sv_job_watches s) k x" for k x
    using notices_exact[OF W(1) inj(1), of k ?J x] other_notices(1) by auto
  have m: "(\<exists>S. (k, Machines_changed S) \<in> set (?j @ ?m) \<and> x \<in> S) \<longleftrightarrow> x \<in> ?M \<and> watching (sv_machine_watches s) k x" for k x
    using notices_exact[OF W(2) inj(2), of k ?M x] other_notices(2) by auto
  show ?thesis by (rule exI[of _ s'], rule exI[of _ "?j @ ?m"]) (use s' j m in simp)
qed

text \<open>
  A configuration that does not load. With a negative limit for retired jobs the reading fails,
  but the new configuration is in place, the limit is set, and all retired jobs are forgotten;
  its machines are not taken over.
\<close>

theorem failed_reload_changes:
  assumes "sv_server_socket s = Some k" "cf_ip new = cf_ip (sv_configuration s)" "cf_max_retired_jobs new < 0"
  shows "read_config_file w (Some new) listening s =
    (False, s\<lparr> sv_reload_config := False, sv_configuration := new,
       sv_controller := (sv_controller s)\<lparr> c_max_retired_jobs := cf_max_retired_jobs new, c_retired_jobs := [] \<rparr> \<rparr>)"
  using assms by (simp add: read_config_file_def load_valid_config_def and_then_def return_def on_controller_def set_max_retired_jobs_def Let_def)

text \<open>
  C12. A refused request that ends the thread. A request that names both a machine and tags is refused
  with TypeError, but its job stays behind; the queue does not know it, so when it times out,
  destroying it raises AttributeError, and the round of the server thread ends with it.
\<close>

theorem refused_request_ends_thread:
  assumes no_jobs: "c_jobs (sv_controller s) = []"
    and unknown: "od_get (jq_jobs (c_queue (sv_controller s))) (c_next_id (sv_controller s)) = None"
    and request: "ctl_create_job (sw_controller w) host (Some owner) (Some (Some k)) (Some m) (Some tags) args kwargs (sv_controller s) = (out, c)"
    and late: "cw_time (sw_controller w) (Suc (c_ticks (sv_controller s))) + k < cw_time (sw_controller w) (c_ticks c)"
  shows "out = Inl TypeError \<and> fst ` set (c_jobs c) = {c_next_id (sv_controller s)} \<and>
    fst (serve_round w [] parsed listening (s\<lparr>sv_controller := c\<rparr>)) = Inl AttributeError"
proof -
  let ?i = "c_next_id (sv_controller s)" and ?r = "length (c_job_store (sv_controller s))"
  have refused: "create_job q (Some i) (Some m) (Some tags) args kwargs Q = (Inl TypeError, Q)" if "od_get (jq_jobs Q) i = None" for q i Q
    using that by (simp add: create_job_def map_of_eq_None_iff split: option.splits)
  have c: "out = Inl TypeError" "c_jobs c = [(?i, ?r)]" "c_queue c = c_queue (sv_controller s)"
    "cj_id (the_cjob c ?r) = ?i" "cj_keepalive (the_cjob c ?r) = Some k"
    "cj_keepalive_until (the_cjob c ?r) = Some (cw_time (sw_controller w) (Suc (c_ticks (sv_controller s))) + k)"
    using request no_jobs unknown
    by (auto simp: ctl_create_job_def timestamp_def Let_def and_then_def in_queue_def refused the_cjob_def)
  have "fst (destroy_timed_out_jobs (sw_controller w) c) = Inl AttributeError"
    using c late unknown
    by (simp add: and_then_def destroy_timed_out_jobs_def timestamp_def timed_out_def ctl_destroy_job_def in_queue_def destroy_job_def the_cjob_def)
  with c show ?thesis by (auto simp: serve_round_def and_then_def on_controller_def return_def split: prod.splits)
qed

section \<open>A small run\<close>

text \<open>
  The thread is woken through descriptor 3 and listens at 4; a client connects at 5 and asks for
  the notifications about all jobs. Two lines are understood, \<open>v\<close> and \<open>n\<close>.
\<close>

definition demo_world :: "bool \<Rightarrow> sworld" where
  "demo_world works =
     \<lparr> sw_controller = steady, sw_geometry = spinn5, sw_send = (\<lambda>_. works),
       sw_decode = (\<lambda>line. if line = [118] then Inr (JObject [(''command'', JString ''version'')])
         else if line = [110] then Inr (JObject [(''command'', JString ''notify_job'')]) else Inl ValueError),
       sw_name = (\<lambda>_. Some ''h''), sw_other = (\<lambda>_ _ _ c. (Inl TypeError, c)) \<rparr>"

definition sv0 :: "bool \<Rightarrow> server" where
  "sv0 works = snd (start_server (demo_world works) None 3 (Some default_configuration) (Some 4))"

definition sv1 :: "bool \<Rightarrow> server" where
  "sv1 works = snd (handle_channel (demo_world works) \<lparr>rd_fd = 4, rd_data = [], rd_connection = Some 5\<rparr> (sv0 works))"

definition asks :: readiness where
  "asks = \<lparr> rd_fd = 5, rd_data = [110, 10], rd_connection = None \<rparr>"

definition sv2 :: server where
  "sv2 = (snd (handle_channel (demo_world True) asks (sv1 True)))\<lparr>sv_controller := run1\<rparr>"

lemma demo_sessions:
  "fst (start_server (demo_world True) None 3 (Some default_configuration) (Some 4)) = Inr () \<and>
   fst (start_server (demo_world False) None 3 (Some default_configuration) (Some 4)) = Inr () \<and>
   sv_fds (sv0 True) = [3, 4] \<and> sv_fds (sv0 False) = [3, 4] \<and>
   fst (handle_channel (demo_world True) \<lparr>rd_fd = 4, rd_data = [], rd_connection = Some 5\<rparr> (sv0 True)) = Inr () \<and>
   fst (handle_channel (demo_world False) \<lparr>rd_fd = 4, rd_data = [], rd_connection = Some 5\<rparr> (sv0 False)) = Inr () \<and>
   fst (handle_channel (demo_world True) asks (sv1 True)) = Inr ()"
  by code_simp

lemma sv1_facts:
  "sv_fds (sv1 True) = [3, 4, 5] \<and> sv_fds (sv1 False) = [3, 4, 5] \<and>
   sv_client_buffers (sv1 True) = [(2, [])] \<and> sv_client_buffers (sv1 False) = [(2, [])] \<and>
   sv_server_socket (sv1 True) = Some 1 \<and> sv_sends (sv1 False) = 0 \<and> (5 \<in> sv_poll (sv1 True)) = True \<and>
   sv_job_watches sv2 = [(2, None)] \<and> c_changed_jobs (sv_controller sv2) = {1} \<and> fileno (sv1 False) 2 = 5"
  by code_simp

lemma sv0_serving: "serving (demo_world works) (sv0 works)" for works
  by (rule serving.started[of _ None 3 "Some default_configuration" 4])
    (use demo_sessions in \<open>cases works; simp add: sv0_def prod_eq_iff\<close>)+

lemma sv1_serving: "serving (demo_world works) (sv1 works)" for works
proof -
  have f: "sv_fds (sv0 works) = [3, 4]" using demo_sessions by (cases works) simp_all
  have "fresh (sv0 works) 5"
    unfolding fresh_def open_sockets_def fileno_def f by (auto simp: nth_Cons split: nat.splits)
  then show ?thesis
    by (intro serving.channel[OF sv0_serving, of works "\<lparr>rd_fd = 4, rd_data = [], rd_connection = Some 5\<rparr>"])
      (use demo_sessions in \<open>cases works; simp add: sv1_def prod_eq_iff\<close>)+
qed

lemma sv2_serving: "serving (demo_world True) sv2"
  unfolding sv2_def
  by (intro serving.worked serving.channel[OF sv1_serving, of True asks]) (use demo_sessions in \<open>simp_all add: prod_eq_iff asks_def\<close>)

lemma connections_consistent_witness: "coherent (sv1 True) \<and> sv_fds (sv1 True) = [3, 4, 5]"
  using connections_consistent[OF sv1_serving] sv1_facts by simp

lemma thread_survives_witness:
  "(\<exists>s'. handle_channel (demo_world True) asks (sv1 True) = (Inr (), s')) \<and>
   fst (send_change_notifications (demo_world True) (sv1 True)) = Inr ()"
  using thread_survives[OF sv1_serving, of asks True] sv1_facts demo_sessions by (auto simp: asks_def prod_eq_iff)

lemma failed_reply_ends_thread_witness:
  "fst (serve_round (demo_world False) [\<lparr>rd_fd = 5, rd_data = [118, 10], rd_connection = None\<rparr>] None None (sv1 False)) = Inl ValueError"
  by (rule failed_reply_ends_thread[OF sv1_serving, where line = "[118]" and k = 2 and tail_bytes = "[]"
        and v = "JObject [(''command'', JString ''version'')]" and req = "(cmd_version, [], [])"])
    (use sv1_facts in \<open>simp_all add: newline_def demo_world_def parse_command_def commands_def od_del_def\<close>)

lemma notifications_exact_witness:
  "\<exists>s' new. send_change_notifications (demo_world True) sv2 = (Inr (), s') \<and> sv_sent s' = sv_sent sv2 @ new \<and>
     (\<exists>S. (2, Jobs_changed S) \<in> set new \<and> JInt 1 \<in> S)"
proof -
  have "watching (sv_job_watches sv2) 2 (JInt 1)" "JInt 1 \<in> JInt ` c_changed_jobs (sv_controller sv2)"
    using sv1_facts by (simp_all add: watching_def)
  with notifications_exact[OF sv2_serving] show ?thesis by (simp add: demo_world_def) blast
qed

lemma failed_reload_changes_witness:
  "fst (read_config_file (demo_world True) (Some (default_configuration\<lparr>cf_max_retired_jobs := - 1\<rparr>)) None
     (sv1 True\<lparr>sv_configuration := default_configuration\<rparr>)) = False"
  using failed_reload_changes[of "sv1 True\<lparr>sv_configuration := default_configuration\<rparr>" 1
      "default_configuration\<lparr>cf_max_retired_jobs := - 1\<rparr>" "demo_world True" None] sv1_facts
  by (simp add: default_configuration_def)

lemma subscriptions_exact_witness:
  "case unregister_for_notifications 2 (JInt 1) [(2, Some {JInt 1, JInt 7})] of
     Inl e \<Rightarrow> False | Inr W \<Rightarrow> watching W 2 (JInt 7) \<and> \<not> watching W 2 (JInt 1)"
proof -
  let ?W = "[(2, Some {JInt 1, JInt 7})]"
  have "watches_ok ?W" "watching ?W 2 (JInt 7)" "\<not> watching_all ?W 2"
    by (simp_all add: watches_ok_def watching_def watching_all_def)
  with subscriptions_exact[where W = ?W and k = 2 and v = "JInt 1"] show ?thesis by (simp split: sum.splits)
qed

lemma lines_reassembled_witness:
  "\<exists>s. handle_commands (demo_world True) 2 [118] (sv1 True) = (Inr (), s) \<and>
     handle_commands (demo_world True) 2 [10] s = handle_commands (demo_world True) 2 [118, 10] (sv1 True)"
proof -
  have r: "fst (handle_commands (demo_world True) 2 [118] (sv1 True)) = Inr () \<and>
    od_get (sv_client_buffers (snd (handle_commands (demo_world True) 2 [118] (sv1 True)))) 2 = Some [118]"
    by code_simp
  obtain s where "handle_commands (demo_world True) 2 [118] (sv1 True) = (Inr (), s)" "od_get (sv_client_buffers s) 2 = Some [118]"
    using r by (cases "handle_commands (demo_world True) 2 [118] (sv1 True)") simp
  moreover from this have "handle_commands (demo_world True) 2 [10] s = handle_commands (demo_world True) 2 ([118] @ [10]) (sv1 True)"
    using lines_reassembled[of "sv1 True" 2 "[]" "[118]" "demo_world True"] sv1_facts by simp
  ultimately show ?thesis by simp
qed

lemma refused_request_ends_thread_witness:
  "\<exists>out c. ctl_create_job steady None (Some ''me'') (Some (Some 0)) (Some ''m'') (Some {''t''}) Any_board plain (sv_controller (sv0 True)) = (out, c) \<and>
     fst (serve_round (demo_world True) [] None None ((sv0 True)\<lparr>sv_controller := c\<rparr>)) = Inl AttributeError"
proof -
  let ?create = "ctl_create_job steady None (Some ''me'') (Some (Some 0)) (Some ''m'') (Some {''t''}) Any_board plain (sv_controller (sv0 True))"
  have f: "c_jobs (sv_controller (sv0 True)) = [] \<and> od_get (jq_jobs (c_queue (sv_controller (sv0 True)))) (c_next_id (sv_controller (sv0 True))) = None \<and>
    c_ticks (sv_controller (sv0 True)) = 0 \<and> c_ticks (snd ?create) = 2"
    by code_simp
  have w: "sw_controller (demo_world True) = steady" "cw_time steady n = of_nat n" for n by (simp_all add: demo_world_def steady_def)
  obtain out c where "?create = (out, c)" by (cases ?create)
  with f refused_request_ends_thread[of "sv0 True" "demo_world True" None "''me''" 0 "''m''" "{''t''}" Any_board plain out c None None]
  show ?thesis by (simp add: w)
qed

end
