(* ===== verification/Spec2Isabelle.thy ===== *)
theory Spec2Isabelle
  imports AreaToRect Links Coordinates PackTree CandidateFilter AllocatorCorrect JobQueueFaults
    Configuration BmpController LocationsCorrect ServerCorrect
begin

text \<open>
  A verification library for spalloc_server, the server that gives the boards of SpiNNaker
  machines to jobs (Python package \<open>spalloc_server\<close>).

  \<^bold>\<open>The program.\<close> A machine is a torus of triads of boards. The allocator
  (\<open>allocator.py\<close>) hands out rectangles of triads and single boards of one machine: it cuts
  rectangles out of a packing tree (\<open>pack_tree.py\<close>), asks a candidate filter whether the
  working boards of a rectangle are connected well enough, finds a rectangle for a
  number of boards (\<open>area_to_rect.py\<close>), and keeps freed boards back for some time. The filter
  walks over board-to-board links (\<open>links.py\<close>, \<open>coordinates.py\<close>). The job queue (\<open>job_queue.py\<close>)
  holds an allocator and a queue of jobs per machine, starts jobs when there is room, and
  reports starts, frees and cancellations to the controller through callbacks. The controller
  (\<open>controller.py\<close>) keeps the jobs of the clients, powers boards on and off through one thread per
  BMP (\<open>async_bmp_controller.py\<close>) and gives boards back to the queue when the BMPs have answered;
  it also tells clients where boards and chips are. The server (\<open>server.py\<close> over
  \<open>polling_server_core.py\<close> and \<open>configuration_reloader.py\<close>) reads lines from clients, calls the
  controller, tells clients about changes, and loads machines from a configuration
  (\<open>configuration.py\<close>).

  \<^bold>\<open>The theories.\<close>
  \<^item> Prelude: the exceptions, ordered dictionaries as association lists, methods that
    change a state and may raise, and loops over them.
  \<^item> PyFloat, AreaToRect: the rounding of IEEE doubles and the functions of \<open>area_to_rect.py\<close>.
  \<^item> Links, Coordinates: the enumerations, lookup tables and coordinate systems.
  \<^item> PackTree: the class PackTree, one definition per method; the laws of a store of
    rectangles as a locale, interpreted on the tree.
  \<^item> CandidateFilter: the class \<open>_CandidateFilter\<close>.
  \<^item> Allocator: the class Allocator, its attributes as a record; AllocatorBooks: its
    invariant, kept by every operation; AllocatorCorrect: what holds over histories.
  \<^item> AllocatorInterface: what the job queue relies on, as the locale \<open>board_allocator\<close>
    with the consequences for several allocators, interpreted on the model of the allocator.
  \<^item> JobQueue: the class JobQueue; JobQueueSound, JobQueueJobs, JobQueueMachines: its
    invariant and that each operation keeps it; JobQueueCorrect: what holds over histories
    and what each operation does; JobQueueFaults: where it goes wrong, over all histories.
  \<^item> QueueProtocol: what the queue promises the controller, the order of its reports about
    each job, as an abstract protocol that every method refines.
  \<^item> IpAddresses, Configuration: addresses as strings and integers, machines and their
    validation, the reader of SpiNNer files, and the configuration of the server.
  \<^item> BmpController: requests, power and links with retries, and the thread interleaved with its
    callers, with the refinement of a first-in first-out service.
  \<^item> Controller: the class Controller; ControllerBooks: its invariant about ids, retired jobs and
    the counters of outstanding requests, kept by every operation; ControllerHistory: the
    histories of the controller; ControllerJobs: that jobs and queue agree about boards;
    ControllerDemo: a small run; ControllerCorrect: what holds over histories.
  \<^item> Locations, LocationsCorrect: where boards and chips are, and what jobs are told about it.
  \<^item> Server: connections, lines, commands, notifications, the configuration and the loop of the
    thread; ServerCorrect: lines, subscriptions, the tables of connections, and what ends
    the thread.

  \<^bold>\<open>Correspondence.\<close> An object is a record of its attributes. A method is a function from the
  object to its result and the changed object; the result is \<open>Inl\<close> an exception or \<open>Inr\<close> the
  returned value, so the state an exception leaves behind is part of the model. Objects that are
  shared (jobs and machines of the queue, jobs and BMP threads of the controller) live in stores and are
  named by their index; sockets are named by the order in which they were made. Callbacks of the
  queue are recorded as events, which the controller handles when the method of the queue has
  returned or raised. A callback that raises cuts such a method short: the histories behind
  \<open>counters_agree\<close> therefore let the queue become any other at any moment, and those behind
  \<open>clients_exclusive\<close> and \<open>finds_job_on_its_boards\<close> leave out operations that raise after the queue has
  reported something. A loop over a dictionary that changes meanwhile raises as Python
  3 does. What the state does not determine is an argument: the readings of the clock, the order in
  which sets are walked through and the choices of \<open>set.pop\<close>, the answers of the BMPs, the
  geometry of the package \<open>spinn_machine\<close>, which calls of \<open>send\<close> succeed, the
  descriptors of new sockets, and the decoding of a line. Calls of the transceiver and the callbacks of a
  request are kept in a log. The argument \<open>sw_other\<close> answers requests whose arguments have types
  the controller does not expect.

  \<^bold>\<open>Bounds.\<close> Floats are rationals rounded to 53 bits, without overflow; results about areas hold
  below \<open>max_area\<close> (about \<open>2 ^ 52\<close>), where the rounding of the divisions is harmless. The
  recursion of \<open>_alloc_board\<close> has depth two, which the proofs show to be enough: it calls
  itself once, with a triad in reserve. The bytes of clients and the registers of FPGAs are words of
  their width. All other loops have proofs of termination.

  \<^bold>\<open>What is assumed.\<close> Single boards are asked for with z in 0, 1, 2; \<open>set.pop\<close> returns an element;
  the set of dead boards of a machine in use is not changed (the code then can lose boards);
  the theorems over histories of the job queue (\<open>jq_history\<close>) rest on that;
  \<open>free\<close> is called for jobs that ran. The histories behind \<open>clients_exclusive\<close> and
  \<open>finds_job_on_its_boards\<close> add and remove machines but do not modify those in service:
  LocationsCorrect has the run that goes wrong otherwise. The histories of the server
  assume that a new descriptor is not in use.

  \<^bold>\<open>Where the code goes wrong\<close> is shown by theorems too: a single-board request accepted and never
  served (AllocatorCorrect), jobs dropped from all queues and requests that poison every reload
  (JobQueueFaults), jobs that \<open>where_is\<close> no longer finds after a change of their machine, and
  dimensions that are too small when the last triad of a job is dead (LocationsCorrect), and two ways in which a client ends the server thread, by leaving before its reply
  and by naming both a machine and tags (ServerCorrect).

  \<^bold>\<open>Not modelled.\<close> Logging, locks, waiting for threads, the command line, the text of
  replies, and the reading and execution of files. A call of \<open>send\<close> sends the whole message or
  fails; \<open>getpeername\<close>, which the server asks only in order to log the answer, is taken to work; the
  numbers NaN and infinity, which \<open>json.loads\<close> accepts, are not among the JSON values.
\<close>

end
